(* ===== verification/Kei_Prelude.thy ===== *)
theory Kei_Prelude
  imports Main "HOL-Library.Word"
begin

unbundle bit_operations_syntax

text \<open>
  Shared vocabulary of the development: the machine-integer types the Rust sources use, the
  little-endian byte conversions of the standard library, the checked and saturating
  operations on word values, and the generic list and word facts that several components
  rely on. Component theories collect their own rewrite rules in the
  \<^theory_text>\<open>named_theorems\<close> declared here.
\<close>

named_theorems byte_simps \<open>little-endian byte conversions\<close>
named_theorems wire_defs \<open>definitions of the wire protocol that proofs unfold together\<close>
named_theorems step_simps \<open>one-step equations of the state machines\<close>
named_theorems inv_intros \<open>preservation of component invariants\<close>

type_synonym u8 = "8 word"
type_synonym u16 = "16 word"
type_synonym u32 = "32 word"
type_synonym u64 = "64 word"
type_synonym usize = "64 word"

text \<open>Floating-point fields are carried, compared and stored as their IEEE bit patterns.\<close>

type_synonym f32 = "32 word"
type_synonym f64 = "64 word"

text \<open>The outcome of code that may panic: a failed \<open>expect\<close>, \<open>unwrap\<close>, \<open>assert!\<close> or index.\<close>

datatype 'a rust = Return 'a | Panic

text \<open>\<open>Result::expect\<close> followed by the rest of the function.\<close>

definition expect_then :: "'e + 'a \<Rightarrow> ('a \<Rightarrow> 'b rust) \<Rightarrow> 'b rust" where
  "expect_then r k = (case r of Inl _ \<Rightarrow> Panic | Inr x \<Rightarrow> k x)"

lemma expect_then_simps [simp]:
  "expect_then (Inl e) k = Panic" "expect_then (Inr x) k = k x"
  by (simp_all add: expect_then_def)

text \<open>Running two steps that may panic, one after the other.\<close>

definition rust_bind :: "'a rust \<Rightarrow> ('a \<Rightarrow> 'b rust) \<Rightarrow> 'b rust" where
  "rust_bind m k = (case m of Panic \<Rightarrow> Panic | Return x \<Rightarrow> k x)"

lemma rust_bind_simps [simp]: "rust_bind Panic k = Panic" "rust_bind (Return x) k = k x"
  by (simp_all add: rust_bind_def)

lemma rust_bind_Return_iff [simp]:
  "rust_bind m k = Return y \<longleftrightarrow> (\<exists>x. m = Return x \<and> k x = Return y)"
  by (cases m) simp_all

text \<open>\<open>Option::unwrap\<close> on the result of a step.\<close>

definition unwrap :: "('a option \<times> 's) rust \<Rightarrow> 's rust" where
  "unwrap m = rust_bind m (\<lambda>(r, s). case r of None \<Rightarrow> Panic | Some _ \<Rightarrow> Return s)"

lemma unwrap_simps [simp]:
  "unwrap Panic = Panic" "unwrap (Return (None, s)) = Panic" "unwrap (Return (Some x, s)) = Return s"
  by (simp_all add: unwrap_def)

text \<open>A computation that may panic or never return, and \<^verbatim>\<open>unwrap\<close> on its result.\<close>

type_synonym 'a run = "'a rust option"

definition run_bind :: "'a run \<Rightarrow> ('a \<Rightarrow> 'b run) \<Rightarrow> 'b run" where
  "run_bind m k = (case m of None \<Rightarrow> None | Some Panic \<Rightarrow> Some Panic | Some (Return x) \<Rightarrow> k x)"

lemma run_bind_simps [simp]:
  "run_bind None k = None" "run_bind (Some Panic) k = Some Panic" "run_bind (Some (Return x)) k = k x"
  by (simp_all add: run_bind_def)

definition must :: "'e + 'a \<Rightarrow> 'a run" where
  "must r = (case r of Inl _ \<Rightarrow> Some Panic | Inr x \<Rightarrow> Some (Return x))"

lemma must_simps [simp]: "must (Inl e) = Some Panic" "must (Inr x) = Some (Return x)"
  by (simp_all add: must_def)

section \<open>Little-endian conversions\<close>

text \<open>\<open>u16::to_le_bytes\<close> and \<open>u16::from_le_bytes\<close> of the Rust standard library.\<close>

definition u16_to_le_bytes :: "u16 \<Rightarrow> u8 list" where
  "u16_to_le_bytes w = [ucast w, ucast (drop_bit 8 w)]"

definition u16_from_le_bytes :: "u8 \<Rightarrow> u8 \<Rightarrow> u16" where
  "u16_from_le_bytes lo hi = ucast lo OR push_bit 8 (ucast hi)"

lemma u16_from_to_le_bytes [byte_simps, simp]:
  "u16_from_le_bytes (ucast w) (ucast (drop_bit 8 w)) = w"
  by (rule bit_word_eqI) (auto simp: u16_from_le_bytes_def bit_simps)

lemma u16_le_bytes_lo [byte_simps, simp]: "ucast (u16_from_le_bytes lo hi) = lo"
  by (rule bit_word_eqI) (auto simp: u16_from_le_bytes_def bit_simps)

lemma u16_le_bytes_hi [byte_simps, simp]: "ucast (drop_bit 8 (u16_from_le_bytes lo hi)) = hi"
  by (rule bit_word_eqI) (auto simp: u16_from_le_bytes_def bit_simps dest: bit_imp_le_length)

lemma u16_to_from_le_bytes [byte_simps, simp]:
  "u16_to_le_bytes (u16_from_le_bytes lo hi) = [lo, hi]"
  by (simp add: u16_to_le_bytes_def)

lemma length_u16_to_le_bytes [simp]: "length (u16_to_le_bytes w) = 2"
  by (simp add: u16_to_le_bytes_def)

lemma u16_from_le_bytes_inject [simp]:
  "u16_from_le_bytes a b = u16_from_le_bytes c d \<longleftrightarrow> a = c \<and> b = d"
  by (metis u16_le_bytes_hi u16_le_bytes_lo)

lemma unat_of_nat_u16: "n < 65536 \<Longrightarrow> unat (word_of_nat n :: u16) = n"
  by (simp add: unat_of_nat take_bit_eq_mod)

lemma unat_u16_less: "unat w < 65536" for w :: u16
  using unsigned_less [of w, where ?'a = nat] by simp

section \<open>Words\<close>

text \<open>\<open>contains\<close> of a \<open>bitflags!\<close> type.\<close>

definition contains :: "'w::len word \<Rightarrow> 'w word \<Rightarrow> bool" where
  "contains flags f \<longleftrightarrow> flags AND f = f"

lemma contains_iff: "contains a b \<longleftrightarrow> (\<forall>n. bit b n \<longrightarrow> bit a n)"
  by (auto simp: contains_def bit_eq_iff bit_simps dest: bit_imp_le_length)

lemma contains_refl [simp]: "contains a a" "contains a 0"
  by (simp_all add: contains_def)

lemma contains_trans: "contains a b \<Longrightarrow> contains b c \<Longrightarrow> contains a c"
  by (simp add: contains_iff)

lemma contains_zero_iff [simp]: "contains 0 b \<longleftrightarrow> b = 0"
  by (auto simp: contains_def)

lemma word_xor_right_cancel [simp]: "a XOR k = b XOR k \<longleftrightarrow> a = b" for a b k :: "'w::len word"
  by (metis xor.assoc xor.right_neutral xor_self_eq)

lemma word_xor_left_cancel [simp]: "k XOR a = k XOR b \<longleftrightarrow> a = b" for a b k :: "'w::len word"
  by (metis word_xor_right_cancel xor.commute)

section \<open>Bit counting\<close>

text \<open>The number of significant bits: \<open>BITS - leading_zeros\<close> of an unsigned integer.\<close>

fun bit_len :: "nat \<Rightarrow> nat" where
  "bit_len n = (if n = 0 then 0 else Suc (bit_len (n div 2)))"

declare bit_len.simps [simp del]

lemma bit_len_0 [simp]: "bit_len 0 = 0"
  by (simp add: bit_len.simps)

lemma bit_len_bounds: "0 < n \<Longrightarrow> 2 ^ (bit_len n - 1) \<le> n \<and> n < 2 ^ bit_len n \<and> 0 < bit_len n"
proof (induction n rule: bit_len.induct)
  case (1 n)
  show ?case
  proof (cases "n div 2 = 0")
    case True
    with 1 have "n = 1" by linarith
    then show ?thesis by (simp add: bit_len.simps [of "Suc 0"])
  next
    case False
    with 1 have IH: "2 ^ (bit_len (n div 2) - 1) \<le> n div 2" "n div 2 < 2 ^ bit_len (n div 2)"
      "0 < bit_len (n div 2)" by auto
    then obtain b where b: "bit_len (n div 2) = Suc b" by (cases "bit_len (n div 2)") auto
    have "2 * 2 ^ b \<le> n \<and> n < 2 * (2 * 2 ^ b)" using IH unfolding b by simp linarith
    then show ?thesis using 1(2) by (simp add: bit_len.simps [of n] b)
  qed
qed

lemma bit_len_le_iff: "bit_len n \<le> k \<longleftrightarrow> n < 2 ^ k"
proof (cases "n = 0")
  case False
  then have b: "2 ^ (bit_len n - 1) \<le> n" "n < 2 ^ bit_len n" "0 < bit_len n"
    using bit_len_bounds [of n] by auto
  show ?thesis
  proof
    assume "bit_len n \<le> k"
    then have "(2::nat) ^ bit_len n \<le> 2 ^ k" by (simp add: power_increasing)
    with b show "n < 2 ^ k" by linarith
  next
    assume "n < 2 ^ k"
    with b(1) have "(2::nat) ^ (bit_len n - 1) < 2 ^ k" by linarith
    then have "bit_len n - 1 < k" by (rule power_less_imp_less_exp [rotated]) simp
    then show "bit_len n \<le> k" by linarith
  qed
qed simp

lemma bit_len_scale: "2 ^ k \<le> n \<Longrightarrow> n < 2 ^ Suc k \<Longrightarrow> bit_len (n * 2 ^ e) = Suc k + e"
proof (rule antisym)
  assume n: "2 ^ k \<le> n" "n < 2 ^ Suc k"
  then have "n * 2 ^ e < 2 ^ Suc k * 2 ^ e" by simp
  then show "bit_len (n * 2 ^ e) \<le> Suc k + e" by (simp add: bit_len_le_iff power_add)
  have "\<not> n * 2 ^ e < 2 ^ (k + e)" using n(1) by (simp add: power_add)
  then show "Suc k + e \<le> bit_len (n * 2 ^ e)" using bit_len_le_iff [of "n * 2 ^ e" "k + e"] by linarith
qed

section \<open>Lists\<close>

lemma take_append_exact: "n = length xs \<Longrightarrow> take n (xs @ ys) = xs"
  by simp

lemma take_3_plus [simp]: "take (3 + n) (a # b # c # xs) = a # b # c # take n xs"
  by (simp add: numeral_3_eq_3)

lemma drop_append_exact: "n = length xs \<Longrightarrow> drop n (xs @ ys) = ys"
  by simp

end
