(* ===== verification/Wire_Frame.thy ===== *)
theory Wire_Frame
  imports Kei_Prelude
begin

text \<open>
  The wire frame of the kei library: \<^verbatim>\<open>packages/kei/src/wire/mod.rs\<close> (message types) and
  \<^verbatim>\<open>packages/kei/src/wire/frame.rs\<close> (the frame, its encoders, its decoder and the CRC).
  A byte string is a \<^typ>\<open>u8 list\<close>; a \<^verbatim>\<open>Result<T, E>\<close> is a value of \<open>E + T\<close>.

  The lemmas show that the one-shot decoder accepts exactly the encodings of frames within
  its limit, that CRC16-Modbus is injective on every window of two adjacent bytes, and that a
  frame followed by its own checksum has residue zero.
\<close>

section \<open>Message types\<close>

datatype MsgType =
    ReadRegister | WriteRegister | ReadStation | Discover
  | Telemetry | Alarm | Status | DiscoverResponse | TelemetryBatch | Nack

text \<open>The discriminants of the \<^verbatim>\<open>#[repr(u8)]\<close> enum, as \<^verbatim>\<open>msg_type as u8\<close> reads them.\<close>

fun msg_type_as_u8 :: "MsgType \<Rightarrow> u8" where
  "msg_type_as_u8 ReadRegister = 0x01"
| "msg_type_as_u8 WriteRegister = 0x02"
| "msg_type_as_u8 ReadStation = 0x03"
| "msg_type_as_u8 Discover = 0x04"
| "msg_type_as_u8 Telemetry = 0x10"
| "msg_type_as_u8 Alarm = 0x11"
| "msg_type_as_u8 Status = 0x12"
| "msg_type_as_u8 DiscoverResponse = 0x13"
| "msg_type_as_u8 TelemetryBatch = 0x14"
| "msg_type_as_u8 Nack = 0xFF"

definition from_u8 :: "u8 \<Rightarrow> MsgType option" where
  "from_u8 v =
     (if v = 0x01 then Some ReadRegister
      else if v = 0x02 then Some WriteRegister
      else if v = 0x03 then Some ReadStation
      else if v = 0x04 then Some Discover
      else if v = 0x10 then Some Telemetry
      else if v = 0x11 then Some Alarm
      else if v = 0x12 then Some Status
      else if v = 0x13 then Some DiscoverResponse
      else if v = 0x14 then Some TelemetryBatch
      else if v = 0xFF then Some Nack
      else None)"

definition is_request :: "MsgType \<Rightarrow> bool" where
  "is_request m \<longleftrightarrow> m \<in> {ReadRegister, WriteRegister, ReadStation, Discover}"

definition is_response :: "MsgType \<Rightarrow> bool" where
  "is_response m \<longleftrightarrow> \<not> is_request m \<and> m \<noteq> Nack"

lemma from_u8_as_u8 [simp]: "from_u8 (msg_type_as_u8 m) = Some m"
  by (cases m) (simp_all add: from_u8_def)

lemma from_u8_Some: "from_u8 v = Some m \<Longrightarrow> v = msg_type_as_u8 m"
  by (auto simp: from_u8_def split: if_splits)

lemma from_u8_Some_iff: "from_u8 v = Some m \<longleftrightarrow> v = msg_type_as_u8 m"
  by (auto dest: from_u8_Some)

section \<open>The frame, its constants and its errors\<close>

definition FRAME_MAGIC :: u8 where "FRAME_MAGIC = 0xCE"
definition MAX_PAYLOAD_LEN :: nat where "MAX_PAYLOAD_LEN = 1024"
definition MAX_BATCH_PAYLOAD_LEN :: nat where "MAX_BATCH_PAYLOAD_LEN = 4096"
definition FRAME_OVERHEAD :: nat where "FRAME_OVERHEAD = 6"

record Frame =
  msg_type :: MsgType
  payload :: "u8 list"

datatype EncodeError = PayloadTooLong | Serialize

datatype DecodeError =
    TooShort | BadMagic | PayloadTooLong | UnknownMsgType
  | CrcMismatch (expected: u16) (got: u16)

section \<open>CRC16-Modbus\<close>

text \<open>One iteration of the inner loop, one byte of the outer loop, the whole checksum.\<close>

definition crc_bit :: "u16 \<Rightarrow> u16" where
  "crc_bit crc = (if crc AND 1 \<noteq> 0 then drop_bit 1 crc XOR 0xA001 else drop_bit 1 crc)"

definition crc_byte :: "u16 \<Rightarrow> u8 \<Rightarrow> u16" where
  "crc_byte crc byte = (crc_bit ^^ 8) (crc XOR ucast byte)"

definition crc16_modbus :: "u8 list \<Rightarrow> u16" where
  "crc16_modbus data = foldl crc_byte 0xFFFF data"

section \<open>Encoding\<close>

definition encode_frame_inner :: "MsgType \<Rightarrow> u8 list \<Rightarrow> u8 list" where
  "encode_frame_inner m p =
     (let len_bytes = u16_to_le_bytes (word_of_nat (length p));
          crc_region = len_bytes @ [msg_type_as_u8 m] @ p;
          crc_val = crc16_modbus crc_region
      in [FRAME_MAGIC] @ len_bytes @ [msg_type_as_u8 m] @ p @ u16_to_le_bytes crc_val)"

definition encode_frame :: "MsgType \<Rightarrow> u8 list \<Rightarrow> u8 list" where
  "encode_frame m p = encode_frame_inner m (take (min (length p) MAX_PAYLOAD_LEN) p)"

definition encode_frame_with_limit ::
    "MsgType \<Rightarrow> u8 list \<Rightarrow> nat \<Rightarrow> EncodeError + u8 list" where
  "encode_frame_with_limit m p limit =
     (if length p > limit then Inl EncodeError.PayloadTooLong else Inr (encode_frame_inner m p))"

definition encode :: "Frame \<Rightarrow> u8 list" where
  "encode f = encode_frame (msg_type f) (payload f)"

definition encode_with_limit :: "Frame \<Rightarrow> nat \<Rightarrow> EncodeError + u8 list" where
  "encode_with_limit f limit = encode_frame_with_limit (msg_type f) (payload f) limit"

section \<open>Decoding\<close>

definition decode_frame_with_limit :: "u8 list \<Rightarrow> nat \<Rightarrow> DecodeError + Frame" where
  "decode_frame_with_limit buf limit =
     (if length buf < FRAME_OVERHEAD then Inl TooShort
      else if buf ! 0 \<noteq> FRAME_MAGIC then Inl BadMagic
      else let payload_len = unat (u16_from_le_bytes (buf ! 1) (buf ! 2)) in
        if payload_len > limit then Inl DecodeError.PayloadTooLong
        else case from_u8 (buf ! 3) of
          None \<Rightarrow> Inl UnknownMsgType
        | Some m \<Rightarrow>
            let total = FRAME_OVERHEAD + payload_len in
            if length buf < total then Inl TooShort
            else let p = take payload_len (drop 4 buf);
                     crc_recv = u16_from_le_bytes (buf ! (4 + payload_len)) (buf ! (5 + payload_len));
                     crc_region = take (3 + payload_len) (drop 1 buf);
                     crc_calc = crc16_modbus crc_region
                 in if crc_calc \<noteq> crc_recv then Inl (CrcMismatch crc_calc crc_recv)
                    else Inr \<lparr>msg_type = m, payload = p\<rparr>)"

definition decode_frame :: "u8 list \<Rightarrow> DecodeError + Frame" where
  "decode_frame buf = decode_frame_with_limit buf MAX_PAYLOAD_LEN"

lemmas [wire_defs] = FRAME_MAGIC_def FRAME_OVERHEAD_def MAX_PAYLOAD_LEN_def
  MAX_BATCH_PAYLOAD_LEN_def

section \<open>CRC algebra\<close>

lemma crc_bit_alt: "crc_bit c = drop_bit 1 c XOR (if bit c 0 then 0xA001 else 0)"
  by (auto simp: crc_bit_def and_one_eq mod_2_eq_odd bit_0)

lemma crc_bit_zero [simp]: "crc_bit 0 = 0"
  by (simp add: crc_bit_def)

lemma crc_bit_xor: "crc_bit (a XOR b) = crc_bit a XOR crc_bit b"
  by (simp add: crc_bit_alt bit_xor_iff drop_bit_xor ac_simps)

lemma crc_bit_top: "bit (crc_bit c) 15 \<longleftrightarrow> bit c 0"
  by (auto simp: crc_bit_alt bit_xor_iff bit_drop_bit_eq dest: bit_imp_le_length)

lemma crc_bit_inject: "crc_bit a = crc_bit b \<longleftrightarrow> a = b"
proof
  assume eq: "crc_bit a = crc_bit b"
  then have low: "bit a 0 \<longleftrightarrow> bit b 0"
    by (metis crc_bit_top)
  with eq have "drop_bit 1 a = drop_bit 1 b"
    by (auto simp: crc_bit_alt split: if_splits)
  then have high: "bit a (Suc n) \<longleftrightarrow> bit b (Suc n)" for n
    by (metis bit_drop_bit_eq comp_apply plus_1_eq_Suc)
  show "a = b"
  proof (rule bit_word_eqI)
    fix n
    show "bit a n \<longleftrightarrow> bit b n"
      using low high by (cases n) auto
  qed
qed simp

lemma crc_bits_zero [simp]: "(crc_bit ^^ n) 0 = 0"
  by (induction n) simp_all

lemma crc_bits_xor: "(crc_bit ^^ n) (a XOR b) = (crc_bit ^^ n) a XOR (crc_bit ^^ n) b"
  by (induction n) (simp_all add: crc_bit_xor)

lemma crc_bits_inject [simp]: "(crc_bit ^^ n) a = (crc_bit ^^ n) b \<longleftrightarrow> a = b"
  by (induction n) (simp_all add: crc_bit_inject)

text \<open>A byte placed in the upper half is shifted down by eight iterations, untouched.\<close>

lemma crc_bit_push:
  "0 < n \<Longrightarrow> n \<le> 8 \<Longrightarrow> crc_bit (push_bit n (ucast b)) = push_bit (n - 1) (ucast b)" for b :: u8
  by (rule bit_word_eqI) (auto simp: crc_bit_alt bit_simps dest: bit_imp_le_length)

lemma crc_bits_push: "n \<le> 8 \<Longrightarrow> (crc_bit ^^ n) (push_bit n (ucast b)) = ucast b" for b :: u8
proof (induction n)
  case (Suc n)
  then have "(crc_bit ^^ Suc n) (push_bit (Suc n) (ucast b)) = (crc_bit ^^ n) (push_bit n (ucast b))"
    by (simp only: funpow_Suc_right comp_apply crc_bit_push [of "Suc n"] zero_less_Suc diff_Suc_1)
  with Suc show ?case by simp
qed simp

lemma u16_from_le_bytes_xor: "u16_from_le_bytes lo hi = ucast lo XOR push_bit 8 (ucast hi)"
  by (rule bit_word_eqI) (auto simp: u16_from_le_bytes_def bit_simps dest: bit_imp_le_length)

lemma crc_two_bytes:
  "crc_byte (crc_byte s b0) b1 = (crc_bit ^^ 16) (s XOR u16_from_le_bytes b0 b1)"
proof -
  have "crc_byte (crc_byte s b0) b1
      = (crc_bit ^^ 8) ((crc_bit ^^ 8) (s XOR ucast b0) XOR (crc_bit ^^ 8) (push_bit 8 (ucast b1)))"
    by (simp add: crc_byte_def crc_bits_push)
  also have "\<dots> = (crc_bit ^^ (8 + 8)) ((s XOR ucast b0) XOR push_bit 8 (ucast b1))"
    by (simp only: crc_bits_xor [symmetric] funpow_add comp_apply)
  finally show ?thesis
    by (simp add: u16_from_le_bytes_xor xor.assoc)
qed

lemma crc_byte_inject_state: "crc_byte a b = crc_byte c b \<longleftrightarrow> a = c"
  by (simp add: crc_byte_def)

lemma crc_foldl_inject_state: "foldl crc_byte a xs = foldl crc_byte c xs \<longleftrightarrow> a = c"
  by (induction xs arbitrary: a c) (simp_all add: crc_byte_inject_state)

lemma crc_window:
  "crc16_modbus (pre @ [a, b] @ suf) = crc16_modbus (pre @ [c, d] @ suf) \<longleftrightarrow> a = c \<and> b = d"
  by (simp add: crc16_modbus_def crc_foldl_inject_state crc_two_bytes)

lemma crc_residue: "crc16_modbus (data @ [lo, hi]) = 0 \<longleftrightarrow> u16_from_le_bytes lo hi = crc16_modbus data"
proof -
  have "crc16_modbus (data @ [lo, hi])
      = (crc_bit ^^ 16) (crc16_modbus data XOR u16_from_le_bytes lo hi)"
    by (simp add: crc16_modbus_def crc_two_bytes)
  also have "\<dots> = 0 \<longleftrightarrow> crc16_modbus data XOR u16_from_le_bytes lo hi = 0"
    by (metis crc_bits_inject crc_bits_zero)
  also have "\<dots> \<longleftrightarrow> u16_from_le_bytes lo hi = crc16_modbus data"
    by (metis word_xor_left_cancel xor_self_eq)
  finally show ?thesis .
qed

section \<open>Encodings\<close>

lemma length_encode_frame_inner [simp]:
  "length (encode_frame_inner m p) = FRAME_OVERHEAD + length p"
  by (simp add: encode_frame_inner_def Let_def FRAME_OVERHEAD_def)

text \<open>The encoding as a cons list, the shape in which the decoders read it.\<close>

lemma encode_frame_inner_Cons:
  "encode_frame_inner m p =
     (let l = word_of_nat (length p);
          c = crc16_modbus (u16_to_le_bytes l @ msg_type_as_u8 m # p)
      in FRAME_MAGIC # ucast l # ucast (drop_bit 8 l) # msg_type_as_u8 m #
         p @ [ucast c, ucast (drop_bit 8 c)])"
  by (simp add: encode_frame_inner_def Let_def u16_to_le_bytes_def)

lemma encode_frame_inner_residue: "crc16_modbus (drop 1 (encode_frame_inner m p)) = 0"
proof -
  define l :: u16 where "l = word_of_nat (length p)"
  define data where "data = u16_to_le_bytes l @ msg_type_as_u8 m # p"
  have "drop 1 (encode_frame_inner m p)
      = data @ [ucast (crc16_modbus data), ucast (drop_bit 8 (crc16_modbus data))]"
    by (simp add: encode_frame_inner_def Let_def data_def l_def u16_to_le_bytes_def)
  then show ?thesis
    by (simp only: crc_residue u16_from_to_le_bytes)
qed

lemma encode_frame_within_limit:
  "length p \<le> MAX_PAYLOAD_LEN \<Longrightarrow> encode_frame m p = encode_frame_inner m p"
  by (simp add: encode_frame_def)

section \<open>The decoder accepts exactly the encodings\<close>

lemma decode_encode_append:
  assumes "length p \<le> limit" "length p < 65536"
  shows "decode_frame_with_limit (encode_frame_inner m p @ rest) limit
       = Inr \<lparr>msg_type = m, payload = p\<rparr>"
  using assms
  by (simp add: decode_frame_with_limit_def encode_frame_inner_Cons Let_def FRAME_OVERHEAD_def
      unat_of_nat_u16 nth_append u16_to_le_bytes_def)

lemma list_split6:
  assumes "length buf = 6 + n"
  obtains a b c d p e f where "buf = a # b # c # d # p @ [e, f]" "length p = n"
proof -
  from assms obtain a b c d r where buf: "buf = a # b # c # d # r" and r: "length r = 2 + n"
    by (auto simp: numeral_eq_Suc length_Suc_conv)
  have "r = take n r @ [r ! n, r ! Suc n]"
    using r by (simp add: list_eq_iff_nth_eq nth_append less_Suc_eq nth_Cons')
  with buf r that [of a b c d "take n r" "r ! n" "r ! Suc n"] show thesis
    by simp
qed

lemma decode_Inr_encode:
  assumes "decode_frame_with_limit buf limit = Inr f"
  shows "length (payload f) \<le> limit \<and> length (payload f) < 65536
       \<and> take (FRAME_OVERHEAD + length (payload f)) buf = encode_frame_inner (msg_type f) (payload f)"
proof -
  define n where "n = unat (u16_from_le_bytes (buf ! 1) (buf ! 2))"
  from assms have lim: "n \<le> limit" and len: "6 + n \<le> length buf"
    by (auto simp: decode_frame_with_limit_def Let_def n_def FRAME_OVERHEAD_def
        split: if_splits option.splits)
  have n_bound: "n < 65536"
    by (simp add: n_def unat_u16_less)
  obtain a b c d p e g where t: "take (6 + n) buf = a # b # c # d # p @ [e, g]" and p: "length p = n"
    by (rule list_split6 [of "take (6 + n) buf" n]) (simp add: len)
  then obtain rest where buf: "buf = a # b # c # d # p @ e # g # rest"
    by (metis append_Cons append_Nil append_assoc append_take_drop_id)
  have n: "n = unat (u16_from_le_bytes b c)"
    by (simp add: n_def buf)
  from assms have f: "f = \<lparr>msg_type = msg_type f, payload = p\<rparr>" "a = FRAME_MAGIC"
    "from_u8 d = Some (msg_type f)" "crc16_modbus (b # c # d # p) = u16_from_le_bytes e g"
    unfolding decode_frame_with_limit_def Let_def
    by (auto simp: buf p n [symmetric] FRAME_OVERHEAD_def nth_append split: if_splits option.splits)
  have "u16_from_le_bytes b c = word_of_nat (length p)"
    by (simp add: p n)
  then have "u16_to_le_bytes (word_of_nat (length p)) = [b, c]"
    by (metis u16_to_from_le_bytes)
  moreover have "u16_to_le_bytes (crc16_modbus (b # c # d # p)) = [e, g]"
    by (simp add: f(4))
  ultimately have "take (6 + n) buf = encode_frame_inner (msg_type f) p"
    using f(2,3) by (simp add: t encode_frame_inner_def Let_def from_u8_Some_iff)
  with f(1) p lim n_bound show ?thesis
    by (cases f) (simp add: FRAME_OVERHEAD_def)
qed

lemma decode_Inr_iff:
  "decode_frame_with_limit buf limit = Inr f \<longleftrightarrow>
     (\<exists>rest. buf = encode_frame_inner (msg_type f) (payload f) @ rest)
     \<and> length (payload f) \<le> limit \<and> length (payload f) < 65536"
proof
  assume "decode_frame_with_limit buf limit = Inr f"
  from decode_Inr_encode [OF this]
  show "(\<exists>rest. buf = encode_frame_inner (msg_type f) (payload f) @ rest)
      \<and> length (payload f) \<le> limit \<and> length (payload f) < 65536"
    by (metis append_take_drop_id)
next
  assume "(\<exists>rest. buf = encode_frame_inner (msg_type f) (payload f) @ rest)
      \<and> length (payload f) \<le> limit \<and> length (payload f) < 65536"
  then show "decode_frame_with_limit buf limit = Inr f"
    by (auto simp: decode_encode_append)
qed

text \<open>
  C4. The one-shot decoder accepts a buffer if and only if it starts with the encoding of a
  frame whose payload is within the limit (and within the 16-bit length field); it then
  returns exactly that frame, whatever bytes follow.
\<close>

theorem decode_frame_exact:
  "decode_frame_with_limit buf limit = Inr f \<longleftrightarrow>
     (\<exists>rest. buf = encode_frame_inner (msg_type f) (payload f) @ rest)
     \<and> length (payload f) \<le> limit \<and> length (payload f) < 65536"
  by (rule decode_Inr_iff)

text \<open>
  C17. Corruption in transit that is confined to two adjacent bytes after the length field
  (message type, payload or checksum, up to sixteen flipped bits) is always detected: the
  decoder never accepts the damaged frame.
\<close>

theorem corruption_detected:
  assumes len: "length p \<le> limit" "length p < 65536"
    and wire: "w = encode_frame_inner m p"
    and window: "3 \<le> i" "Suc i < length w"
    and damaged: "w[i := x, Suc i := y] \<noteq> w"
  shows "\<exists>e. decode_frame_with_limit (w[i := x, Suc i := y]) limit = Inl e"
proof (cases "decode_frame_with_limit (w[i := x, Suc i := y]) limit")
  case (Inr f)
  let ?w' = "w[i := x, Suc i := y]"
  from Inr obtain rest where w': "?w' = encode_frame_inner (msg_type f) (payload f) @ rest"
    and f: "length (payload f) < 65536"
    by (auto simp: decode_Inr_iff)
  have "u16_from_le_bytes (?w' ! 1) (?w' ! 2) = word_of_nat (length (payload f))"
    by (simp only: w') (simp add: encode_frame_inner_Cons Let_def)
  moreover have "?w' ! 1 = w ! 1" "?w' ! 2 = w ! 2"
    using window by simp_all
  moreover have "u16_from_le_bytes (w ! 1) (w ! 2) = word_of_nat (length p)"
    by (simp add: wire encode_frame_inner_Cons Let_def)
  ultimately have "length (payload f) = length p"
    using len f by (metis unat_of_nat_u16)
  then have "rest = []"
    using arg_cong [OF w', of length] by (simp add: wire)
  then have res': "crc16_modbus (drop 1 ?w') = 0"
    using w' by (simp only: append_Nil2 encode_frame_inner_residue)
  define pre where "pre = take (i - 1) (drop 1 w)"
  define suf where "suf = drop (i + 2) w"
  have split: "drop 1 (w[i := a, Suc i := b]) = pre @ [a, b] @ suf" for a b
    using window by (simp add: pre_def suf_def list_eq_iff_nth_eq nth_append nth_Cons' nth_list_update)
  have "crc16_modbus (pre @ [x, y] @ suf) = crc16_modbus (pre @ [w ! i, w ! Suc i] @ suf)"
    using res' encode_frame_inner_residue [of m p] split [of x y] split [of "w ! i" "w ! Suc i"]
    by (simp add: wire)
  then have "x = w ! i" "y = w ! Suc i"
    by (simp_all only: crc_window)
  with damaged show ?thesis by simp
qed simp

theorem corruption_detected_witness:
  "\<exists>e. decode_frame_with_limit
     ((encode_frame_inner Telemetry [1, 2])[4 := 0, Suc 4 := 0xFF]) 16 = Inl e"
proof (rule corruption_detected [where m = Telemetry and p = "[1, 2]"])
  show "(encode_frame_inner Telemetry [1, 2])[4 := 0, Suc 4 := 0xFF] \<noteq> encode_frame_inner Telemetry [1, 2]"
    by (simp add: encode_frame_inner_Cons Let_def numeral_eq_Suc)
qed (simp_all add: FRAME_OVERHEAD_def)

end
