(* ===== verification/Wire_Decoder.thy ===== *)
theory Wire_Decoder
  imports Wire_Frame
begin

text \<open>
  The streaming decoder of \<^verbatim>\<open>packages/kei/src/wire/decode.rs\<close>: a push state machine that is fed
  one byte at a time. The record is the \<^verbatim>\<open>FrameDecoder\<close> struct; every operation that takes
  \<^verbatim>\<open>&mut self\<close> returns the new decoder beside its result.

  The lemmas characterise the reachable decoders by the bytes buffered since the last magic
  byte, and from that: what the machine emits on framed input, on noise, and in general.
\<close>

section \<open>The state machine\<close>

datatype State = Sync | Header | Payload | Crc

record FrameDecoder =
  state :: State
  buf :: "u8 list"
  expected_payload_len :: nat
  max_payload_len :: nat

datatype DecodeStreamError = NeedMore | PayloadTooLong | DecodeFailed DecodeError

definition with_max_payload :: "nat \<Rightarrow> FrameDecoder" where
  "with_max_payload m =
     \<lparr>state = Sync, buf = [], expected_payload_len = 0, max_payload_len = m\<rparr>"

definition decoder_new :: FrameDecoder where
  "decoder_new = with_max_payload MAX_PAYLOAD_LEN"

definition reset :: "FrameDecoder \<Rightarrow> FrameDecoder" where
  "reset d = d\<lparr>state := Sync, buf := [], expected_payload_len := 0\<rparr>"

definition push_byte ::
    "FrameDecoder \<Rightarrow> u8 \<Rightarrow> (DecodeStreamError + Frame option) \<times> FrameDecoder" where
  "push_byte d byte =
     (case state d of
        Sync \<Rightarrow>
          (if byte = FRAME_MAGIC then (Inr None, d\<lparr>buf := [byte], state := Header\<rparr>)
           else (Inr None, d))
      | Header \<Rightarrow>
          (let d1 = d\<lparr>buf := buf d @ [byte]\<rparr> in
           if length (buf d1) < 4 then (Inr None, d1)
           else let len = unat (u16_from_le_bytes (buf d1 ! 1) (buf d1 ! 2)) in
             if len > max_payload_len d1 then (Inl DecodeStreamError.PayloadTooLong, reset d1)
             else let d2 = d1\<lparr>expected_payload_len := len\<rparr> in
               if len = 0 then (Inr None, d2\<lparr>state := Crc\<rparr>)
               else (Inr None, d2\<lparr>state := Payload\<rparr>))
      | Payload \<Rightarrow>
          (let d1 = d\<lparr>buf := buf d @ [byte]\<rparr>;
               payload_bytes = length (buf d1) - 4
           in if payload_bytes < expected_payload_len d1 then (Inr None, d1)
              else (Inr None, d1\<lparr>state := Crc\<rparr>))
      | Crc \<Rightarrow>
          (let d1 = d\<lparr>buf := buf d @ [byte]\<rparr> in
           if length (buf d1) < 4 + expected_payload_len d1 + 2 then (Inr None, d1)
           else let frame = decode_frame_with_limit (buf d1) (max_payload_len d1);
                    d2 = reset d1
                in case frame of
                     Inr f \<Rightarrow> (Inr (Some f), d2)
                   | Inl e \<Rightarrow> (Inl (DecodeFailed e), d2)))"

definition push :: "FrameDecoder \<Rightarrow> u8 \<Rightarrow> (DecodeStreamError + Frame) \<times> FrameDecoder" where
  "push d byte =
     (case push_byte d byte of
        (Inl e, d') \<Rightarrow> (Inl e, d')
      | (Inr (Some f), d') \<Rightarrow> (Inr f, d')
      | (Inr None, d') \<Rightarrow> (Inl NeedMore, d'))"

fun push_slice ::
    "FrameDecoder \<Rightarrow> u8 list \<Rightarrow> (DecodeStreamError + Frame option) \<times> FrameDecoder" where
  "push_slice d [] = (Inr None, d)"
| "push_slice d (byte # bytes) =
     (case push_byte d byte of
        (Inl e, d') \<Rightarrow> (Inl e, d')
      | (Inr (Some f), d') \<Rightarrow> (Inr (Some f), d')
      | (Inr None, d') \<Rightarrow> push_slice d' bytes)"

text \<open>
  The receive loop of the module documentation: feed every byte, handle each frame that
  completes, ignore errors. The result is the frames handled, in order.
\<close>

fun push_all :: "FrameDecoder \<Rightarrow> u8 list \<Rightarrow> Frame list \<times> FrameDecoder" where
  "push_all d [] = ([], d)"
| "push_all d (byte # bytes) =
     (case push d byte of
        (Inr f, d') \<Rightarrow> (let (fs, d'') = push_all d' bytes in (f # fs, d''))
      | (Inl e, d') \<Rightarrow> push_all d' bytes)"

section \<open>Reachable decoders\<close>

text \<open>The payload length announced by a buffered header.\<close>

definition announced :: "u8 list \<Rightarrow> nat" where
  "announced b = unat (u16_from_le_bytes (b ! 1) (b ! 2))"

text \<open>The bytes buffered since the magic byte, while the frame is still incomplete.\<close>

definition partial :: "nat \<Rightarrow> u8 list \<Rightarrow> bool" where
  "partial m b \<longleftrightarrow> b \<noteq> [] \<and> b ! 0 = FRAME_MAGIC
     \<and> (4 \<le> length b \<longrightarrow> announced b \<le> m \<and> length b < 6 + announced b)"

definition decoder_of :: "nat \<Rightarrow> u8 list \<Rightarrow> FrameDecoder" where
  "decoder_of m b =
     \<lparr>state = (if length b < 4 then Header
               else if length b < 4 + announced b then Payload else Crc),
      buf = b,
      expected_payload_len = (if length b < 4 then 0 else announced b),
      max_payload_len = m\<rparr>"

definition decoder_inv :: "FrameDecoder \<Rightarrow> bool" where
  "decoder_inv d \<longleftrightarrow>
     d = with_max_payload (max_payload_len d)
     \<or> partial (max_payload_len d) (buf d) \<and> d = decoder_of (max_payload_len d) (buf d)"

lemma announced_append [simp]: "3 \<le> length b \<Longrightarrow> announced (b @ c) = announced b"
  by (simp add: announced_def nth_append)

lemma reset_decoder_of [simp]: "reset (decoder_of m b) = with_max_payload m"
  by (simp add: reset_def decoder_of_def with_max_payload_def)

lemma push_byte_sync:
  "push_byte (with_max_payload m) x =
     (if x = FRAME_MAGIC then (Inr None, decoder_of m [x]) else (Inr None, with_max_payload m))"
  by (simp add: push_byte_def with_max_payload_def decoder_of_def)

text \<open>One step from a decoder that holds an incomplete frame.\<close>

lemma push_byte_partial:
  assumes "partial m b"
  shows "push_byte (decoder_of m b) x =
     (let b' = b @ [x] in
      if length b' = 4 \<and> announced b' > m
      then (Inl DecodeStreamError.PayloadTooLong, with_max_payload m)
      else if length b' < 4 \<or> length b' < 6 + announced b' then (Inr None, decoder_of m b')
      else case decode_frame_with_limit b' m of
             Inr f \<Rightarrow> (Inr (Some f), with_max_payload m)
           | Inl e \<Rightarrow> (Inl (DecodeFailed e), with_max_payload m))"
proof -
  consider "length b + 1 < 4" | "length b + 1 = 4" | "4 \<le> length b"
    by linarith
  then show ?thesis
  proof cases
    case 1
    then show ?thesis by (simp add: push_byte_def decoder_of_def Let_def)
  next
    case 2
    then show ?thesis
      by (auto simp: push_byte_def decoder_of_def Let_def reset_def with_max_payload_def
          announced_def nth_append)
  next
    case 3
    then have "announced (b @ [x]) = announced b" by simp
    with 3 assms show ?thesis
      by (auto simp: push_byte_def decoder_of_def Let_def reset_def with_max_payload_def partial_def
          split: sum.splits)
  qed
qed

lemma partial_snoc:
  assumes "partial m b" "\<not> (length (b @ [x]) = 4 \<and> announced (b @ [x]) > m)"
    and "length (b @ [x]) < 4 \<or> length (b @ [x]) < 6 + announced (b @ [x])"
  shows "partial m (b @ [x])"
  using assms by (auto simp: partial_def nth_append not_le Suc_le_eq)

lemma partial_singleton [simp]: "partial m [x] \<longleftrightarrow> x = FRAME_MAGIC"
  by (simp add: partial_def)

lemma decoder_inv_sync [simp]: "decoder_inv (with_max_payload m)"
  by (simp add: decoder_inv_def with_max_payload_def)

lemma decoder_inv_partial [simp]: "partial m b \<Longrightarrow> decoder_inv (decoder_of m b)"
  by (simp add: decoder_inv_def decoder_of_def)

lemma decoder_inv_cases [consumes 1, case_names sync partial]:
  assumes "decoder_inv d"
  obtains (sync) m where "d = with_max_payload m"
  | (partial) m b where "partial m b" "d = decoder_of m b"
  using assms by (auto simp: decoder_inv_def)

lemma max_payload_len_simps [simp]:
  "max_payload_len (with_max_payload m) = m" "max_payload_len (decoder_of m b) = m"
  by (simp_all add: with_max_payload_def decoder_of_def)

lemma push_byte_inv:
  assumes "decoder_inv d" "push_byte d x = (r, d')"
  shows "decoder_inv d' \<and> max_payload_len d' = max_payload_len d"
  using assms
proof (cases rule: decoder_inv_cases)
  case (sync m)
  with assms show ?thesis by (auto simp: push_byte_sync split: if_splits)
next
  case (partial m b)
  with assms partial_snoc [of m b x] show ?thesis
    by (auto simp: push_byte_partial Let_def split: if_splits sum.splits)
qed

section \<open>What the receive loop emits\<close>

lemma push_all_append:
  "push_all d (xs @ ys) =
     (let (fs, d1) = push_all d xs; (gs, d2) = push_all d1 ys in (fs @ gs, d2))"
  by (induction xs arbitrary: d) (auto split: prod.splits sum.splits)

lemma push_all_noise:
  "FRAME_MAGIC \<notin> set g \<Longrightarrow> push_all (with_max_payload m) g = ([], with_max_payload m)"
  by (induction g) (auto simp: push_def push_byte_sync)

lemma announced_encode:
  "length p < 65536 \<Longrightarrow> announced (encode_frame_inner t p) = length p"
  by (simp add: announced_def encode_frame_inner_Cons Let_def unat_of_nat_u16)

text \<open>Once the magic byte is buffered, the rest of a valid frame completes it.\<close>

lemma push_byte_encode:
  assumes "length p \<le> m" "length p < 65536"
    and part: "partial m b" and enc: "b @ x # s = encode_frame_inner t p"
  shows "if s = [] then push_byte (decoder_of m b) x
             = (Inr (Some \<lparr>msg_type = t, payload = p\<rparr>), with_max_payload m)
         else push_byte (decoder_of m b) x = (Inr None, decoder_of m (b @ [x]))
           \<and> partial m (b @ [x])"
proof -
  let ?b' = "b @ [x]"
  have enc': "?b' @ s = encode_frame_inner t p"
    using enc by simp
  have len: "length ?b' + length s = 6 + length p"
    using arg_cong [OF enc', of length] by (simp add: FRAME_OVERHEAD_def)
  have ann: "announced ?b' = length p" if "3 \<le> length ?b'"
    using that announced_append [of ?b' s] enc' announced_encode [OF assms(2), of t] by metis
  show ?thesis
  proof (cases "s = []")
    case True
    then have "decode_frame_with_limit ?b' m = Inr \<lparr>msg_type = t, payload = p\<rparr>"
      using enc' decode_encode_append [OF assms(1,2), of t "[]"] by simp
    with True len part assms show ?thesis
      by (simp add: push_byte_partial Let_def enc announced_encode FRAME_OVERHEAD_def)
  next
    case False
    have ann4: "length ?b' < 4 \<or> announced ?b' = length p"
      using ann by linarith
    with len False have short: "length ?b' < 4 \<or> length ?b' < 6 + announced ?b'"
      by (cases s) (auto simp del: announced_append)
    have fits: "\<not> (length ?b' = 4 \<and> announced ?b' > m)"
      using ann4 assms(1) by linarith
    show ?thesis
      using push_byte_partial [OF part, of x] partial_snoc [OF part fits short] False short fits
      by (simp add: Let_def del: length_append announced_append)
  qed
qed

lemma partial_not_encode: "partial m b \<Longrightarrow> length p < 65536 \<Longrightarrow> b \<noteq> encode_frame_inner t p"
  by (auto simp: partial_def announced_encode FRAME_OVERHEAD_def)

lemma push_all_complete:
  assumes "length p \<le> m" "length p < 65536"
  shows "partial m b \<Longrightarrow> b @ s = encode_frame_inner t p \<Longrightarrow>
    push_all (decoder_of m b) s = ([\<lparr>msg_type = t, payload = p\<rparr>], with_max_payload m)"
proof (induction s arbitrary: b)
  case Nil
  with partial_not_encode [of m b p t] assms show ?case by simp
next
  case (Cons x s)
  then show ?case
    using push_byte_encode [OF assms Cons.prems] Cons.IH [of "b @ [x]"]
    by (cases "s = []") (auto simp: push_def)
qed

lemma push_slice_complete:
  assumes "length p \<le> m" "length p < 65536"
  shows "partial m b \<Longrightarrow> b @ s = encode_frame_inner t p \<Longrightarrow>
    push_slice (decoder_of m b) (s @ rest)
      = (Inr (Some \<lparr>msg_type = t, payload = p\<rparr>), with_max_payload m)"
proof (induction s arbitrary: b)
  case Nil
  with partial_not_encode [of m b p t] assms show ?case by simp
next
  case (Cons x s)
  then show ?case
    using push_byte_encode [OF assms Cons.prems] Cons.IH [of "b @ [x]"]
    by (cases "s = []") auto
qed

lemma encode_magic: "\<exists>s. encode_frame_inner t p = [FRAME_MAGIC] @ s"
  by (simp add: encode_frame_inner_Cons Let_def)

lemma push_all_encode:
  assumes "length p \<le> m" "length p < 65536"
  shows "push_all (with_max_payload m) (encode_frame_inner t p)
       = ([\<lparr>msg_type = t, payload = p\<rparr>], with_max_payload m)"
proof -
  obtain s where s: "encode_frame_inner t p = [FRAME_MAGIC] @ s"
    using encode_magic by blast
  then have "push_all (decoder_of m [FRAME_MAGIC]) s = ([\<lparr>msg_type = t, payload = p\<rparr>], with_max_payload m)"
    by (intro push_all_complete assms) simp_all
  then show ?thesis
    by (simp add: s push_def push_byte_sync)
qed

text \<open>
  C11. Streaming decoding is complete: from a synchronised decoder, a byte stream made of
  frames within the limit, each preceded by line noise free of the magic byte and with noise
  at the end, yields exactly those frames in order and leaves the decoder synchronised.
\<close>

theorem stream_complete:
  assumes "\<forall>(g, f) \<in> set segs. FRAME_MAGIC \<notin> set g
             \<and> length (payload f) \<le> m \<and> length (payload f) < 65536"
    and "FRAME_MAGIC \<notin> set tail"
  shows "push_all (with_max_payload m)
      (concat (map (\<lambda>(g, f). g @ encode_frame_inner (msg_type f) (payload f)) segs) @ tail)
    = (map snd segs, with_max_payload m)"
  using assms
proof (induction segs)
  case Nil
  then show ?case by (simp add: push_all_noise)
next
  case (Cons gf segs)
  obtain g f where gf: "gf = (g, f)" by (cases gf)
  with Cons show ?case
    by (simp add: push_all_append push_all_noise push_all_encode)
qed

theorem stream_complete_witness:
  "push_all (with_max_payload 16)
     (concat (map (\<lambda>(g, f). g @ encode_frame_inner (msg_type f) (payload f))
        [([0, 0x11], \<lparr>msg_type = Telemetry, payload = [1, 2]\<rparr>),
         ([], \<lparr>msg_type = Nack, payload = []\<rparr>)]) @ [7])
   = ([\<lparr>msg_type = Telemetry, payload = [1, 2]\<rparr>, \<lparr>msg_type = Nack, payload = []\<rparr>],
      with_max_payload 16)"
  using stream_complete [of "[([0, 0x11], \<lparr>msg_type = Telemetry, payload = [1, 2]\<rparr>),
      ([], \<lparr>msg_type = Nack, payload = []\<rparr>)]" 16 "[7]"]
  by (simp add: FRAME_MAGIC_def)


text \<open>The frames \<open>fs\<close> occur in \<open>bytes\<close>, in order and without overlap.\<close>

definition occur_in :: "nat \<Rightarrow> Frame list \<Rightarrow> u8 list \<Rightarrow> bool" where
  "occur_in m fs bytes \<longleftrightarrow> (\<exists>gs tail. length gs = length fs
      \<and> bytes = concat (map2 (\<lambda>g f. g @ encode_frame_inner (msg_type f) (payload f)) gs fs) @ tail
      \<and> (\<forall>f \<in> set fs. length (payload f) \<le> m))"

lemma occur_in_Nil [simp]: "occur_in m [] bytes"
  by (simp add: occur_in_def)

lemma occur_in_prefix:
  assumes "occur_in m fs bytes"
  shows "occur_in m fs (pre @ bytes)"
proof (cases fs)
  case (Cons f fs')
  from assms obtain gs tail where gs: "length gs = length fs"
    "bytes = concat (map2 (\<lambda>g f. g @ encode_frame_inner (msg_type f) (payload f)) gs fs) @ tail"
    "\<forall>f \<in> set fs. length (payload f) \<le> m"
    unfolding occur_in_def by blast
  with Cons obtain g gs' where "gs = g # gs'" by (cases gs) auto
  with gs Cons show ?thesis
    unfolding occur_in_def by (intro exI [of _ "(pre @ g) # gs'"] exI [of _ tail]) simp
qed simp

lemma occur_in_Cons:
  assumes "occur_in m fs bytes" "length (payload f) \<le> m"
  shows "occur_in m (f # fs) (encode_frame_inner (msg_type f) (payload f) @ bytes)"
proof -
  from assms(1) obtain gs tail where "length gs = length fs"
    "bytes = concat (map2 (\<lambda>g f. g @ encode_frame_inner (msg_type f) (payload f)) gs fs) @ tail"
    "\<forall>f \<in> set fs. length (payload f) \<le> m"
    unfolding occur_in_def by blast
  with assms(2) show ?thesis
    unfolding occur_in_def by (intro exI [of _ "[] # gs"] exI [of _ tail]) simp
qed

lemma push_all_occur:
  "(push_all (with_max_payload m) bytes = (fs, d) \<longrightarrow> occur_in m fs bytes)
   \<and> (\<forall>b. partial m b \<longrightarrow> push_all (decoder_of m b) bytes = (fs, d) \<longrightarrow> occur_in m fs (b @ bytes))"
proof (induction bytes arbitrary: fs)
  case Nil
  then show ?case by simp
next
  case (Cons x bytes)
  note sync = Cons.IH [THEN conjunct1, rule_format]
  note part = Cons.IH [THEN conjunct2, rule_format]
  have "occur_in m fs (x # bytes)" if "push_all (with_max_payload m) (x # bytes) = (fs, d)"
    using that part [of "[x]"] occur_in_prefix [OF sync, of fs "[x]"]
    by (auto simp: push_def push_byte_sync split: if_splits)
  moreover have "occur_in m fs (b @ x # bytes)"
    if pb: "partial m b" and run: "push_all (decoder_of m b) (x # bytes) = (fs, d)" for b
  proof (cases "push_byte (decoder_of m b) x")
    case (Pair r d1)
    consider (err) e where "r = Inl e" "d1 = with_max_payload m"
      | (more) "r = Inr None" "partial m (b @ [x])" "d1 = decoder_of m (b @ [x])"
      | (frame) f where "r = Inr (Some f)" "d1 = with_max_payload m"
          "decode_frame_with_limit (b @ [x]) m = Inr f"
      using push_byte_partial [OF pb, of x] partial_snoc [OF pb, of x] Pair
      by (auto simp: Let_def split: if_splits sum.splits)
    then show ?thesis
    proof cases
      case err
      then show ?thesis
        using run Pair occur_in_prefix [OF sync, of fs "b @ [x]"] by (simp add: push_def)
    next
      case more
      then show ?thesis using run Pair part [of "b @ [x]" fs] by (simp add: push_def)
    next
      case (frame f)
      then obtain fs' where fs': "fs = f # fs'" "push_all (with_max_payload m) bytes = (fs', d)"
        using run Pair by (auto simp: push_def split: prod.splits)
      from frame(3) obtain rest where
        b: "b @ [x] = encode_frame_inner (msg_type f) (payload f) @ rest" "length (payload f) \<le> m"
        by (auto simp: decode_Inr_iff)
      have "occur_in m fs (encode_frame_inner (msg_type f) (payload f) @ rest @ bytes)"
        using occur_in_Cons [OF occur_in_prefix [OF sync [OF fs'(2)], of rest] b(2)] fs'(1) by simp
      then show ?thesis using b(1) by (metis append_assoc append_Cons append_Nil)
    qed
  qed
  ultimately show ?case by blast
qed

text \<open>
  C13. Streaming decoding is sound on every input whatsoever: the frames emitted occur in the
  input, in order and without overlap, each as a complete encoding within the limit.
\<close>

theorem stream_sound:
  assumes "push_all (with_max_payload m) bytes = (fs, d)"
  shows "\<exists>gs tail. length gs = length fs
      \<and> bytes = concat (map2 (\<lambda>g f. g @ encode_frame_inner (msg_type f) (payload f)) gs fs) @ tail
      \<and> (\<forall>f \<in> set fs. length (payload f) \<le> m)"
  using push_all_occur assms by (simp add: occur_in_def)

theorem stream_sound_witness:
  "\<exists>gs tail. length gs = length [\<lparr>msg_type = Status, payload = [9]\<rparr>]
      \<and> encode_frame_inner Status [9]
        = concat (map2 (\<lambda>g f. g @ encode_frame_inner (msg_type f) (payload f)) gs
            [\<lparr>msg_type = Status, payload = [9]\<rparr>]) @ tail
      \<and> (\<forall>f \<in> set [\<lparr>msg_type = Status, payload = [9 :: u8]\<rparr>]. length (payload f) \<le> 4)"
  by (rule stream_sound [of 4 _ _ "with_max_payload 4"]) (simp add: push_all_encode)


section \<open>Bounded buffering and resynchronisation\<close>

lemma push_inv:
  assumes "decoder_inv d" "push d x = (r, d')"
  shows "decoder_inv d' \<and> max_payload_len d' = max_payload_len d"
  using assms push_byte_inv [OF assms(1)]
  by (auto simp: push_def split: prod.splits sum.splits option.splits)

lemma push_all_inv:
  "decoder_inv d \<Longrightarrow> push_all d bytes = (fs, d') \<Longrightarrow>
   decoder_inv d' \<and> max_payload_len d' = max_payload_len d"
proof (induction bytes arbitrary: d fs)
  case (Cons x bytes)
  obtain r d1 where d1: "push d x = (r, d1)" by (cases "push d x")
  then have "decoder_inv d1 \<and> max_payload_len d1 = max_payload_len d"
    using Cons.prems(1) push_inv by blast
  with Cons.IH [of d1] Cons.prems(2) d1 show ?case
    by (auto split: sum.splits prod.splits)
qed simp

lemma partial_length: "partial m b \<Longrightarrow> length b < 6 + m"
  by (cases "4 \<le> length b") (auto simp: partial_def)

lemma decoder_inv_buf: "decoder_inv d \<Longrightarrow> length (buf d) < 6 + max_payload_len d"
  by (cases rule: decoder_inv_cases)
    (auto simp: with_max_payload_def decoder_of_def dest: partial_length)

text \<open>
  Memory safety of the decoder on arbitrary input: after any bytes from any source the
  decoder is well formed (its phase, its buffer and the announced length agree), its limit is
  unchanged, and it never buffers more than the limit plus the five bytes of an incomplete
  frame's overhead.
\<close>

lemma decoder_bounded:
  assumes "push_all (with_max_payload m) bytes = (fs, d)"
  shows "decoder_inv d \<and> max_payload_len d = m \<and> length (buf d) \<le> 5 + m"
proof -
  have "decoder_inv d \<and> max_payload_len d = m"
    using push_all_inv [OF decoder_inv_sync assms] by simp
  with decoder_inv_buf [of d] show ?thesis by simp
qed

lemma partial_resync:
  assumes "partial m b" "6 + m \<le> length b + length bytes"
  shows "\<exists>k \<le> length bytes. snd (push_all (decoder_of m b) (take k bytes)) = with_max_payload m"
  using assms
proof (induction bytes arbitrary: b)
  case Nil
  then show ?case using partial_length by fastforce
next
  case (Cons x bytes)
  obtain r d1 where step: "push_byte (decoder_of m b) x = (r, d1)" by fastforce
  consider "d1 = with_max_payload m" | "r = Inr None" "partial m (b @ [x])" "d1 = decoder_of m (b @ [x])"
    using push_byte_partial [OF Cons.prems(1), of x] partial_snoc [OF Cons.prems(1), of x] step
    by (auto simp: Let_def split: if_splits sum.splits)
  then show ?case
  proof cases
    case 1
    then show ?thesis
      using step by (intro exI [of _ 1]) (auto simp: push_def split: sum.splits option.splits)
  next
    case 2
    then obtain k where "k \<le> length bytes"
      "snd (push_all (decoder_of m (b @ [x])) (take k bytes)) = with_max_payload m"
      using Cons.IH [of "b @ [x]"] Cons.prems(2) by auto
    then show ?thesis
      using 2 step by (intro exI [of _ "Suc k"]) (simp add: push_def)
  qed
qed

lemma decoder_bounded_witness:
  "decoder_inv (decoder_of 4 [FRAME_MAGIC]) \<and> max_payload_len (decoder_of 4 [FRAME_MAGIC]) = 4
   \<and> length (buf (decoder_of 4 [FRAME_MAGIC])) \<le> 5 + 4"
  by (rule decoder_bounded [of 4 "[7, FRAME_MAGIC]" "[]"])
    (simp add: push_def push_byte_sync FRAME_MAGIC_def)


text \<open>
  C30. Resynchronisation is prompt: from whatever state the decoder has reached, feeding any
  \<open>m + 6\<close> further bytes takes it through the synchronised state, so a false magic byte or a
  damaged header can swallow at most one maximal frame.
\<close>

theorem resync_bounded:
  assumes "decoder_inv d" "6 + max_payload_len d \<le> length bytes"
  shows "\<exists>k \<le> length bytes. state (snd (push_all d (take k bytes))) = Sync"
  using assms(1)
proof (cases rule: decoder_inv_cases)
  case (sync m)
  then show ?thesis by (intro exI [of _ 0]) (simp add: with_max_payload_def)
next
  case (partial m b)
  with assms partial_resync [of m b bytes] show ?thesis
    by (fastforce simp: with_max_payload_def)
qed

theorem resync_bounded_witness:
  "\<exists>k \<le> length (replicate 10 (5 :: u8)).
     state (snd (push_all (decoder_of 4 [FRAME_MAGIC]) (take k (replicate 10 5)))) = Sync"
  by (rule resync_bounded) simp_all


text \<open>
  The slice interface agrees with the byte interface: \<^verbatim>\<open>push_slice\<close> on a stream that
  starts (after noise) with a valid frame returns that frame and drops nothing before it; the
  decoder is then synchronised, so the bytes after the frame can be fed next.
\<close>

lemma push_slice_first_frame:
  assumes "FRAME_MAGIC \<notin> set g" "length p \<le> m" "length p < 65536"
  shows "push_slice (with_max_payload m) (g @ encode_frame_inner t p @ rest)
       = (Inr (Some \<lparr>msg_type = t, payload = p\<rparr>), with_max_payload m)"
proof -
  obtain s where s: "encode_frame_inner t p = [FRAME_MAGIC] @ s"
    using encode_magic by blast
  then have "push_slice (decoder_of m [FRAME_MAGIC]) (s @ rest)
      = (Inr (Some \<lparr>msg_type = t, payload = p\<rparr>), with_max_payload m)"
    by (intro push_slice_complete assms) simp_all
  then have "push_slice (with_max_payload m) (encode_frame_inner t p @ rest)
      = (Inr (Some \<lparr>msg_type = t, payload = p\<rparr>), with_max_payload m)"
    by (simp add: s push_byte_sync)
  with assms(1) show ?thesis
    by (induction g) (auto simp: push_byte_sync)
qed

lemma push_slice_first_frame_witness:
  "push_slice (with_max_payload 16) ([1, 2] @ encode_frame_inner Alarm [3] @ [4, 5])
     = (Inr (Some \<lparr>msg_type = Alarm, payload = [3]\<rparr>), with_max_payload 16)"
  by (rule push_slice_first_frame) (simp_all add: FRAME_MAGIC_def)


end
