(* ===== verification/Sensor_Manifest.thy ===== *)
theory Sensor_Manifest
  imports Kei_Prelude
begin

text \<open>
  The value types shared by sensor nodes and the gateway, from
  \<^verbatim>\<open>packages/kei/src/manifest/sensor.rs\<close> and \<^verbatim>\<open>packages/kei/src/codec/mod.rs\<close>. Unit names are
  UTF-8 byte strings: the degree sign, the superscript three and the micro sign are their two
  bytes. The lemma group shows that the canonical name of a unit determines it.
\<close>

datatype SensorUnit =
    MPa | Bar | Celsius | Ppm | Percent | PercentLEL | Kg | Grams | Volts | Amps | Watts | Kw
  | Nm3PerHour | LitersPerMin | MLitersPerMin | MicroSiemensPerCm | Hours | Minutes
  | Dimensionless

fun as_str :: "SensorUnit \<Rightarrow> string" where
  "as_str MPa = ''MPa''"
| "as_str Bar = ''bar''"
| "as_str Celsius = [CHR 0xC2, CHR 0xB0, CHR ''C'']"
| "as_str Ppm = ''ppm''"
| "as_str Percent = ''%''"
| "as_str PercentLEL = ''%LEL''"
| "as_str Kg = ''kg''"
| "as_str Grams = ''g''"
| "as_str Volts = ''V''"
| "as_str Amps = ''A''"
| "as_str Watts = ''W''"
| "as_str Kw = ''kW''"
| "as_str Nm3PerHour = ''Nm'' @ [CHR 0xC2, CHR 0xB3] @ ''/h''"
| "as_str LitersPerMin = ''L/min''"
| "as_str MLitersPerMin = ''mL/min''"
| "as_str MicroSiemensPerCm = [CHR 0xC2, CHR 0xB5] @ ''S/cm''"
| "as_str Hours = ''hours''"
| "as_str Minutes = ''min''"
| "as_str Dimensionless = ''''"

definition from_str :: "string \<Rightarrow> SensorUnit option" where
  "from_str s =
     (if s = ''MPa'' then Some MPa
      else if s = ''bar'' then Some Bar
      else if s = [CHR 0xC2, CHR 0xB0, CHR ''C''] then Some Celsius
      else if s = ''ppm'' then Some Ppm
      else if s = ''%'' then Some Percent
      else if s = ''%LEL'' then Some PercentLEL
      else if s = ''kg'' then Some Kg
      else if s = ''g'' then Some Grams
      else if s = ''V'' then Some Volts
      else if s = ''A'' then Some Amps
      else if s = ''W'' then Some Watts
      else if s = ''kW'' then Some Kw
      else if s = ''Nm'' @ [CHR 0xC2, CHR 0xB3] @ ''/h'' then Some Nm3PerHour
      else if s = ''L/min'' then Some LitersPerMin
      else if s = ''mL/min'' then Some MLitersPerMin
      else if s = [CHR 0xC2, CHR 0xB5] @ ''S/cm'' then Some MicroSiemensPerCm
      else if s = ''hours'' then Some Hours
      else if s = ''min'' then Some Minutes
      else if s = '''' then Some Dimensionless
      else None)"

datatype AlarmLevel = Info | Low | High | Critical

datatype RegisterMode = ReadOnly | ReadWrite | WriteOnly

datatype Quality = Good | Stale | Error

text \<open>
  Unit names round-trip exactly: \<^verbatim>\<open>from_str\<close> returns a unit for a string if and only if
  the string is that unit's canonical name, so parsing inverts printing, no two units share a
  name and no other string is accepted.
\<close>

lemma unit_name_round_trip: "from_str s = Some u \<longleftrightarrow> s = as_str u"
  by (cases u) (auto simp: from_str_def split: if_splits)

end
