(* ===== verification/Wire_Messages.thy ===== *)
theory Wire_Messages
  imports Wire_Decoder Sensor_Manifest
begin

text \<open>
  The message structs of \<^verbatim>\<open>packages/kei/src/wire/request.rs\<close> and \<^verbatim>\<open>response.rs\<close>, the frame
  constructors of \<^verbatim>\<open>frame.rs\<close>, and the error types of \<^verbatim>\<open>packages/kei/src/hal\<close>.

  The serialiser (the postcard crate) is a parameter: one \<open>codec\<close> per message type, the pair
  \<^verbatim>\<open>to_allocvec\<close> / \<^verbatim>\<open>from_bytes\<close> at that type. What the code relies on is that serialising
  succeeds and that deserialising what was serialised gives the value back; the theorems that
  need it say so with \<open>encodes\<close>.
\<close>

section \<open>Message structs\<close>

record ReadRegister =
  rr_station_id :: u16
  rr_register :: u16

record WriteRegister =
  wr_station_id :: u16
  wr_register :: u16
  wr_value :: f32

record ReadStation =
  rs_station_id :: u16

record Discover =
  dc_protocol_version :: u8

record Telemetry =
  tm_station_id :: u16
  tm_register :: u16
  tm_value :: f32
  tm_unit :: SensorUnit
  tm_timestamp_ms :: u64

record Alarm =
  al_station_id :: u16
  al_register :: u16
  al_level :: AlarmLevel
  al_message :: string
  al_timestamp_ms :: u64

datatype NodeState = Boot | Heartbeat | Shutdown | Degraded

record Status =
  st_station_id :: u16
  st_state :: NodeState
  st_detail :: string
  st_timestamp_ms :: u64

record DiscoverResponse =
  dr_station_id :: u16
  dr_protocol_version :: u8
  dr_name :: string
  dr_register_count :: u16

record Nack =
  nk_station_id :: u16
  nk_error_code :: u16
  nk_message :: string

datatype RegisterKind = Holding | Coil

fun prefix :: "RegisterKind \<Rightarrow> string" where
  "prefix Holding = ''HR''"
| "prefix Coil = ''C''"

record BatchReading =
  br_register :: u16
  br_register_kind :: RegisterKind
  br_name :: string
  br_raw :: f64
  br_value :: f64
  br_unit :: SensorUnit
  br_quality :: Quality
  br_timestamp_ms :: u64

record TelemetryBatch =
  tb_station_id :: u16
  tb_timestamp_ms :: u64
  tb_readings :: "BatchReading list"

section \<open>Serialiser and hardware interface\<close>

record ('a, 'e) codec =
  to_allocvec :: "'a \<Rightarrow> 'e + u8 list"
  from_bytes :: "u8 list \<Rightarrow> 'e + 'a"

record 'e postcard =
  pc_ReadRegister :: "(ReadRegister, 'e) codec"
  pc_WriteRegister :: "(WriteRegister, 'e) codec"
  pc_ReadStation :: "(ReadStation, 'e) codec"
  pc_Discover :: "(Discover, 'e) codec"
  pc_Telemetry :: "(Telemetry, 'e) codec"
  pc_Alarm :: "(Alarm, 'e) codec"
  pc_Status :: "(Status, 'e) codec"
  pc_DiscoverResponse :: "(DiscoverResponse, 'e) codec"
  pc_Nack :: "(Nack, 'e) codec"
  pc_TelemetryBatch :: "(TelemetryBatch, 'e) codec"

text \<open>The value serialises to these bytes, and these bytes deserialise to the value.\<close>

definition encodes :: "('a, 'e) codec \<Rightarrow> 'a \<Rightarrow> u8 list \<Rightarrow> bool" where
  "encodes c x bs \<longleftrightarrow> to_allocvec c x = Inr bs \<and> from_bytes c bs = Inr x"

datatype TransportError = Io | Closed | BufferTooSmall

datatype DeviceError = InvalidRegister | HardwareError | PermissionDenied

section \<open>Frame constructors\<close>

definition frame_telemetry ::
    "'e postcard \<Rightarrow> u16 \<Rightarrow> u16 \<Rightarrow> f32 \<Rightarrow> SensorUnit \<Rightarrow> Frame rust" where
  "frame_telemetry pc station register value unit =
     expect_then (to_allocvec (pc_Telemetry pc)
         \<lparr>tm_station_id = station, tm_register = register, tm_value = value, tm_unit = unit,
          tm_timestamp_ms = 0\<rparr>)
       (\<lambda>p. Return \<lparr>msg_type = Telemetry, payload = p\<rparr>)"

definition frame_alarm ::
    "'e postcard \<Rightarrow> u16 \<Rightarrow> u16 \<Rightarrow> AlarmLevel \<Rightarrow> string \<Rightarrow> Frame rust" where
  "frame_alarm pc station register level message =
     expect_then (to_allocvec (pc_Alarm pc)
         \<lparr>al_station_id = station, al_register = register, al_level = level,
          al_message = message, al_timestamp_ms = 0\<rparr>)
       (\<lambda>p. Return \<lparr>msg_type = Alarm, payload = p\<rparr>)"

definition frame_status :: "'e postcard \<Rightarrow> u16 \<Rightarrow> NodeState \<Rightarrow> string \<Rightarrow> Frame rust" where
  "frame_status pc station s detail =
     expect_then (to_allocvec (pc_Status pc)
         \<lparr>st_station_id = station, st_state = s, st_detail = detail, st_timestamp_ms = 0\<rparr>)
       (\<lambda>p. Return \<lparr>msg_type = Status, payload = p\<rparr>)"

definition frame_read_register :: "'e postcard \<Rightarrow> u16 \<Rightarrow> u16 \<Rightarrow> Frame rust" where
  "frame_read_register pc station register =
     expect_then (to_allocvec (pc_ReadRegister pc)
         \<lparr>rr_station_id = station, rr_register = register\<rparr>)
       (\<lambda>p. Return \<lparr>msg_type = ReadRegister, payload = p\<rparr>)"

definition frame_nack :: "'e postcard \<Rightarrow> u16 \<Rightarrow> u16 \<Rightarrow> string \<Rightarrow> Frame rust" where
  "frame_nack pc station error_code message =
     expect_then (to_allocvec (pc_Nack pc)
         \<lparr>nk_station_id = station, nk_error_code = error_code, nk_message = message\<rparr>)
       (\<lambda>p. Return \<lparr>msg_type = Nack, payload = p\<rparr>)"

definition payload_as :: "('a, 'e) codec \<Rightarrow> Frame \<Rightarrow> 'e + 'a" where
  "payload_as c f = from_bytes c (payload f)"

definition as_telemetry :: "'e postcard \<Rightarrow> Frame \<Rightarrow> 'e + Telemetry" where
  "as_telemetry pc f = payload_as (pc_Telemetry pc) f"

definition as_telemetry_batch :: "'e postcard \<Rightarrow> Frame \<Rightarrow> 'e + TelemetryBatch" where
  "as_telemetry_batch pc f = payload_as (pc_TelemetryBatch pc) f"

definition frame_telemetry_batch :: "'e postcard \<Rightarrow> TelemetryBatch \<Rightarrow> EncodeError + Frame" where
  "frame_telemetry_batch pc batch =
     (case to_allocvec (pc_TelemetryBatch pc) batch of
        Inl _ \<Rightarrow> Inl Serialize
      | Inr p \<Rightarrow>
          if length p > MAX_BATCH_PAYLOAD_LEN then Inl EncodeError.PayloadTooLong
          else Inr \<lparr>msg_type = TelemetryBatch, payload = p\<rparr>)"

section \<open>Properties of the encoders\<close>

text \<open>
  The legacy encoder loses exactly what exceeds the limit: decoding what \<^verbatim>\<open>encode\<close>
  produced always succeeds and gives the frame back with its payload cut to
  \<^verbatim>\<open>MAX_PAYLOAD_LEN\<close> bytes, so a frame survives the round trip if and only if its payload is
  within the limit, and an oversized one arrives as a valid but different frame.
\<close>

lemma encode_decode_legacy:
  "decode_frame (encode f) = Inr (f\<lparr>payload := take MAX_PAYLOAD_LEN (payload f)\<rparr>)
   \<and> (decode_frame (encode f) = Inr f \<longleftrightarrow> length (payload f) \<le> MAX_PAYLOAD_LEN)"
proof -
  let ?p = "take MAX_PAYLOAD_LEN (payload f)"
  have "decode_frame (encode f) = Inr \<lparr>msg_type = msg_type f, payload = ?p\<rparr>"
    using decode_encode_append [of ?p MAX_PAYLOAD_LEN "msg_type f" "[]"]
    by (cases "length (payload f) \<le> MAX_PAYLOAD_LEN")
      (simp_all add: decode_frame_def encode_def encode_frame_def MAX_PAYLOAD_LEN_def)
  then have "decode_frame (encode f) = Inr (f\<lparr>payload := ?p\<rparr>)"
    by simp
  moreover have "f\<lparr>payload := ?p\<rparr> = f \<longleftrightarrow> length (payload f) \<le> MAX_PAYLOAD_LEN"
    by (cases f) (auto simp: min_def dest: arg_cong [of _ _ length])
  ultimately show ?thesis by simp
qed



text \<open>
  A telemetry batch is never silently truncated: given a serialisation of the batch, the
  constructor reports \<^verbatim>\<open>PayloadTooLong\<close> if it exceeds the batch limit, and otherwise the frame
  it builds encodes, decodes on a batch link and deserialises to the same batch.
\<close>

lemma telemetry_batch_round_trip:
  assumes "encodes (pc_TelemetryBatch pc) batch bs"
  shows "if length bs > MAX_BATCH_PAYLOAD_LEN
         then frame_telemetry_batch pc batch = Inl EncodeError.PayloadTooLong
         else \<exists>f w. frame_telemetry_batch pc batch = Inr f
                \<and> encode_with_limit f MAX_BATCH_PAYLOAD_LEN = Inr w
                \<and> decode_frame_with_limit w MAX_BATCH_PAYLOAD_LEN = Inr f
                \<and> as_telemetry_batch pc f = Inr batch"
proof -
  have enc: "to_allocvec (pc_TelemetryBatch pc) batch = Inr bs"
    "from_bytes (pc_TelemetryBatch pc) bs = Inr batch"
    using assms by (simp_all add: encodes_def)
  have "decode_frame_with_limit (encode_frame_inner TelemetryBatch bs) MAX_BATCH_PAYLOAD_LEN
      = Inr \<lparr>msg_type = TelemetryBatch, payload = bs\<rparr>" if "length bs \<le> MAX_BATCH_PAYLOAD_LEN"
    using decode_encode_append [of bs MAX_BATCH_PAYLOAD_LEN TelemetryBatch "[]"] that
    by (simp add: MAX_BATCH_PAYLOAD_LEN_def)
  with enc show ?thesis
    by (auto simp: frame_telemetry_batch_def encode_with_limit_def encode_frame_with_limit_def
        as_telemetry_batch_def payload_as_def)
qed

text \<open>
  A serialiser for the concrete witnesses: fixed-width little-endian requests, and for each
  other message a codec that knows one sample value.
\<close>

definition sample_codec :: "'a \<Rightarrow> ('a, unit) codec" where
  "sample_codec x = \<lparr>to_allocvec = (\<lambda>_. Inr [1]), from_bytes = (\<lambda>_. Inr x)\<rparr>"

definition read_register_codec :: "(ReadRegister, unit) codec" where
  "read_register_codec =
     \<lparr>to_allocvec = (\<lambda>r. Inr (u16_to_le_bytes (rr_station_id r) @ u16_to_le_bytes (rr_register r))),
      from_bytes = (\<lambda>bs. case bs of
          [a, b, c, d] \<Rightarrow> Inr \<lparr>rr_station_id = u16_from_le_bytes a b, rr_register = u16_from_le_bytes c d\<rparr>
        | _ \<Rightarrow> Inl ())\<rparr>"

definition sample_postcard :: "unit postcard" where
  "sample_postcard =
     \<lparr>pc_ReadRegister = read_register_codec,
      pc_WriteRegister = sample_codec \<lparr>wr_station_id = 7, wr_register = 2, wr_value = 0x3F800000\<rparr>,
      pc_ReadStation = sample_codec \<lparr>rs_station_id = 7\<rparr>,
      pc_Discover = sample_codec \<lparr>dc_protocol_version = 1\<rparr>,
      pc_Telemetry = sample_codec \<lparr>tm_station_id = 7, tm_register = 2, tm_value = 0x3F800000,
        tm_unit = Celsius, tm_timestamp_ms = 5\<rparr>,
      pc_Alarm = sample_codec \<lparr>al_station_id = 7, al_register = 2, al_level = High,
        al_message = ''hot'', al_timestamp_ms = 5\<rparr>,
      pc_Status = sample_codec \<lparr>st_station_id = 7, st_state = Boot, st_detail = ''up'', st_timestamp_ms = 5\<rparr>,
      pc_DiscoverResponse = sample_codec \<lparr>dr_station_id = 7, dr_protocol_version = 1,
        dr_name = ''n'', dr_register_count = 3\<rparr>,
      pc_Nack = sample_codec \<lparr>nk_station_id = 7, nk_error_code = 1, nk_message = ''write failed''\<rparr>,
      pc_TelemetryBatch = sample_codec \<lparr>tb_station_id = 7, tb_timestamp_ms = 1, tb_readings = []\<rparr>\<rparr>"

lemma sample_postcard_simps [simp]:
  "pc_ReadRegister sample_postcard = read_register_codec"
  "pc_WriteRegister sample_postcard
     = sample_codec \<lparr>wr_station_id = 7, wr_register = 2, wr_value = 0x3F800000\<rparr>"
  "pc_Telemetry sample_postcard = sample_codec \<lparr>tm_station_id = 7, tm_register = 2,
     tm_value = 0x3F800000, tm_unit = Celsius, tm_timestamp_ms = 5\<rparr>"
  "pc_Nack sample_postcard
     = sample_codec \<lparr>nk_station_id = 7, nk_error_code = 1, nk_message = ''write failed''\<rparr>"
  "pc_TelemetryBatch sample_postcard
     = sample_codec \<lparr>tb_station_id = 7, tb_timestamp_ms = 1, tb_readings = []\<rparr>"
  by (simp_all add: sample_postcard_def)

lemma encodes_sample_codec [simp]: "encodes (sample_codec x) x [1]"
  by (simp add: encodes_def sample_codec_def)

lemma encodes_read_register_codec [simp]:
  "encodes read_register_codec r (u16_to_le_bytes (rr_station_id r) @ u16_to_le_bytes (rr_register r))"
  by (simp add: encodes_def read_register_codec_def u16_to_le_bytes_def)

lemma telemetry_batch_round_trip_witness:
  "\<exists>f w. frame_telemetry_batch sample_postcard
           \<lparr>tb_station_id = 7, tb_timestamp_ms = 1, tb_readings = []\<rparr> = Inr f
       \<and> encode_with_limit f MAX_BATCH_PAYLOAD_LEN = Inr w
       \<and> decode_frame_with_limit w MAX_BATCH_PAYLOAD_LEN = Inr f
       \<and> as_telemetry_batch sample_postcard f
           = Inr \<lparr>tb_station_id = 7, tb_timestamp_ms = 1, tb_readings = []\<rparr>"
  using telemetry_batch_round_trip [of sample_postcard
      "\<lparr>tb_station_id = 7, tb_timestamp_ms = 1, tb_readings = []\<rparr>" "[1]"]
  by (simp add: MAX_BATCH_PAYLOAD_LEN_def)

end
