(* ===== verification/Receive_Loop.thy ===== *)
theory Receive_Loop
  imports Wire_Messages
begin

text \<open>
  The interface between the byte transport, the frame decoder and the two receive loops that
  connect them (\<^verbatim>\<open>Node::recv_frame\<close> and \<^verbatim>\<open>Gateway::recv_frame\<close>). The transport of
  \<^verbatim>\<open>packages/kei/src/hal/transport.rs\<close> is a trait: here a record of its two operations on an
  abstract transport state. Both loops call \<^verbatim>\<open>recv\<close> with a one-byte buffer, so a successful
  call gives either that byte or a zero-length read.

  The locale \<open>receive_loop\<close> is the contract the two loops share, with what follows from it
  for bytes that the transport delivers.
\<close>

record 't transport =
  send :: "'t \<Rightarrow> u8 list \<Rightarrow> (TransportError + nat) \<times> 't"
  recv :: "'t \<Rightarrow> (TransportError + u8 option) \<times> 't"

text \<open>The transport hands out exactly these bytes next, with any zero-length reads between.\<close>

inductive delivers :: "('t \<Rightarrow> (TransportError + u8 option) \<times> 't) \<Rightarrow> 't \<Rightarrow> u8 list \<Rightarrow> 't \<Rightarrow> bool"
  for rx where
  delivers_done: "delivers rx t [] t"
| delivers_byte: "rx t = (Inr (Some b), t1) \<Longrightarrow> delivers rx t1 bs t' \<Longrightarrow> delivers rx t (b # bs) t'"
| delivers_wait: "rx t = (Inr None, t1) \<Longrightarrow> delivers rx t1 (b # bs) t' \<Longrightarrow> delivers rx t (b # bs) t'"

inductive_simps delivers_Nil [simp]: "delivers rx t [] t'"

text \<open>Delivery composes and splits at every byte boundary.\<close>

lemma delivers_append:
  "delivers rx t (xs @ ys) t' \<longleftrightarrow> (\<exists>t1. delivers rx t xs t1 \<and> delivers rx t1 ys t')"
proof
  assume "delivers rx t (xs @ ys) t'"
  then show "\<exists>t1. delivers rx t xs t1 \<and> delivers rx t1 ys t'"
  proof (induction t "xs @ ys" t' arbitrary: xs rule: delivers.induct)
    case (delivers_done t)
    then show ?case by simp
  next
    case (delivers_byte t b t1 bs t')
    then show ?case
      by (cases xs) (auto intro: delivers.intros)
  next
    case (delivers_wait t t1 b bs t')
    from delivers_wait(3) [OF delivers_wait(4)] obtain t2
      where "delivers rx t1 xs t2" "delivers rx t2 ys t'" by blast
    with delivers_wait show ?case
      by (cases xs) (auto intro: delivers.intros)
  qed
next
  assume "\<exists>t1. delivers rx t xs t1 \<and> delivers rx t1 ys t'"
  then obtain t1 where "delivers rx t xs t1" "delivers rx t1 ys t'" by blast
  then show "delivers rx t (xs @ ys) t'"
    by induction (auto intro: delivers.intros)
qed

text \<open>
  Feeding the bytes to a decoder is silent until the last one, which produces the event \<open>r\<close>.
\<close>

inductive feeds ::
    "('d \<Rightarrow> u8 \<Rightarrow> ('e + Frame option) \<times> 'd) \<Rightarrow> 'd \<Rightarrow> u8 list \<Rightarrow> 'e + Frame option \<Rightarrow> 'd \<Rightarrow> bool"
  for step where
  feeds_last: "step d b = (r, d') \<Longrightarrow> r \<noteq> Inr None \<Longrightarrow> feeds step d [b] r d'"
| feeds_more: "step d b = (Inr None, d1) \<Longrightarrow> feeds step d1 bs r d' \<Longrightarrow> feeds step d (b # bs) r d'"

lemma feeds_skip:
  assumes "\<forall>b \<in> set g. step d b = (Inr None, d)" "feeds step d bs r d'"
  shows "feeds step d (g @ bs) r d'"
  using assms by (induction g) (auto intro: feeds_more)

text \<open>
  The decoder's side of the interface. A byte string that has the outline of a frame (magic
  byte, a length field within the limit, that many bytes) is exactly one event, decided by the
  one-shot decoder.
\<close>

definition outline :: "nat \<Rightarrow> u8 list \<Rightarrow> bool" where
  "outline m w \<longleftrightarrow> w ! 0 = FRAME_MAGIC \<and> announced w \<le> m \<and> length w = 6 + announced w"

definition event_of :: "nat \<Rightarrow> u8 list \<Rightarrow> DecodeStreamError + Frame option" where
  "event_of m w = (case decode_frame_with_limit w m of
     Inl e \<Rightarrow> Inl (DecodeFailed e) | Inr f \<Rightarrow> Inr (Some f))"

lemma push_byte_outline:
  assumes "outline m w" "partial m b" "b @ x # s = w"
  shows "if s = [] then push_byte (decoder_of m b) x = (event_of m w, with_max_payload m)
         else push_byte (decoder_of m b) x = (Inr None, decoder_of m (b @ [x]))
           \<and> partial m (b @ [x])"
proof -
  let ?b' = "b @ [x]"
  have w: "?b' @ s = w" and len: "length ?b' + length s = 6 + announced w"
    using assms arg_cong [OF assms(3), of length] by (auto simp: outline_def)
  have ann: "length ?b' < 4 \<or> announced ?b' = announced w"
    using announced_append [of ?b' s] w by (cases "length ?b' < 4") auto
  show ?thesis
  proof (cases "s = []")
    case True
    then show ?thesis
      using push_byte_partial [OF assms(2), of x] assms(1) w
      by (auto simp: Let_def outline_def event_of_def split: sum.splits)
  next
    case False
    then have "0 < length s" by simp
    with ann len have short: "length ?b' < 4 \<or> length ?b' < 6 + announced ?b'" by linarith
    have fits: "\<not> (length ?b' = 4 \<and> announced ?b' > m)"
      using ann assms(1) unfolding outline_def by linarith
    show ?thesis
      using push_byte_partial [OF assms(2), of x] partial_snoc [OF assms(2) fits short] False short fits
      by (simp add: Let_def del: length_append announced_append)
  qed
qed

lemma event_of_loud [simp]: "event_of m w \<noteq> Inr None"
  by (simp add: event_of_def split: sum.splits)

lemma feeds_outline_suffix:
  assumes "outline m w"
  shows "partial m b \<Longrightarrow> s \<noteq> [] \<Longrightarrow> b @ s = w \<Longrightarrow>
    feeds push_byte (decoder_of m b) s (event_of m w) (with_max_payload m)"
proof (induction s arbitrary: b)
  case (Cons x s)
  then show ?case
    using push_byte_outline [OF assms Cons.prems(1,3)] Cons.IH [of "b @ [x]"]
    by (cases "s = []") (auto intro: feeds_last feeds_more)
qed simp

lemma feeds_outline:
  assumes "outline m w" "FRAME_MAGIC \<notin> set g"
  shows "feeds push_byte (with_max_payload m) (g @ w) (event_of m w) (with_max_payload m)"
proof (rule feeds_skip)
  show "\<forall>b\<in>set g. push_byte (with_max_payload m) b = (Inr None, with_max_payload m)"
    using assms(2) by (auto simp: push_byte_sync)
  obtain s where s: "w = [FRAME_MAGIC] @ s" "s \<noteq> []"
    using assms(1) by (cases w; cases "tl w") (auto simp: outline_def)
  then have "feeds push_byte (decoder_of m [FRAME_MAGIC]) s (event_of m w) (with_max_payload m)"
    using assms(1) by (intro feeds_outline_suffix) simp_all
  then show "feeds push_byte (with_max_payload m) w (event_of m w) (with_max_payload m)"
    unfolding s(1) by (auto intro: feeds_more simp: push_byte_sync)
qed

lemma outline_encode:
  "length p \<le> m \<Longrightarrow> length p < 65536 \<Longrightarrow> outline m (encode_frame_inner t p)"
  by (simp add: outline_def announced_encode FRAME_OVERHEAD_def)
    (simp add: encode_frame_inner_Cons Let_def)

lemma event_of_encode:
  "length p \<le> m \<Longrightarrow> length p < 65536 \<Longrightarrow>
   event_of m (encode_frame_inner t p) = Inr (Some \<lparr>msg_type = t, payload = p\<rparr>)"
  using decode_encode_append [of p m t "[]"] by (simp add: event_of_def)

text \<open>
  The owner's state \<open>'s\<close> (node or gateway) holds the transport and the decoder; \<open>upd\<close> replaces
  both. The law \<open>loop_unfold\<close> is one turn of the receive loop.
\<close>

locale receive_loop =
  fixes step :: "'d \<Rightarrow> u8 \<Rightarrow> ('e + Frame option) \<times> 'd"
    and rx :: "'t \<Rightarrow> (TransportError + u8 option) \<times> 't"
    and tr_of :: "'s \<Rightarrow> 't"
    and dec_of :: "'s \<Rightarrow> 'd"
    and upd :: "'s \<Rightarrow> 't \<Rightarrow> 'd \<Rightarrow> 's"
    and ready :: "'s \<Rightarrow> bool"
    and loop :: "'s \<Rightarrow> (('g + Frame) \<times> 's) option"
    and terr :: "TransportError \<Rightarrow> 'g"
    and derr :: "'e \<Rightarrow> 'g"
  assumes upd_laws: "tr_of (upd s t d) = t" "dec_of (upd s t d) = d"
      "upd (upd s t d) t1 d1 = upd s t1 d1" "upd s (tr_of s) (dec_of s) = s" "ready (upd s t d) = ready s"
    and loop_unfold: "ready s \<Longrightarrow> loop s =
    (case rx (tr_of s) of
       (Inl e, t) \<Rightarrow> Some (Inl (terr e), upd s t (dec_of s))
     | (Inr None, t) \<Rightarrow> loop (upd s t (dec_of s))
     | (Inr (Some b), t) \<Rightarrow>
         (case step (dec_of s) b of
            (Inl e, d) \<Rightarrow> Some (Inl (derr e), upd s t d)
          | (Inr (Some f), d) \<Rightarrow> Some (Inr f, upd s t d)
          | (Inr None, d) \<Rightarrow> loop (upd s t d)))"
begin

lemma loop_wait: "ready s \<Longrightarrow> rx (tr_of s) = (Inr None, t) \<Longrightarrow> loop s = loop (upd s t (dec_of s))"
  by (subst loop_unfold) simp_all

lemma loop_byte_quiet:
  "ready s \<Longrightarrow> rx (tr_of s) = (Inr (Some b), t) \<Longrightarrow> step (dec_of s) b = (Inr None, d)
   \<Longrightarrow> loop s = loop (upd s t d)"
  by (subst loop_unfold) simp_all

text \<open>The event that the delivered bytes produce is what the loop returns.\<close>

lemma loop_delivered:
  assumes "delivers rx t bs t'" "feeds step d bs r d'" "ready s" "tr_of s = t" "dec_of s = d"
  shows "loop s = (case r of Inl e \<Rightarrow> Some (Inl (derr e), upd s t' d')
     | Inr None \<Rightarrow> None | Inr (Some f) \<Rightarrow> Some (Inr f, upd s t' d'))"
  using assms
  supply upd_laws [simp]
proof (induction arbitrary: s d rule: delivers.induct)
  case (delivers_done t)
  then show ?case by (auto elim: feeds.cases)
next
  case (delivers_byte t b t1 bs t')
  from delivers_byte.prems(1) show ?case
  proof cases
    case feeds_last
    with delivers_byte show ?thesis
      by (subst loop_unfold) (auto split: sum.splits option.splits)
  next
    case (feeds_more d1)
    with delivers_byte show ?thesis by (simp add: loop_byte_quiet split: sum.splits option.splits)
  qed
next
  case (delivers_wait t t1 b bs t')
  then show ?case by (simp add: loop_wait split: sum.splits option.splits)
qed

lemma loop_frame:
  "delivers rx (tr_of s) bs t' \<Longrightarrow> feeds step (dec_of s) bs (Inr (Some f)) d' \<Longrightarrow> ready s
   \<Longrightarrow> loop s = Some (Inr f, upd s t' d')"
  by (simp add: loop_delivered)

lemma loop_error:
  "delivers rx (tr_of s) bs t' \<Longrightarrow> feeds step (dec_of s) bs (Inl e) d' \<Longrightarrow> ready s
   \<Longrightarrow> loop s = Some (Inl (derr e), upd s t' d')"
  by (simp add: loop_delivered)

text \<open>Bytes that the decoder passes over only move the loop on.\<close>

lemma loop_quiet:
  assumes "delivers rx t bs t'" "\<forall>b \<in> set bs. step d b = (Inr None, d)" "ready s" "tr_of s = t" "dec_of s = d"
  shows "loop s = loop (upd s t' d)"
  using assms
  supply upd_laws [simp]
proof (induction arbitrary: s rule: delivers.induct)
  case (delivers_done t)
  then have "upd s t d = s" using upd_laws(4) [of s] by simp
  then show ?case by simp
next
  case (delivers_byte t b t1 bs t')
  then have "loop s = loop (upd s t1 d)" by (simp add: loop_byte_quiet)
  with delivers_byte show ?case by simp
next
  case (delivers_wait t t1 b bs t')
  then have "loop s = loop (upd s t1 d)" using loop_wait [of s t1] by simp
  with delivers_wait show ?case by simp
qed

end

text \<open>
  An in-memory transport for the concrete witnesses: the bytes still to be received, and the
  bytes sent so far.
\<close>

definition pipe :: "(u8 list \<times> u8 list) transport" where
  "pipe = \<lparr>send = (\<lambda>(i, out) data. (Inr (length data), (i, out @ data))),
     recv = (\<lambda>(i, out). case i of [] \<Rightarrow> (Inl Closed, (i, out)) | b # bs \<Rightarrow> (Inr (Some b), (bs, out)))\<rparr>"

lemma pipe_delivers: "delivers (recv pipe) (bs @ rest, out) bs (rest, out)"
  by (induction bs) (auto intro: delivers.intros simp: pipe_def)

lemma pipe_delivers_all: "delivers (recv pipe) (bs, out) bs ([], out)"
  using pipe_delivers [of bs "[]" out] by simp

lemma send_pipe [simp]: "send pipe (i, out) data = (Inr (length data), (i, out @ data))"
  by (simp add: pipe_def)

end
