(* ===== verification/Wire_Node.thy ===== *)
theory Wire_Node
  imports Receive_Loop
begin

text \<open>
  The sensor-node side of the protocol, \<^verbatim>\<open>packages/kei/src/wire/node.rs\<close>. The serialiser
  \<open>pc\<close>, the transport \<open>tr\<close> and the device's \<^verbatim>\<open>write_register\<close> are parameters. A sending
  operation returns \<open>Panic\<close> when \<^verbatim>\<open>expect("postcard encode")\<close> fails; a receiving operation
  returns \<open>None\<close> when its loop never ends, which a transport that stays silent can cause.

  The lemmas instantiate the receive-loop contract for the node and describe what
  \<^verbatim>\<open>poll\<close> does with each kind of request that arrives.
\<close>

section \<open>State and operations\<close>

datatype Request =
    ReqReadRegister ReadRegister | ReqWriteRegister WriteRegister
  | ReqReadStation ReadStation | ReqDiscover Discover

record 't Node =
  transport :: 't
  decoder :: FrameDecoder
  station_id :: u16
  rx_buf :: "u8 list"

datatype 'e NodeError =
    Transport TransportError | Postcard 'e | Device DeviceError | Decode DecodeStreamError

definition node_new :: "'t \<Rightarrow> u16 \<Rightarrow> 't Node" where
  "node_new t sid = \<lparr>transport = t, decoder = decoder_new, station_id = sid, rx_buf = []\<rparr>"

definition node_send_frame ::
    "'t transport \<Rightarrow> 't Node \<Rightarrow> MsgType \<Rightarrow> u8 list \<Rightarrow> (TransportError + unit) \<times> 't Node" where
  "node_send_frame tr n m p =
     (case send tr (transport n) (encode_frame m p) of
        (Inl e, t) \<Rightarrow> (Inl e, n\<lparr>transport := t\<rparr>)
      | (Inr _, t) \<Rightarrow> (Inr (), n\<lparr>transport := t\<rparr>))"

definition node_send_telemetry ::
    "'t transport \<Rightarrow> 'e postcard \<Rightarrow> 't Node \<Rightarrow> u16 \<Rightarrow> f32 \<Rightarrow> SensorUnit \<Rightarrow> u64
     \<Rightarrow> ((TransportError + unit) \<times> 't Node) rust" where
  "node_send_telemetry tr pc n register value unit timestamp_ms =
     expect_then (to_allocvec (pc_Telemetry pc)
         \<lparr>tm_station_id = station_id n, tm_register = register, tm_value = value, tm_unit = unit,
          tm_timestamp_ms = timestamp_ms\<rparr>)
       (\<lambda>p. Return (node_send_frame tr n Telemetry p))"

definition node_send_alarm ::
    "'t transport \<Rightarrow> 'e postcard \<Rightarrow> 't Node \<Rightarrow> u16 \<Rightarrow> AlarmLevel \<Rightarrow> string \<Rightarrow> u64
     \<Rightarrow> ((TransportError + unit) \<times> 't Node) rust" where
  "node_send_alarm tr pc n register level message timestamp_ms =
     expect_then (to_allocvec (pc_Alarm pc)
         \<lparr>al_station_id = station_id n, al_register = register, al_level = level,
          al_message = message, al_timestamp_ms = timestamp_ms\<rparr>)
       (\<lambda>p. Return (node_send_frame tr n Alarm p))"

definition node_send_status ::
    "'t transport \<Rightarrow> 'e postcard \<Rightarrow> 't Node \<Rightarrow> NodeState \<Rightarrow> string \<Rightarrow> u64
     \<Rightarrow> ((TransportError + unit) \<times> 't Node) rust" where
  "node_send_status tr pc n s detail timestamp_ms =
     expect_then (to_allocvec (pc_Status pc)
         \<lparr>st_station_id = station_id n, st_state = s, st_detail = detail,
          st_timestamp_ms = timestamp_ms\<rparr>)
       (\<lambda>p. Return (node_send_frame tr n Status p))"

definition node_send_discover_response ::
    "'t transport \<Rightarrow> 'e postcard \<Rightarrow> 't Node \<Rightarrow> string \<Rightarrow> u16
     \<Rightarrow> ((TransportError + unit) \<times> 't Node) rust" where
  "node_send_discover_response tr pc n name register_count =
     expect_then (to_allocvec (pc_DiscoverResponse pc)
         \<lparr>dr_station_id = station_id n, dr_protocol_version = 1, dr_name = name,
          dr_register_count = register_count\<rparr>)
       (\<lambda>p. Return (node_send_frame tr n DiscoverResponse p))"

definition node_send_nack ::
    "'t transport \<Rightarrow> 'e postcard \<Rightarrow> 't Node \<Rightarrow> u16 \<Rightarrow> u16 \<Rightarrow> string
     \<Rightarrow> ((TransportError + unit) \<times> 't Node) rust" where
  "node_send_nack tr pc n _ code msg =
     expect_then (to_allocvec (pc_Nack pc)
         \<lparr>nk_station_id = station_id n, nk_error_code = code, nk_message = msg\<rparr>)
       (\<lambda>p. Return (node_send_frame tr n Nack p))"

partial_function (option) node_recv_frame ::
    "'t transport \<Rightarrow> 't Node \<Rightarrow> (('e NodeError + Frame) \<times> 't Node) option" where
  "node_recv_frame tr n =
     (case (if rx_buf n \<noteq> [] then push_slice (decoder n) (rx_buf n) else (Inr None, decoder n)) of
        (Inl e, d) \<Rightarrow> Some (Inl (Decode e), n\<lparr>decoder := d\<rparr>)
      | (Inr (Some f), d) \<Rightarrow> Some (Inr f, n\<lparr>decoder := d, rx_buf := []\<rparr>)
      | (Inr None, d) \<Rightarrow>
          (case recv tr (transport n) of
             (Inl e, t) \<Rightarrow> Some (Inl (Transport e), n\<lparr>decoder := d, rx_buf := [], transport := t\<rparr>)
           | (Inr None, t) \<Rightarrow> node_recv_frame tr (n\<lparr>decoder := d, rx_buf := [], transport := t\<rparr>)
           | (Inr (Some byte), t) \<Rightarrow>
               (case push_slice d [byte] of
                  (Inl e, d1) \<Rightarrow> Some (Inl (Decode e), n\<lparr>decoder := d1, rx_buf := [], transport := t\<rparr>)
                | (Inr (Some f), d1) \<Rightarrow> Some (Inr f, n\<lparr>decoder := d1, rx_buf := [], transport := t\<rparr>)
                | (Inr None, d1) \<Rightarrow>
                    node_recv_frame tr (n\<lparr>decoder := d1, rx_buf := [], transport := t\<rparr>))))"

text \<open>
  The body of the loop in \<^verbatim>\<open>poll\<close>: what one received frame leads to. \<open>Inl\<close> is a
  \<^verbatim>\<open>continue\<close> with the new node and device, \<open>Inr\<close> leaves the loop.
\<close>

definition poll_frame ::
    "'t transport \<Rightarrow> 'e postcard \<Rightarrow> ('d \<Rightarrow> u16 \<Rightarrow> f32 \<Rightarrow> (DeviceError + unit) \<times> 'd) \<Rightarrow> Frame
     \<Rightarrow> 't Node \<Rightarrow> 'd \<Rightarrow> ('t Node \<times> 'd) + (('e NodeError + Request) \<times> 't Node \<times> 'd) rust" where
  "poll_frame tr pc write_register frame n dev =
     (case msg_type frame of
        ReadRegister \<Rightarrow>
          (case from_bytes (pc_ReadRegister pc) (payload frame) of
             Inl e \<Rightarrow> Inr (Return (Inl (Postcard e), n, dev))
           | Inr req \<Rightarrow>
               if rr_station_id req \<noteq> station_id n then Inl (n, dev)
               else Inr (Return (Inr (ReqReadRegister req), n, dev)))
      | WriteRegister \<Rightarrow>
          (case from_bytes (pc_WriteRegister pc) (payload frame) of
             Inl e \<Rightarrow> Inr (Return (Inl (Postcard e), n, dev))
           | Inr req \<Rightarrow>
               if wr_station_id req \<noteq> station_id n then Inl (n, dev)
               else (case write_register dev (wr_register req) (wr_value req) of
                       (Inr _, dev1) \<Rightarrow> Inl (n, dev1)
                     | (Inl e, dev1) \<Rightarrow>
                         (case node_send_nack tr pc n (wr_register req) 1 ''write failed'' of
                            Panic \<Rightarrow> Inr Panic
                          | Return (Inl te, n2) \<Rightarrow> Inr (Return (Inl (Transport te), n2, dev1))
                          | Return (Inr _, n2) \<Rightarrow> Inr (Return (Inl (Device e), n2, dev1)))))
      | ReadStation \<Rightarrow>
          (case from_bytes (pc_ReadStation pc) (payload frame) of
             Inl e \<Rightarrow> Inr (Return (Inl (Postcard e), n, dev))
           | Inr req \<Rightarrow>
               if rs_station_id req \<noteq> station_id n then Inl (n, dev)
               else Inr (Return (Inr (ReqReadStation req), n, dev)))
      | Discover \<Rightarrow>
          (case from_bytes (pc_Discover pc) (payload frame) of
             Inl e \<Rightarrow> Inr (Return (Inl (Postcard e), n, dev))
           | Inr _ \<Rightarrow> Inr (Return (Inr (ReqDiscover \<lparr>dc_protocol_version = 1\<rparr>), n, dev)))
      | _ \<Rightarrow> Inl (n, dev))"

partial_function (option) poll ::
    "'t transport \<Rightarrow> 'e postcard \<Rightarrow> ('d \<Rightarrow> u16 \<Rightarrow> f32 \<Rightarrow> (DeviceError + unit) \<times> 'd) \<Rightarrow> 't Node \<Rightarrow> 'd
     \<Rightarrow> (('e NodeError + Request) \<times> 't Node \<times> 'd) rust option" where
  "poll tr pc write_register n dev =
     (case node_recv_frame tr n of
        None \<Rightarrow> None
      | Some (Inl e, n1) \<Rightarrow> Some (Return (Inl e, n1, dev))
      | Some (Inr frame, n1) \<Rightarrow>
          (case poll_frame tr pc write_register frame n1 dev of
             Inl (n2, dev2) \<Rightarrow> poll tr pc write_register n2 dev2
           | Inr out \<Rightarrow> Some out))"

text \<open>The local \<^verbatim>\<open>NoDevice\<close> of \<^verbatim>\<open>poll_readonly\<close> rejects every write.\<close>

definition no_device_write :: "unit \<Rightarrow> u16 \<Rightarrow> f32 \<Rightarrow> (DeviceError + unit) \<times> unit" where
  "no_device_write d _ _ = (Inl PermissionDenied, d)"

definition poll_readonly ::
    "'t transport \<Rightarrow> 'e postcard \<Rightarrow> 't Node \<Rightarrow> (('e NodeError + Request) \<times> 't Node \<times> unit) rust option" where
  "poll_readonly tr pc n = poll tr pc no_device_write n ()"

section \<open>The receive loop\<close>

text \<open>A node between frames: nothing is pending in \<^verbatim>\<open>rx_buf\<close> and the decoder is synchronised.\<close>

definition node_idle :: "'t Node \<Rightarrow> bool" where
  "node_idle n \<longleftrightarrow> rx_buf n = [] \<and> decoder n = decoder_new"

lemma node_new_idle [simp]: "node_idle (node_new t sid)"
  by (simp add: node_idle_def node_new_def)

lemma node_new_simps [simp]:
  "transport (node_new t sid) = t" "station_id (node_new t sid) = sid"
  "(node_new t sid)\<lparr>transport := t'\<rparr> = node_new t' sid"
  by (simp_all add: node_new_def)

lemma push_slice_one:
  "push_slice d [b] = push_byte d b"
  by (simp split: prod.splits sum.splits option.splits)

definition node_upd :: "'t Node \<Rightarrow> 't \<Rightarrow> FrameDecoder \<Rightarrow> 't Node" where
  "node_upd n t d = n\<lparr>transport := t, decoder := d\<rparr>"

lemma node_recv_frame_unfold:
  assumes "rx_buf n = []"
  shows "node_recv_frame tr n =
    (case recv tr (transport n) of
       (Inl e, t) \<Rightarrow> Some (Inl (Transport e), node_upd n t (decoder n))
     | (Inr None, t) \<Rightarrow> node_recv_frame tr (node_upd n t (decoder n))
     | (Inr (Some b), t) \<Rightarrow>
         (case push_byte (decoder n) b of
            (Inl e, d) \<Rightarrow> Some (Inl (Decode e), node_upd n t d)
          | (Inr (Some f), d) \<Rightarrow> Some (Inr f, node_upd n t d)
          | (Inr None, d) \<Rightarrow> node_recv_frame tr (node_upd n t d)))"
  using assms
  by (subst node_recv_frame.simps)
    (cases n, simp only: push_slice_one,
      auto simp: node_upd_def split: prod.splits sum.splits option.splits)

interpretation node: receive_loop push_byte "recv tr" transport decoder node_upd
    "\<lambda>n. rx_buf n = []" "node_recv_frame tr" Transport Decode
  by unfold_locales (rule node_recv_frame_unfold, assumption | simp add: node_upd_def)+

text \<open>A frame within the limit that arrives at an idle node is received, and the node is idle again.\<close>

lemma node_recv_frame_delivered:
  assumes "node_idle n" "FRAME_MAGIC \<notin> set g" "length p \<le> MAX_PAYLOAD_LEN"
    and "delivers (recv tr) (transport n) (g @ encode_frame m p) t'"
  shows "node_recv_frame tr n = Some (Inr \<lparr>msg_type = m, payload = p\<rparr>, n\<lparr>transport := t'\<rparr>)"
proof -
  have "feeds push_byte (decoder n) (g @ encode_frame_inner m p)
      (Inr (Some \<lparr>msg_type = m, payload = p\<rparr>)) decoder_new"
    using assms feeds_outline [of MAX_PAYLOAD_LEN "encode_frame_inner m p" g]
    by (simp add: node_idle_def decoder_new_def MAX_PAYLOAD_LEN_def outline_encode event_of_encode)
  moreover have "node_upd n t' decoder_new = n\<lparr>transport := t'\<rparr>"
    using assms(1) by (cases n) (simp add: node_upd_def node_idle_def)
  ultimately show ?thesis
    using assms node.loop_frame [of tr n "g @ encode_frame_inner m p" t'
        "\<lparr>msg_type = m, payload = p\<rparr>" decoder_new]
    by (simp add: node_idle_def encode_frame_within_limit)
qed

lemma poll_delivered:
  assumes "node_idle n" "FRAME_MAGIC \<notin> set g" "length p \<le> MAX_PAYLOAD_LEN"
    and "delivers (recv tr) (transport n) (g @ encode_frame m p) t'"
  shows "poll tr pc wr n dev =
    (case poll_frame tr pc wr \<lparr>msg_type = m, payload = p\<rparr> (n\<lparr>transport := t'\<rparr>) dev of
       Inl (n2, dev2) \<Rightarrow> poll tr pc wr n2 dev2
     | Inr out \<Rightarrow> Some out)"
  by (subst poll.simps) (simp add: node_recv_frame_delivered [OF assms])

section \<open>Serving requests\<close>

text \<open>
  A read request reaches the application: when the transport delivers a frame that
  carries a serialised \<^verbatim>\<open>ReadRegister\<close>, after any noise free of the magic byte, to a node
  between frames, \<^verbatim>\<open>poll\<close> returns that request if it names the node's station, and otherwise
  goes on polling from the point right after the frame. The node is between frames again and
  the device is untouched.
\<close>

lemma poll_read_request:
  assumes "node_idle n" "encodes (pc_ReadRegister pc) req bs"
    and "FRAME_MAGIC \<notin> set g" "length bs \<le> MAX_PAYLOAD_LEN"
    and "delivers (recv tr) (transport n) (g @ encode_frame ReadRegister bs) t'"
  shows "node_idle (n\<lparr>transport := t'\<rparr>)
    \<and> poll tr pc wr n dev =
        (if rr_station_id req = station_id n
         then Some (Return (Inr (ReqReadRegister req), n\<lparr>transport := t'\<rparr>, dev))
         else poll tr pc wr (n\<lparr>transport := t'\<rparr>) dev)"
  using assms poll_delivered [OF assms(1,3,4,5), of pc wr dev]
  by (auto simp: poll_frame_def encodes_def node_idle_def)

lemma poll_read_request_witness:
  "poll pipe sample_postcard no_device_write
     (node_new (encode_frame ReadRegister [7, 0, 2, 0], []) 7) ()
   = Some (Return (Inr (ReqReadRegister \<lparr>rr_station_id = 7, rr_register = 2\<rparr>), node_new ([], []) 7, ()))"
  using poll_read_request [of "node_new (encode_frame ReadRegister [7, 0, 2, 0], []) 7"
      sample_postcard "\<lparr>rr_station_id = 7, rr_register = 2\<rparr>" "[7, 0, 2, 0]" "[]" pipe "([], [])"
      no_device_write "()"]
    encodes_read_register_codec [of "\<lparr>rr_station_id = 7, rr_register = 2\<rparr>"]
  by (simp add: MAX_PAYLOAD_LEN_def u16_to_le_bytes_def
      pipe_delivers_all)

text \<open>
  A write request is dispatched to the device exactly when it names this station. If the
  device accepts it, polling goes on with the new device state. If the device refuses, the
  node sends one Nack frame with error code 1 for its own station and reports the device's
  error, or the transport's error when the Nack cannot be sent.
\<close>

lemma poll_write_request:
  assumes "node_idle n" "encodes (pc_WriteRegister pc) req bs"
    and "FRAME_MAGIC \<notin> set g" "length bs \<le> MAX_PAYLOAD_LEN"
    and "delivers (recv tr) (transport n) (g @ encode_frame WriteRegister bs) t'"
    and "encodes (pc_Nack pc)
      \<lparr>nk_station_id = station_id n, nk_error_code = 1, nk_message = ''write failed''\<rparr> nb"
  shows "poll tr pc wr n dev =
    (if wr_station_id req \<noteq> station_id n then poll tr pc wr (n\<lparr>transport := t'\<rparr>) dev
     else case wr dev (wr_register req) (wr_value req) of
       (Inr _, dev1) \<Rightarrow> poll tr pc wr (n\<lparr>transport := t'\<rparr>) dev1
     | (Inl e, dev1) \<Rightarrow>
         (case send tr t' (encode_frame Nack nb) of
            (Inr _, t2) \<Rightarrow> Some (Return (Inl (Device e), n\<lparr>transport := t2\<rparr>, dev1))
          | (Inl te, t2) \<Rightarrow> Some (Return (Inl (Transport te), n\<lparr>transport := t2\<rparr>, dev1))))"
  using assms poll_delivered [OF assms(1,3,4,5), of pc wr dev]
  by (auto simp: poll_frame_def encodes_def node_send_nack_def node_send_frame_def
      split: prod.splits sum.splits)

lemma poll_write_request_witness:
  "poll pipe sample_postcard no_device_write (node_new (encode_frame WriteRegister [1], []) 7) ()
   = Some (Return (Inl (Device PermissionDenied), node_new ([], encode_frame Nack [1]) 7, ()))"
  using poll_write_request [of "node_new (encode_frame WriteRegister [1], []) 7"
      sample_postcard "\<lparr>wr_station_id = 7, wr_register = 2, wr_value = 0x3F800000\<rparr>" "[1]" "[]" pipe
      "([], [])" "[1]" no_device_write "()"]
  by (simp add: MAX_PAYLOAD_LEN_def no_device_write_def
      pipe_delivers_all)

text \<open>
  Damaged input is reported, not acted on: when bytes with the outline of a frame fail
  to decode, \<^verbatim>\<open>poll\<close> returns the decoding error with the device untouched, and the node is
  between frames again, so the next call starts cleanly after them.
\<close>

lemma poll_reports_damage:
  fixes pc :: "'e postcard"
  assumes "node_idle n" "FRAME_MAGIC \<notin> set g" "outline MAX_PAYLOAD_LEN w" "decode_frame w = Inl e"
    and "delivers (recv tr) (transport n) (g @ w) t'"
  shows "poll tr pc wr n dev
      = Some (Return (Inl (Decode (DecodeFailed e)), n\<lparr>transport := t'\<rparr>, dev))
    \<and> node_idle (n\<lparr>transport := t'\<rparr>)"
proof -
  have "feeds push_byte (decoder n) (g @ w) (Inl (DecodeFailed e)) decoder_new"
    using assms feeds_outline [of MAX_PAYLOAD_LEN w g]
    by (simp add: node_idle_def decoder_new_def event_of_def decode_frame_def)
  then have "node_recv_frame tr n
      = Some (Inl (Decode (DecodeFailed e) :: 'e NodeError), node_upd n t' decoder_new)"
    using assms node.loop_error [of tr n "g @ w" t'] by (simp add: node_idle_def)
  moreover have "node_upd n t' decoder_new = n\<lparr>transport := t'\<rparr>"
    using assms(1) by (cases n) (simp add: node_upd_def node_idle_def)
  ultimately show ?thesis
    using assms(1) by (subst poll.simps) (simp add: node_idle_def)
qed

lemma poll_reports_damage_witness:
  "poll pipe sample_postcard no_device_write
     (node_new ([3, 9] @ [FRAME_MAGIC, 0, 0, 0xEE, 0, 0], []) 7) ()
   = Some (Return (Inl (Decode (DecodeFailed UnknownMsgType)), node_new ([], []) 7, ()))"
  using poll_reports_damage [of "node_new ([3, 9] @ [FRAME_MAGIC, 0, 0, 0xEE, 0, 0], []) 7" "[3, 9]"
      "[FRAME_MAGIC, 0, 0, 0xEE, 0, 0]" UnknownMsgType pipe "([], [])" sample_postcard no_device_write "()"]
    pipe_delivers_all [of "[3, 9] @ [FRAME_MAGIC, 0, 0, 0xEE, 0, 0]" "[]"]
  by (simp add: outline_def announced_def u16_from_le_bytes_def decode_frame_def
      decode_frame_with_limit_def from_u8_def wire_defs)

end
