(* ===== verification/Wire_Gateway.thy ===== *)
theory Wire_Gateway
  imports Receive_Loop
begin

text \<open>
  The gateway side of the protocol, \<^verbatim>\<open>packages/kei/src/wire/gateway.rs\<close>, over the same
  parameters as the node. Unlike the node, the gateway's receive loop ignores every decoding
  error and \<^verbatim>\<open>recv\<close> ignores every frame that is not a node's message.

  The lemmas instantiate the receive-loop contract for the gateway and show which frame ends
  a call of \<^verbatim>\<open>recv\<close>, whatever arrives before it.
\<close>

section \<open>State and operations\<close>

datatype Incoming =
    InTelemetry Telemetry | InAlarm Alarm | InStatus Status
  | InDiscoverResponse DiscoverResponse | InNack Nack

record 't Gateway =
  gw_transport :: 't
  gw_decoder :: FrameDecoder

datatype 'e GatewayError = Transport TransportError | Postcard 'e

definition gateway_new :: "'t \<Rightarrow> 't Gateway" where
  "gateway_new t = \<lparr>gw_transport = t, gw_decoder = decoder_new\<rparr>"

definition gateway_send_frame ::
    "'t transport \<Rightarrow> 't Gateway \<Rightarrow> MsgType \<Rightarrow> u8 list \<Rightarrow> (TransportError + unit) \<times> 't Gateway" where
  "gateway_send_frame tr g m p =
     (case send tr (gw_transport g) (encode_frame m p) of
        (Inl e, t) \<Rightarrow> (Inl e, g\<lparr>gw_transport := t\<rparr>)
      | (Inr _, t) \<Rightarrow> (Inr (), g\<lparr>gw_transport := t\<rparr>))"

definition send_read_register ::
    "'t transport \<Rightarrow> 'e postcard \<Rightarrow> 't Gateway \<Rightarrow> u16 \<Rightarrow> u16
     \<Rightarrow> ((TransportError + unit) \<times> 't Gateway) rust" where
  "send_read_register tr pc g station_id register =
     expect_then (to_allocvec (pc_ReadRegister pc)
         \<lparr>rr_station_id = station_id, rr_register = register\<rparr>)
       (\<lambda>p. Return (gateway_send_frame tr g ReadRegister p))"

definition send_write_register ::
    "'t transport \<Rightarrow> 'e postcard \<Rightarrow> 't Gateway \<Rightarrow> u16 \<Rightarrow> u16 \<Rightarrow> f32
     \<Rightarrow> ((TransportError + unit) \<times> 't Gateway) rust" where
  "send_write_register tr pc g station_id register value =
     expect_then (to_allocvec (pc_WriteRegister pc)
         \<lparr>wr_station_id = station_id, wr_register = register, wr_value = value\<rparr>)
       (\<lambda>p. Return (gateway_send_frame tr g WriteRegister p))"

definition send_read_station ::
    "'t transport \<Rightarrow> 'e postcard \<Rightarrow> 't Gateway \<Rightarrow> u16 \<Rightarrow> ((TransportError + unit) \<times> 't Gateway) rust" where
  "send_read_station tr pc g station_id =
     expect_then (to_allocvec (pc_ReadStation pc) \<lparr>rs_station_id = station_id\<rparr>)
       (\<lambda>p. Return (gateway_send_frame tr g ReadStation p))"

definition send_discover ::
    "'t transport \<Rightarrow> 'e postcard \<Rightarrow> 't Gateway \<Rightarrow> ((TransportError + unit) \<times> 't Gateway) rust" where
  "send_discover tr pc g =
     expect_then (to_allocvec (pc_Discover pc) \<lparr>dc_protocol_version = 1\<rparr>)
       (\<lambda>p. Return (gateway_send_frame tr g Discover p))"

partial_function (option) gateway_recv_frame ::
    "'t transport \<Rightarrow> 't Gateway \<Rightarrow> (('e GatewayError + Frame) \<times> 't Gateway) option" where
  "gateway_recv_frame tr g =
     (case recv tr (gw_transport g) of
        (Inl e, t) \<Rightarrow> Some (Inl (Transport e), g\<lparr>gw_transport := t\<rparr>)
      | (Inr None, t) \<Rightarrow> gateway_recv_frame tr (g\<lparr>gw_transport := t\<rparr>)
      | (Inr (Some byte), t) \<Rightarrow>
          (case push (gw_decoder g) byte of
             (Inr frame, d) \<Rightarrow> Some (Inr frame, g\<lparr>gw_transport := t, gw_decoder := d\<rparr>)
           | (Inl _, d) \<Rightarrow> gateway_recv_frame tr (g\<lparr>gw_transport := t, gw_decoder := d\<rparr>)))"

text \<open>The match of \<^verbatim>\<open>recv\<close> on a received frame; \<open>None\<close> is the arm that retries.\<close>

definition gateway_incoming :: "'e postcard \<Rightarrow> Frame \<Rightarrow> ('e GatewayError + Incoming) option" where
  "gateway_incoming pc frame =
     (case msg_type frame of
        Telemetry \<Rightarrow> Some (case from_bytes (pc_Telemetry pc) (payload frame) of
            Inl e \<Rightarrow> Inl (Postcard e) | Inr t \<Rightarrow> Inr (InTelemetry t))
      | Alarm \<Rightarrow> Some (case from_bytes (pc_Alarm pc) (payload frame) of
            Inl e \<Rightarrow> Inl (Postcard e) | Inr a \<Rightarrow> Inr (InAlarm a))
      | Status \<Rightarrow> Some (case from_bytes (pc_Status pc) (payload frame) of
            Inl e \<Rightarrow> Inl (Postcard e) | Inr s \<Rightarrow> Inr (InStatus s))
      | DiscoverResponse \<Rightarrow> Some (case from_bytes (pc_DiscoverResponse pc) (payload frame) of
            Inl e \<Rightarrow> Inl (Postcard e) | Inr d \<Rightarrow> Inr (InDiscoverResponse d))
      | Nack \<Rightarrow> Some (case from_bytes (pc_Nack pc) (payload frame) of
            Inl e \<Rightarrow> Inl (Postcard e) | Inr n \<Rightarrow> Inr (InNack n))
      | _ \<Rightarrow> None)"

partial_function (option) gateway_recv ::
    "'t transport \<Rightarrow> 'e postcard \<Rightarrow> 't Gateway \<Rightarrow> (('e GatewayError + Incoming) \<times> 't Gateway) option" where
  "gateway_recv tr pc g =
     (case gateway_recv_frame tr g of
        None \<Rightarrow> None
      | Some (Inl e, g1) \<Rightarrow> Some (Inl e, g1)
      | Some (Inr frame, g1) \<Rightarrow>
          (case gateway_incoming pc frame of
             Some r \<Rightarrow> Some (r, g1)
           | None \<Rightarrow> gateway_recv tr pc g1))"

section \<open>The receive loop\<close>

definition gateway_idle :: "'t Gateway \<Rightarrow> bool" where
  "gateway_idle g \<longleftrightarrow> gw_decoder g = decoder_new"

text \<open>The decoder as the gateway drives it: errors are swallowed.\<close>

definition gateway_step :: "FrameDecoder \<Rightarrow> u8 \<Rightarrow> (unit + Frame option) \<times> FrameDecoder" where
  "gateway_step d b = (case push d b of
     (Inr f, d1) \<Rightarrow> (Inr (Some f), d1) | (Inl _, d1) \<Rightarrow> (Inr None, d1))"

definition gateway_upd :: "'t Gateway \<Rightarrow> 't \<Rightarrow> FrameDecoder \<Rightarrow> 't Gateway" where
  "gateway_upd g t d = g\<lparr>gw_transport := t, gw_decoder := d\<rparr>"

lemma gateway_recv_frame_unfold:
  "gateway_recv_frame tr g =
    (case recv tr (gw_transport g) of
       (Inl e, t) \<Rightarrow> Some (Inl (Transport e), gateway_upd g t (gw_decoder g))
     | (Inr None, t) \<Rightarrow> gateway_recv_frame tr (gateway_upd g t (gw_decoder g))
     | (Inr (Some b), t) \<Rightarrow>
         (case gateway_step (gw_decoder g) b of
            (Inl e, d) \<Rightarrow> Some (Inl (derr e), gateway_upd g t d)
          | (Inr (Some f), d) \<Rightarrow> Some (Inr f, gateway_upd g t d)
          | (Inr None, d) \<Rightarrow> gateway_recv_frame tr (gateway_upd g t d)))"
  by (subst gateway_recv_frame.simps)
    (cases g, auto simp: gateway_upd_def gateway_step_def split: prod.splits sum.splits option.splits)

text \<open>The gateway never reports a decoding error, so the error map is immaterial.\<close>

interpretation gw: receive_loop gateway_step "recv tr" gw_transport gw_decoder gateway_upd
    "\<lambda>_. True" "gateway_recv_frame tr" Transport "\<lambda>_. Transport Io"
  by unfold_locales (rule gateway_recv_frame_unfold | simp add: gateway_upd_def)+

lemma gateway_recv_cong:
  fixes pc :: "'e postcard"
  assumes "(gateway_recv_frame tr g :: (('e GatewayError + Frame) \<times> _) option) = gateway_recv_frame tr g1"
  shows "gateway_recv tr pc g = gateway_recv tr pc g1"
  unfolding gateway_recv.simps [of tr pc g] gateway_recv.simps [of tr pc g1] assms ..

lemma gateway_recv_retry:
  fixes pc :: "'e postcard"
  assumes "gateway_recv_frame tr g = Some (Inr f :: 'e GatewayError + Frame, g1)" "gateway_incoming pc f = None"
  shows "gateway_recv tr pc g = gateway_recv tr pc g1"
  unfolding gateway_recv.simps [of tr pc g] assms(1) by (simp add: assms(2))

text \<open>
  Bytes in which every frame that completes is one the gateway ignores only move \<^verbatim>\<open>recv\<close> on;
  noise and damaged frames are such bytes.
\<close>

lemma gateway_recv_skip:
  fixes pc :: "'e postcard"
  assumes "delivers (recv tr) t bs t'" "gw_transport g = t" "gw_decoder g = d"
    and "push_all d bs = (fs, d')" "\<forall>f \<in> set fs. gateway_incoming pc f = None"
  shows "gateway_recv tr pc g = gateway_recv tr pc (gateway_upd g t' d')"
  using assms
proof (induction arbitrary: g d fs rule: delivers.induct)
  case (delivers_done t)
  then have "gateway_upd g t d' = g" by (cases g) (simp add: gateway_upd_def)
  then show ?case by simp
next
  case (delivers_byte t b t1 bs t')
  obtain r d1 where step: "push d b = (r, d1)" by (cases "push d b")
  let ?g1 = "gateway_upd g t1 d1"
  have g1: "gw_transport ?g1 = t1" "gw_decoder ?g1 = d1" "gateway_upd ?g1 t' d' = gateway_upd g t' d'"
    by (simp_all add: gateway_upd_def)
  have "gateway_recv tr pc g = gateway_recv tr pc ?g1"
  proof (cases r)
    case (Inl e)
    then have "gateway_step d b = (Inr None, d1)" by (simp add: step gateway_step_def)
    with delivers_byte show ?thesis
      by (intro gateway_recv_cong gw.loop_byte_quiet) simp_all
  next
    case (Inr f)
    then have "gateway_step d b = (Inr (Some f), d1)" by (simp add: step gateway_step_def)
    with delivers_byte.hyps(1) delivers_byte.prems have
      "gateway_recv_frame tr g = Some (Inr f :: 'e GatewayError + Frame, ?g1)"
      by (subst gw.loop_unfold) simp_all
    moreover have "gateway_incoming pc f = None"
      using delivers_byte.prems step Inr by (auto split: prod.splits)
    ultimately show ?thesis by (rule gateway_recv_retry)
  qed
  moreover obtain fs1 where "push_all d1 bs = (fs1, d')" "set fs1 \<subseteq> set fs"
    using delivers_byte.prems(3) step
    by (cases r) (auto split: prod.splits simp: subset_insertI)
  then have "gateway_recv tr pc ?g1 = gateway_recv tr pc (gateway_upd g t' d')"
    using delivers_byte.IH [OF g1(1,2)] delivers_byte.prems(4) g1(3) by auto
  ultimately show ?case by simp
next
  case (delivers_wait t t1 b bs t')
  let ?g1 = "gateway_upd g t1 d"
  have "gateway_recv tr pc g = gateway_recv tr pc ?g1"
    using delivers_wait.hyps(1) delivers_wait.prems(1,2) gw.loop_wait [of tr g t1]
    by (intro gateway_recv_cong) simp
  moreover have "gateway_upd ?g1 t' d' = gateway_upd g t' d'"
    by (simp add: gateway_upd_def)
  ultimately show ?case
    using delivers_wait.IH [of ?g1 d fs] delivers_wait.prems by (simp add: gateway_upd_def)
qed

lemma feeds_push_byte_gateway:
  "feeds push_byte d bs r d' \<Longrightarrow> r = Inr (Some f) \<Longrightarrow> feeds gateway_step d bs (Inr (Some f)) d'"
proof (induction rule: feeds.induct)
  case (feeds_last d b r d')
  then show ?case by (intro feeds.feeds_last) (simp_all add: gateway_step_def push_def)
next
  case (feeds_more d b d1 bs r d')
  then have "gateway_step d b = (Inr None, d1)" by (simp add: gateway_step_def push_def)
  with feeds_more show ?case by (intro feeds.feeds_more)
qed

text \<open>A node's message that arrives at an idle gateway ends \<^verbatim>\<open>recv\<close>, and the gateway is idle again.\<close>

lemma gateway_recv_delivered:
  fixes pc :: "'e postcard"
  assumes "gateway_idle g" "length p \<le> MAX_PAYLOAD_LEN"
    and "gateway_incoming pc \<lparr>msg_type = m, payload = p\<rparr> = Some r"
    and "delivers (recv tr) (gw_transport g) (encode_frame m p) t'"
  shows "gateway_recv tr pc g = Some (r, g\<lparr>gw_transport := t'\<rparr>)"
proof -
  have "feeds push_byte decoder_new (encode_frame_inner m p)
      (Inr (Some \<lparr>msg_type = m, payload = p\<rparr>)) decoder_new"
    using assms(2) feeds_outline [of MAX_PAYLOAD_LEN "encode_frame_inner m p" "[]"]
    by (simp add: decoder_new_def MAX_PAYLOAD_LEN_def outline_encode event_of_encode)
  then have "feeds gateway_step (gw_decoder g) (encode_frame m p)
      (Inr (Some \<lparr>msg_type = m, payload = p\<rparr>)) decoder_new"
    using assms(1,2) by (simp add: feeds_push_byte_gateway gateway_idle_def encode_frame_within_limit)
  then have "gateway_recv_frame tr g =
      Some (Inr \<lparr>msg_type = m, payload = p\<rparr> :: 'e GatewayError + Frame, gateway_upd g t' decoder_new)"
    using assms(4) by (intro gw.loop_frame) simp_all
  moreover have "gateway_upd g t' decoder_new = g\<lparr>gw_transport := t'\<rparr>"
    using assms(1) by (cases g) (simp add: gateway_upd_def gateway_idle_def)
  ultimately show ?thesis by (simp add: gateway_recv.simps [of tr pc g] assms(3))
qed

text \<open>
  The gateway finds the next message behind any junk: if the bytes before it (noise,
  damaged frames, misrouted requests) complete no node message and leave the decoder
  synchronised, then \<^verbatim>\<open>recv\<close> skips all of them and returns exactly what deserialising the
  frame behind them gives, leaving the gateway synchronised right after that frame.
\<close>

lemma gateway_recv_after_junk:
  fixes pc :: "'e postcard"
  assumes "gateway_idle g" "push_all decoder_new junk = (fs, decoder_new)"
    and "\<forall>f \<in> set fs. gateway_incoming pc f = None"
    and "length p \<le> MAX_PAYLOAD_LEN" "gateway_incoming pc \<lparr>msg_type = m, payload = p\<rparr> = Some r"
    and "delivers (recv tr) (gw_transport g) (junk @ encode_frame m p) t'"
  shows "gateway_recv tr pc g = Some (r, g\<lparr>gw_transport := t'\<rparr>)"
proof -
  obtain t1 where t1: "delivers (recv tr) (gw_transport g) junk t1"
    "delivers (recv tr) t1 (encode_frame m p) t'"
    using assms(6) by (auto simp: delivers_append)
  let ?g1 = "gateway_upd g t1 decoder_new"
  have "gateway_recv tr pc g = gateway_recv tr pc ?g1"
    using gateway_recv_skip [OF t1(1) refl refl, of fs decoder_new pc] assms by (simp add: gateway_idle_def)
  also have "\<dots> = Some (r, ?g1\<lparr>gw_transport := t'\<rparr>)"
    using assms(4,5) t1(2) by (intro gateway_recv_delivered) (simp_all add: gateway_idle_def gateway_upd_def)
  also have "?g1\<lparr>gw_transport := t'\<rparr> = g\<lparr>gw_transport := t'\<rparr>"
    using assms(1) by (cases g) (simp add: gateway_upd_def gateway_idle_def)
  finally show ?thesis .
qed

lemma gateway_recv_after_junk_witness:
  "gateway_recv pipe sample_postcard
     (gateway_new ([0, 1] @ encode_frame ReadStation [9] @ encode_frame Telemetry [1], []))
   = Some (Inr (InTelemetry \<lparr>tm_station_id = 7, tm_register = 2, tm_value = 0x3F800000,
       tm_unit = Celsius, tm_timestamp_ms = 5\<rparr>), gateway_new ([], []))"
  using gateway_recv_after_junk [of "gateway_new ([0, 1] @ encode_frame ReadStation [9] @ encode_frame Telemetry [1], [])"
      "[0, 1] @ encode_frame ReadStation [9]" "[\<lparr>msg_type = ReadStation, payload = [9]\<rparr>]"
      sample_postcard "[1]" Telemetry _ pipe "([], [])"]
    pipe_delivers_all [of "[0, 1] @ encode_frame ReadStation [9] @ encode_frame Telemetry [1]" "[]"]
    push_all_encode [of "[9]" 1024 ReadStation]
  by (simp add: gateway_new_def gateway_idle_def gateway_incoming_def sample_codec_def
      push_def push_byte_sync decoder_new_def encode_frame_def wire_defs)

end
