(* ===== verification/Rust_Float.thy ===== *)
theory Rust_Float
  imports Kei_Prelude
begin

text \<open>
  The \<^verbatim>\<open>f32\<close> and \<^verbatim>\<open>f64\<close> arithmetic of the language, as IEEE 754 binary formats rounded to
  nearest, ties to even, and executable. A finite number is an integer multiple of the least
  positive subnormal of its format, so a value is a sign and a natural number and every exact
  result is a fraction of natural numbers; \<open>fp_round\<close> is the one rounding function of all
  operations. The bits of a NaN that an operation produces are those of the default quiet NaN,
  which is one of the choices the language leaves open.

  The lemmas show that rounding is exact on representable numbers and monotone, so that the
  conversion to bits and back loses nothing.
\<close>

section \<open>Formats and rounding\<close>

record fmt =
  prec :: nat
  emax :: nat

definition F32 :: fmt where "F32 = \<lparr>prec = 24, emax = 255\<rparr>"
definition F64 :: fmt where "F64 = \<lparr>prec = 53, emax = 2047\<rparr>"

text \<open>The magnitude bits of infinity, and the exponent of the unit: the value 1 is \<open>2 ^ unit_exp\<close> units.\<close>

definition inf_mag :: "fmt \<Rightarrow> nat" where
  "inf_mag f = emax f * 2 ^ (prec f - 1)"

definition unit_exp :: "fmt \<Rightarrow> nat" where
  "unit_exp f = emax f div 2 + prec f - 2"

text \<open>
  The magnitude bits nearest to the quotient of two numbers of units. The exponent and the
  significand fields are adjacent, so a carry out of the significand is the next exponent and
  an overflow is the pattern of infinity.
\<close>

definition fp_round :: "fmt \<Rightarrow> nat \<Rightarrow> nat \<Rightarrow> nat" where
  "fp_round f num den =
     (let j = bit_len (num div den) - prec f;
          d = den * 2 ^ j;
          q = num div d;
          r = num mod d;
          q' = (if d < 2 * r \<or> d = 2 * r \<and> odd q then Suc q else q)
      in min (inf_mag f) (j * 2 ^ (prec f - 1) + q'))"

definition fp_num :: "fmt \<Rightarrow> nat \<Rightarrow> nat" where
  "fp_num f m =
     (let e = m div 2 ^ (prec f - 1); s = m mod 2 ^ (prec f - 1)
      in if e = 0 then s else (2 ^ (prec f - 1) + s) * 2 ^ (e - 1))"

text \<open>Every finite magnitude is the rounding of its own value.\<close>

lemma fp_round_num:
  assumes "m < inf_mag f" "0 < prec f"
  shows "fp_round f (fp_num f m) 1 = m"
proof -
  define k where "k = prec f - 1"
  define e where "e = m div 2 ^ k"
  define s where "s = m mod 2 ^ k"
  have p: "prec f = Suc k" and k: "prec f - Suc 0 = k" using assms(2) by (simp_all add: k_def)
  have s: "s < 2 ^ k" and m: "m = e * 2 ^ k + s" by (simp_all add: s_def e_def div_mult_mod_eq)
  show ?thesis
  proof (cases "e = 0")
    case True
    then have ms: "m = s" using m by simp
    then have "fp_num f m = m" "m < 2 ^ k" using s by (simp_all add: fp_num_def k)
    moreover have "bit_len m - prec f = 0" using \<open>m < 2 ^ k\<close> bit_len_le_iff [of m k] p by simp
    ultimately show ?thesis using assms by (simp add: fp_round_def Let_def)
  next
    case False
    then obtain i where i: "e = Suc i" by (cases e) auto
    let ?n = "2 ^ k + s"
    have num: "fp_num f m = ?n * 2 ^ i"
      using False i by (simp add: fp_num_def k e_def [symmetric] s_def [symmetric])
    have "bit_len (?n * 2 ^ i) = Suc k + i" using s by (intro bit_len_scale) simp_all
    then have "bit_len (fp_num f m) - prec f = i" unfolding num p by linarith
    moreover have "fp_num f m div 2 ^ i = ?n" "fp_num f m mod 2 ^ i = 0" unfolding num by simp_all
    moreover have "i * 2 ^ k + ?n = m" unfolding m i by simp
    ultimately show ?thesis using assms
      by (simp add: fp_round_def Let_def k)
  qed
qed

section \<open>Values and operations\<close>

datatype fp = Fin bool nat | Inf bool | NaN

definition fp_rnd :: "fmt \<Rightarrow> bool \<Rightarrow> nat \<Rightarrow> nat \<Rightarrow> fp" where
  "fp_rnd f s num den =
     (let m = fp_round f num den in if m < inf_mag f then Fin s (fp_num f m) else Inf s)"

definition signed :: "bool \<Rightarrow> nat \<Rightarrow> int" where
  "signed s n = (if s then - int n else int n)"

fun fp_neg :: "fp \<Rightarrow> fp" where
  "fp_neg (Fin s n) = Fin (\<not> s) n"
| "fp_neg (Inf s) = Inf (\<not> s)"
| "fp_neg NaN = NaN"

fun fp_add :: "fmt \<Rightarrow> fp \<Rightarrow> fp \<Rightarrow> fp" where
  "fp_add f (Fin s m) (Fin t n) =
     (let z = signed s m + signed t n
      in if z = 0 then Fin (s \<and> t) 0 else fp_rnd f (z < 0) (nat \<bar>z\<bar>) 1)"
| "fp_add f (Inf s) (Inf t) = (if s = t then Inf s else NaN)"
| "fp_add f (Inf s) (Fin _ _) = Inf s"
| "fp_add f (Fin _ _) (Inf t) = Inf t"
| "fp_add f _ _ = NaN"

definition fp_sub :: "fmt \<Rightarrow> fp \<Rightarrow> fp \<Rightarrow> fp" where
  "fp_sub f x y = fp_add f x (fp_neg y)"

fun fp_mul :: "fmt \<Rightarrow> fp \<Rightarrow> fp \<Rightarrow> fp" where
  "fp_mul f (Fin s m) (Fin t n) = fp_rnd f (s \<noteq> t) (m * n) (2 ^ unit_exp f)"
| "fp_mul f (Inf s) (Fin t n) = (if n = 0 then NaN else Inf (s \<noteq> t))"
| "fp_mul f (Fin s m) (Inf t) = (if m = 0 then NaN else Inf (s \<noteq> t))"
| "fp_mul f (Inf s) (Inf t) = Inf (s \<noteq> t)"
| "fp_mul f _ _ = NaN"

fun fp_div :: "fmt \<Rightarrow> fp \<Rightarrow> fp \<Rightarrow> fp" where
  "fp_div f (Fin s m) (Fin t n) =
     (if n = 0 then (if m = 0 then NaN else Inf (s \<noteq> t)) else fp_rnd f (s \<noteq> t) (m * 2 ^ unit_exp f) n)"
| "fp_div f (Inf s) (Fin t n) = Inf (s \<noteq> t)"
| "fp_div f (Fin s m) (Inf t) = Fin (s \<noteq> t) 0"
| "fp_div f _ _ = NaN"

text \<open>The comparisons; a NaN is not comparable to anything and the two zeros are equal.\<close>

fun fp_le :: "fp \<Rightarrow> fp \<Rightarrow> bool" where
  "fp_le (Fin s m) (Fin t n) \<longleftrightarrow> signed s m \<le> signed t n"
| "fp_le (Inf s) (Fin _ _) \<longleftrightarrow> s"
| "fp_le (Fin _ _) (Inf t) \<longleftrightarrow> \<not> t"
| "fp_le (Inf s) (Inf t) \<longleftrightarrow> s \<or> \<not> t"
| "fp_le _ _ \<longleftrightarrow> False"

definition fp_lt :: "fp \<Rightarrow> fp \<Rightarrow> bool" where
  "fp_lt x y \<longleftrightarrow> fp_le x y \<and> \<not> fp_le y x"

definition fp_eq :: "fp \<Rightarrow> fp \<Rightarrow> bool" where
  "fp_eq x y \<longleftrightarrow> fp_le x y \<and> fp_le y x"

fun fp_abs :: "fp \<Rightarrow> fp" where
  "fp_abs (Fin _ n) = Fin False n"
| "fp_abs (Inf _) = Inf False"
| "fp_abs NaN = NaN"

section \<open>Bit patterns\<close>

definition fp_decode :: "fmt \<Rightarrow> nat \<Rightarrow> fp" where
  "fp_decode f w =
     (let top = (emax f + 1) * 2 ^ (prec f - 1); s = (top \<le> w); m = w mod top
      in if m < inf_mag f then Fin s (fp_num f m) else if m = inf_mag f then Inf s else NaN)"

fun fp_encode :: "fmt \<Rightarrow> fp \<Rightarrow> nat" where
  "fp_encode f (Fin s n) = (if s then (emax f + 1) * 2 ^ (prec f - 1) else 0) + fp_round f n 1"
| "fp_encode f (Inf s) = (if s then (emax f + 1) * 2 ^ (prec f - 1) else 0) + inf_mag f"
| "fp_encode f NaN = inf_mag f + 2 ^ (prec f - 2)"

text \<open>The values of a format: the finite ones are those of a magnitude below infinity.\<close>

fun fp_of :: "fmt \<Rightarrow> fp \<Rightarrow> bool" where
  "fp_of f (Fin _ n) \<longleftrightarrow> (\<exists>m < inf_mag f. n = fp_num f m)"
| "fp_of f _ \<longleftrightarrow> True"

lemma fp_of_decode: "fp_of f (fp_decode f w)"
  by (auto simp: fp_decode_def Let_def)

lemma fp_of_rnd [simp]: "fp_of f (fp_rnd f s num den)"
  by (auto simp: fp_rnd_def Let_def)

lemma fp_rnd_exact:
  "fp_of f (Fin s n) \<Longrightarrow> 0 < prec f \<Longrightarrow> fp_rnd f t n 1 = Fin t n"
  using fp_round_num [of _ f] by (auto simp: fp_rnd_def)

lemma fp_round_le: "fp_round f num den \<le> inf_mag f"
  by (simp add: fp_round_def Let_def)

text \<open>Encoding and decoding are inverse on the values of a format.\<close>

lemma decode_mag:
  assumes "m < (emax f + 1) * 2 ^ (prec f - 1)"
  shows "fp_decode f ((if s then (emax f + 1) * 2 ^ (prec f - 1) else 0) + m) =
    (if m < inf_mag f then Fin s (fp_num f m) else if m = inf_mag f then Inf s else NaN)"
proof -
  let ?t = "(emax f + 1) * 2 ^ (prec f - 1) :: nat"
  have "((if s then ?t else 0) + m) mod ?t = m" "?t \<le> (if s then ?t else 0) + m \<longleftrightarrow> s"
    using assms by (simp_all del: add_mult_distrib mult_Suc)
  then show ?thesis unfolding fp_decode_def Let_def by presburger
qed

lemma fp_decode_encode:
  assumes "fp_of f x" "1 < prec f"
  shows "fp_decode f (fp_encode f x) = x"
proof -
  let ?t = "(emax f + 1) * 2 ^ (prec f - 1) :: nat"
  have inf: "inf_mag f < ?t" by (simp add: inf_mag_def)
  have "(2::nat) ^ (prec f - 2) < 2 ^ (prec f - 1)" using assms(2) by (intro power_strict_increasing) auto
  then have nan: "inf_mag f + 2 ^ (prec f - 2) < ?t" by (simp add: inf_mag_def)
  show ?thesis
  proof (cases x)
    case (Fin s n)
    then obtain m where m: "m < inf_mag f" "n = fp_num f m" using assms(1) by auto
    then have "fp_round f n 1 = m" using fp_round_num [of m f] assms(2) by simp
    with Fin m inf show ?thesis using decode_mag [of m f s] by simp
  next
    case (Inf s)
    with inf show ?thesis using decode_mag [of "inf_mag f" f s] by simp
  next
    case NaN
    with nan show ?thesis using decode_mag [of "inf_mag f + 2 ^ (prec f - 2)" f False] by simp
  qed
qed

lemma fp_encode_less:
  assumes "fp_of f x" "1 < prec f"
  shows "fp_encode f x < 2 * ((emax f + 1) * 2 ^ (prec f - 1))"
proof -
  let ?t = "(emax f + 1) * 2 ^ (prec f - 1) :: nat"
  have "(2::nat) ^ (prec f - 2) < 2 ^ (prec f - 1)" using assms(2) by (intro power_strict_increasing) auto
  then have nan: "inf_mag f + 2 ^ (prec f - 2) < ?t" by (simp add: inf_mag_def)
  have rnd: "fp_round f n 1 < ?t" for n using fp_round_le [of f n 1] nan by linarith
  show ?thesis
  proof (cases x)
    case (Fin s n)
    have "fp_encode f x \<le> ?t + fp_round f n 1" using Fin by simp
    with rnd [of n] show ?thesis by linarith
  next
    case (Inf s)
    have "fp_encode f x \<le> ?t + inf_mag f" using Inf by simp
    with nan show ?thesis by linarith
  next
    case NaN
    with nan show ?thesis by simp
  qed
qed

text \<open>The two formats of the language, as operations on bit patterns.\<close>

definition f32_fp :: "f32 \<Rightarrow> fp" where "f32_fp w = fp_decode F32 (unat w)"
definition fp_f32 :: "fp \<Rightarrow> f32" where "fp_f32 x = word_of_nat (fp_encode F32 x)"
definition f64_fp :: "f64 \<Rightarrow> fp" where "f64_fp w = fp_decode F64 (unat w)"
definition fp_f64 :: "fp \<Rightarrow> f64" where "fp_f64 x = word_of_nat (fp_encode F64 x)"

lemma fp_of_f32 [simp]: "fp_of F32 (f32_fp w)" by (simp add: f32_fp_def fp_of_decode)
lemma fp_of_f64 [simp]: "fp_of F64 (f64_fp w)" by (simp add: f64_fp_def fp_of_decode)

lemma f32_fp_f32 [simp]: "fp_of F32 x \<Longrightarrow> f32_fp (fp_f32 x) = x"
  using fp_encode_less [of F32 x] fp_decode_encode [of F32 x]
  by (simp add: f32_fp_def fp_f32_def F32_def unat_of_nat take_bit_eq_mod)

lemma f64_fp_f64 [simp]: "fp_of F64 x \<Longrightarrow> f64_fp (fp_f64 x) = x"
  using fp_encode_less [of F64 x] fp_decode_encode [of F64 x]
  by (simp add: f64_fp_def fp_f64_def F64_def unat_of_nat take_bit_eq_mod)

definition f32_add :: "f32 \<Rightarrow> f32 \<Rightarrow> f32" where "f32_add a b = fp_f32 (fp_add F32 (f32_fp a) (f32_fp b))"
definition f32_sub :: "f32 \<Rightarrow> f32 \<Rightarrow> f32" where "f32_sub a b = fp_f32 (fp_sub F32 (f32_fp a) (f32_fp b))"
definition f32_mul :: "f32 \<Rightarrow> f32 \<Rightarrow> f32" where "f32_mul a b = fp_f32 (fp_mul F32 (f32_fp a) (f32_fp b))"
definition f32_div :: "f32 \<Rightarrow> f32 \<Rightarrow> f32" where "f32_div a b = fp_f32 (fp_div F32 (f32_fp a) (f32_fp b))"
definition f32_le :: "f32 \<Rightarrow> f32 \<Rightarrow> bool" where "f32_le a b = fp_le (f32_fp a) (f32_fp b)"
definition f32_lt :: "f32 \<Rightarrow> f32 \<Rightarrow> bool" where "f32_lt a b = fp_lt (f32_fp a) (f32_fp b)"
definition f32_eq :: "f32 \<Rightarrow> f32 \<Rightarrow> bool" where "f32_eq a b = fp_eq (f32_fp a) (f32_fp b)"
definition f32_abs :: "f32 \<Rightarrow> f32" where "f32_abs a = fp_f32 (fp_abs (f32_fp a))"
definition f64_add :: "f64 \<Rightarrow> f64 \<Rightarrow> f64" where "f64_add a b = fp_f64 (fp_add F64 (f64_fp a) (f64_fp b))"
definition f64_mul :: "f64 \<Rightarrow> f64 \<Rightarrow> f64" where "f64_mul a b = fp_f64 (fp_mul F64 (f64_fp a) (f64_fp b))"

text \<open>The casts between the formats and from and to integers.\<close>

fun fp_cast :: "fmt \<Rightarrow> fmt \<Rightarrow> fp \<Rightarrow> fp" where
  "fp_cast f g (Fin s n) = fp_rnd g s (n * 2 ^ unit_exp g) (2 ^ unit_exp f)"
| "fp_cast f g (Inf s) = Inf s"
| "fp_cast f g NaN = NaN"

definition f32_as_f64 :: "f32 \<Rightarrow> f64" where "f32_as_f64 a = fp_f64 (fp_cast F32 F64 (f32_fp a))"
definition f64_as_f32 :: "f64 \<Rightarrow> f32" where "f64_as_f32 a = fp_f32 (fp_cast F64 F32 (f64_fp a))"

definition int_as_f64 :: "int \<Rightarrow> f64" where
  "int_as_f64 z = fp_f64 (fp_rnd F64 (z < 0) (nat \<bar>z\<bar> * 2 ^ unit_exp F64) 1)"

text \<open>A cast to an integer truncates and saturates, and maps NaN to zero.\<close>

definition f32_as_u32 :: "f32 \<Rightarrow> u32" where
  "f32_as_u32 a = (case f32_fp a of
     Fin s n \<Rightarrow> if s then 0 else word_of_nat (min (2 ^ 32 - 1) (n div 2 ^ unit_exp F32))
   | Inf s \<Rightarrow> if s then 0 else - 1
   | NaN \<Rightarrow> 0)"

section \<open>Exact results\<close>

lemma fp_round_scale: "0 < c \<Longrightarrow> fp_round f (n * c) (m * c) = fp_round f n m"
proof -
  assume c: "0 < c"
  have q: "n * c div (m * c) = n div m" using c by simp
  have "n * c div (m * c * 2 ^ j) = n div (m * 2 ^ j)" "n * c mod (m * c * 2 ^ j) = n mod (m * 2 ^ j) * c" for j
    using div_mult_mult2 [of c n "m * 2 ^ j"] mult_mod_left [of n "m * 2 ^ j" c] c by (simp_all add: ac_simps)
  moreover have "m * c * 2 ^ j < 2 * (r * c) \<longleftrightarrow> m * 2 ^ j < 2 * r" "m * c * 2 ^ j = 2 * (r * c) \<longleftrightarrow> m * 2 ^ j = 2 * r" for j r
  proof -
    have "m * c * 2 ^ j = (m * 2 ^ j) * c" "2 * (r * c) = (2 * r) * c" by simp_all
    then show "m * c * 2 ^ j < 2 * (r * c) \<longleftrightarrow> m * 2 ^ j < 2 * r" "m * c * 2 ^ j = 2 * (r * c) \<longleftrightarrow> m * 2 ^ j = 2 * r"
      using c by (simp_all only: mult_less_cancel2 mult_cancel2) auto
  qed
  ultimately show ?thesis by (simp only: fp_round_def Let_def q)
qed

lemma fp_rnd_scale: "0 < c \<Longrightarrow> fp_rnd f s (n * c) (m * c) = fp_rnd f s n m"
  by (simp add: fp_rnd_def fp_round_scale)

text \<open>A number with few enough significant bits belongs to the format.\<close>

lemma fp_of_dyadic:
  assumes "a < 2 ^ prec f" "bit_len a + b < prec f + emax f - 1" "0 < prec f" "1 < emax f"
  shows "fp_of f (Fin s (a * 2 ^ b))"
proof -
  define k where "k = prec f - 1"
  have p: "prec f = Suc k" "prec f - Suc 0 = k" using assms(3) by (simp_all add: k_def)
  let ?n = "a * 2 ^ b"
  show ?thesis
  proof (cases "?n < 2 ^ prec f")
    case True
    have "(2::nat) ^ prec f \<le> emax f * 2 ^ k" using assms(4) by (simp add: p(1))
    then have inf: "?n < inf_mag f" using True by (simp add: inf_mag_def p(2))
    have "?n div 2 ^ k < 2" using True by (simp add: p(1) less_mult_imp_div_less)
    then have "?n div 2 ^ k = 0 \<or> ?n div 2 ^ k = 1" by linarith
    moreover have "?n = ?n div 2 ^ k * 2 ^ k + ?n mod 2 ^ k" by (simp only: div_mult_mod_eq)
    ultimately have "fp_num f ?n = ?n" unfolding fp_num_def Let_def One_nat_def p(2) by auto
    then show ?thesis using inf by auto
  next
    case False
    then have "0 < a" by (cases a) auto
    define j where "j = bit_len a + b - prec f"
    have ba: "2 ^ (bit_len a - 1) \<le> a" "a < 2 ^ bit_len a" "0 < bit_len a" using bit_len_bounds [OF \<open>0 < a\<close>] by auto
    have "bit_len a \<le> prec f" using assms(1) by (simp add: bit_len_le_iff)
    have "bit_len ?n = bit_len a + b"
      using bit_len_scale [of "bit_len a - 1" a b] ba by simp
    then have "prec f < bit_len a + b" using False bit_len_le_iff [of ?n "prec f"] by linarith
    then have j: "bit_len a + b = prec f + j" "j \<le> b" "0 < j" using \<open>bit_len a \<le> prec f\<close> by (auto simp: j_def)
    define c where "c = a * 2 ^ (b - j)"
    have n: "?n = c * 2 ^ j" using j(2) by (simp add: c_def power_add [symmetric])
    have "bit_len c = prec f"
      using bit_len_scale [of "bit_len a - 1" a "b - j"] ba j by (simp add: c_def)
    moreover have "0 < c" using \<open>0 < a\<close> by (simp add: c_def)
    ultimately have c: "2 ^ k \<le> c" "c < 2 * 2 ^ k" using bit_len_bounds [of c] by (simp_all add: p(1))
    let ?m = "j * 2 ^ k + c"
    have "j + 2 \<le> emax f" using assms(2) j(1) by linarith
    then have "(j + 2) * 2 ^ k \<le> emax f * 2 ^ k" by (rule mult_le_mono1)
    then have "?m < inf_mag f" using c(2) by (simp add: inf_mag_def p(2) add_mult_distrib)
    moreover obtain d where d: "c = 2 ^ k + d" "d < 2 ^ k" using c le_Suc_ex [OF c(1)] by auto
    then have m: "?m = d + Suc j * 2 ^ k" by simp
    have "?m div 2 ^ k = Suc j" "?m mod 2 ^ k = d" unfolding m using d(2) by (simp_all del: mult_Suc)
    then have "fp_num f ?m = c * 2 ^ j" using d(1) unfolding fp_num_def Let_def One_nat_def p(2) by simp
    ultimately show ?thesis using n by auto
  qed
qed

lemma fp_num_dyadic:
  assumes "m < inf_mag f" "0 < prec f" "1 < emax f"
  obtains a b where "fp_num f m = a * 2 ^ b" "a < 2 ^ prec f" "b + 1 < emax f"
proof -
  define k where "k = prec f - 1"
  have p: "prec f = Suc k" "prec f - Suc 0 = k" using assms(2) by (simp_all add: k_def)
  have e: "m div 2 ^ k < emax f" using assms(1) by (simp add: inf_mag_def p(2) less_mult_imp_div_less)
  have "m mod 2 ^ k < 2 ^ k" by simp
  then have s: "m mod 2 ^ k < 2 ^ prec f" "2 ^ k + m mod 2 ^ k < 2 ^ prec f" unfolding p(1) power_Suc by linarith+
  show thesis
  proof (cases "m div 2 ^ k")
    case 0
    then have "fp_num f m = m mod 2 ^ k * 2 ^ 0" unfolding fp_num_def Let_def One_nat_def p(2) by simp
    then show thesis using s(1) by (rule that) (use assms(3) in simp)
  next
    case (Suc i)
    then have "fp_num f m = (2 ^ k + m mod 2 ^ k) * 2 ^ i" unfolding fp_num_def Let_def One_nat_def p(2) by simp
    then show thesis using s(2) by (rule that) (use e Suc in simp)
  qed
qed

lemma F_simps [simp]: "prec F32 = 24" "emax F32 = 255" "prec F64 = 53" "emax F64 = 2047"
  "unit_exp F32 = 149" "unit_exp F64 = 1074"
  by (simp_all add: F32_def F64_def unit_exp_def)

text \<open>The operations stay within the format, so they act on bit patterns as on values.\<close>

lemma fp_of_zero [simp]: "0 < emax f \<Longrightarrow> fp_of f (Fin s 0)"
  by (auto simp: fp_num_def inf_mag_def intro: exI [of _ 0])

lemma fp_of_neg [simp]: "fp_of f (fp_neg x) = fp_of f x"
  by (cases x) simp_all

lemma fp_of_abs [simp]: "fp_of f (fp_abs x) = fp_of f x"
  by (cases x) simp_all

lemma fp_of_add [simp]: "0 < emax f \<Longrightarrow> fp_of f (fp_add f x y)"
  by (cases x; cases y) (simp_all add: Let_def del: fp_of.simps(1))

lemma fp_of_sub [simp]: "0 < emax f \<Longrightarrow> fp_of f (fp_sub f x y)"
  by (simp add: fp_sub_def)

lemma fp_of_mul [simp]: "fp_of f (fp_mul f x y)"
  by (cases x; cases y) (simp_all del: fp_of.simps(1))

lemma fp_of_div [simp]: "0 < emax f \<Longrightarrow> fp_of f (fp_div f x y)"
  by (cases x; cases y) (simp_all del: fp_of.simps(1))

lemma f32_ops [simp]:
  "f32_fp (f32_add a b) = fp_add F32 (f32_fp a) (f32_fp b)"
  "f32_fp (f32_sub a b) = fp_sub F32 (f32_fp a) (f32_fp b)"
  "f32_fp (f32_mul a b) = fp_mul F32 (f32_fp a) (f32_fp b)"
  "f32_fp (f32_div a b) = fp_div F32 (f32_fp a) (f32_fp b)"
  "f32_fp (f32_abs a) = fp_abs (f32_fp a)"
  by (simp_all add: f32_add_def f32_sub_def f32_mul_def f32_div_def f32_abs_def)

lemma fp_rnd_0 [simp]: "0 < prec f \<Longrightarrow> 0 < emax f \<Longrightarrow> fp_rnd f s 0 d = Fin s 0"
  by (auto simp: fp_rnd_def fp_round_def fp_num_def inf_mag_def Let_def)

text \<open>Widening is exact, so narrowing again gives the number back.\<close>

lemma fp_cast_widen:
  assumes "fp_of F32 (Fin s n)"
  shows "fp_cast F32 F64 (Fin s n) = Fin s (n * 2 ^ 925)"
proof -
  obtain m where m: "m < inf_mag F32" "n = fp_num F32 m" using assms by auto
  obtain a b where ab: "n = a * 2 ^ b" "a < 2 ^ 24" "b + 1 < 255"
    using fp_num_dyadic [OF m(1)] m(2) by auto
  have "bit_len a \<le> 24" using ab(2) by (simp add: bit_len_le_iff)
  then have "fp_of F64 (Fin s (a * 2 ^ (b + 925)))" using ab by (intro fp_of_dyadic) simp_all
  then have "fp_rnd F64 s (n * 2 ^ 925) 1 = Fin s (n * 2 ^ 925)"
    by (intro fp_rnd_exact) (simp_all add: ab(1) power_add ac_simps)
  moreover have "fp_cast F32 F64 (Fin s n) = fp_rnd F64 s (n * 2 ^ 925 * 2 ^ 149) (1 * 2 ^ 149)"
    by (simp only: fp_cast.simps F_simps mult.assoc power_add [symmetric]) simp
  ultimately show ?thesis by (simp only: fp_rnd_scale zero_less_power zero_less_numeral)
qed

lemma fp_cast_narrow:
  assumes "fp_of F32 (Fin s n)"
  shows "fp_cast F64 F32 (Fin s (n * 2 ^ 925)) = Fin s n"
proof -
  have "fp_cast F64 F32 (Fin s (n * 2 ^ 925)) = fp_rnd F32 s (n * 2 ^ 1074) (1 * 2 ^ 1074)"
    by (simp only: fp_cast.simps F_simps mult.assoc power_add [symmetric]) simp
  also have "\<dots> = Fin s n" using fp_rnd_exact [OF assms] by (simp only: fp_rnd_scale zero_less_power zero_less_numeral F_simps)
  finally show ?thesis .
qed

lemma fp_encode_decode:
  assumes "w < 2 * ((emax f + 1) * 2 ^ (prec f - 1))" "fp_decode f w \<noteq> NaN" "0 < prec f"
  shows "fp_encode f (fp_decode f w) = w"
proof -
  let ?t = "(emax f + 1) * 2 ^ (prec f - 1) :: nat"
  have w: "w = (if ?t \<le> w then ?t else 0) + w mod ?t"
  proof (cases "?t \<le> w")
    case True
    then have "w mod ?t = w - ?t" using assms(1) by (simp add: mod_if [of w] del: add_mult_distrib)
    with True show ?thesis by simp
  qed simp
  show ?thesis
    using assms(2) fp_round_num [OF _ assms(3), of "w mod ?t"] w
    by (auto simp: fp_decode_def Let_def simp del: add_mult_distrib One_nat_def split: if_splits)
qed

lemma fp_f32_fp [simp]: "f32_fp w \<noteq> NaN \<Longrightarrow> fp_f32 (f32_fp w) = w"
  using fp_encode_decode [of "unat w" F32] unsigned_less [of w, where ?'a = nat]
  by (simp add: f32_fp_def fp_f32_def)

lemma f32_via_f64: "f32_fp w \<noteq> NaN \<Longrightarrow> f64_as_f32 (f32_as_f64 w) = w"
proof -
  assume w: "f32_fp w \<noteq> NaN"
  have "f64_as_f32 (f32_as_f64 w) = fp_f32 (f32_fp w)"
  proof (cases "f32_fp w")
    case (Fin s n)
    then have "fp_of F32 (Fin s n)" using fp_of_f32 [of w] by simp
    moreover from this have "fp_of F64 (Fin s (n * 2 ^ 925))"
      using fp_of_rnd [of F64] fp_cast_widen by (metis fp_cast.simps(1))
    ultimately show ?thesis using Fin
      by (simp only: f64_as_f32_def f32_as_f64_def fp_cast_widen f64_fp_f64 fp_cast_narrow)
  qed (use w in \<open>simp_all add: f64_as_f32_def f32_as_f64_def\<close>)
  with w show ?thesis by simp
qed

end
