(* ===== verification/Scale_Transform.thy ===== *)
theory Scale_Transform
  imports Sensor_Manifest Rust_Float
begin

text \<open>
  The conversion of raw register values to engineering units,
  \<^verbatim>\<open>packages/kei/src/manifest/scale.rs\<close> and \<^verbatim>\<open>RawValue\<close> of \<^verbatim>\<open>manifest/sensor.rs\<close>, on IEEE
  bit patterns. An index out of range is a panic.

  The lemmas show that the binary search of \<^verbatim>\<open>interpolate\<close> ends at the interval that contains
  the raw value, that nothing panics on a well-formed table, and that a table is exact at its
  own points and clamped outside them.
\<close>

section \<open>Data and operations\<close>

datatype RawValue = U16 u16 | I16 u16 | F32V f32 | Bool bool

fun as_f64 :: "RawValue \<Rightarrow> f64" where
  "as_f64 (U16 v) = int_as_f64 (uint v)"
| "as_f64 (I16 v) = int_as_f64 (sint v)"
| "as_f64 (F32V v) = f32_as_f64 v"
| "as_f64 (Bool b) = (if b then 0x3FF0000000000000 else 0)"

datatype ScaleTransform =
    Passthrough
  | Linear f32 f32 "SensorUnit option"
  | Table "f32 list" "f32 list" "SensorUnit option"
  | Polynomial "f32 list" "SensorUnit option"

definition EPSILON :: f32 where "EPSILON = 0x34000000"

text \<open>\<^verbatim>\<open>x[i]\<close> of a slice.\<close>

definition idx :: "'a list \<Rightarrow> nat \<Rightarrow> 'a rust" where
  "idx xs i = (if i < length xs then Return (xs ! i) else Panic)"

lemma idx_simps [simp]: "i < length xs \<Longrightarrow> idx xs i = Return (xs ! i)"
  by (simp add: idx_def)

text \<open>The loop that halves the interval.\<close>

function bisect :: "f32 list \<Rightarrow> f32 \<Rightarrow> nat \<Rightarrow> nat \<Rightarrow> (nat \<times> nat) rust" where
  "bisect x raw lo hi =
     (if hi - lo > 1
      then let mid = (lo + hi) div 2
           in rust_bind (idx x mid) (\<lambda>xm. if f32_le xm raw then bisect x raw mid hi else bisect x raw lo mid)
      else Return (lo, hi))"
  by pat_completeness auto

termination bisect
  by (relation "measure (\<lambda>(x, raw, lo, hi). hi - lo)") auto

declare bisect.simps [simp del]

definition interpolate :: "f32 list \<Rightarrow> f32 list \<Rightarrow> f32 \<Rightarrow> f32 rust" where
  "interpolate x y raw =
     (if x = [] \<or> y = [] then Return raw
      else if length x = 1 \<or> f32_le raw (x ! 0) then Return (y ! 0)
      else if f32_le (x ! (length x - 1)) raw then Return (y ! (length y - 1))
      else rust_bind (bisect x raw 0 (length x - 1)) (\<lambda>(lo, hi).
        rust_bind (idx x lo) (\<lambda>x0. rust_bind (idx x hi) (\<lambda>x1.
        rust_bind (idx y lo) (\<lambda>y0. rust_bind (idx y hi) (\<lambda>y1.
          if f32_lt (f32_abs (f32_sub x1 x0)) EPSILON then Return y0
          else Return (f32_add y0 (f32_div (f32_mul (f32_sub raw x0) (f32_sub y1 y0)) (f32_sub x1 x0)))))))))"

definition horner :: "f64 \<Rightarrow> f32 list \<Rightarrow> f64" where
  "horner r coeffs = fold (\<lambda>c result. f64_add (f64_mul result r) (f32_as_f64 c)) (rev coeffs) 0"

fun apply_scale :: "ScaleTransform \<Rightarrow> f64 \<Rightarrow> f64 rust" where
  "apply_scale Passthrough raw = Return raw"
| "apply_scale (Linear factor offset _) raw =
     Return (f64_add (f64_mul raw (f32_as_f64 factor)) (f32_as_f64 offset))"
| "apply_scale (Table x y _) raw = rust_bind (interpolate x y (f64_as_f32 raw)) (\<lambda>v. Return (f32_as_f64 v))"
| "apply_scale (Polynomial coeffs _) raw = Return (horner raw coeffs)"

fun scale_unit :: "ScaleTransform \<Rightarrow> SensorUnit option" where
  "scale_unit (Linear _ _ u) = u"
| "scale_unit (Table _ _ u) = u"
| "scale_unit (Polynomial _ u) = u"
| "scale_unit Passthrough = None"

definition apply_with_unit :: "ScaleTransform \<Rightarrow> f64 \<Rightarrow> SensorUnit \<Rightarrow> (f64 \<times> SensorUnit) rust" where
  "apply_with_unit t raw default_unit =
     rust_bind (apply_scale t raw) (\<lambda>scaled. Return (scaled,
       case scale_unit t of Some u \<Rightarrow> u | None \<Rightarrow> default_unit))"

text \<open>A reading that is already a number survives the detour through \<^verbatim>\<open>f64\<close>.\<close>

lemma raw_value_via_f64 [simp]: "f32_fp v \<noteq> NaN \<Longrightarrow> f64_as_f32 (as_f64 (F32V v)) = v"
  by (simp add: f32_via_f64)

section \<open>The search\<close>

text \<open>A table: strictly ascending points, one value for each.\<close>

definition table_ok :: "f32 list \<Rightarrow> f32 list \<Rightarrow> bool" where
  "table_ok x y \<longleftrightarrow> x \<noteq> [] \<and> length y = length x \<and> (\<forall>i j. i < j \<and> j < length x \<longrightarrow> f32_lt (x ! i) (x ! j))"

lemma bisect_interval:
  assumes "lo < hi" "hi < length x" "f32_le (x ! lo) raw" "\<not> f32_le (x ! hi) raw"
  shows "\<exists>i. bisect x raw lo hi = Return (i, Suc i) \<and> lo \<le> i \<and> i < hi
    \<and> f32_le (x ! i) raw \<and> \<not> f32_le (x ! Suc i) raw"
  using assms
proof (induction x raw lo hi rule: bisect.induct)
  case (1 x raw lo hi)
  let ?mid = "(lo + hi) div 2"
  show ?case
  proof (cases "hi - lo > 1")
    case False
    with 1(3) have "hi = Suc lo" by linarith
    with 1 show ?thesis by (subst bisect.simps) auto
  next
    case True
    then have mid: "lo < ?mid" "?mid < hi" "?mid < length x" using 1(4) by linarith+
    show ?thesis
    proof (cases "f32_le (x ! ?mid) raw")
      case le: True
      have "bisect x raw lo hi = bisect x raw ?mid hi"
        using True mid le by (subst bisect.simps) (simp add: Let_def)
      moreover from 1(1) [OF True refl le mid(2) 1(4) le 1(6)] obtain i
        where "bisect x raw ?mid hi = Return (i, Suc i)" "?mid \<le> i" "i < hi" "f32_le (x ! i) raw"
          "\<not> f32_le (x ! Suc i) raw" by blast
      ultimately show ?thesis using mid by (intro exI [of _ i]) simp
    next
      case gt: False
      have "bisect x raw lo hi = bisect x raw lo ?mid"
        using True mid gt by (subst bisect.simps) (simp add: Let_def)
      moreover from 1(2) [OF True refl gt mid(1) mid(3) 1(5) gt] obtain i
        where "bisect x raw lo ?mid = Return (i, Suc i)" "lo \<le> i" "i < ?mid" "f32_le (x ! i) raw"
          "\<not> f32_le (x ! Suc i) raw" by blast
      ultimately show ?thesis using mid by (intro exI [of _ i]) simp
    qed
  qed
qed

section \<open>Interpolation\<close>

lemma fp_le_refl: "x \<noteq> NaN \<Longrightarrow> fp_le x x" by (cases x) simp_all

lemma fp_le_total: "x \<noteq> NaN \<Longrightarrow> y \<noteq> NaN \<Longrightarrow> fp_le x y \<or> fp_le y x" by (cases x; cases y) auto

lemma fp_lt_not_NaN: "fp_lt x y \<Longrightarrow> x \<noteq> NaN \<and> y \<noteq> NaN" by (cases x; cases y) (auto simp: fp_lt_def)

lemma fp_le_trans: "fp_le x y \<Longrightarrow> fp_le y z \<Longrightarrow> fp_le x z" by (cases x; cases y; cases z) auto

text \<open>A number strictly between two others is finite.\<close>

lemma fp_lt_between: "fp_lt x y \<Longrightarrow> fp_lt y z \<Longrightarrow> \<exists>s n. y = Fin s n"
  by (cases x; cases y; cases z) (auto simp: fp_lt_def)

lemma table_ok_le:
  assumes "table_ok x y" "i < length x" "j < length x" "f32_le (x ! i) (x ! j)"
  shows "i \<le> j"
proof (rule ccontr)
  assume "\<not> i \<le> j"
  with assms have "f32_lt (x ! j) (x ! i)" by (simp add: table_ok_def)
  with assms(4) show False by (simp add: f32_lt_def f32_le_def fp_lt_def)
qed

text \<open>The interval the code uses between the first and the last point.\<close>

definition segment :: "f32 list \<Rightarrow> f32 list \<Rightarrow> nat \<Rightarrow> f32 \<Rightarrow> f32" where
  "segment x y i raw =
     (let x0 = x ! i; x1 = x ! Suc i; y0 = y ! i; y1 = y ! Suc i
      in if f32_lt (f32_abs (f32_sub x1 x0)) EPSILON then y0
         else f32_add y0 (f32_div (f32_mul (f32_sub raw x0) (f32_sub y1 y0)) (f32_sub x1 x0)))"

lemma table_ok_not_NaN:
  assumes "table_ok x y" "1 < length x" "i < length x"
  shows "f32_fp (x ! i) \<noteq> NaN"
proof (cases "i = 0")
  case True
  then have "f32_lt (x ! i) (x ! 1)" using assms by (simp add: table_ok_def)
  then show ?thesis using fp_lt_not_NaN unfolding f32_lt_def by blast
next
  case False
  then have "f32_lt (x ! 0) (x ! i)" using assms by (simp add: table_ok_def)
  then show ?thesis using fp_lt_not_NaN unfolding f32_lt_def by blast
qed

lemma interpolate_inside:
  assumes "table_ok x y" "1 < length x" "f32_fp raw \<noteq> NaN"
    and "\<not> f32_le raw (x ! 0)" "\<not> f32_le (x ! (length x - 1)) raw"
  obtains i where "Suc i < length x" "f32_le (x ! i) raw" "f32_lt raw (x ! Suc i)"
    "interpolate x y raw = Return (segment x y i raw)"
proof -
  have ne: "x \<noteq> []" "length y = length x" "y \<noteq> []" using assms(1) by (auto simp: table_ok_def)
  have nn: "\<And>i. i < length x \<Longrightarrow> f32_fp (x ! i) \<noteq> NaN" using assms(1,2) by (rule table_ok_not_NaN)
  have "f32_le (x ! 0) raw" using fp_le_total [OF assms(3) nn [of 0]] assms(4) ne(1) by (auto simp: f32_le_def)
  then obtain i where i: "bisect x raw 0 (length x - 1) = Return (i, Suc i)" "i < length x - 1"
    "f32_le (x ! i) raw" "\<not> f32_le (x ! Suc i) raw"
    using bisect_interval [of 0 "length x - 1" x raw] assms(2,5) ne(1) by auto
  have "f32_lt raw (x ! Suc i)"
    using fp_le_total [OF assms(3) nn [of "Suc i"]] i by (auto simp: f32_le_def f32_lt_def fp_lt_def)
  moreover have "interpolate x y raw = Return (segment x y i raw)"
    unfolding interpolate_def using ne assms(2,4,5) i by (simp add: segment_def Let_def)
  ultimately show thesis using i(2,3) by (intro that [of i]) auto
qed

text \<open>At the left point of an interval the slope term vanishes.\<close>

lemma fp_add_zero:
  assumes "fp_of F32 (Fin s n)"
  shows "fp_eq (fp_add F32 (Fin s n) (Fin t 0)) (Fin s n)"
proof (cases "n = 0")
  case True
  then show ?thesis by (simp add: signed_def fp_eq_def)
next
  case False
  then have "fp_add F32 (Fin s n) (Fin t 0) = fp_rnd F32 s n 1" by (cases s) (simp_all add: signed_def)
  also have "\<dots> = Fin s n" using assms by (rule fp_rnd_exact) simp
  finally show ?thesis by (simp add: fp_eq_def)
qed

lemma fp_sub_self: "fp_sub f (Fin a m) (Fin a m) = Fin False 0"
  by (simp add: fp_sub_def signed_def Let_def)

lemma segment_left:
  assumes "f32_fp (x ! i) = Fin a m" "f32_fp (x ! Suc i) \<noteq> NaN" "f32_fp (y ! i) = Fin b n"
    and "f32_fp (f32_sub (y ! Suc i) (y ! i)) = Fin c k"
  shows "f32_eq (segment x y i (x ! i)) (y ! i)"
proof (cases "f32_lt (f32_abs (f32_sub (x ! Suc i) (x ! i))) EPSILON")
  case True
  then show ?thesis using assms(3) by (simp add: segment_def f32_eq_def fp_eq_def)
next
  case False
  let ?d = "fp_sub F32 (f32_fp (x ! Suc i)) (f32_fp (x ! i))"
  have eps: "f32_fp EPSILON = Fin False (2 ^ 126)"
    by (simp add: f32_fp_def EPSILON_def fp_decode_def inf_mag_def fp_num_def Let_def)
  have "?d \<noteq> NaN" using assms(1,2) by (cases "f32_fp (x ! Suc i)") (auto simp: fp_sub_def fp_rnd_def Let_def)
  moreover have "?d \<noteq> Fin t 0" for t using False by (auto simp: f32_lt_def eps fp_lt_def signed_def)
  ultimately have "\<exists>t. fp_div F32 (Fin u 0) ?d = Fin t 0" for u by (cases ?d) auto
  moreover obtain u where u: "fp_mul F32 (fp_sub F32 (f32_fp (x ! i)) (f32_fp (x ! i))) (Fin c k) = Fin u 0"
    using fp_sub_self [of F32 a m] assms(1) by auto
  ultimately obtain t where t: "fp_div F32 (Fin u 0) ?d = Fin t 0" by blast
  have "fp_of F32 (Fin b n)" using fp_of_f32 [of "y ! i"] assms(3) by simp
  then have "fp_eq (fp_add F32 (Fin b n) (Fin t 0)) (Fin b n)" by (rule fp_add_zero)
  then show ?thesis
    unfolding segment_def Let_def f32_eq_def using False assms(3,4) u t by (simp only: if_False f32_ops)
qed

lemma interpolate_knot:
  assumes "table_ok x y" "1 < length x" "j < length x"
    and "\<And>i. i < length y \<Longrightarrow> \<exists>b n. f32_fp (y ! i) = Fin b n"
    and "\<And>i. Suc i < length y \<Longrightarrow> \<exists>c k. f32_fp (f32_sub (y ! Suc i) (y ! i)) = Fin c k"
  shows "\<exists>v. interpolate x y (x ! j) = Return v \<and> f32_eq v (y ! j)"
proof -
  have len: "length y = length x" "x \<noteq> []" "y \<noteq> []" using assms(1) by (auto simp: table_ok_def)
  have nn: "\<And>i. i < length x \<Longrightarrow> f32_fp (x ! i) \<noteq> NaN" using assms(1,2) by (rule table_ok_not_NaN)
  have refl: "f32_eq (y ! j) (y ! j)" using assms(4) [of j] assms(3) len by (auto simp: f32_eq_def fp_eq_def)
  consider (first) "j = 0" | (last) "j = length x - 1" "j \<noteq> 0" | (inner) "0 < j" "Suc j < length x"
    using assms(3) by linarith
  then show ?thesis
  proof cases
    case first
    then have "f32_le (x ! j) (x ! 0)" using fp_le_refl [OF nn [of j]] assms(3) by (simp add: f32_le_def)
    with first refl len show ?thesis by (simp add: interpolate_def)
  next
    case last
    have "\<not> f32_le (x ! j) (x ! 0)" using table_ok_le [OF assms(1) assms(3), of 0] last len(2) by auto
    moreover have "f32_le (x ! (length x - 1)) (x ! j)"
      using fp_le_refl [OF nn [of j]] assms(3) last by (simp add: f32_le_def)
    ultimately show ?thesis using last refl len assms(2) by (simp add: interpolate_def)
  next
    case inner
    have "\<not> f32_le (x ! j) (x ! 0)" using table_ok_le [OF assms(1) assms(3), of 0] inner len(2) by auto
    moreover have "\<not> f32_le (x ! (length x - 1)) (x ! j)"
      using table_ok_le [OF assms(1) _ assms(3), of "length x - 1"] inner len(2) by auto
    ultimately obtain i where i: "Suc i < length x" "f32_le (x ! i) (x ! j)" "f32_lt (x ! j) (x ! Suc i)"
      "interpolate x y (x ! j) = Return (segment x y i (x ! j))"
      using interpolate_inside [OF assms(1,2) nn [OF assms(3)]] by metis
    have "i \<le> j" using table_ok_le [OF assms(1) _ assms(3), of i] i by simp
    moreover have "j \<le> i"
    proof (rule ccontr)
      assume "\<not> j \<le> i"
      then have "Suc i \<le> j" by simp
      moreover have "j \<le> Suc i" "Suc i \<noteq> j"
        using table_ok_le [OF assms(1) assms(3) i(1)] i(3) fp_le_refl [OF nn [OF i(1)]]
        by (auto simp: f32_lt_def fp_lt_def f32_le_def)
      ultimately show False by simp
    qed
    ultimately have "i = j" by simp
    have "f32_lt (x ! 0) (x ! j)" "f32_lt (x ! j) (x ! Suc j)" using assms(1) inner by (simp_all add: table_ok_def)
    then obtain a m where "f32_fp (x ! j) = Fin a m" using fp_lt_between unfolding f32_lt_def by blast
    moreover obtain b n c k where "f32_fp (y ! j) = Fin b n" "f32_fp (f32_sub (y ! Suc j) (y ! j)) = Fin c k"
      using assms(4,5) [of j] inner len by auto
    ultimately have "f32_eq (segment x y j (x ! j)) (y ! j)"
      using nn [OF inner(2)] by (intro segment_left) auto
    with i(4) \<open>i = j\<close> show ?thesis by blast
  qed
qed

text \<open>
  A lookup table means what its points say. On a table with strictly ascending points, one
  finite value for each and no overflow between neighbouring values, \<^verbatim>\<open>interpolate\<close> never
  panics; a raw value that is one of the points gives that point's value, a raw value at or
  below the first point gives the first value and one at or above the last point the last
  value, and for every other number the binary search finds the interval that contains it and
  the result is computed from that interval's two points.
\<close>

lemma table_interpolation:
  assumes "table_ok x y" "1 < length x"
    and "\<And>i. i < length y \<Longrightarrow> \<exists>b n. f32_fp (y ! i) = Fin b n"
    and "\<And>i. Suc i < length y \<Longrightarrow> \<exists>c k. f32_fp (f32_sub (y ! Suc i) (y ! i)) = Fin c k"
  shows "(\<forall>j < length x. \<exists>v. interpolate x y (x ! j) = Return v \<and> f32_eq v (y ! j))
    \<and> (f32_fp raw \<noteq> NaN \<longrightarrow>
        (if f32_le raw (x ! 0) then interpolate x y raw = Return (y ! 0)
         else if f32_le (x ! (length x - 1)) raw then interpolate x y raw = Return (y ! (length x - 1))
         else \<exists>i. Suc i < length x \<and> f32_le (x ! i) raw \<and> f32_lt raw (x ! Suc i)
           \<and> interpolate x y raw = Return (segment x y i raw)))"
proof (intro conjI allI impI)
  show "\<exists>v. interpolate x y (x ! j) = Return v \<and> f32_eq v (y ! j)" if "j < length x" for j
    using interpolate_knot [OF assms(1,2) that assms(3,4)] .
  assume nan: "f32_fp raw \<noteq> NaN"
  have len: "length y = length x" "x \<noteq> []" "y \<noteq> []" using assms(1) by (auto simp: table_ok_def)
  show "if f32_le raw (x ! 0) then interpolate x y raw = Return (y ! 0)
     else if f32_le (x ! (length x - 1)) raw then interpolate x y raw = Return (y ! (length x - 1))
     else \<exists>i. Suc i < length x \<and> f32_le (x ! i) raw \<and> f32_lt raw (x ! Suc i)
       \<and> interpolate x y raw = Return (segment x y i raw)"
  proof (cases "f32_le raw (x ! 0) \<or> f32_le (x ! (length x - 1)) raw")
    case True
    then show ?thesis using len assms(2) by (auto simp: interpolate_def)
  next
    case False
    with interpolate_inside [OF assms(1,2) nan] show ?thesis by auto
  qed
qed

text \<open>A thermistor table with the points 0, 100 and 200 and the values -50, 50 and 150.\<close>

lemma table_interpolation_witness:
  "(\<exists>v. interpolate [0, 0x42C80000, 0x43480000] [0xC2480000, 0x42480000, 0x43160000] 0x42C80000 = Return v
      \<and> f32_eq v 0x42480000)
   \<and> interpolate [0, 0x42C80000, 0x43480000] [0xC2480000, 0x42480000, 0x43160000] 0xC1200000 = Return 0xC2480000"
proof -
  let ?x = "[0, 0x42C80000, 0x43480000] :: f32 list" and ?y = "[0xC2480000, 0x42480000, 0x43160000] :: f32 list"
  have x: "f32_fp 0 = Fin False 0" "f32_fp 0x42C80000 = Fin False (100 * 2 ^ 149)" "f32_fp 0x43480000 = Fin False (200 * 2 ^ 149)"
    by (simp_all add: f32_fp_def fp_decode_def inf_mag_def fp_num_def Let_def)
  have y: "f32_fp 0xC2480000 = Fin True (50 * 2 ^ 149)" "f32_fp 0x42480000 = Fin False (50 * 2 ^ 149)"
    "f32_fp 0x43160000 = Fin False (150 * 2 ^ 149)" "f32_fp 0xC1200000 = Fin True (10 * 2 ^ 149)"
    by (simp_all add: f32_fp_def fp_decode_def inf_mag_def fp_num_def Let_def)
  have "table_ok ?x ?y"
    by (auto simp: table_ok_def less_Suc_eq nth_Cons' f32_lt_def fp_lt_def x signed_def)
  moreover have "fp_rnd F32 False (100 * 2 ^ 149) 1 = Fin False (100 * 2 ^ 149)"
    using fp_of_f32 [of "0x42C80000"] unfolding x by (intro fp_rnd_exact) simp_all
  then have d: "f32_fp (f32_sub 0x42480000 0xC2480000) = Fin False (100 * 2 ^ 149)"
    "f32_fp (f32_sub 0x43160000 0x42480000) = Fin False (100 * 2 ^ 149)"
    by (simp_all add: y fp_sub_def signed_def)
  moreover have "\<exists>b n. f32_fp (?y ! i) = Fin b n" if "i < length ?y" for i
  proof -
    from that have "i = 0 \<or> i = 1 \<or> i = 2" by auto
    then show ?thesis by (elim disjE) (auto simp: y)
  qed
  moreover have "\<exists>c k. f32_fp (f32_sub (?y ! Suc i) (?y ! i)) = Fin c k" if "Suc i < length ?y" for i
  proof -
    from that have "i = 0 \<or> i = 1" by auto
    then show ?thesis by (elim disjE) (auto simp: d simp del: f32_ops)
  qed
  ultimately have "(\<forall>j < length ?x. \<exists>v. interpolate ?x ?y (?x ! j) = Return v \<and> f32_eq v (?y ! j))
    \<and> interpolate ?x ?y 0xC1200000 = Return (?y ! 0)"
    using table_interpolation [of ?x ?y "0xC1200000"] by (simp add: f32_le_def x y signed_def)
  then show ?thesis by (metis One_nat_def length_Cons lessI nth_Cons_0 nth_Cons_Suc zero_less_Suc Suc_less_eq)
qed

end
