(* ===== verification/Wire_Link.thy ===== *)
theory Wire_Link
  imports Wire_Node Wire_Gateway Scale_Transform
begin

text \<open>
  A gateway and a node on one link: the in-memory pipe and the demonstration program of
  \<^verbatim>\<open>packages/kei/examples/host_demo.rs\<close>. The two ends share two buffers behind reference
  counted cells, so the buffers live in a store and an end holds the names of the buffer it
  writes and the buffer it reads. The demonstration's world is the store with the two parties
  and the sensor; a party works on the store and leaves it to the other.

  The locale \<open>channel\<close> is what one direction of a link promises: what one end sends the other
  receives, in order. The two directions of the pipe are its instances. On top of them, the
  exchanges of the demonstration are shown to end with the right message at the gateway.
\<close>

section \<open>The pipe\<close>

datatype pipe_ref = AB | BA

type_synonym pipe_store = "pipe_ref \<Rightarrow> u8 list"

record PipeTransport =
  pt_tx :: pipe_ref
  pt_rx :: pipe_ref

definition pair :: "(PipeTransport \<times> PipeTransport) \<times> pipe_store" where
  "pair = ((\<lparr>pt_tx = AB, pt_rx = BA\<rparr>, \<lparr>pt_tx = BA, pt_rx = AB\<rparr>), (\<lambda>_. []))"

definition pipe_send :: "PipeTransport \<Rightarrow> pipe_store \<Rightarrow> u8 list \<Rightarrow> (TransportError + nat) \<times> pipe_store" where
  "pipe_send p s data = (Inr (length data), s(pt_tx p := s (pt_tx p) @ data))"

definition pipe_recv :: "PipeTransport \<Rightarrow> nat \<Rightarrow> pipe_store \<Rightarrow> (TransportError + u8 list) \<times> pipe_store" where
  "pipe_recv p n s =
     (if s (pt_rx p) = [] then (Inr [], s)
      else let k = min n (length (s (pt_rx p)))
           in (Inr (take k (s (pt_rx p))), s(pt_rx p := drop k (s (pt_rx p)))))"

text \<open>The pipe as a transport: the receive loops read with a buffer of one byte.\<close>

definition pipe_end :: "PipeTransport \<Rightarrow> pipe_store transport" where
  "pipe_end p = \<lparr>send = pipe_send p,
     recv = (\<lambda>s. case pipe_recv p 1 s of
        (Inr (b # _), s') \<Rightarrow> (Inr (Some b), s')
      | (Inr [], s') \<Rightarrow> (Inr None, s')
      | (Inl e, s') \<Rightarrow> (Inl e, s'))\<rparr>"

abbreviation gw_end :: "pipe_store transport" where "gw_end \<equiv> pipe_end (fst (fst pair))"
abbreviation node_end :: "pipe_store transport" where "node_end \<equiv> pipe_end (snd (fst pair))"

text \<open>One direction of a link.\<close>

locale channel =
  fixes tx rx :: "'s transport"
    and queue :: "'s \<Rightarrow> u8 list"
    and other :: "'s \<Rightarrow> 'o"
  assumes send_law: "\<exists>s'. send tx s w = (Inr (length w), s') \<and> queue s' = queue s @ w \<and> other s' = other s"
    and recv_law: "queue s = b # bs \<Longrightarrow>
      \<exists>s'. recv rx s = (Inr (Some b), s') \<and> queue s' = bs \<and> other s' = other s"
begin

lemma channel_delivers:
  "queue s = w @ rest \<Longrightarrow> \<exists>s'. delivers (recv rx) s w s' \<and> queue s' = rest \<and> other s' = other s"
proof (induction w arbitrary: s)
  case (Cons b w)
  then obtain s1 where "recv rx s = (Inr (Some b), s1)" "queue s1 = w @ rest" "other s1 = other s"
    using recv_law [of s b "w @ rest"] by auto
  with Cons.IH [of s1] show ?case by (auto intro: delivers_byte)
qed auto

end

interpretation down: channel gw_end node_end "\<lambda>s. s AB" "\<lambda>s. s BA"
  by unfold_locales (auto simp: pipe_end_def pair_def pipe_send_def pipe_recv_def Let_def)

interpretation up: channel node_end gw_end "\<lambda>s. s BA" "\<lambda>s. s AB"
  by unfold_locales (auto simp: pipe_end_def pair_def pipe_send_def pipe_recv_def Let_def)

section \<open>The demonstration program\<close>

record TemperatureSensor =
  temp :: f32

definition sensor_read :: "TemperatureSensor \<Rightarrow> u16 \<Rightarrow> DeviceError + RawValue" where
  "sensor_read d register = (if register = 0x0100 then Inr (F32V (temp d)) else Inl InvalidRegister)"

definition sensor_write :: "TemperatureSensor \<Rightarrow> u16 \<Rightarrow> f32 \<Rightarrow> (DeviceError + unit) \<times> TemperatureSensor" where
  "sensor_write d register value =
     (if register = 0x0200 then (Inr (), d\<lparr>temp := value\<rparr>) else (Inl InvalidRegister, d))"

definition sensor_unit :: "u16 \<Rightarrow> SensorUnit" where
  "sensor_unit register = (if register = 0x0100 then Celsius else Dimensionless)"

record world =
  w_store :: pipe_store
  w_gateway :: "pipe_store Gateway"
  w_node :: "pipe_store Node"
  w_sensor :: TemperatureSensor

text \<open>A call on one party, with its result unwrapped.\<close>

definition on_gateway :: "(pipe_store Gateway \<Rightarrow> (('e + 'r) \<times> pipe_store Gateway) run) \<Rightarrow> world \<Rightarrow> ('r \<times> world) run" where
  "on_gateway f w =
     run_bind (f ((w_gateway w)\<lparr>gw_transport := w_store w\<rparr>)) (\<lambda>(r, g).
       run_bind (must r) (\<lambda>x. Some (Return (x, w\<lparr>w_gateway := g, w_store := gw_transport g\<rparr>))))"

definition on_node :: "(pipe_store Node \<Rightarrow> (('e + 'r) \<times> pipe_store Node) run) \<Rightarrow> world \<Rightarrow> ('r \<times> world) run" where
  "on_node f w =
     run_bind (f ((w_node w)\<lparr>transport := w_store w\<rparr>)) (\<lambda>(r, n).
       run_bind (must r) (\<lambda>x. Some (Return (x, w\<lparr>w_node := n, w_store := transport n\<rparr>))))"

definition node_poll :: "'e postcard \<Rightarrow> world \<Rightarrow> (Request \<times> world) run" where
  "node_poll pc w =
     run_bind (poll node_end pc sensor_write ((w_node w)\<lparr>transport := w_store w\<rparr>) (w_sensor w)) (\<lambda>(r, n, d).
       run_bind (must r) (\<lambda>x. Some (Return (x, w\<lparr>w_node := n, w_store := transport n, w_sensor := d\<rparr>))))"

definition gateway_wait :: "'e postcard \<Rightarrow> world \<Rightarrow> (Incoming \<times> world) run" where
  "gateway_wait pc w = on_gateway (\<lambda>g. map_option Return (gateway_recv gw_end pc g)) w"

definition answer_read :: "'e postcard \<Rightarrow> Request \<Rightarrow> world \<Rightarrow> world run" where
  "answer_read pc req w = (case req of
     ReqReadRegister r \<Rightarrow>
       run_bind (must (sensor_read (w_sensor w) (rr_register r))) (\<lambda>raw.
       run_bind (on_node (\<lambda>n. Some (node_send_telemetry node_end pc n (rr_register r)
           (f64_as_f32 (as_f64 raw)) (sensor_unit (rr_register r)) 0)) w) (\<lambda>(_, w).
       Some (Return w)))
   | _ \<Rightarrow> Some (Return w))"

definition demo_discover :: "'e postcard \<Rightarrow> world \<Rightarrow> (Incoming \<times> world) run" where
  "demo_discover pc w =
     run_bind (on_gateway (\<lambda>g. Some (send_discover gw_end pc g)) w) (\<lambda>(_, w).
     run_bind (node_poll pc w) (\<lambda>(req, w).
     run_bind (case req of
         ReqDiscover _ \<Rightarrow> run_bind (on_node (\<lambda>n. Some (node_send_discover_response node_end pc n
             ''temp-sensor-01'' 2)) w) (\<lambda>(_, w). Some (Return w))
       | _ \<Rightarrow> Some (Return w)) (\<lambda>w.
     gateway_wait pc w)))"

definition demo_read :: "'e postcard \<Rightarrow> u16 \<Rightarrow> world \<Rightarrow> (Incoming \<times> world) run" where
  "demo_read pc station w =
     run_bind (on_gateway (\<lambda>g. Some (send_read_register gw_end pc g station 0x0100)) w) (\<lambda>(_, w).
     run_bind (node_poll pc w) (\<lambda>(req, w).
     run_bind (answer_read pc req w) (\<lambda>w.
     gateway_wait pc w)))"

definition demo_set_point :: "'e postcard \<Rightarrow> u16 \<Rightarrow> f32 \<Rightarrow> world \<Rightarrow> (Incoming \<times> world) run" where
  "demo_set_point pc station value w =
     run_bind (on_gateway (\<lambda>g. Some (send_write_register gw_end pc g station 0x0200 value)) w) (\<lambda>(_, w).
     run_bind (on_gateway (\<lambda>g. Some (send_read_register gw_end pc g station 0x0100)) w) (\<lambda>(_, w).
     run_bind (node_poll pc w) (\<lambda>(req, w).
     run_bind (answer_read pc req w) (\<lambda>w.
     gateway_wait pc w))))"

definition demo_main :: "'e postcard \<Rightarrow> world run" where
  "demo_main pc =
     (let s = snd pair;
          w = \<lparr>w_store = s, w_gateway = gateway_new s, w_node = node_new s 42, w_sensor = \<lparr>temp = 0x41BC0000\<rparr>\<rparr>
      in run_bind (demo_discover pc w) (\<lambda>(_, w).
         run_bind (demo_read pc 42 w) (\<lambda>(_, w).
         run_bind (demo_set_point pc 42 0x41F00000 w) (\<lambda>(incoming, w).
         case incoming of
           InTelemetry t \<Rightarrow>
             if f32_lt (f32_abs (f32_sub (tm_value t) 0x41F00000)) 0x3C23D70A then Some (Return w)
             else Some Panic
         | _ \<Rightarrow> Some (Return w)))))"

section \<open>One step at a time\<close>

text \<open>Both parties between frames, with the bytes under way in each direction.\<close>

definition resting :: "world \<Rightarrow> u16 \<Rightarrow> TemperatureSensor \<Rightarrow> u8 list \<Rightarrow> u8 list \<Rightarrow> bool" where
  "resting w sid d a b \<longleftrightarrow> w_store w AB = a \<and> w_store w BA = b \<and> gateway_idle (w_gateway w)
     \<and> node_idle (w_node w) \<and> station_id (w_node w) = sid \<and> w_sensor w = d"

definition fits :: "('a, 'e) codec \<Rightarrow> 'a \<Rightarrow> bool" where
  "fits c x \<longleftrightarrow> (\<exists>bs. encodes c x bs \<and> length bs \<le> MAX_PAYLOAD_LEN)"

lemma send_down:
  assumes "resting w sid d a b"
  obtains w' where "on_gateway (\<lambda>g. Some (Return (gateway_send_frame gw_end g m p))) w = Some (Return ((), w'))"
    "resting w' sid d (a @ encode_frame m p) b"
proof -
  obtain s where s: "send gw_end (w_store w) (encode_frame m p) = (Inr (length (encode_frame m p)), s)"
    "s AB = w_store w AB @ encode_frame m p" "s BA = w_store w BA"
    using down.send_law [of "w_store w" "encode_frame m p"] by blast
  let ?w = "w\<lparr>w_gateway := (w_gateway w)\<lparr>gw_transport := s\<rparr>, w_store := s\<rparr>"
  have "on_gateway (\<lambda>g. Some (Return (gateway_send_frame gw_end g m p))) w = Some (Return ((), ?w))"
    by (simp add: on_gateway_def gateway_send_frame_def s(1))
  then show thesis by (rule that) (use assms s(2,3) in \<open>simp add: resting_def gateway_idle_def\<close>)
qed

lemma send_up:
  assumes "resting w sid d a b"
  obtains w' where "on_node (\<lambda>n. Some (Return (node_send_frame node_end n m p))) w = Some (Return ((), w'))"
    "resting w' sid d a (b @ encode_frame m p)"
proof -
  obtain s where s: "send node_end (w_store w) (encode_frame m p) = (Inr (length (encode_frame m p)), s)"
    "s BA = w_store w BA @ encode_frame m p" "s AB = w_store w AB"
    using up.send_law [of "w_store w" "encode_frame m p"] by blast
  let ?w = "w\<lparr>w_node := (w_node w)\<lparr>transport := s\<rparr>, w_store := s\<rparr>"
  have "on_node (\<lambda>n. Some (Return (node_send_frame node_end n m p))) w = Some (Return ((), ?w))"
    by (simp add: on_node_def node_send_frame_def s(1))
  then show thesis by (rule that) (use assms s(2,3) in \<open>simp add: resting_def node_idle_def\<close>)
qed

lemma poll_down:
  assumes "resting w sid d (encode_frame m p @ a) b" "length p \<le> MAX_PAYLOAD_LEN"
  obtains s where "s AB = a" "s BA = b"
    "poll node_end pc sensor_write ((w_node w)\<lparr>transport := w_store w\<rparr>) (w_sensor w) =
      (case poll_frame node_end pc sensor_write \<lparr>msg_type = m, payload = p\<rparr> ((w_node w)\<lparr>transport := s\<rparr>) d of
         Inl (n2, dev2) \<Rightarrow> poll node_end pc sensor_write n2 dev2 | Inr out \<Rightarrow> Some out)"
proof -
  obtain s where s: "delivers (recv node_end) (w_store w) (encode_frame m p) s" "s AB = a" "s BA = b"
    using down.channel_delivers [of "w_store w" "encode_frame m p" a] assms(1) by (auto simp: resting_def)
  let ?n = "(w_node w)\<lparr>transport := w_store w\<rparr>"
  have "node_idle ?n" using assms(1) by (simp add: resting_def node_idle_def)
  then have "poll node_end pc sensor_write ?n d =
      (case poll_frame node_end pc sensor_write \<lparr>msg_type = m, payload = p\<rparr> (?n\<lparr>transport := s\<rparr>) d of
         Inl (n2, dev2) \<Rightarrow> poll node_end pc sensor_write n2 dev2 | Inr out \<Rightarrow> Some out)"
    using s(1) assms(2) by (intro poll_delivered [where g = "[]"]) simp_all
  with s assms(1) show thesis by (intro that [of s]) (simp_all add: resting_def)
qed

lemma poll_returns:
  assumes "resting w sid d (encode_frame m p @ a) b" "length p \<le> MAX_PAYLOAD_LEN"
    and "\<And>n. station_id n = sid \<Longrightarrow>
      poll_frame node_end pc sensor_write \<lparr>msg_type = m, payload = p\<rparr> n d = Inr (Return (Inr req, n, d))"
  obtains w' where "node_poll pc w = Some (Return (req, w'))" "resting w' sid d a b"
proof -
  obtain s where s: "s AB = a" "s BA = b"
    "poll node_end pc sensor_write ((w_node w)\<lparr>transport := w_store w\<rparr>) (w_sensor w)
      = Some (Return (Inr req, (w_node w)\<lparr>transport := s\<rparr>, d))"
    using poll_down [OF assms(1,2), of pc] assms(1,3) by (auto simp: resting_def)
  then show thesis
    using assms(1) by (intro that) (simp_all add: node_poll_def, simp add: resting_def node_idle_def)
qed

lemma poll_continues:
  assumes "resting w sid d (encode_frame m p @ a) b" "length p \<le> MAX_PAYLOAD_LEN"
    and "\<And>n. station_id n = sid \<Longrightarrow>
      poll_frame node_end pc sensor_write \<lparr>msg_type = m, payload = p\<rparr> n d = Inl (n, d')"
  obtains w' where "node_poll pc w = node_poll pc w'" "resting w' sid d' a b"
proof -
  obtain s where s: "s AB = a" "s BA = b"
    "poll node_end pc sensor_write ((w_node w)\<lparr>transport := w_store w\<rparr>) (w_sensor w)
      = poll node_end pc sensor_write ((w_node w)\<lparr>transport := s\<rparr>) d'"
    using poll_down [OF assms(1,2), of pc] assms(1,3) by (auto simp: resting_def)
  let ?w = "w\<lparr>w_store := s, w_sensor := d'\<rparr>"
  have "node_poll pc w = node_poll pc ?w"
    unfolding node_poll_def s(3) by (simp add: case_prod_unfold)
  then show thesis using s(1,2) assms(1) by (intro that [of ?w]) (simp_all add: resting_def)
qed

lemma wait_up:
  assumes "resting w sid d a (encode_frame m p @ b)" "length p \<le> MAX_PAYLOAD_LEN"
    and "gateway_incoming pc \<lparr>msg_type = m, payload = p\<rparr> = Some (Inr inc)"
  obtains w' where "gateway_wait pc w = Some (Return (inc, w'))" "resting w' sid d a b"
proof -
  obtain s where s: "delivers (recv gw_end) (w_store w) (encode_frame m p) s" "s BA = b" "s AB = a"
    using up.channel_delivers [of "w_store w" "encode_frame m p" b] assms(1) by (auto simp: resting_def)
  let ?g = "(w_gateway w)\<lparr>gw_transport := w_store w\<rparr>"
  have "gateway_recv gw_end pc ?g = Some (Inr inc, ?g\<lparr>gw_transport := s\<rparr>)"
    using assms s(1) by (intro gateway_recv_delivered) (simp_all add: resting_def gateway_idle_def)
  then show thesis using s(2,3) assms(1)
    by (intro that) (simp_all add: gateway_wait_def on_gateway_def, simp add: resting_def gateway_idle_def)
qed

section \<open>The exchanges\<close>

definition reading :: "u16 \<Rightarrow> f32 \<Rightarrow> Telemetry" where
  "reading sid v = \<lparr>tm_station_id = sid, tm_register = 0x0100, tm_value = v, tm_unit = Celsius, tm_timestamp_ms = 0\<rparr>"

lemma answer_and_wait:
  assumes "resting w sid d [] []" "f32_fp (temp d) \<noteq> NaN" "fits (pc_Telemetry pc) (reading sid (temp d))"
  obtains w' where "run_bind (answer_read pc (ReqReadRegister \<lparr>rr_station_id = sid, rr_register = 0x0100\<rparr>) w) (gateway_wait pc)
      = Some (Return (InTelemetry (reading sid (temp d)), w'))" "resting w' sid d [] []"
proof -
  obtain bs where bs: "encodes (pc_Telemetry pc) (reading sid (temp d)) bs" "length bs \<le> MAX_PAYLOAD_LEN"
    using assms(3) by (auto simp: fits_def)
  obtain w1 where w1: "on_node (\<lambda>n. Some (Return (node_send_frame node_end n Telemetry bs))) w = Some (Return ((), w1))"
    "resting w1 sid d [] ([] @ encode_frame Telemetry bs)" using assms(1) by (rule send_up)
  have "gateway_incoming pc \<lparr>msg_type = Telemetry, payload = bs\<rparr> = Some (Inr (InTelemetry (reading sid (temp d))))"
    using bs(1) by (simp add: gateway_incoming_def encodes_def)
  then obtain w2 where w2: "gateway_wait pc w1 = Some (Return (InTelemetry (reading sid (temp d)), w2))"
    "resting w2 sid d [] []" using wait_up [of w1 sid d "[]" Telemetry bs "[]"] w1(2) bs(2) by auto
  have "on_node (\<lambda>n. Some (node_send_telemetry node_end pc n 0x0100 (temp d) Celsius 0)) w
      = on_node (\<lambda>n. Some (Return (node_send_frame node_end n Telemetry bs))) w"
    using assms(1) bs(1) by (simp add: on_node_def node_send_telemetry_def resting_def encodes_def reading_def)
  then have "answer_read pc (ReqReadRegister \<lparr>rr_station_id = sid, rr_register = 0x0100\<rparr>) w = Some (Return w1)"
    using assms(1,2) w1(1) by (simp add: answer_read_def sensor_read_def sensor_unit_def resting_def f32_via_f64)
  with w2 show thesis by (intro that [of w2]) simp_all
qed

lemma ask_read:
  assumes "resting w sid d a b" "fits (pc_ReadRegister pc) \<lparr>rr_station_id = sid, rr_register = 0x0100\<rparr>"
  obtains w' bs where "on_gateway (\<lambda>g. Some (send_read_register gw_end pc g sid 0x0100)) w = Some (Return ((), w'))"
    "resting w' sid d (a @ encode_frame ReadRegister bs) b" "length bs \<le> MAX_PAYLOAD_LEN"
    "\<And>n dev. station_id n = sid \<Longrightarrow> poll_frame node_end pc sensor_write \<lparr>msg_type = ReadRegister, payload = bs\<rparr> n dev
      = Inr (Return (Inr (ReqReadRegister \<lparr>rr_station_id = sid, rr_register = 0x0100\<rparr>), n, dev))"
proof -
  obtain bs where bs: "encodes (pc_ReadRegister pc) \<lparr>rr_station_id = sid, rr_register = 0x0100\<rparr> bs"
    "length bs \<le> MAX_PAYLOAD_LEN" using assms(2) by (auto simp: fits_def)
  obtain w1 where w1: "on_gateway (\<lambda>g. Some (Return (gateway_send_frame gw_end g ReadRegister bs))) w = Some (Return ((), w1))"
    "resting w1 sid d (a @ encode_frame ReadRegister bs) b" using assms(1) by (rule send_down)
  show thesis
    using w1 bs by (intro that [of w1 bs]) (simp_all add: send_read_register_def encodes_def poll_frame_def)
qed

lemma demo_read_exchange:
  assumes "resting w sid d [] []" "f32_fp (temp d) \<noteq> NaN"
    and "fits (pc_ReadRegister pc) \<lparr>rr_station_id = sid, rr_register = 0x0100\<rparr>"
    and "fits (pc_Telemetry pc) (reading sid (temp d))"
  obtains w' where "demo_read pc sid w = Some (Return (InTelemetry (reading sid (temp d)), w'))" "resting w' sid d [] []"
proof -
  obtain w1 bs where w1: "on_gateway (\<lambda>g. Some (send_read_register gw_end pc g sid 0x0100)) w = Some (Return ((), w1))"
    "resting w1 sid d (encode_frame ReadRegister bs @ []) []" "length bs \<le> MAX_PAYLOAD_LEN"
    "\<And>n dev. station_id n = sid \<Longrightarrow> poll_frame node_end pc sensor_write \<lparr>msg_type = ReadRegister, payload = bs\<rparr> n dev
      = Inr (Return (Inr (ReqReadRegister \<lparr>rr_station_id = sid, rr_register = 0x0100\<rparr>), n, dev))"
    using ask_read [OF assms(1,3)] by auto
  obtain w2 where w2: "node_poll pc w1 = Some (Return (ReqReadRegister \<lparr>rr_station_id = sid, rr_register = 0x0100\<rparr>, w2))"
    "resting w2 sid d [] []" using poll_returns [OF w1(2,3), of pc] w1(4) by metis
  obtain w3 where w3: "run_bind (answer_read pc (ReqReadRegister \<lparr>rr_station_id = sid, rr_register = 0x0100\<rparr>) w2) (gateway_wait pc)
      = Some (Return (InTelemetry (reading sid (temp d)), w3))" "resting w3 sid d [] []"
    using w2(2) assms(2,4) by (rule answer_and_wait)
  have "demo_read pc sid w = Some (Return (InTelemetry (reading sid (temp d)), w3))"
    by (simp add: demo_read_def w1(1) w2(1) w3(1))
  then show thesis using w3(2) by (rule that)
qed

lemma demo_set_point_exchange:
  assumes "resting w sid d [] []" "f32_fp v \<noteq> NaN"
    and "fits (pc_WriteRegister pc) \<lparr>wr_station_id = sid, wr_register = 0x0200, wr_value = v\<rparr>"
    and "fits (pc_ReadRegister pc) \<lparr>rr_station_id = sid, rr_register = 0x0100\<rparr>"
    and "fits (pc_Telemetry pc) (reading sid v)"
  obtains w' where "demo_set_point pc sid v w = Some (Return (InTelemetry (reading sid v), w'))"
    "resting w' sid (d\<lparr>temp := v\<rparr>) [] []"
proof -
  let ?d = "d\<lparr>temp := v\<rparr>"
  obtain ws where ws: "encodes (pc_WriteRegister pc) \<lparr>wr_station_id = sid, wr_register = 0x0200, wr_value = v\<rparr> ws"
    "length ws \<le> MAX_PAYLOAD_LEN" using assms(3) by (auto simp: fits_def)
  obtain w0 where w0: "on_gateway (\<lambda>g. Some (Return (gateway_send_frame gw_end g WriteRegister ws))) w = Some (Return ((), w0))"
    "resting w0 sid d ([] @ encode_frame WriteRegister ws) []" using assms(1) by (rule send_down)
  have s0: "on_gateway (\<lambda>g. Some (send_write_register gw_end pc g sid 0x0200 v)) w = Some (Return ((), w0))"
    using w0(1) ws(1) by (simp add: send_write_register_def encodes_def)
  obtain w1 bs where w1: "on_gateway (\<lambda>g. Some (send_read_register gw_end pc g sid 0x0100)) w0 = Some (Return ((), w1))"
    "resting w1 sid d (encode_frame WriteRegister ws @ encode_frame ReadRegister bs @ []) []" "length bs \<le> MAX_PAYLOAD_LEN"
    "\<And>n dev. station_id n = sid \<Longrightarrow> poll_frame node_end pc sensor_write \<lparr>msg_type = ReadRegister, payload = bs\<rparr> n dev
      = Inr (Return (Inr (ReqReadRegister \<lparr>rr_station_id = sid, rr_register = 0x0100\<rparr>), n, dev))"
    using ask_read [OF w0(2) assms(4)] by auto
  have "poll_frame node_end pc sensor_write \<lparr>msg_type = WriteRegister, payload = ws\<rparr> n d = Inl (n, ?d)"
    if "station_id n = sid" for n using that ws(1) by (simp add: poll_frame_def encodes_def sensor_write_def)
  then obtain w2 where w2: "node_poll pc w1 = node_poll pc w2" "resting w2 sid ?d (encode_frame ReadRegister bs @ []) []"
    using poll_continues [OF w1(2) ws(2), of pc ?d] by blast
  obtain w3 where w3: "node_poll pc w2 = Some (Return (ReqReadRegister \<lparr>rr_station_id = sid, rr_register = 0x0100\<rparr>, w3))"
    "resting w3 sid ?d [] []" using poll_returns [OF w2(2) w1(3), of pc] w1(4) by metis
  obtain w4 where w4: "run_bind (answer_read pc (ReqReadRegister \<lparr>rr_station_id = sid, rr_register = 0x0100\<rparr>) w3) (gateway_wait pc)
      = Some (Return (InTelemetry (reading sid v), w4))" "resting w4 sid ?d [] []"
    using answer_and_wait [OF w3(2), of pc] assms(2,5) by auto
  have "demo_set_point pc sid v w = Some (Return (InTelemetry (reading sid v), w4))"
    by (simp add: demo_set_point_def s0 w1(1) w2(1) w3(1) w4(1))
  then show thesis using w4(2) by (rule that)
qed

lemma demo_discover_exchange:
  assumes "resting w sid d [] []" "fits (pc_Discover pc) \<lparr>dc_protocol_version = 1\<rparr>"
    and "fits (pc_DiscoverResponse pc) \<lparr>dr_station_id = sid, dr_protocol_version = 1,
      dr_name = ''temp-sensor-01'', dr_register_count = 2\<rparr>"
  obtains inc w' where "demo_discover pc w = Some (Return (inc, w'))" "resting w' sid d [] []"
proof -
  obtain bs where bs: "encodes (pc_Discover pc) \<lparr>dc_protocol_version = 1\<rparr> bs" "length bs \<le> MAX_PAYLOAD_LEN"
    using assms(2) by (auto simp: fits_def)
  let ?r = "\<lparr>dr_station_id = sid, dr_protocol_version = 1, dr_name = ''temp-sensor-01'', dr_register_count = 2\<rparr>"
  obtain rs where rs: "encodes (pc_DiscoverResponse pc) ?r rs" "length rs \<le> MAX_PAYLOAD_LEN"
    using assms(3) by (auto simp: fits_def)
  obtain w1 where w1: "on_gateway (\<lambda>g. Some (Return (gateway_send_frame gw_end g Discover bs))) w = Some (Return ((), w1))"
    "resting w1 sid d ([] @ encode_frame Discover bs) []" using assms(1) by (rule send_down)
  have "poll_frame node_end pc sensor_write \<lparr>msg_type = Discover, payload = bs\<rparr> n d
      = Inr (Return (Inr (ReqDiscover \<lparr>dc_protocol_version = 1\<rparr>), n, d))" for n
    using bs(1) by (simp add: poll_frame_def encodes_def)
  then obtain w2 where w2: "node_poll pc w1 = Some (Return (ReqDiscover \<lparr>dc_protocol_version = 1\<rparr>, w2))" "resting w2 sid d [] []"
    using poll_returns [of w1 sid d Discover bs "[]" "[]" pc] w1(2) bs(2) by auto
  obtain w3 where w3: "on_node (\<lambda>n. Some (Return (node_send_frame node_end n DiscoverResponse rs))) w2 = Some (Return ((), w3))"
    "resting w3 sid d [] ([] @ encode_frame DiscoverResponse rs)" using w2(2) by (rule send_up)
  have "on_node (\<lambda>n. Some (node_send_discover_response node_end pc n ''temp-sensor-01'' 2)) w2 = Some (Return ((), w3))"
    using w3(1) w2(2) rs(1) by (simp add: on_node_def node_send_discover_response_def resting_def encodes_def)
  moreover have "gateway_incoming pc \<lparr>msg_type = DiscoverResponse, payload = rs\<rparr> = Some (Inr (InDiscoverResponse ?r))"
    using rs(1) by (simp add: gateway_incoming_def encodes_def)
  then obtain w4 where "gateway_wait pc w3 = Some (Return (InDiscoverResponse ?r, w4))" "resting w4 sid d [] []"
    using wait_up [of w3 sid d "[]" DiscoverResponse rs "[]"] w3(2) rs(2) by auto
  ultimately show thesis using w1(1) w2(1) bs(1)
    by (intro that [of "InDiscoverResponse ?r" w4]) (simp_all add: demo_discover_def send_discover_def encodes_def)
qed


text \<open>A serialiser that knows the messages of the demonstration.\<close>

definition demo_postcard :: "unit postcard" where
  "demo_postcard = sample_postcard\<lparr>
     pc_WriteRegister := sample_codec \<lparr>wr_station_id = 42, wr_register = 0x0200, wr_value = 0x41F00000\<rparr>,
     pc_DiscoverResponse := sample_codec \<lparr>dr_station_id = 42, dr_protocol_version = 1,
       dr_name = ''temp-sensor-01'', dr_register_count = 2\<rparr>,
     pc_Telemetry := \<lparr>to_allocvec = (\<lambda>t. Inr [if tm_value t = 0x41F00000 then 1 else 0]),
       from_bytes = (\<lambda>bs. Inr (reading 42 (if bs = [1] then 0x41F00000 else 0x41BC0000)))\<rparr>\<rparr>"

lemma fits_sample [simp]: "fits (sample_codec x) x"
  unfolding fits_def by (rule exI [of _ "[1]"]) (simp add: MAX_PAYLOAD_LEN_def)

lemma fits_demo [simp]:
  "fits (pc_ReadRegister demo_postcard) r"
  "fits (pc_WriteRegister demo_postcard) \<lparr>wr_station_id = 42, wr_register = 0x0200, wr_value = 0x41F00000\<rparr>"
  "fits (pc_Telemetry demo_postcard) (reading 42 0x41F00000)"
  "fits (pc_Telemetry demo_postcard) (reading 42 0x41BC0000)"
  "fits (pc_Discover demo_postcard) \<lparr>dc_protocol_version = 1\<rparr>"
  "fits (pc_DiscoverResponse demo_postcard) \<lparr>dr_station_id = 42, dr_protocol_version = 1,
     dr_name = ''temp-sensor-01'', dr_register_count = 2\<rparr>"
proof -
  show "fits (pc_ReadRegister demo_postcard) r"
    unfolding fits_def by (rule exI, rule conjI, simp add: demo_postcard_def, rule encodes_read_register_codec)
      (simp add: MAX_PAYLOAD_LEN_def)
qed (auto simp: demo_postcard_def sample_postcard_def fits_def encodes_def sample_codec_def reading_def MAX_PAYLOAD_LEN_def)

definition demo_world :: world where
  "demo_world = \<lparr>w_store = (\<lambda>_. []), w_gateway = gateway_new (\<lambda>_. []), w_node = node_new (\<lambda>_. []) 42,
     w_sensor = \<lparr>temp = 0x41BC0000\<rparr>\<rparr>"

lemma resting_demo: "resting demo_world 42 \<lparr>temp = 0x41BC0000\<rparr> [] []"
  by (simp add: demo_world_def resting_def gateway_new_def gateway_idle_def)

lemma demo_values: "f32_fp 0x41F00000 = Fin False (30 * 2 ^ 149)" "f32_fp 0x41BC0000 = Fin False (47 * 2 ^ 148)"
  by (simp_all add: f32_fp_def fp_decode_def inf_mag_def fp_num_def Let_def)


text \<open>
  C33. The demonstration program runs to its end: with a serialiser that handles its messages,
  \<^verbatim>\<open>main\<close> neither hangs nor panics, its final assertion on the value read back holds, and the
  sensor ends with the set-point.
\<close>

theorem demo_completes:
  assumes "fits (pc_Discover pc) \<lparr>dc_protocol_version = 1\<rparr>"
    and "fits (pc_DiscoverResponse pc) \<lparr>dr_station_id = 42, dr_protocol_version = 1,
      dr_name = ''temp-sensor-01'', dr_register_count = 2\<rparr>"
    and "fits (pc_ReadRegister pc) \<lparr>rr_station_id = 42, rr_register = 0x0100\<rparr>"
    and "fits (pc_WriteRegister pc) \<lparr>wr_station_id = 42, wr_register = 0x0200, wr_value = 0x41F00000\<rparr>"
    and "fits (pc_Telemetry pc) (reading 42 0x41BC0000)" "fits (pc_Telemetry pc) (reading 42 0x41F00000)"
  shows "\<exists>w. demo_main pc = Some (Return w) \<and> temp (w_sensor w) = 0x41F00000"
proof -
  obtain inc w1 where w1: "demo_discover pc demo_world = Some (Return (inc, w1))"
    "resting w1 42 \<lparr>temp = 0x41BC0000\<rparr> [] []" using resting_demo assms(1,2) by (rule demo_discover_exchange)
  obtain w2 where w2: "demo_read pc 42 w1 = Some (Return (InTelemetry (reading 42 0x41BC0000), w2))"
    "resting w2 42 \<lparr>temp = 0x41BC0000\<rparr> [] []"
    using demo_read_exchange [OF w1(2), of pc] assms(3,5) by (auto simp: demo_values)
  obtain w3 where w3: "demo_set_point pc 42 0x41F00000 w2 = Some (Return (InTelemetry (reading 42 0x41F00000), w3))"
    "resting w3 42 \<lparr>temp = 0x41F00000\<rparr> [] []"
    using demo_set_point_exchange [OF w2(2), of "0x41F00000" pc] assms(3,4,6) by (auto simp: demo_values)
  have "f32_fp 0x3C23D70A = Fin False (10737418 * 2 ^ 119)"
    by (simp add: f32_fp_def fp_decode_def inf_mag_def fp_num_def Let_def)
  then have "f32_lt (f32_abs (f32_sub 0x41F00000 0x41F00000)) 0x3C23D70A"
    by (simp add: f32_lt_def demo_values fp_sub_self fp_lt_def signed_def)
  moreover have "demo_world = \<lparr>w_store = snd pair, w_gateway = gateway_new (snd pair), w_node = node_new (snd pair) 42,
      w_sensor = \<lparr>temp = 0x41BC0000\<rparr>\<rparr>" by (simp add: demo_world_def pair_def)
  ultimately have "demo_main pc = Some (Return w3)"
    using w1(1) w2(1) w3(1) by (simp add: demo_main_def reading_def)
  then show ?thesis using w3(2) by (auto simp: resting_def)
qed

theorem demo_completes_witness:
  "\<exists>w. demo_main demo_postcard = Some (Return w) \<and> temp (w_sensor w) = 0x41F00000"
  by (rule demo_completes) simp_all

end
