(* ===== verification/Qemu_Firmware.thy ===== *)
theory Qemu_Firmware
  imports Wire_Node Scale_Transform
begin

text \<open>
  The demonstration firmware of \<^verbatim>\<open>packages/qemu-mps2/src\<close>: the UART driver, the transport over it,
  the simulated sensor and one turn of the main loop. The device registers are a parameter, a
  record of what a volatile read or write does to the hardware state. A driver loop that spins on
  a status bit may spin forever; the result is then \<open>None\<close>, and so is the transport state of a node
  whose processor hangs in the driver. The benchmark section of \<^verbatim>\<open>main\<close> and the busy delay have no
  effect on the protocol and are left out. The counter \<^verbatim>\<open>tick\<close> wraps, as in a release build.

  The lemmas show that the decimal and hexadecimal printers write what they should without an
  index out of range, and that the check for pending input takes the first byte of the request
  with it, so that the request is lost.
\<close>

section \<open>The UART driver\<close>

record 'h mmio =
  read_state :: "'h \<Rightarrow> u32 \<times> 'h"
  read_data :: "'h \<Rightarrow> u32 \<times> 'h"
  write_data :: "'h \<Rightarrow> u32 \<Rightarrow> 'h"
  write_ctrl :: "'h \<Rightarrow> u32 \<Rightarrow> 'h"
  write_bauddiv :: "'h \<Rightarrow> u32 \<Rightarrow> 'h"

definition STATE_TXFULL :: u32 where "STATE_TXFULL = 1"
definition STATE_RXFULL :: u32 where "STATE_RXFULL = 2"
definition CTRL_TX_EN :: u32 where "CTRL_TX_EN = 1"
definition CTRL_RX_EN :: u32 where "CTRL_RX_EN = 2"

definition uart_init :: "'h mmio \<Rightarrow> 'h \<Rightarrow> 'h" where
  "uart_init hw h = write_ctrl hw (write_bauddiv hw h 27) (CTRL_TX_EN OR CTRL_RX_EN)"

partial_function (option) write_byte :: "'h mmio \<Rightarrow> u8 \<Rightarrow> 'h \<Rightarrow> 'h option" where
  "write_byte hw byte h =
     (case read_state hw h of (st, h1) \<Rightarrow>
        if st AND STATE_TXFULL \<noteq> 0 then write_byte hw byte h1
        else Some (write_data hw h1 (ucast byte)))"

primrec write_bytes :: "'h mmio \<Rightarrow> u8 list \<Rightarrow> 'h \<Rightarrow> 'h option" where
  "write_bytes hw [] h = Some h"
| "write_bytes hw (b # data) h = Option.bind (write_byte hw b h) (write_bytes hw data)"

definition write_str :: "'h mmio \<Rightarrow> string \<Rightarrow> 'h \<Rightarrow> 'h option" where
  "write_str hw s = write_bytes hw (map of_char s)"

definition try_read_byte :: "'h mmio \<Rightarrow> 'h \<Rightarrow> u8 option \<times> 'h" where
  "try_read_byte hw h =
     (case read_state hw h of (st, h1) \<Rightarrow>
        if st AND STATE_RXFULL \<noteq> 0 then (case read_data hw h1 of (d, h2) \<Rightarrow> (Some (ucast d), h2))
        else (None, h1))"

partial_function (option) read_byte :: "'h mmio \<Rightarrow> 'h \<Rightarrow> (u8 \<times> 'h) option" where
  "read_byte hw h =
     (case read_state hw h of (st, h1) \<Rightarrow>
        if st AND STATE_RXFULL \<noteq> 0 then (case read_data hw h1 of (d, h2) \<Rightarrow> Some (ucast d, h2))
        else read_byte hw h1)"

text \<open>The digits of a number in the order the loop stores them, in a buffer of ten bytes.\<close>

function fill_digits :: "u8 list \<Rightarrow> u32 \<Rightarrow> u8 list rust" where
  "fill_digits ds n =
     (if n = 0 then Return ds
      else if length ds < 10 then fill_digits (ds @ [0x30 + ucast (n mod 10)]) (n div 10)
      else Panic)"
  by pat_completeness auto

termination fill_digits
  by (relation "measure (\<lambda>(ds, n). unat n)") (auto simp: unat_div word_neq_0_conv unat_gt_0)

declare fill_digits.simps [simp del]

definition write_uint :: "'h mmio \<Rightarrow> u32 \<Rightarrow> 'h \<Rightarrow> 'h run" where
  "write_uint hw n h =
     (if n = 0 then map_option Return (write_byte hw 0x30 h)
      else case fill_digits [] n of
        Panic \<Rightarrow> Some Panic
      | Return ds \<Rightarrow> map_option Return (write_bytes hw (rev ds) h))"

definition hex_digit :: "nat \<Rightarrow> u8" where
  "hex_digit k = of_char (''0123456789ABCDEF'' ! k)"

definition write_hex :: "'h mmio \<Rightarrow> u16 \<Rightarrow> 'h \<Rightarrow> 'h option" where
  "write_hex hw n = write_bytes hw (map (\<lambda>shift. hex_digit (unat (drop_bit (shift * 4) n AND 0xF))) (rev [0..<4]))"

section \<open>The transport\<close>

text \<open>\<^verbatim>\<open>recv\<close> into a buffer: one byte by waiting, then what is there already.\<close>

fun drain_uart :: "'h mmio \<Rightarrow> nat \<Rightarrow> 'h \<Rightarrow> u8 list \<times> 'h" where
  "drain_uart hw 0 h = ([], h)"
| "drain_uart hw (Suc k) h =
     (case try_read_byte hw h of
        (None, h1) \<Rightarrow> ([], h1)
      | (Some b, h1) \<Rightarrow> (case drain_uart hw k h1 of (bs, h2) \<Rightarrow> (b # bs, h2)))"

definition uart_recv :: "'h mmio \<Rightarrow> nat \<Rightarrow> 'h \<Rightarrow> (u8 list \<times> 'h) option" where
  "uart_recv hw len h =
     (if len = 0 then Some ([], h)
      else Option.bind (read_byte hw h) (\<lambda>(b, h1).
        case drain_uart hw (len - 1) h1 of (bs, h2) \<Rightarrow> Some (b # bs, h2)))"

definition uart_send :: "'h mmio \<Rightarrow> u8 list \<Rightarrow> 'h \<Rightarrow> 'h option" where
  "uart_send hw data h = write_bytes hw data h"

definition uart_transport :: "'h mmio \<Rightarrow> 'h option transport" where
  "uart_transport hw =
     \<lparr>send = (\<lambda>t data. (Inr (length data), Option.bind t (uart_send hw data))),
      recv = (\<lambda>t. case Option.bind t (uart_recv hw 1) of
         None \<Rightarrow> (Inr None, None)
       | Some (bs, h) \<Rightarrow> (Inr (case bs of [] \<Rightarrow> None | b # _ \<Rightarrow> Some b), Some h))\<rparr>"

section \<open>The main loop\<close>

record SimSensor =
  sim_temp :: f32

definition sim_read :: "SimSensor \<Rightarrow> u16 \<Rightarrow> (DeviceError + RawValue) \<times> SimSensor" where
  "sim_read d register =
     (if register = 0x0100
      then let v = f32_add (sim_temp d) 0x3DCCCCCD in (Inr (F32V v), d\<lparr>sim_temp := v\<rparr>)
      else (Inl InvalidRegister, d))"

definition sim_write :: "SimSensor \<Rightarrow> u16 \<Rightarrow> f32 \<Rightarrow> (DeviceError + unit) \<times> SimSensor" where
  "sim_write d _ _ = (Inl PermissionDenied, d)"

definition sim_unit :: "u16 \<Rightarrow> SensorUnit" where
  "sim_unit register = (if register = 0x0100 then Celsius else Dimensionless)"

text \<open>A direct use of the driver while the node owns the transport.\<close>

definition uart_op :: "('h \<Rightarrow> 'h option) \<Rightarrow> 'h option Node \<Rightarrow> 'h option Node" where
  "uart_op f n = n\<lparr>transport := Option.bind (transport n) f\<rparr>"

definition line :: "string \<Rightarrow> string" where
  "line s = s @ [CHR 0x0D, CHR 0x0A]"

definition firmware_announce ::
    "'h mmio \<Rightarrow> 'e postcard \<Rightarrow> 'h option Node \<Rightarrow> SimSensor \<Rightarrow> u32 \<Rightarrow> 'h option Node run" where
  "firmware_announce hw pc n d tick =
     run_bind (Some (node_send_telemetry (uart_transport hw) pc n 0x0100 (sim_temp d) Celsius (ucast tick))) (\<lambda>(_, n1).
     case transport (uart_op (write_str hw ''[node] tick='') n1) of
       None \<Rightarrow> None
     | Some h \<Rightarrow> run_bind (write_uint hw tick h) (\<lambda>h1.
         case write_str hw '' temp='' h1 of
           None \<Rightarrow> None
         | Some h2 \<Rightarrow> run_bind (write_uint hw (f32_as_u32 (sim_temp d)) h2) (\<lambda>h3.
             Some (Return (uart_op (write_str hw (line '''')) (n1\<lparr>transport := Some h3\<rparr>))))))"

text \<open>What the loop does with the outcome of \<^verbatim>\<open>poll\<close>.\<close>

definition firmware_handle ::
    "'h mmio \<Rightarrow> 'e postcard \<Rightarrow> u32 \<Rightarrow> ('e NodeError + Request) \<times> 'h option Node \<times> SimSensor
     \<Rightarrow> ('h option Node \<times> SimSensor) run" where
  "firmware_handle hw pc tick = (\<lambda>(r, n, d).
     case r of
       Inr (ReqReadRegister req) \<Rightarrow>
         let n1 = uart_op (\<lambda>h. Option.bind (write_str hw ''[node] read req reg=0x'' h)
                    (\<lambda>h. Option.bind (write_hex hw (rr_register req) h) (write_str hw (line '''')))) n;
             (raw, d1) = sim_read d (rr_register req);
             value = f64_as_f32 (as_f64 (case raw of Inr v \<Rightarrow> v | Inl _ \<Rightarrow> F32V 0))
         in run_bind (Some (node_send_telemetry (uart_transport hw) pc n1 (rr_register req) value
                (sim_unit (rr_register req)) (ucast tick))) (\<lambda>(_, n2).
            Some (Return (uart_op (write_str hw (line ''[node] sent telemetry'')) n2, d1)))
     | Inr (ReqDiscover _) \<Rightarrow>
         run_bind (Some (node_send_discover_response (uart_transport hw) pc n ''kei-qemu-temp-sensor'' 1)) (\<lambda>(_, n2).
         Some (Return (uart_op (write_str hw (line ''[node] sent discover response'')) n2, d)))
     | Inr _ \<Rightarrow> Some (Return (n, d))
     | Inl _ \<Rightarrow> Some (Return (uart_op (write_str hw (line ''[node] poll error'')) n, d)))"

definition incoming_line :: string where
  "incoming_line = line ''[node] incoming data, polling...''"

definition firmware_serve ::
    "'h mmio \<Rightarrow> 'e postcard \<Rightarrow> 'h option Node \<Rightarrow> SimSensor \<Rightarrow> u32 \<Rightarrow> ('h option Node \<times> SimSensor) run" where
  "firmware_serve hw pc n d tick =
     (case transport n of
        None \<Rightarrow> None
      | Some h \<Rightarrow>
          (case try_read_byte hw h of
             (None, h1) \<Rightarrow> Some (Return (n\<lparr>transport := Some h1\<rparr>, d))
           | (Some _, h1) \<Rightarrow>
               run_bind (poll (uart_transport hw) pc sim_write
                   (uart_op (write_str hw incoming_line) (n\<lparr>transport := Some h1\<rparr>)) d)
                 (firmware_handle hw pc tick)))"

definition firmware_turn ::
    "'h mmio \<Rightarrow> 'e postcard \<Rightarrow> 'h option Node \<Rightarrow> SimSensor \<Rightarrow> u32 \<Rightarrow> ('h option Node \<times> SimSensor \<times> u32) run" where
  "firmware_turn hw pc n d tick0 =
     (let tick = tick0 + 1
      in run_bind (firmware_announce hw pc n d tick) (\<lambda>n1.
         run_bind (firmware_serve hw pc n1 d tick) (\<lambda>(n2, d2).
         Some (Return (n2, d2, tick)))))"

section \<open>Printing numbers\<close>

text \<open>The number that decimal digits denote, most significant first.\<close>

definition decimal :: "u8 list \<Rightarrow> nat" where
  "decimal bs = foldl (\<lambda>v b. 10 * v + (unat b - 48)) 0 bs"

lemma decimal_snoc [simp]: "decimal (bs @ [b]) = 10 * decimal bs + (unat b - 48)"
  by (simp add: decimal_def)

lemma unat_digit: "unat (0x30 + ucast (n mod 10) :: u8) = 48 + unat n mod 10" for n :: u32
proof -
  have m: "unat (n mod 10) < 10" by (simp add: unat_mod)
  then have "unat (ucast (n mod 10) :: u8) = unat (n mod 10)"
    by (simp add: unsigned_ucast_eq take_bit_nat_eq_self_iff unat_mod)
  then show ?thesis using m by (subst unat_add_lem [THEN iffD1]) (simp_all add: unat_mod)
qed

lemma fill_digits_spec:
  assumes "unat n < 10 ^ k" "length ds + k \<le> 10"
  obtains bs where "fill_digits ds n = Return (ds @ bs)" "decimal (rev bs) = unat n"
    "\<forall>b \<in> set bs. 48 \<le> unat b \<and> unat b \<le> 57"
  using assms
proof (induction k arbitrary: n ds thesis)
  case 0
  then have "n = 0" by (simp add: unat_eq_0)
  then show ?case by (intro "0.prems"(1) [of "[]"]) (simp_all add: fill_digits.simps decimal_def)
next
  case (Suc k)
  show ?case
  proof (cases "n = 0")
    case True
    then show ?thesis by (intro Suc.prems(1) [of "[]"]) (simp_all add: fill_digits.simps decimal_def)
  next
    case False
    let ?b = "0x30 + ucast (n mod 10) :: u8"
    have "unat (n div 10) < 10 ^ k" using Suc.prems(2) by (simp add: unat_div less_mult_imp_div_less mult.commute)
    moreover have "length (ds @ [?b]) + k \<le> 10" using Suc.prems(3) by simp
    ultimately obtain bs where bs: "fill_digits (ds @ [?b]) (n div 10) = Return ((ds @ [?b]) @ bs)"
      "decimal (rev bs) = unat (n div 10)" "\<forall>b \<in> set bs. 48 \<le> unat b \<and> unat b \<le> 57"
      using Suc.IH by blast
    have b: "unat ?b = 48 + unat n mod 10" by (rule unat_digit)
    then have "48 \<le> unat ?b \<and> unat ?b \<le> 57" by linarith
    moreover have "fill_digits ds n = Return (ds @ ?b # bs)"
      using bs(1) False Suc.prems(3) by (subst fill_digits.simps) simp
    moreover have "decimal (rev (?b # bs)) = unat n" using bs(2) b by (simp add: unat_div)
    ultimately show ?thesis using bs(3) by (intro Suc.prems(1) [of "?b # bs"]) simp_all
  qed
qed

text \<open>
  \<^verbatim>\<open>write_uint\<close> never indexes beyond its buffer, and writes the decimal representation.
\<close>

lemma write_uint_decimal:
  "\<exists>bs. write_uint hw n h = map_option Return (write_bytes hw bs h) \<and> decimal bs = unat n
     \<and> (\<forall>b \<in> set bs. 48 \<le> unat b \<and> unat b \<le> 57)"
proof (cases "n = 0")
  case True
  then show ?thesis
    by (intro exI [of _ "[0x30]"]) (simp add: write_uint_def decimal_def Option.map_conv_bind_option comp_def)
next
  case False
  have "unat n < 10 ^ 10" using unsigned_less [of n, where ?'a = nat] by simp
  then obtain bs where "fill_digits [] n = Return bs" "decimal (rev bs) = unat n"
    "\<forall>b \<in> set bs. 48 \<le> unat b \<and> unat b \<le> 57" using fill_digits_spec [of n 10 "[]"] by auto
  with False show ?thesis by (intro exI [of _ "rev bs"]) (simp add: write_uint_def)
qed

section \<open>A request that arrives\<close>

text \<open>A node whose transport never has anything to say waits forever.\<close>

lemma node_recv_frame_hangs:
  fixes tr :: "'t transport"
  assumes "rx_buf n = []" "recv tr (transport n) = (Inr None, transport n)"
  shows "(node_recv_frame tr n :: (('e NodeError + Frame) \<times> 't Node) option) = None"
proof -
  define stuck :: "'t transport \<Rightarrow> 't Node \<Rightarrow> bool" where
    "stuck tr n \<longleftrightarrow> rx_buf n = [] \<and> recv tr (transport n) = (Inr None, transport n)" for tr n
  have "\<not> stuck tr n" if "node_recv_frame tr n = Some (y :: ('e NodeError + Frame) \<times> 't Node)" for y
  proof (rule node_recv_frame.raw_induct [where P = "\<lambda>tr n y. \<not> stuck tr n", OF _ that], rule notI)
    fix rec :: "'t transport \<Rightarrow> 't Node \<Rightarrow> (('e NodeError + Frame) \<times> 't Node) option" and tr n y
    assume IH: "\<And>tr n y. rec tr n = Some y \<Longrightarrow> \<not> stuck tr n" and s: "stuck tr n"
    then have eq: "n\<lparr>rx_buf := []\<rparr> = n" by (cases n) (simp add: stuck_def)
    assume "(case (if rx_buf n \<noteq> [] then push_slice (decoder n) (rx_buf n) else (Inr None, decoder n)) of
        (Inl e, d) \<Rightarrow> Some (Inl (Decode e), n\<lparr>decoder := d\<rparr>)
      | (Inr None, d) \<Rightarrow>
          (case recv tr (transport n) of
             (Inl e, t) \<Rightarrow> Some (Inl (Transport e), n\<lparr>decoder := d, rx_buf := [], transport := t\<rparr>)
           | (Inr None, t) \<Rightarrow> rec tr (n\<lparr>decoder := d, rx_buf := [], transport := t\<rparr>)
           | (Inr (Some byte), t) \<Rightarrow>
               (case push_slice d [byte] of
                  (Inl e, d1) \<Rightarrow> Some (Inl (Decode e), n\<lparr>decoder := d1, rx_buf := [], transport := t\<rparr>)
                | (Inr None, d1) \<Rightarrow> rec tr (n\<lparr>decoder := d1, rx_buf := [], transport := t\<rparr>)
                | (Inr (Some f), d1) \<Rightarrow> Some (Inr f, n\<lparr>decoder := d1, rx_buf := [], transport := t\<rparr>)))
      | (Inr (Some f), d) \<Rightarrow> Some (Inr f, n\<lparr>decoder := d, rx_buf := []\<rparr>)) = Some y"
    then have "rec tr (n\<lparr>rx_buf := []\<rparr>) = Some y" using s by (simp add: stuck_def)
    then have "rec tr n = Some y" unfolding eq .
    with IH s show False by blast
  qed
  with assms show ?thesis
    by (cases "node_recv_frame tr n :: (('e NodeError + Frame) \<times> 't Node) option") (auto simp: stuck_def)
qed

lemma uart_recv_none [simp]: "recv (uart_transport hw) None = (Inr None, None)"
  by (simp add: uart_transport_def)

lemma uart_recv_some:
  "recv (uart_transport hw) (Some h) =
     (case read_byte hw h of None \<Rightarrow> (Inr None, None) | Some (b, h1) \<Rightarrow> (Inr (Some b), Some h1))"
  by (simp add: uart_transport_def uart_recv_def split: option.splits)

lemma node_silent_line:
  assumes "rx_buf n = []" "transport n = Some h" "read_byte hw h = None"
  shows "(node_recv_frame (uart_transport hw) n :: (('e NodeError + Frame) \<times> _) option) = None"
proof -
  have "node_recv_frame (uart_transport hw) n
      = (node_recv_frame (uart_transport hw) (node_upd n None (decoder n)) :: (('e NodeError + Frame) \<times> _) option)"
    using assms by (intro node.loop_wait) (simp_all add: uart_recv_some)
  also have "\<dots> = None" using assms(1) by (intro node_recv_frame_hangs) (simp_all add: node_upd_def)
  finally show ?thesis .
qed

lemma poll_cong:
  fixes pc :: "'e postcard"
  assumes "(node_recv_frame tr n :: (('e NodeError + Frame) \<times> _) option) = node_recv_frame tr n1"
  shows "poll tr pc wr n dev = poll tr pc wr n1 dev"
  unfolding poll.simps [of tr pc wr n] poll.simps [of tr pc wr n1] assms ..

lemma poll_quiet:
  assumes "node_idle n" "FRAME_MAGIC \<notin> set bs" "delivers (recv tr) (transport n) bs t'"
  shows "poll tr pc wr n dev = poll tr pc wr (n\<lparr>transport := t'\<rparr>) dev"
proof (rule poll_cong)
  have "\<forall>b \<in> set bs. push_byte decoder_new b = (Inr None, decoder_new)"
    using assms(2) by (auto simp: decoder_new_def push_byte_sync)
  moreover have "node_upd n t' decoder_new = n\<lparr>transport := t'\<rparr>"
    using assms(1) by (cases n) (simp add: node_upd_def node_idle_def)
  ultimately show "node_recv_frame tr n = node_recv_frame tr (n\<lparr>transport := t'\<rparr>)"
    using node.loop_quiet [OF assms(3), of decoder_new n] assms(1) by (simp add: node_idle_def)
qed

text \<open>
  C29. The firmware loses the request it is told about. The loop looks for pending input with
  \<^verbatim>\<open>try_read_byte\<close>, which takes the byte out of the receiver; for a frame without another magic
  byte inside, the bytes that follow are passed over, so the turn goes on exactly as if the
  frame had never been sent, waiting for another one. If nothing else arrives, the turn never
  ends: no answer, and no telemetry any more.
\<close>

theorem firmware_loses_request:
  fixes pc :: "'e postcard"
  assumes "node_idle n" "transport n = Some h"
    and "encode_frame m p = FRAME_MAGIC # rest" "FRAME_MAGIC \<notin> set rest"
    and "try_read_byte hw h = (Some FRAME_MAGIC, h1)" "write_str hw incoming_line h1 = Some h2"
    and "delivers (recv (uart_transport hw)) (Some h2) rest (Some h3)"
  shows "firmware_serve hw pc n d tick =
      run_bind (poll (uart_transport hw) pc sim_write (n\<lparr>transport := Some h3\<rparr>) d) (firmware_handle hw pc tick)
    \<and> (read_byte hw h3 = None \<longrightarrow> firmware_serve hw pc n d tick = None)"
proof -
  let ?n = "n\<lparr>transport := Some h2\<rparr>"
  have "uart_op (write_str hw incoming_line) (n\<lparr>transport := Some h1\<rparr>) = ?n"
    using assms(6) by (simp add: uart_op_def)
  then have serve: "firmware_serve hw pc n d tick =
      run_bind (poll (uart_transport hw) pc sim_write ?n d) (firmware_handle hw pc tick)"
    using assms(2,5) by (simp add: firmware_serve_def)
  have "poll (uart_transport hw) pc sim_write ?n d = poll (uart_transport hw) pc sim_write (?n\<lparr>transport := Some h3\<rparr>) d"
    using assms(1,4,7) by (intro poll_quiet) (simp_all add: node_idle_def)
  then have wait: "firmware_serve hw pc n d tick =
      run_bind (poll (uart_transport hw) pc sim_write (n\<lparr>transport := Some h3\<rparr>) d) (firmware_handle hw pc tick)"
    using serve by simp
  moreover have "poll (uart_transport hw) pc sim_write (n\<lparr>transport := Some h3\<rparr>) d = None" if "read_byte hw h3 = None"
    using that assms(1) node_silent_line [of "n\<lparr>transport := Some h3\<rparr>" h3 hw, where ?'e = 'e]
    by (subst poll.simps) (simp add: node_idle_def)
  ultimately show ?thesis by simp
qed

text \<open>A UART that holds a queue of received bytes and is always ready to send.\<close>

definition sim_uart :: "(u8 list \<times> u8 list) mmio" where
  "sim_uart = \<lparr>read_state = (\<lambda>(i, out). (if i = [] then 0 else STATE_RXFULL, (i, out))),
     read_data = (\<lambda>(i, out). (ucast (hd i), (tl i, out))),
     write_data = (\<lambda>(i, out) w. (i, out @ [ucast w])),
     write_ctrl = (\<lambda>h _. h), write_bauddiv = (\<lambda>h _. h)\<rparr>"

lemma ucast_widen [simp]: "ucast (ucast b :: u32) = b" for b :: u8
  by (rule bit_word_eqI) (auto simp: bit_simps)

lemma sim_write_bytes: "write_bytes sim_uart data (i, out) = Some (i, out @ data)"
proof (induction data arbitrary: out)
  case (Cons b data)
  have "write_byte sim_uart b (i, out) = Some (i, out @ [b])"
    by (subst write_byte.simps) (simp add: sim_uart_def STATE_TXFULL_def STATE_RXFULL_def)
  with Cons show ?case by simp
qed simp

lemma sim_delivers: "delivers (recv (uart_transport sim_uart)) (Some (bs, out)) bs (Some ([], out))"
proof (induction bs)
  case (Cons b bs)
  have "read_byte sim_uart (b # bs, out) = Some (b, (bs, out))"
    by (subst read_byte.simps) (simp add: sim_uart_def STATE_RXFULL_def)
  with Cons show ?case by (intro delivers_byte) (simp_all add: uart_recv_some)
qed simp

lemma sim_silent: "read_byte sim_uart ([], out) = None"
proof -
  have "sim_uart = sim_uart \<longrightarrow> fst h \<noteq> []" if "read_byte sim_uart h = Some y" for h y
  proof (rule read_byte.raw_induct [where P = "\<lambda>hw h y. hw = sim_uart \<longrightarrow> fst h \<noteq> []", OF _ that], intro impI notI)
    fix rec :: "(u8 list \<times> u8 list) mmio \<Rightarrow> u8 list \<times> u8 list \<Rightarrow> (u8 \<times> u8 list \<times> u8 list) option" and hw h y
    assume IH: "\<And>hw h y. rec hw h = Some y \<Longrightarrow> hw = sim_uart \<longrightarrow> fst h \<noteq> []" and "hw = sim_uart" "fst h = []"
      and "(case read_state hw h of (st, h1) \<Rightarrow>
          if st AND STATE_RXFULL \<noteq> 0 then (case read_data hw h1 of (d, h2) \<Rightarrow> Some (ucast d, h2)) else rec hw h1) = Some y"
    then have "rec sim_uart h = Some y" by (cases h) (simp add: sim_uart_def)
    with IH \<open>fst h = []\<close> show False by blast
  qed
  then show ?thesis by (cases "read_byte sim_uart ([], out)") force+
qed

text \<open>The checksum, evaluated from the inside.\<close>

lemma crc_bit_numeral:
  "crc_bit (numeral w) = (if numeral w AND (1 :: u16) \<noteq> 0 then drop_bit 1 (numeral w) XOR 0xA001 else drop_bit 1 (numeral w))"
  by (simp add: crc_bit_def)

lemma crc_byte_unroll:
  "crc_byte c b = crc_bit (crc_bit (crc_bit (crc_bit (crc_bit (crc_bit (crc_bit (crc_bit (c XOR ucast b))))))))"
  by (simp add: crc_byte_def eval_nat_numeral)

lemma discover_frame: "encode_frame Discover [1] = FRAME_MAGIC # [1, 0, 4, 1, 194, 216]"
  by (simp add: encode_frame_def encode_frame_inner_def Let_def MAX_PAYLOAD_LEN_def u16_to_le_bytes_def
      crc16_modbus_def crc_byte_unroll crc_bit_numeral)

theorem firmware_loses_request_witness:
  "firmware_serve sim_uart sample_postcard
     (node_new (Some (encode_frame Discover [1], [])) 1) \<lparr>sim_temp = 0x41A00000\<rparr> 1 = None"
proof -
  let ?r = "[1, 0, 4, 1, 194, 216] :: u8 list"
  have rd: "try_read_byte sim_uart (encode_frame Discover [1], []) = (Some FRAME_MAGIC, (?r, []))"
    unfolding discover_frame by (simp add: try_read_byte_def sim_uart_def STATE_RXFULL_def)
  have wr: "write_str sim_uart incoming_line (?r, []) = Some (?r, [] @ map of_char incoming_line)"
    unfolding write_str_def by (rule sim_write_bytes)
  have nm: "FRAME_MAGIC \<notin> set ?r" by (simp add: FRAME_MAGIC_def)
  show ?thesis
    by (rule firmware_loses_request [OF node_new_idle _ discover_frame nm rd wr sim_delivers,
          THEN conjunct2, THEN mp, OF _ sim_silent]) simp
qed

end
