(* ===== verification/Ring_Buffer.thy ===== *)
theory Ring_Buffer
  imports Kei_Prelude
begin

text \<open>
  The single-producer single-consumer ring buffer of
  \<^verbatim>\<open>kernel/libs/ring-buffer/src/lib.rs\<close>. Head and tail are free-running \<^typ>\<open>usize\<close> counters that
  wrap at 64 bits; a slot is addressed by masking a counter with \<open>capacity - 1\<close>. The backing
  memory segment is a list of items: item \<open>i\<close> occupies the \<open>T_SIZE\<close> bytes from \<open>i * T_SIZE\<close>, and
  an access beyond its end is the \<open>unwrap\<close> that panics.

  The lemmas refine every operation to the same operation on a list, across the wrap-around of
  the counters; the last section treats producer and consumer running concurrently.
\<close>

section \<open>State and operations\<close>

record 'a RingBuffer =
  segment :: "'a list"
  capacity :: usize
  tail :: usize
  head :: usize

definition PAGE_SIZE :: nat where "PAGE_SIZE = 4096"

definition is_power_of_two :: "usize \<Rightarrow> bool" where
  "is_power_of_two c \<longleftrightarrow> (\<exists>k \<in> {..<64 :: nat}. c = 2 ^ k)"

text \<open>
  \<open>alloc\<close> stands for \<open>FrameAllocOptions::alloc_segment\<close>: given a number of frames, the items that
  fit into the allocated memory, with whatever content it has.
\<close>

definition rb_new :: "(nat \<Rightarrow> 'a list option) \<Rightarrow> usize \<Rightarrow> usize \<Rightarrow> 'a RingBuffer rust" where
  "rb_new alloc T_SIZE cap =
     (if \<not> is_power_of_two cap then Panic
      else if unat cap * unat T_SIZE \<ge> 2 ^ 64 then Panic
      else case alloc ((unat cap * unat T_SIZE + PAGE_SIZE - 1) div PAGE_SIZE) of
             None \<Rightarrow> Panic
           | Some seg \<Rightarrow> Return \<lparr>segment = seg, capacity = cap, tail = 0, head = 0\<rparr>)"

definition rb_len :: "'a RingBuffer \<Rightarrow> usize" where
  "rb_len rb = tail rb - head rb"

definition free_len :: "'a RingBuffer \<Rightarrow> usize" where
  "free_len rb = capacity rb - rb_len rb"

definition rb_is_empty :: "'a RingBuffer \<Rightarrow> bool" where
  "rb_is_empty rb \<longleftrightarrow> rb_len rb = 0"

definition rb_is_full :: "'a RingBuffer \<Rightarrow> bool" where
  "rb_is_full rb \<longleftrightarrow> free_len rb = 0"

definition advance_tail :: "'a RingBuffer \<Rightarrow> usize \<Rightarrow> nat \<Rightarrow> 'a RingBuffer" where
  "advance_tail rb t len = rb\<lparr>tail := t + word_of_nat len\<rparr>"

definition advance_head :: "'a RingBuffer \<Rightarrow> usize \<Rightarrow> nat \<Rightarrow> 'a RingBuffer" where
  "advance_head rb h len = rb\<lparr>head := h + word_of_nat len\<rparr>"

definition reset_head :: "'a RingBuffer \<Rightarrow> 'a RingBuffer" where
  "reset_head rb = rb\<lparr>head := tail rb\<rparr>"

definition rb_clear :: "'a RingBuffer \<Rightarrow> 'a RingBuffer" where
  "rb_clear rb = rb\<lparr>tail := 0, head := 0\<rparr>"

definition offset_of :: "'a RingBuffer \<Rightarrow> usize \<Rightarrow> nat" where
  "offset_of rb c = unat (c AND (capacity rb - 1))"

text \<open>\<open>write_slice\<close> and \<open>read_slice\<close> of the segment at an item offset, with their \<open>unwrap\<close>.\<close>

definition write_slice :: "'a list \<Rightarrow> nat \<Rightarrow> 'a list \<Rightarrow> 'a list rust" where
  "write_slice seg i xs =
     (if i + length xs \<le> length seg then Return (take i seg @ xs @ drop (i + length xs) seg) else Panic)"

definition read_slice :: "'a list \<Rightarrow> nat \<Rightarrow> nat \<Rightarrow> 'a list rust" where
  "read_slice seg i n = (if i + n \<le> length seg then Return (take n (drop i seg)) else Panic)"

definition rb_push :: "'a RingBuffer \<Rightarrow> 'a \<Rightarrow> (unit option \<times> 'a RingBuffer) rust" where
  "rb_push rb item =
     (if rb_is_full rb then Return (None, rb)
      else case write_slice (segment rb) (offset_of rb (tail rb)) [item] of
             Panic \<Rightarrow> Panic
           | Return seg \<Rightarrow> Return (Some (), advance_tail (rb\<lparr>segment := seg\<rparr>) (tail rb) 1))"

definition rb_push_slice :: "'a RingBuffer \<Rightarrow> 'a list \<Rightarrow> (unit option \<times> 'a RingBuffer) rust" where
  "rb_push_slice rb items =
     (let nitems = length items; offset = offset_of rb (tail rb); cap = unat (capacity rb) in
      if unat (free_len rb) < nitems then Return (None, rb)
      else if offset + nitems > cap then
        (case write_slice (segment rb) offset (take (cap - offset) items) of
           Panic \<Rightarrow> Panic
         | Return seg1 \<Rightarrow>
             (case write_slice seg1 0 (drop (cap - offset) items) of
                Panic \<Rightarrow> Panic
              | Return seg2 \<Rightarrow>
                  Return (Some (), advance_tail (rb\<lparr>segment := seg2\<rparr>) (tail rb) nitems)))
      else
        (case write_slice (segment rb) offset items of
           Panic \<Rightarrow> Panic
         | Return seg \<Rightarrow> Return (Some (), advance_tail (rb\<lparr>segment := seg\<rparr>) (tail rb) nitems)))"

definition rb_pop :: "'a RingBuffer \<Rightarrow> ('a option \<times> 'a RingBuffer) rust" where
  "rb_pop rb =
     (if rb_is_empty rb then Return (None, rb)
      else case read_slice (segment rb) (offset_of rb (head rb)) 1 of
             Panic \<Rightarrow> Panic
           | Return xs \<Rightarrow> Return (Some (hd xs), advance_head rb (head rb) 1))"

text \<open>\<open>pop_slice\<close> fills a slice of \<open>nitems\<close> slots; the items read are returned.\<close>

definition rb_pop_slice :: "'a RingBuffer \<Rightarrow> nat \<Rightarrow> ('a list option \<times> 'a RingBuffer) rust" where
  "rb_pop_slice rb nitems =
     (let offset = offset_of rb (head rb); cap = unat (capacity rb) in
      if unat (rb_len rb) < nitems then Return (None, rb)
      else if offset + nitems > cap then
        (case read_slice (segment rb) offset (cap - offset) of
           Panic \<Rightarrow> Panic
         | Return xs \<Rightarrow>
             (case read_slice (segment rb) 0 (nitems - (cap - offset)) of
                Panic \<Rightarrow> Panic
              | Return ys \<Rightarrow> Return (Some (xs @ ys), advance_head rb (head rb) nitems)))
      else
        (case read_slice (segment rb) offset nitems of
           Panic \<Rightarrow> Panic
         | Return xs \<Rightarrow> Return (Some xs, advance_head rb (head rb) nitems)))"

definition rb_skip :: "'a RingBuffer \<Rightarrow> nat \<Rightarrow> 'a RingBuffer rust" where
  "rb_skip rb count =
     (if unat (rb_len rb) \<ge> count then Return (advance_head rb (head rb) count) else Panic)"

definition commit_read :: "'a RingBuffer \<Rightarrow> nat \<Rightarrow> 'a RingBuffer rust" where
  "commit_read rb len =
     (if len \<le> unat (rb_len rb) then Return (advance_head rb (head rb) len) else Panic)"

definition commit_write :: "'a RingBuffer \<Rightarrow> nat \<Rightarrow> 'a RingBuffer rust" where
  "commit_write rb len =
     (if len \<le> unat (free_len rb) then Return (advance_tail rb (tail rb) len) else Panic)"

definition consumer_clear :: "'a RingBuffer \<Rightarrow> 'a RingBuffer" where
  "consumer_clear rb = reset_head rb"

section \<open>Invariant and abstraction\<close>

definition rb_inv :: "'a RingBuffer \<Rightarrow> bool" where
  "rb_inv rb \<longleftrightarrow> is_power_of_two (capacity rb) \<and> unat (capacity rb) \<le> length (segment rb)
     \<and> rb_len rb \<le> capacity rb"

definition slot :: "'a RingBuffer \<Rightarrow> nat \<Rightarrow> nat" where
  "slot rb i = (unat (head rb) + i) mod unat (capacity rb)"

definition rb_list :: "'a RingBuffer \<Rightarrow> 'a list" where
  "rb_list rb = map (\<lambda>i. segment rb ! slot rb i) [0..<unat (rb_len rb)]"

lemma length_rb_list [simp]: "length (rb_list rb) = unat (rb_len rb)"
  by (simp add: rb_list_def)

lemma unat_add_mod_pow2:
  fixes h :: usize
  assumes "k < 64"
  shows "unat (h + word_of_nat i) mod 2 ^ k = (unat h + i) mod 2 ^ k"
proof -
  have dvd: "(2 :: nat) ^ k dvd 2 ^ 64"
    using assms by (intro le_imp_power_dvd) simp
  have "unat (h + word_of_nat i) = (unat h + i) mod 2 ^ 64"
    by (simp add: unat_word_ariths unat_of_nat take_bit_eq_mod mod_add_right_eq)
  then show ?thesis by (simp only: mod_mod_cancel [OF dvd])
qed

lemma unat_pow2:
  assumes "k < 64"
  shows "unat (2 ^ k :: usize) = 2 ^ k"
proof -
  have "(2 :: nat) ^ k < 2 ^ 64"
    using assms by (intro power_strict_increasing) simp_all
  then have "unat (word_of_nat (2 ^ k) :: usize) = 2 ^ k"
    by (simp only: unat_of_nat take_bit_eq_mod len_bit0 len_num1 mod_less) simp
  then show ?thesis by simp
qed

lemma offset_of_eq:
  assumes "is_power_of_two (capacity rb)"
  shows "offset_of rb c = unat c mod unat (capacity rb)"
proof -
  obtain k where k: "k < 64" "capacity rb = 2 ^ k"
    using assms by (auto simp: is_power_of_two_def)
  then have "c AND (capacity rb - 1) = take_bit k c"
    by (simp add: take_bit_eq_mask mask_eq_exp_minus_1)
  moreover have "unat (take_bit k c) = unat c mod 2 ^ k"
    by (simp only: unsigned_take_bit_eq) (simp add: take_bit_eq_mod)
  ultimately show ?thesis
    using k by (simp add: offset_of_def unat_pow2)
qed

lemma offset_of_add:
  assumes "is_power_of_two (capacity rb)"
  shows "offset_of rb (c + word_of_nat i) = (unat c + i) mod unat (capacity rb)"
  using assms by (auto simp: offset_of_eq is_power_of_two_def unat_pow2 unat_add_mod_pow2)

lemma capacity_pos: "is_power_of_two (capacity rb) \<Longrightarrow> 0 < unat (capacity rb)"
  by (auto simp: is_power_of_two_def unat_pow2)

lemma unat_len: "rb_inv rb \<Longrightarrow> unat (rb_len rb) \<le> unat (capacity rb)"
  by (simp add: rb_inv_def word_le_nat_alt)

lemma unat_free_len: "rb_inv rb \<Longrightarrow> unat (free_len rb) = unat (capacity rb) - unat (rb_len rb)"
  by (simp add: rb_inv_def free_len_def unat_sub)

lemma slot_less: "rb_inv rb \<Longrightarrow> slot rb i < unat (capacity rb)"
  by (simp add: slot_def rb_inv_def capacity_pos)

text \<open>Distinct positions within one capacity use distinct slots.\<close>

lemma add_mod_inject:
  fixes h :: nat
  assumes "i \<le> j" "j < c" "(h + i) mod c = (h + j) mod c"
  shows "i = j"
proof -
  have "c dvd (h + j) - (h + i)"
    using assms mod_eq_dvd_iff_nat [of "h + i" "h + j" c] by simp
  then show ?thesis
    using assms by (auto dest: dvd_imp_le)
qed

lemma slot_inject:
  assumes "i < unat (capacity rb)" "j < unat (capacity rb)"
  shows "slot rb i = slot rb j \<longleftrightarrow> i = j"
  using add_mod_inject [of i j "unat (capacity rb)" "unat (head rb)"]
    add_mod_inject [of j i "unat (capacity rb)" "unat (head rb)"] assms
  by (cases i j rule: linorder_cases) (auto simp: slot_def)

text \<open>The slot that \<open>tail\<close> addresses is the one after the last item.\<close>

lemma offset_tail:
  assumes "rb_inv rb"
  shows "offset_of rb (tail rb) = slot rb (unat (rb_len rb))"
proof -
  have "tail rb = head rb + word_of_nat (unat (rb_len rb))"
    by (simp add: rb_len_def)
  then show ?thesis
    using assms offset_of_add [of rb "head rb" "unat (rb_len rb)"]
    by (simp add: rb_inv_def slot_def)
qed

lemma offset_head: "rb_inv rb \<Longrightarrow> offset_of rb (head rb) = slot rb 0"
  by (simp add: rb_inv_def offset_of_eq slot_def)

section \<open>Refinement to lists\<close>

lemma unat_add_of_nat:
  fixes a c :: usize
  assumes "unat a + n \<le> unat c"
  shows "unat (a + word_of_nat n) = unat a + n"
proof -
  have "unat a + n < 2 ^ 64"
    using assms unsigned_less [of c, where ?'a = nat] by simp
  then show ?thesis
    by (simp add: unat_word_ariths unat_of_nat take_bit_eq_mod mod_add_right_eq)
qed

lemma unat_diff_of_nat:
  fixes a :: usize
  assumes "n \<le> unat a"
  shows "unat (a - word_of_nat n) = unat a - n"
proof -
  have "unat (word_of_nat n :: usize) = n"
    using assms unsigned_less [of a, where ?'a = nat] by (simp add: unat_of_nat take_bit_eq_mod)
  with assms show ?thesis by (simp add: unat_sub word_le_nat_alt)
qed

lemma nth_write:
  assumes "p < length seg" "i + length xs \<le> length seg"
  shows "(take i seg @ xs @ drop (i + length xs) seg) ! p
       = (if i \<le> p \<and> p < i + length xs then xs ! (p - i) else seg ! p)"
  using assms by (auto simp: nth_append min_def)

text \<open>
  The segment after items are written to \<open>n\<close> consecutive slots from \<open>off\<close>, in one part or, across
  the end of the buffer, in two.
\<close>

definition wrapped :: "'a list \<Rightarrow> nat \<Rightarrow> nat \<Rightarrow> 'a list \<Rightarrow> 'a list \<Rightarrow> bool" where
  "wrapped seg cap off items seg' \<longleftrightarrow> length seg' = length seg
     \<and> (\<forall>j < length items. seg' ! ((off + j) mod cap) = items ! j)
     \<and> (\<forall>p < cap. (\<forall>j < length items. p \<noteq> (off + j) mod cap) \<longrightarrow> seg' ! p = seg ! p)"

lemma add_mod_wrap: "off < c \<Longrightarrow> j < c \<Longrightarrow> (off + j) mod c = (if off + j < c then off + j else off + j - c)"
  for off c j :: nat
  by (auto simp: mod_if)

lemma wrapped_one:
  assumes "off + length items \<le> cap" "cap \<le> length seg"
  shows "wrapped seg cap off items (take off seg @ items @ drop (off + length items) seg)"
proof -
  have "p = (off + (p - off)) mod cap" if "off \<le> p" "p < cap" for p
    using that by simp
  then show ?thesis
    using assms unfolding wrapped_def by (auto simp: nth_write) (metis add_diff_inverse_nat nat_add_left_cancel_less not_less)
qed

lemma wrapped_two:
  assumes off: "off < cap" "cap \<le> length seg" "length items \<le> cap" "cap < off + length items"
    and xs: "xs = take (cap - off) items" and ys: "ys = drop (cap - off) items"
    and seg1: "seg1 = take off seg @ xs @ drop (off + length xs) seg"
  shows "wrapped seg cap off items (ys @ drop (length ys) seg1)"
proof -
  let ?r = "ys @ drop (length ys) seg1"
  have lens: "length xs = cap - off" "length ys = off + length items - cap" "length seg1 = length seg"
    using off by (simp_all add: xs ys seg1)
  have nth: "?r ! p = (if p < length ys then ys ! p else if off \<le> p \<and> p < cap then xs ! (p - off) else seg ! p)"
    if "p < length seg" for p
    using that off lens nth_write [of p seg1 0 ys] nth_write [of p seg off xs] by (simp add: seg1)
  have hit: "?r ! ((off + j) mod cap) = items ! j" if "j < length items" for j
  proof (cases "off + j < cap")
    case True
    then have "\<not> off + j < length ys" "off + j < length seg"
      using off lens by simp_all
    with True off show ?thesis by (simp add: add_mod_wrap nth xs)
  next
    case False
    then have "off + j - cap < length ys" "off + j - cap < length seg"
      using off lens that by simp_all
    with False off that show ?thesis by (simp add: add_mod_wrap ys nth_append)
  qed
  have miss: "?r ! p = seg ! p" if p: "p < cap" "\<forall>j < length items. p \<noteq> (off + j) mod cap" for p
  proof -
    have "\<not> p < length ys"
    proof
      assume "p < length ys"
      then have "p + cap - off < length items" "(off + (p + cap - off)) mod cap = p"
        using p(1) off lens by (simp_all add: add_mod_wrap)
      with p(2) show False by metis
    qed
    moreover have "\<not> off \<le> p"
    proof
      assume "off \<le> p"
      then have "p - off < length items" "(off + (p - off)) mod cap = p"
        using p(1) off by (simp_all add: add_mod_wrap)
      with p(2) show False by metis
    qed
    ultimately show ?thesis using p(1) off by (simp add: nth)
  qed
  show ?thesis
    unfolding wrapped_def using hit miss off lens by simp
qed

text \<open>
  Publishing \<open>n\<close> items written behind the current ones appends them to the list.
\<close>

lemma rb_list_append:
  assumes inv: "rb_inv rb" and room: "unat (rb_len rb) + length items \<le> unat (capacity rb)"
    and wr: "wrapped (segment rb) (unat (capacity rb)) (offset_of rb (tail rb)) items seg'"
  defines "rb' \<equiv> advance_tail (rb\<lparr>segment := seg'\<rparr>) (tail rb) (length items)"
  shows "rb_inv rb' \<and> capacity rb' = capacity rb \<and> rb_list rb' = rb_list rb @ items"
proof -
  let ?len = "unat (rb_len rb)" and ?n = "length items"
  have len': "unat (rb_len rb') = ?len + ?n"
    using unat_add_of_nat [OF room]
    by (simp add: rb'_def rb_len_def advance_tail_def algebra_simps)
  have slot': "slot rb' i = slot rb i" and seg': "segment rb' = seg'" for i
    by (simp_all add: slot_def rb'_def advance_tail_def)
  have off: "(offset_of rb (tail rb) + j) mod unat (capacity rb) = slot rb (?len + j)" for j
    by (simp add: offset_tail [OF inv] slot_def mod_add_left_eq add.assoc)
  have keep: "seg' ! slot rb i = segment rb ! slot rb i" if "i < ?len" for i
  proof -
    have "slot rb i \<noteq> slot rb (?len + j)" if "j < ?n" for j
      using that \<open>i < ?len\<close> room slot_inject [of i rb "?len + j"] by simp
    with wr slot_less [OF inv, of i] show ?thesis by (simp add: wrapped_def off)
  qed
  have new: "seg' ! slot rb (?len + j) = items ! j" if "j < ?n" for j
    using wr that by (simp add: wrapped_def off)
  then have new': "seg' ! slot rb i = items ! (i - ?len)" if "\<not> i < ?len" "i < ?len + ?n" for i
    using that by (metis add_diff_inverse_nat nat_add_left_cancel_less)
  have "rb_list rb' = rb_list rb @ items"
    by (rule nth_equalityI)
      (auto simp: rb_list_def len' slot' seg' nth_append keep new')
  moreover have "rb_inv rb'"
    using inv wr len' room
    by (simp add: rb_inv_def rb'_def advance_tail_def wrapped_def word_le_nat_alt)
  ultimately show ?thesis by (simp add: rb'_def advance_tail_def)
qed

text \<open>\<open>push_slice\<close> appends everything or, when there is no room, nothing; it never panics.\<close>

lemma rb_push_slice_spec:
  assumes "rb_inv rb"
  shows "\<exists>rb'. rb_inv rb' \<and> capacity rb' = capacity rb
    \<and> (if unat (rb_len rb) + length items \<le> unat (capacity rb)
       then rb_push_slice rb items = Return (Some (), rb') \<and> rb_list rb' = rb_list rb @ items
       else rb_push_slice rb items = Return (None, rb) \<and> rb' = rb)"
proof (cases "unat (rb_len rb) + length items \<le> unat (capacity rb)")
  case True
  let ?off = "offset_of rb (tail rb)" and ?cap = "unat (capacity rb)"
  have off: "?off < ?cap" "?cap \<le> length (segment rb)" "length items \<le> ?cap"
    using assms True slot_less by (auto simp: offset_tail rb_inv_def)
  have room: "\<not> unat (free_len rb) < length items"
    using assms True by (simp add: unat_free_len)
  define xs where "xs = take (?cap - ?off) items"
  define ys where "ys = drop (?cap - ?off) items"
  define seg1 where "seg1 = take ?off (segment rb) @ xs @ drop (?off + length xs) (segment rb)"
  obtain seg' where seg': "wrapped (segment rb) ?cap ?off items seg'"
    and push: "rb_push_slice rb items
      = Return (Some (), advance_tail (rb\<lparr>segment := seg'\<rparr>) (tail rb) (length items))"
  proof (cases "?off + length items > ?cap")
    case True
    have "write_slice (segment rb) ?off xs = Return seg1"
      "write_slice seg1 0 ys = Return (ys @ drop (length ys) seg1)"
      using off True by (simp_all add: write_slice_def seg1_def xs_def ys_def)
    with True room wrapped_two [OF off True xs_def ys_def seg1_def] that show ?thesis
      by (simp add: rb_push_slice_def Let_def xs_def ys_def)
  next
    case False
    with off room wrapped_one [of ?off items ?cap "segment rb"] that show ?thesis
      by (simp add: rb_push_slice_def Let_def write_slice_def)
  qed
  with True rb_list_append [OF assms True seg'] show ?thesis by auto
next
  case False
  then have "unat (free_len rb) < length items"
    using assms unat_len [OF assms] by (simp add: unat_free_len)
  with assms False show ?thesis by (auto simp: rb_push_slice_def Let_def)
qed

lemma free_len_zero: "rb_inv rb \<Longrightarrow> free_len rb = 0 \<longleftrightarrow> unat (free_len rb) < 1"
  by (simp add: unat_eq_zero)

text \<open>The single-item operations are the slice operations at length one.\<close>

lemma rb_push_eq_slice: "rb_inv rb \<Longrightarrow> rb_push rb x = rb_push_slice rb [x]"
  using slot_less [of rb "unat (rb_len rb)"]
  by (simp add: rb_push_def rb_push_slice_def rb_is_full_def free_len_zero offset_tail
      split: rust.splits)

text \<open>Reading \<open>n\<close> items from the front, in one part or in two.\<close>

lemma rb_list_take:
  assumes "rb_inv rb" "n \<le> unat (rb_len rb)" and s: "s = slot rb 0" and cap: "cap = unat (capacity rb)"
  shows "(if s + n > cap
      then take (cap - s) (drop s (segment rb)) @ take (n - (cap - s)) (segment rb)
      else take n (drop s (segment rb))) = take n (rb_list rb)"
proof -
  have bounds: "s < cap" "cap \<le> length (segment rb)" "n \<le> cap"
    using assms slot_less unat_len [OF assms(1)] by (auto simp: rb_inv_def)
  have slot: "slot rb i = (if s + i < cap then s + i else s + i - cap)" if "i < n" for i
  proof -
    have "slot rb i = (s + i) mod cap"
      by (simp add: slot_def mod_add_left_eq s cap)
    then show ?thesis using that bounds by (simp add: add_mod_wrap)
  qed
  show ?thesis
    using assms(2) bounds
    by (intro nth_equalityI) (auto simp: rb_list_def nth_append slot add.commute)
qed

lemma rb_list_drop:
  assumes "rb_inv rb" "n \<le> unat (rb_len rb)"
  shows "rb_inv (advance_head rb (head rb) n)
    \<and> rb_list (advance_head rb (head rb) n) = drop n (rb_list rb)"
proof -
  let ?rb' = "advance_head rb (head rb) n"
  have len': "unat (rb_len ?rb') = unat (rb_len rb) - n"
    using unat_diff_of_nat [OF assms(2)] by (simp add: rb_len_def advance_head_def algebra_simps)
  have slot': "slot ?rb' i = slot rb (n + i)" for i
    using assms(1) offset_of_add [of rb "head rb" n]
    by (simp add: slot_def advance_head_def rb_inv_def offset_of_eq mod_add_eq)
      (metis (no_types, lifting) add.assoc mod_add_left_eq)
  have "rb_list ?rb' = drop n (rb_list rb)"
    by (rule nth_equalityI) (simp_all add: rb_list_def len' slot', simp add: advance_head_def)
  moreover have "rb_inv ?rb'"
    using assms len' unat_len [OF assms(1)]
    by (simp add: rb_inv_def word_le_nat_alt) (simp add: advance_head_def)
  ultimately show ?thesis by simp
qed

lemma capacity_advance [simp]:
  "capacity (advance_head rb h n) = capacity rb" "capacity (advance_tail rb t n) = capacity rb"
  by (simp_all add: advance_head_def advance_tail_def)

lemma rb_pop_slice_spec:
  assumes "rb_inv rb"
  shows "rb_pop_slice rb n =
    (if n \<le> unat (rb_len rb)
     then Return (Some (take n (rb_list rb)), advance_head rb (head rb) n)
     else Return (None, rb))"
proof (cases "n \<le> unat (rb_len rb)")
  case True
  have "slot rb 0 < unat (capacity rb)" "unat (capacity rb) \<le> length (segment rb)"
    "n \<le> unat (capacity rb)"
    using assms True slot_less unat_len [OF assms] by (auto simp: rb_inv_def)
  with True rb_list_take [OF assms True refl refl] show ?thesis
    by (auto simp: rb_pop_slice_def offset_head [OF assms] read_slice_def Let_def split: if_splits)
qed (simp add: rb_pop_slice_def Let_def)

lemma rb_pop_spec:
  assumes "rb_inv rb"
  shows "rb_pop rb =
    (case rb_list rb of [] \<Rightarrow> Return (None, rb)
     | x # xs \<Rightarrow> Return (Some x, advance_head rb (head rb) 1))"
proof (cases "rb_list rb")
  case Nil
  then have "rb_len rb = 0"
    by (metis length_rb_list list.size(3) unat_eq_zero)
  with Nil show ?thesis by (simp add: rb_pop_def rb_is_empty_def)
next
  case (Cons x xs)
  then have len: "1 \<le> unat (rb_len rb)"
    by (metis One_nat_def Suc_leI length_rb_list length_greater_0_conv list.distinct(1))
  then have "rb_len rb \<noteq> 0" by auto
  moreover have "slot rb 0 < unat (capacity rb)" "unat (capacity rb) \<le> length (segment rb)"
    using assms slot_less by (auto simp: rb_inv_def)
  moreover have "segment rb ! slot rb 0 = x"
    using arg_cong [OF Cons, of "\<lambda>l. l ! 0"] len by (simp add: rb_list_def)
  ultimately show ?thesis
    using Cons by (simp add: rb_pop_def rb_is_empty_def offset_head [OF assms] read_slice_def
        hd_drop_conv_nth take_Suc)
qed

lemma rb_clear_spec: "rb_inv rb \<Longrightarrow> rb_inv (rb_clear rb) \<and> rb_list (rb_clear rb) = []"
  by (simp add: rb_inv_def rb_clear_def rb_list_def rb_len_def)

lemma consumer_clear_spec:
  "rb_inv rb \<Longrightarrow> rb_inv (consumer_clear rb) \<and> rb_list (consumer_clear rb) = []"
  by (simp add: rb_inv_def consumer_clear_def reset_head_def rb_list_def rb_len_def)

section \<open>The queue interface\<close>

text \<open>
  What a client of the ring buffer relies on: a bounded queue whose operations never panic
  while the invariant holds. \<open>view\<close> is the content in order.
\<close>

locale bounded_queue =
  fixes inv :: "'q \<Rightarrow> bool"
    and view :: "'q \<Rightarrow> 'a list"
    and bound :: "'q \<Rightarrow> nat"
    and push :: "'q \<Rightarrow> 'a \<Rightarrow> (unit option \<times> 'q) rust"
    and push_slice :: "'q \<Rightarrow> 'a list \<Rightarrow> (unit option \<times> 'q) rust"
    and pop :: "'q \<Rightarrow> ('a option \<times> 'q) rust"
    and clear :: "'q \<Rightarrow> 'q"
  assumes view_bound: "inv q \<Longrightarrow> length (view q) \<le> bound q"
    and push_slice_law: "inv q \<Longrightarrow> \<exists>q'. inv q' \<and> bound q' = bound q
        \<and> (if length (view q) + length xs \<le> bound q
           then push_slice q xs = Return (Some (), q') \<and> view q' = view q @ xs
           else push_slice q xs = Return (None, q) \<and> q' = q)"
    and push_law: "inv q \<Longrightarrow> push q x = push_slice q [x]"
    and pop_law: "inv q \<Longrightarrow> \<exists>q'. inv q' \<and> bound q' = bound q
        \<and> (case view q of
             [] \<Rightarrow> pop q = Return (None, q) \<and> q' = q
           | x # xs \<Rightarrow> pop q = Return (Some x, q') \<and> view q' = xs)"
    and clear_law: "inv q \<Longrightarrow> inv (clear q) \<and> bound (clear q) = bound q \<and> view (clear q) = []"
begin

lemma push_slice_fits:
  assumes "inv q" "length (view q) + length xs \<le> bound q"
  obtains q' where "push_slice q xs = Return (Some (), q')" "inv q'" "bound q' = bound q"
    "view q' = view q @ xs"
  using push_slice_law [OF assms(1), of xs] assms(2) by auto

lemma push_slice_full:
  assumes "inv q" "\<not> length (view q) + length xs \<le> bound q"
  shows "push_slice q xs = Return (None, q)"
  using push_slice_law [OF assms(1), of xs] assms(2) by auto

lemma push_fits:
  assumes "inv q" "length (view q) < bound q"
  obtains q' where "push q x = Return (Some (), q')" "inv q'" "bound q' = bound q"
    "view q' = view q @ [x]"
  using push_slice_fits [of q "[x]"] assms by (auto simp: push_law)

lemma pop_empty: "inv q \<Longrightarrow> view q = [] \<Longrightarrow> pop q = Return (None, q)"
  using pop_law [of q] by auto

lemma pop_Cons:
  assumes "inv q" "view q = x # xs"
  obtains q' where "pop q = Return (Some x, q')" "inv q'" "bound q' = bound q" "view q' = xs"
  using pop_law [OF assms(1)] assms(2) by auto

end

interpretation rb: bounded_queue rb_inv rb_list "\<lambda>rb. unat (capacity rb)"
    rb_push rb_push_slice rb_pop rb_clear
proof unfold_locales
  fix q :: "'a RingBuffer"
  assume inv: "rb_inv q"
  show "\<exists>q'. rb_inv q' \<and> unat (capacity q') = unat (capacity q)
      \<and> (case rb_list q of [] \<Rightarrow> rb_pop q = Return (None, q) \<and> q' = q
         | x # xs \<Rightarrow> rb_pop q = Return (Some x, q') \<and> rb_list q' = xs)"
  proof (cases "rb_list q")
    case (Cons x xs)
    then have "1 \<le> unat (rb_len q)"
      by (metis One_nat_def Suc_leI length_rb_list length_greater_0_conv list.distinct(1))
    with Cons rb_list_drop [OF inv, of 1] show ?thesis
      by (intro exI [of _ "advance_head q (head q) 1"]) (simp add: rb_pop_spec [OF inv])
  qed (use inv in \<open>auto simp: rb_pop_spec\<close>)
next
  fix q :: "'a RingBuffer" and xs
  assume inv: "rb_inv q"
  from rb_push_slice_spec [OF inv, of xs] show "\<exists>q'. rb_inv q' \<and> unat (capacity q') = unat (capacity q)
      \<and> (if length (rb_list q) + length xs \<le> unat (capacity q)
         then rb_push_slice q xs = Return (Some (), q') \<and> rb_list q' = rb_list q @ xs
         else rb_push_slice q xs = Return (None, q) \<and> q' = q)"
    by (auto split: if_splits)
qed (auto simp: unat_len rb_push_eq_slice rb_clear_spec, simp add: rb_clear_def)

section \<open>Refinement of whole runs\<close>

text \<open>The operations as values, and a run of them on the ring buffer and on a plain list.\<close>

datatype 'a rb_op =
  Op_push 'a | Op_push_slice "'a list" | Op_pop | Op_pop_slice nat | Op_skip nat | Op_clear

datatype 'a rb_out = Pushed "unit option" | Popped "'a option" | Read "'a list option" | Done

fun rb_exec :: "'a RingBuffer \<Rightarrow> 'a rb_op \<Rightarrow> ('a rb_out \<times> 'a RingBuffer) rust" where
  "rb_exec rb (Op_push x) =
     (case rb_push rb x of Panic \<Rightarrow> Panic | Return (r, rb') \<Rightarrow> Return (Pushed r, rb'))"
| "rb_exec rb (Op_push_slice xs) =
     (case rb_push_slice rb xs of Panic \<Rightarrow> Panic | Return (r, rb') \<Rightarrow> Return (Pushed r, rb'))"
| "rb_exec rb Op_pop =
     (case rb_pop rb of Panic \<Rightarrow> Panic | Return (r, rb') \<Rightarrow> Return (Popped r, rb'))"
| "rb_exec rb (Op_pop_slice n) =
     (case rb_pop_slice rb n of Panic \<Rightarrow> Panic | Return (r, rb') \<Rightarrow> Return (Read r, rb'))"
| "rb_exec rb (Op_skip n) =
     (case rb_skip rb n of Panic \<Rightarrow> Panic | Return rb' \<Rightarrow> Return (Done, rb'))"
| "rb_exec rb Op_clear = Return (Done, consumer_clear rb)"

fun queue_exec :: "nat \<Rightarrow> 'a list \<Rightarrow> 'a rb_op \<Rightarrow> ('a rb_out \<times> 'a list) rust" where
  "queue_exec cap q (Op_push x) =
     Return (if length q < cap then (Pushed (Some ()), q @ [x]) else (Pushed None, q))"
| "queue_exec cap q (Op_push_slice xs) =
     Return (if length q + length xs \<le> cap then (Pushed (Some ()), q @ xs) else (Pushed None, q))"
| "queue_exec cap q Op_pop =
     Return (case q of [] \<Rightarrow> (Popped None, []) | x # xs \<Rightarrow> (Popped (Some x), xs))"
| "queue_exec cap q (Op_pop_slice n) =
     Return (if n \<le> length q then (Read (Some (take n q)), drop n q) else (Read None, q))"
| "queue_exec cap q (Op_skip n) = (if n \<le> length q then Return (Done, drop n q) else Panic)"
| "queue_exec cap q Op_clear = Return (Done, [])"

fun run_ops :: "('s \<Rightarrow> 'o \<Rightarrow> ('r \<times> 's) rust) \<Rightarrow> 's \<Rightarrow> 'o list \<Rightarrow> 'r list rust" where
  "run_ops exec s [] = Return []"
| "run_ops exec s (op # ops) =
     (case exec s op of
        Panic \<Rightarrow> Panic
      | Return (r, s') \<Rightarrow> (case run_ops exec s' ops of Panic \<Rightarrow> Panic | Return rs \<Rightarrow> Return (r # rs)))"

lemma rb_exec_refines:
  assumes "rb_inv rb"
  shows "case rb_exec rb op of
      Panic \<Rightarrow> queue_exec (unat (capacity rb)) (rb_list rb) op = Panic
    | Return (r, rb') \<Rightarrow> rb_inv rb' \<and> capacity rb' = capacity rb
        \<and> queue_exec (unat (capacity rb)) (rb_list rb) op = Return (r, rb_list rb')"
proof (cases op)
  case (Op_push x)
  with rb_push_slice_spec [OF assms, of "[x]"] show ?thesis
    by (auto simp: rb_push_eq_slice [OF assms] split: if_splits)
next
  case (Op_push_slice xs)
  with rb_push_slice_spec [OF assms, of xs] show ?thesis
    by (auto split: if_splits)
next
  case Op_pop
  with assms rb_list_drop [OF assms, of 1] show ?thesis
    by (cases "rb_list rb") (auto simp: rb_pop_spec dest: arg_cong [of _ _ length])
next
  case (Op_pop_slice n)
  with assms rb_list_drop [OF assms, of n] show ?thesis
    by (auto simp: rb_pop_slice_spec)
next
  case (Op_skip n)
  with assms rb_list_drop [OF assms, of n] show ?thesis
    by (auto simp: rb_skip_def)
next
  case Op_clear
  with consumer_clear_spec [OF assms] show ?thesis
    by (auto simp: consumer_clear_def reset_head_def)
qed

lemma run_refines:
  "rb_inv rb \<Longrightarrow> run_ops rb_exec rb ops = run_ops (queue_exec (unat (capacity rb))) (rb_list rb) ops"
proof (induction ops arbitrary: rb)
  case (Cons op ops)
  from rb_exec_refines [OF Cons.prems, of op] Cons.IH show ?case
    by (auto split: rust.splits prod.splits)
qed simp

text \<open>
  \<open>alloc_segment\<close> returns frames that hold at least as many items as fit into their bytes.
\<close>

definition segment_fits :: "(nat \<Rightarrow> 'a list option) \<Rightarrow> usize \<Rightarrow> bool" where
  "segment_fits alloc T_SIZE \<longleftrightarrow>
     (\<forall>n seg. alloc n = Some seg \<longrightarrow> length seg = n * PAGE_SIZE div unat T_SIZE)"

lemma rb_new_inv:
  assumes "rb_new alloc T_SIZE cap = Return rb" "segment_fits alloc T_SIZE" "T_SIZE \<noteq> 0"
  shows "rb_inv rb \<and> capacity rb = cap \<and> rb_list rb = []"
proof -
  let ?t = "unat T_SIZE" and ?c = "unat cap"
  let ?n = "(?c * ?t + PAGE_SIZE - 1) div PAGE_SIZE"
  obtain seg where seg: "alloc ?n = Some seg" "is_power_of_two cap"
    and rb: "rb = \<lparr>segment = seg, capacity = cap, tail = 0, head = 0\<rparr>"
    using assms(1) by (auto simp: rb_new_def split: if_splits option.splits)
  have "?c * ?t \<le> ?n * PAGE_SIZE"
    by (simp add: PAGE_SIZE_def)
  then have "?c \<le> ?n * PAGE_SIZE div ?t"
    using assms(3) by (simp add: less_eq_div_iff_mult_less_eq unat_gt_0)
  with seg assms(2) show ?thesis
    by (simp add: rb rb_inv_def segment_fits_def rb_len_def rb_list_def)
qed

text \<open>
  C35. The ring buffer is a bounded FIFO queue: for every power-of-two capacity and every
  sequence of pushes, pops, slice operations, skips and clears on a new buffer, the results
  (including the rejected operations and the assertion of \<open>skip\<close>) are those of the same
  operations on a plain list; no memory access is ever out of bounds, however often the
  counters and the slots wrap around.
\<close>

theorem ring_buffer_refines_queue:
  assumes "rb_new alloc T_SIZE cap = Return rb" "segment_fits alloc T_SIZE" "T_SIZE \<noteq> 0"
  shows "run_ops rb_exec rb ops = run_ops (queue_exec (unat cap)) [] ops"
  using rb_new_inv [OF assms] run_refines [of rb ops] by simp

theorem ring_buffer_refines_queue_witness:
  "run_ops rb_exec \<lparr>segment = replicate 4096 (0 :: u8), capacity = 2, tail = 0, head = 0\<rparr>
     [Op_push 1, Op_push_slice [2], Op_pop, Op_push 3, Op_push 4, Op_pop_slice 2]
   = run_ops (queue_exec 2) [] [Op_push 1, Op_push_slice [2], Op_pop, Op_push 3, Op_push 4, Op_pop_slice 2]"
proof -
  have "is_power_of_two 2"
    by (auto simp: is_power_of_two_def intro!: bexI [of _ 1])
  then have "rb_new (\<lambda>n. Some (replicate (n * 4096) (0 :: u8))) 1 2
      = Return \<lparr>segment = replicate 4096 (0 :: u8), capacity = 2, tail = 0, head = 0\<rparr>"
    by (simp add: rb_new_def PAGE_SIZE_def)
  from ring_buffer_refines_queue [OF this] show ?thesis
    by (simp add: segment_fits_def PAGE_SIZE_def del: run_ops.simps)
qed

end
