(* ===== verification/Ring_Buffer_Spsc.thy ===== *)
theory Ring_Buffer_Spsc
  imports Ring_Buffer
begin

text \<open>
  Concurrent use of the ring buffer of \<^verbatim>\<open>kernel/libs/ring-buffer/src/lib.rs\<close> after \<open>split\<close>: one
  thread runs \<open>Producer::push\<close>, another \<open>Consumer::pop\<close>, interleaved at every access to the shared
  counters and the shared segment. Each of the two functions is three steps: read both
  counters and test, access the slot, store the own counter. The release stores and acquire
  loads of the source order the slot access with the counter, so the interleavings of these
  steps are the executions considered.

  The ghost fields record what was pushed (at the moment the tail is published) and what was
  popped; the invariant relates them to the content of the buffer.
\<close>

section \<open>Threads and steps\<close>

datatype 'a producer = PIdle | PReady 'a | PWritten 'a

datatype 'a consumer = CIdle | CReady | CRead 'a

record 'a spsc =
  ring :: "'a RingBuffer"
  producer :: "'a producer"
  consumer :: "'a consumer"
  pushed :: "'a list"
  popped :: "'a list"

inductive spsc_step :: "'a spsc \<Rightarrow> 'a spsc \<Rightarrow> bool" where
  push_full:
    "producer s = PIdle \<Longrightarrow> rb_is_full (ring s) \<Longrightarrow> spsc_step s s"
| push_test:
    "producer s = PIdle \<Longrightarrow> \<not> rb_is_full (ring s) \<Longrightarrow> spsc_step s (s\<lparr>producer := PReady x\<rparr>)"
| push_write:
    "producer s = PReady x \<Longrightarrow>
     write_slice (segment (ring s)) (offset_of (ring s) (tail (ring s))) [x] = Return seg \<Longrightarrow>
     spsc_step s (s\<lparr>ring := (ring s)\<lparr>segment := seg\<rparr>, producer := PWritten x\<rparr>)"
| push_publish:
    "producer s = PWritten x \<Longrightarrow>
     spsc_step s (s\<lparr>ring := advance_tail (ring s) (tail (ring s)) 1, producer := PIdle,
                    pushed := pushed s @ [x]\<rparr>)"
| pop_empty:
    "consumer s = CIdle \<Longrightarrow> rb_is_empty (ring s) \<Longrightarrow> spsc_step s s"
| pop_test:
    "consumer s = CIdle \<Longrightarrow> \<not> rb_is_empty (ring s) \<Longrightarrow> spsc_step s (s\<lparr>consumer := CReady\<rparr>)"
| pop_read:
    "consumer s = CReady \<Longrightarrow>
     read_slice (segment (ring s)) (offset_of (ring s) (head (ring s))) 1 = Return xs \<Longrightarrow>
     spsc_step s (s\<lparr>consumer := CRead (hd xs)\<rparr>)"
| pop_release:
    "consumer s = CRead x \<Longrightarrow>
     spsc_step s (s\<lparr>ring := advance_head (ring s) (head (ring s)) 1, consumer := CIdle,
                    popped := popped s @ [x]\<rparr>)"

definition spsc_init :: "'a RingBuffer \<Rightarrow> 'a spsc" where
  "spsc_init rb = \<lparr>ring = rb, producer = PIdle, consumer = CIdle, pushed = [], popped = []\<rparr>"

section \<open>Invariant\<close>

definition spsc_inv :: "'a spsc \<Rightarrow> bool" where
  "spsc_inv s \<longleftrightarrow> rb_inv (ring s)
     \<and> pushed s = popped s @ rb_list (ring s)
     \<and> (producer s \<noteq> PIdle \<longrightarrow> unat (rb_len (ring s)) < unat (capacity (ring s)))
     \<and> (\<forall>x. producer s = PWritten x \<longrightarrow>
           segment (ring s) ! slot (ring s) (unat (rb_len (ring s))) = x)
     \<and> (consumer s \<noteq> CIdle \<longrightarrow> rb_list (ring s) \<noteq> [])
     \<and> (\<forall>x. consumer s = CRead x \<longrightarrow> hd (rb_list (ring s)) = x)"

lemma not_full: "rb_inv rb \<Longrightarrow> \<not> rb_is_full rb \<longleftrightarrow> unat (rb_len rb) < unat (capacity rb)"
  using unat_free_len [of rb] by (auto simp: rb_is_full_def unat_eq_zero [symmetric])

lemma not_empty: "\<not> rb_is_empty rb \<longleftrightarrow> rb_list rb \<noteq> []"
  by (metis length_0_conv length_rb_list rb_is_empty_def unat_eq_zero)

text \<open>Writing the slot behind the last item changes no item.\<close>

lemma write_free_slot:
  assumes inv: "rb_inv rb" and room: "unat (rb_len rb) < unat (capacity rb)"
    and wr: "write_slice (segment rb) (offset_of rb (tail rb)) [x] = Return seg"
  defines "rb' \<equiv> rb\<lparr>segment := seg\<rparr>"
  shows "rb_inv rb' \<and> rb_len rb' = rb_len rb \<and> capacity rb' = capacity rb
    \<and> rb_list rb' = rb_list rb \<and> seg ! slot rb' (unat (rb_len rb)) = x"
proof -
  let ?i = "unat (rb_len rb)"
  have bounds: "slot rb i < length (segment rb)" for i
    using slot_less [OF inv, of i] inv by (simp add: rb_inv_def)
  have seg: "seg = (segment rb)[slot rb ?i := x]"
    using wr bounds [of ?i] by (auto simp: write_slice_def offset_tail [OF inv] upd_conv_take_nth_drop
        split: if_splits)
  have slot': "slot rb' i = slot rb i" for i
    by (simp add: rb'_def slot_def)
  have "seg ! slot rb i = segment rb ! slot rb i" if "i < ?i" for i
    using that room slot_inject [of i rb ?i] by (simp add: seg)
  then have "rb_list rb' = rb_list rb"
    by (simp add: rb_list_def rb'_def rb_len_def slot' [unfolded rb'_def])
  moreover have "seg ! slot rb' ?i = x"
    by (simp add: slot' seg bounds)
  ultimately show ?thesis
    using inv by (simp add: rb'_def rb_inv_def rb_len_def seg)
qed

text \<open>Publishing the tail turns the written slot into the last item.\<close>

lemma publish_slot:
  assumes inv: "rb_inv rb" and room: "unat (rb_len rb) < unat (capacity rb)"
  shows "rb_inv (advance_tail rb (tail rb) 1)
    \<and> rb_list (advance_tail rb (tail rb) 1) = rb_list rb @ [segment rb ! slot rb (unat (rb_len rb))]"
proof -
  let ?x = "segment rb ! slot rb (unat (rb_len rb))"
  have "wrapped (segment rb) (unat (capacity rb)) (offset_of rb (tail rb)) [?x] (segment rb)"
    using slot_less [OF inv, of "unat (rb_len rb)"] by (simp add: wrapped_def offset_tail [OF inv])
  from rb_list_append [OF inv _ this] room show ?thesis by simp
qed

lemma spsc_step_inv: "spsc_step s s' \<Longrightarrow> spsc_inv s \<Longrightarrow> spsc_inv s'"
proof (induction rule: spsc_step.induct)
  case (push_write s x seg)
  then have "rb_inv (ring s)" "unat (rb_len (ring s)) < unat (capacity (ring s))"
    by (auto simp: spsc_inv_def)
  from write_free_slot [OF this push_write(2)] push_write show ?case
    by (auto simp: spsc_inv_def)
next
  case (push_publish s x)
  then show ?case
    using publish_slot [of "ring s"] by (auto simp: spsc_inv_def hd_append)
next
  case (pop_read s xs)
  then have inv: "rb_inv (ring s)" "rb_list (ring s) \<noteq> []"
    by (auto simp: spsc_inv_def)
  then have "hd xs = hd (rb_list (ring s))"
    using pop_read(2) rb_pop_spec [OF inv(1)]
    by (cases "rb_list (ring s)") (auto simp: rb_pop_def not_empty split: if_splits)
  with pop_read show ?case by (auto simp: spsc_inv_def)
next
  case (pop_release s x)
  then obtain ys where ys: "rb_list (ring s) = x # ys" and inv: "rb_inv (ring s)"
    by (cases "rb_list (ring s)") (auto simp: spsc_inv_def)
  then have len: "1 \<le> unat (rb_len (ring s))"
    by (metis One_nat_def Suc_leI length_rb_list length_greater_0_conv list.distinct(1))
  let ?rb = "advance_head (ring s) (head (ring s)) 1"
  have len': "unat (rb_len ?rb) = unat (rb_len (ring s)) - 1"
    using rb_list_drop [OF inv len] by (metis length_drop length_rb_list)
  have "offset_of ?rb (tail ?rb) = offset_of (ring s) (tail (ring s))"
    by (simp add: advance_head_def offset_of_def)
  then have "slot ?rb (unat (rb_len ?rb)) = slot (ring s) (unat (rb_len (ring s)))"
    using offset_tail [OF inv] offset_tail [of ?rb] rb_list_drop [OF inv len] by simp
  moreover have "segment ?rb = segment (ring s)"
    by (simp add: advance_head_def)
  ultimately show ?case
    using pop_release rb_list_drop [OF inv len] ys len len' by (auto simp: spsc_inv_def)
qed (auto simp: spsc_inv_def not_full not_empty)

lemma spsc_reachable_inv: "spsc_step\<^sup>*\<^sup>* s s' \<Longrightarrow> spsc_inv s \<Longrightarrow> spsc_inv s'"
  by (induction rule: rtranclp_induct) (auto intro: spsc_step_inv)

lemma spsc_init_inv: "rb_inv rb \<Longrightarrow> rb_list rb = [] \<Longrightarrow> spsc_inv (spsc_init rb)"
  by (simp add: spsc_inv_def spsc_init_def)

lemma spsc_inv_access:
  assumes "spsc_inv s"
  shows "(\<forall>x. producer s = PReady x \<longrightarrow> (\<exists>seg.
            write_slice (segment (ring s)) (offset_of (ring s) (tail (ring s))) [x] = Return seg))
       \<and> (consumer s = CReady \<longrightarrow> (\<exists>xs.
            read_slice (segment (ring s)) (offset_of (ring s) (head (ring s))) 1 = Return xs))"
proof -
  have "rb_inv (ring s)" using assms by (simp add: spsc_inv_def)
  then have "slot (ring s) i < length (segment (ring s))" for i
    using slot_less [of "ring s" i] by (simp add: rb_inv_def)
  with \<open>rb_inv (ring s)\<close> show ?thesis
    by (auto simp: offset_tail offset_head write_slice_def read_slice_def Suc_le_eq)
qed

section \<open>Every interleaving\<close>

text \<open>
  C36. Lock-free use is safe: from a new ring buffer, in every state that any interleaving of
  one producer and one consumer reaches, the items popped so far followed by the items in the
  buffer are exactly the items pushed so far, in order (nothing lost, duplicated, reordered or
  torn); the buffer never holds more than its capacity; and neither thread is ever stopped by
  an out-of-bounds access.
\<close>

theorem spsc_fifo:
  assumes "rb_new alloc T_SIZE cap = Return rb" "segment_fits alloc T_SIZE" "T_SIZE \<noteq> 0"
    and "spsc_step\<^sup>*\<^sup>* (spsc_init rb) s"
  shows "pushed s = popped s @ rb_list (ring s)
    \<and> length (rb_list (ring s)) \<le> unat (capacity (ring s))
    \<and> (\<forall>x. producer s = PReady x \<longrightarrow> (\<exists>seg.
          write_slice (segment (ring s)) (offset_of (ring s) (tail (ring s))) [x] = Return seg))
    \<and> (consumer s = CReady \<longrightarrow> (\<exists>xs.
          read_slice (segment (ring s)) (offset_of (ring s) (head (ring s))) 1 = Return xs))"
proof -
  have "spsc_inv s"
    using spsc_reachable_inv [OF assms(4)] spsc_init_inv rb_new_inv [OF assms(1-3)] by blast
  with spsc_inv_access [OF this] show ?thesis
    by (auto simp: spsc_inv_def unat_len)
qed

theorem spsc_fifo_witness:
  "\<exists>s :: u8 spsc. producer s = PReady 9
     \<and> pushed s = popped s @ rb_list (ring s)
     \<and> (\<exists>seg. write_slice (segment (ring s)) (offset_of (ring s) (tail (ring s))) [9] = Return seg)"
proof -
  let ?rb = "\<lparr>segment = replicate 4096 (0 :: u8), capacity = 2, tail = 0, head = 0\<rparr>"
  let ?s = "(spsc_init ?rb)\<lparr>producer := PReady 9\<rparr>"
  have "is_power_of_two 2"
    by (auto simp: is_power_of_two_def intro!: bexI [of _ 1])
  then have new: "rb_new (\<lambda>n. Some (replicate (n * 4096) (0 :: u8))) 1 2 = Return ?rb"
    by (simp add: rb_new_def PAGE_SIZE_def)
  have "spsc_step (spsc_init ?rb) ?s"
    by (rule push_test) (simp_all add: spsc_init_def rb_is_full_def free_len_def rb_len_def)
  then have "spsc_step\<^sup>*\<^sup>* (spsc_init ?rb) ?s" by blast
  from spsc_fifo [OF new _ _ this] show ?thesis
    by (intro exI [of _ ?s]) (simp add: segment_fits_def PAGE_SIZE_def)
qed

end
