(* ===== verification/Termios.thy ===== *)
theory Termios
  imports Kei_Prelude
begin

text \<open>
  The terminal settings of \<^verbatim>\<open>kernel/src/device/tty/termio.rs\<close>: flag words as 32-bit words with
  the source's bit values, the control-character table as a list of 19 bytes. The lemmas give
  the default settings and show that every control character has a slot of its own.
\<close>

section \<open>Flags\<close>

type_synonym CInputFlags = u32
type_synonym COutputFlags = u32
type_synonym CCtrlFlags = u32
type_synonym CLocalFlags = u32

definition ICRNL :: CInputFlags where "ICRNL = 0x100"
definition IXON :: CInputFlags where "IXON = 0x0400"
definition OPOST :: COutputFlags where "OPOST = 1"
definition ONLCR :: COutputFlags where "ONLCR = 4"
definition ISIG :: CLocalFlags where "ISIG = 0x00001"
definition ICANON :: CLocalFlags where "ICANON = 0x00002"
definition ECHO :: CLocalFlags where "ECHO = 0x00008"
definition ECHOE :: CLocalFlags where "ECHOE = 0x00010"
definition ECHOK :: CLocalFlags where "ECHOK = 0x00020"
definition ECHOCTL :: CLocalFlags where "ECHOCTL = 0x00200"
definition ECHOKE :: CLocalFlags where "ECHOKE = 0x00800"
definition IEXTEN :: CLocalFlags where "IEXTEN = 0x08000"

lemmas flag_defs = ICRNL_def IXON_def OPOST_def ONLCR_def ISIG_def ICANON_def ECHO_def ECHOE_def
  ECHOK_def ECHOCTL_def ECHOKE_def IEXTEN_def

definition default_iflags :: CInputFlags where
  "default_iflags = ICRNL OR IXON"

definition default_oflags :: COutputFlags where
  "default_oflags = OPOST OR ONLCR"

definition default_lflags :: CLocalFlags where
  "default_lflags = ICANON OR ECHO OR ISIG OR ECHOE OR ECHOK OR ECHOCTL OR ECHOKE OR IEXTEN"

section \<open>Control flags\<close>

datatype CCtrlSize = CS5 | CS6 | CS7 | CS8

datatype CCtrlBaud =
    B0 | B50 | B75 | B110 | B134 | B150 | B200 | B300 | B600 | B1200 | B1800 | B2400 | B4800
  | B9600 | B19200 | B38400

fun ctrl_size_as_u32 :: "CCtrlSize \<Rightarrow> u32" where
  "ctrl_size_as_u32 CS5 = 0x00"
| "ctrl_size_as_u32 CS6 = 0x10"
| "ctrl_size_as_u32 CS7 = 0x20"
| "ctrl_size_as_u32 CS8 = 0x30"

definition ctrl_bauds :: "CCtrlBaud list" where
  "ctrl_bauds = [B0, B50, B75, B110, B134, B150, B200, B300, B600, B1200, B1800, B2400, B4800,
     B9600, B19200, B38400]"

fun ctrl_baud_as_u32 :: "CCtrlBaud \<Rightarrow> u32" where
  "ctrl_baud_as_u32 B0 = 0x0"
| "ctrl_baud_as_u32 B50 = 0x1"
| "ctrl_baud_as_u32 B75 = 0x2"
| "ctrl_baud_as_u32 B110 = 0x3"
| "ctrl_baud_as_u32 B134 = 0x4"
| "ctrl_baud_as_u32 B150 = 0x5"
| "ctrl_baud_as_u32 B200 = 0x6"
| "ctrl_baud_as_u32 B300 = 0x7"
| "ctrl_baud_as_u32 B600 = 0x8"
| "ctrl_baud_as_u32 B1200 = 0x9"
| "ctrl_baud_as_u32 B1800 = 0xa"
| "ctrl_baud_as_u32 B2400 = 0xb"
| "ctrl_baud_as_u32 B4800 = 0xc"
| "ctrl_baud_as_u32 B9600 = 0xd"
| "ctrl_baud_as_u32 B19200 = 0xe"
| "ctrl_baud_as_u32 B38400 = 0xf"

definition BAUD_MASK :: u32 where "BAUD_MASK = 0x0000100f"
definition SIZE_MASK :: u32 where "SIZE_MASK = 0x00000030"
definition READ_BIT :: u32 where "READ_BIT = 0x00000080"

definition default_cflags :: CCtrlFlags where
  "default_cflags = ctrl_baud_as_u32 B38400 OR ctrl_size_as_u32 CS8 OR READ_BIT"

text \<open>\<open>TryFromInt\<close>: the variant with that discriminant, if there is one.\<close>

definition baud :: "CCtrlFlags \<Rightarrow> CCtrlBaud option" where
  "baud f = find (\<lambda>b. ctrl_baud_as_u32 b = f AND BAUD_MASK) ctrl_bauds"

definition size_of_char :: "CCtrlFlags \<Rightarrow> CCtrlSize option" where
  "size_of_char f = find (\<lambda>s. ctrl_size_as_u32 s = f AND SIZE_MASK) [CS5, CS6, CS7, CS8]"

definition is_read :: "CCtrlFlags \<Rightarrow> bool" where
  "is_read f \<longleftrightarrow> f AND READ_BIT \<noteq> 0"

section \<open>Control characters\<close>

datatype CCtrlCharId =
    VINTR | VQUIT | VERASE | VKILL | VEOF | VTIME | VMIN | VSWTC | VSTART | VSTOP | VSUSP
  | VEOL | VREPRINT | VDISCARD | VWERASE | VLNEXT | VEOL2

fun cc_index :: "CCtrlCharId \<Rightarrow> nat" where
  "cc_index VINTR = 0"
| "cc_index VQUIT = 1"
| "cc_index VERASE = 2"
| "cc_index VKILL = 3"
| "cc_index VEOF = 4"
| "cc_index VTIME = 5"
| "cc_index VMIN = 6"
| "cc_index VSWTC = 7"
| "cc_index VSTART = 8"
| "cc_index VSTOP = 9"
| "cc_index VSUSP = 10"
| "cc_index VEOL = 11"
| "cc_index VREPRINT = 12"
| "cc_index VDISCARD = 13"
| "cc_index VWERASE = 14"
| "cc_index VLNEXT = 15"
| "cc_index VEOL2 = 16"

text \<open>\<open>control_character\<close>, with the letter as its ASCII code.\<close>

definition control_character :: "u8 \<Rightarrow> u8" where
  "control_character c = c - 0x41 + 1"

fun default_char :: "CCtrlCharId \<Rightarrow> u8" where
  "default_char VINTR = control_character 0x43"
| "default_char VQUIT = control_character 0x5C"
| "default_char VERASE = 0x7f"
| "default_char VKILL = control_character 0x55"
| "default_char VEOF = control_character 0x44"
| "default_char VTIME = 0"
| "default_char VMIN = 1"
| "default_char VSWTC = 0"
| "default_char VSTART = control_character 0x51"
| "default_char VSTOP = control_character 0x53"
| "default_char VSUSP = control_character 0x5A"
| "default_char VEOL = 0"
| "default_char VREPRINT = control_character 0x52"
| "default_char VDISCARD = control_character 0x4F"
| "default_char VWERASE = control_character 0x57"
| "default_char VLNEXT = control_character 0x56"
| "default_char VEOL2 = 0"

section \<open>The settings\<close>

definition NUM_CTRL_CHARS :: nat where "NUM_CTRL_CHARS = 19"

record CTermios =
  c_iflags :: CInputFlags
  c_oflags :: COutputFlags
  c_cflags :: CCtrlFlags
  c_lflags :: CLocalFlags
  c_line :: u8
  c_cc :: "u8 list"

definition special_char :: "CTermios \<Rightarrow> CCtrlCharId \<Rightarrow> u8" where
  "special_char tm i = c_cc tm ! cc_index i"

text \<open>Assignment through \<open>special_char_mut\<close>.\<close>

definition set_special_char :: "CTermios \<Rightarrow> CCtrlCharId \<Rightarrow> u8 \<Rightarrow> CTermios" where
  "set_special_char tm i c = tm\<lparr>c_cc := (c_cc tm)[cc_index i := c]\<rparr>"

definition is_canonical_mode :: "CTermios \<Rightarrow> bool" where
  "is_canonical_mode tm \<longleftrightarrow> contains (c_lflags tm) ICANON"

definition termios_default :: CTermios where
  "termios_default =
     foldl (\<lambda>tm i. set_special_char tm i (default_char i))
       \<lparr>c_iflags = default_iflags, c_oflags = default_oflags, c_cflags = default_cflags,
        c_lflags = default_lflags, c_line = 0, c_cc = replicate NUM_CTRL_CHARS 0\<rparr>
       [VINTR, VQUIT, VERASE, VKILL, VEOF, VTIME, VMIN, VSWTC, VSTART, VSTOP, VSUSP, VEOL,
        VREPRINT, VDISCARD, VWERASE, VLNEXT, VEOL2]"

record CWinSize =
  ws_row :: u16
  ws_col :: u16
  ws_xpixel :: u16
  ws_ypixel :: u16

definition winsize_default :: CWinSize where
  "winsize_default = \<lparr>ws_row = 0, ws_col = 0, ws_xpixel = 0, ws_ypixel = 0\<rparr>"

section \<open>Lemmas\<close>

definition termios_inv :: "CTermios \<Rightarrow> bool" where
  "termios_inv tm \<longleftrightarrow> length (c_cc tm) = NUM_CTRL_CHARS"

lemma cc_index_less: "cc_index i < NUM_CTRL_CHARS"
  by (cases i) (simp_all add: NUM_CTRL_CHARS_def)

lemma cc_index_inject [simp]: "cc_index i = cc_index j \<longleftrightarrow> i = j"
  by (cases i; cases j) simp_all

lemma special_char_set:
  "termios_inv tm \<Longrightarrow>
   special_char (set_special_char tm i c) j = (if i = j then c else special_char tm j)"
  using cc_index_less [of i]
  by (auto simp: special_char_def set_special_char_def termios_inv_def nth_list_update)

lemma termios_default_fields [simp]:
  "c_iflags termios_default = default_iflags" "c_lflags termios_default = default_lflags"
  "c_cflags termios_default = default_cflags"
  by (simp_all add: termios_default_def set_special_char_def)

lemma termios_default_inv [simp]: "termios_inv termios_default"
  by (simp add: termios_default_def set_special_char_def termios_inv_def)

lemma special_char_default [simp]: "special_char termios_default i = default_char i"
  by (cases i) (simp_all add: termios_default_def set_special_char_def special_char_def
      NUM_CTRL_CHARS_def numeral_eq_Suc)

lemma contains_default_lflags [simp]:
  "contains default_lflags ICANON" "contains default_lflags ECHO"
  "contains default_lflags ISIG" "contains default_lflags IEXTEN"
  by (simp_all add: contains_def default_lflags_def flag_defs)

lemma canonical_default [simp]: "is_canonical_mode termios_default"
  by (simp add: is_canonical_mode_def)

end
