(* ===== verification/Line_Discipline.thy ===== *)
theory Line_Discipline
  imports Ring_Buffer Termios
begin

text \<open>
  The terminal line discipline of \<^verbatim>\<open>kernel/src/device/tty/line_discipline.rs\<close>. The two callbacks
  of \<open>push_char\<close> are outputs of the model: the signals raised and the byte strings echoed, in
  order. Every \<open>unwrap\<close> and slice access is a branch that panics.

  The lemmas refine the operations to two lists (bytes ready to be read, bytes of the line
  being edited), show that pushing and reading never panic, and relate what is typed to what
  is read.
\<close>

section \<open>The current line\<close>

definition LINE_CAPACITY :: nat where "LINE_CAPACITY = 4095"
definition BUFFER_CAPACITY :: usize where "BUFFER_CAPACITY = 8192"

record CurrentLine =
  buffer :: "u8 list"
  line_len :: nat

definition current_line_default :: CurrentLine where
  "current_line_default = \<lparr>buffer = replicate LINE_CAPACITY 0, line_len = 0\<rparr>"

definition line_push_char :: "CurrentLine \<Rightarrow> u8 \<Rightarrow> CurrentLine rust" where
  "line_push_char cl ch =
     (if line_len cl = length (buffer cl) then Return cl
      else if line_len cl < length (buffer cl)
      then Return (cl\<lparr>buffer := (buffer cl)[line_len cl := ch], line_len := line_len cl + 1\<rparr>)
      else Panic)"

definition drain :: "CurrentLine \<Rightarrow> (u8 list \<times> CurrentLine) rust" where
  "drain cl =
     (if line_len cl \<le> length (buffer cl)
      then Return (take (line_len cl) (buffer cl), cl\<lparr>line_len := 0\<rparr>) else Panic)"

definition backspace :: "CurrentLine \<Rightarrow> CurrentLine" where
  "backspace cl = cl\<lparr>line_len := line_len cl - 1\<rparr>"

section \<open>Character classes\<close>

datatype SigNum = SIGINT | SIGQUIT

datatype Errno = EAGAIN

definition is_line_terminator :: "u8 \<Rightarrow> CTermios \<Rightarrow> bool" where
  "is_line_terminator ch tm \<longleftrightarrow>
     ch = 10 \<or> ch = special_char tm VEOF \<or> ch = special_char tm VEOL
     \<or> contains (c_lflags tm) IEXTEN \<and> ch = special_char tm VEOL2"

definition is_eof :: "u8 \<Rightarrow> CTermios \<Rightarrow> bool" where
  "is_eof ch tm \<longleftrightarrow> ch = special_char tm VEOF"

definition is_printable_char :: "u8 \<Rightarrow> bool" where
  "is_printable_char ch \<longleftrightarrow> 0x20 \<le> ch \<and> ch < 0x7f"

definition is_ctrl_char :: "u8 \<Rightarrow> bool" where
  "is_ctrl_char ch \<longleftrightarrow> ch \<noteq> 13 \<and> ch \<noteq> 10 \<and> ch < 0x20"

definition char_to_signal :: "u8 \<Rightarrow> CTermios \<Rightarrow> SigNum option" where
  "char_to_signal ch tm =
     (if \<not> is_canonical_mode tm \<or> \<not> contains (c_lflags tm) ISIG then None
      else if ch = special_char tm VINTR then Some SIGINT
      else if ch = special_char tm VQUIT then Some SIGQUIT
      else None)"

definition ctrl_char_to_printable :: "u8 \<Rightarrow> u8" where
  "ctrl_char_to_printable ch = ch + 0x41 - 1"

section \<open>The line discipline\<close>

record LineDiscipline =
  current_line :: CurrentLine
  read_buffer :: "u8 RingBuffer"
  termios :: CTermios
  winsize :: CWinSize

definition ld_new :: "(nat \<Rightarrow> u8 list option) \<Rightarrow> LineDiscipline rust" where
  "ld_new alloc = rust_bind (rb_new alloc 1 BUFFER_CAPACITY)
     (\<lambda>rb. Return \<lparr>current_line = current_line_default, read_buffer = rb,
                   termios = termios_default, winsize = winsize_default\<rparr>)"

definition buffer_len :: "LineDiscipline \<Rightarrow> nat" where
  "buffer_len ld = unat (rb_len (read_buffer ld))"

definition ld_is_full :: "LineDiscipline \<Rightarrow> bool" where
  "ld_is_full ld \<longleftrightarrow>
     unat (rb_len (read_buffer ld)) + line_len (current_line ld) \<ge> unat (capacity (read_buffer ld))"

text \<open>The byte strings handed to the echo callback.\<close>

definition output_char :: "LineDiscipline \<Rightarrow> u8 \<Rightarrow> u8 list list" where
  "output_char ld ch =
     (if ch = 10 then [[10]]
      else if ch = 13 then [[13, 10]]
      else if ch = special_char (termios ld) VERASE then [[8]]
      else if is_printable_char ch then [[ch]]
      else if is_ctrl_char ch \<and> contains (c_lflags (termios ld)) ECHOCTL
      then [[0x5E, ctrl_char_to_printable ch]]
      else [])"

definition flush_line :: "LineDiscipline \<Rightarrow> (unit option \<times> LineDiscipline) rust" where
  "flush_line ld =
     rust_bind (drain (current_line ld)) (\<lambda>(bytes, cl).
     rust_bind (rb_push_slice (read_buffer ld) bytes) (\<lambda>(r, rb).
       Return (r, ld\<lparr>current_line := cl, read_buffer := rb\<rparr>)))"

text \<open>The steps of \<open>push_char\<close> in canonical mode, in the source's order.\<close>

definition kill_step :: "u8 \<Rightarrow> LineDiscipline \<Rightarrow> LineDiscipline rust" where
  "kill_step ch ld =
     (if ch = special_char (termios ld) VKILL
      then rust_bind (drain (current_line ld)) (\<lambda>(_, cl). Return (ld\<lparr>current_line := cl\<rparr>))
      else Return ld)"

definition erase_step :: "u8 \<Rightarrow> LineDiscipline \<Rightarrow> LineDiscipline rust" where
  "erase_step ch ld =
     Return (if ch = special_char (termios ld) VERASE
             then ld\<lparr>current_line := backspace (current_line ld)\<rparr> else ld)"

definition terminator_step :: "u8 \<Rightarrow> LineDiscipline \<Rightarrow> LineDiscipline rust" where
  "terminator_step ch ld =
     (if is_line_terminator ch (termios ld)
      then rust_bind (unwrap (flush_line ld)) (\<lambda>ld1.
           rust_bind (unwrap (rb_push (read_buffer ld1) ch)) (\<lambda>rb.
             Return (ld1\<lparr>read_buffer := rb\<rparr>)))
      else Return ld)"

definition printable_step :: "u8 \<Rightarrow> LineDiscipline \<Rightarrow> LineDiscipline rust" where
  "printable_step ch ld =
     (if is_printable_char ch
      then rust_bind (line_push_char (current_line ld) ch) (\<lambda>cl. Return (ld\<lparr>current_line := cl\<rparr>))
      else Return ld)"

definition push_char ::
    "LineDiscipline \<Rightarrow> u8 \<Rightarrow> ((Errno + unit) \<times> SigNum list \<times> u8 list list \<times> LineDiscipline) rust" where
  "push_char ld ch0 =
     (let ch = (if contains (c_iflags (termios ld)) ICRNL \<and> ch0 = 13 then 10 else ch0);
          signals = (case char_to_signal ch (termios ld) of Some s \<Rightarrow> [s] | None \<Rightarrow> []);
          echoes = (if contains (c_lflags (termios ld)) ECHO then output_char ld ch else [])
      in if ld_is_full ld then Return (Inl EAGAIN, signals, echoes, ld)
         else if \<not> is_canonical_mode (termios ld)
         then rust_bind (unwrap (rb_push (read_buffer ld) ch)) (\<lambda>rb.
                Return (Inr (), signals, echoes, ld\<lparr>read_buffer := rb\<rparr>))
         else rust_bind (kill_step ch ld) (\<lambda>ld1.
              rust_bind (erase_step ch ld1) (\<lambda>ld2.
              rust_bind (terminator_step ch ld2) (\<lambda>ld3.
              rust_bind (printable_step ch ld3) (\<lambda>ld4.
                Return (Inr (), signals, echoes, ld4))))))"

text \<open>
  The copy loop of \<open>try_read\<close> over the slots of \<open>dst\<close> that are left; the bytes stored so far are
  the accumulator, and the result is what has been stored when the loop ends.
\<close>

fun read_loop :: "nat \<Rightarrow> u8 list \<Rightarrow> LineDiscipline \<Rightarrow> (u8 list \<times> LineDiscipline) rust" where
  "read_loop 0 acc ld = Return (acc, ld)"
| "read_loop (Suc n) acc ld =
     rust_bind (rb_pop (read_buffer ld)) (\<lambda>(r, rb).
       case r of
         None \<Rightarrow> Return (acc, ld\<lparr>read_buffer := rb\<rparr>)
       | Some ch \<Rightarrow>
           (let ld1 = ld\<lparr>read_buffer := rb\<rparr> in
            if is_canonical_mode (termios ld1) \<and> is_eof ch (termios ld1) then Return (acc, ld1)
            else if is_canonical_mode (termios ld1) \<and> is_line_terminator ch (termios ld1)
            then Return (acc @ [ch], ld1)
            else read_loop n (acc @ [ch]) ld1))"

definition try_read :: "LineDiscipline \<Rightarrow> nat \<Rightarrow> ((Errno + u8 list) \<times> LineDiscipline) rust" where
  "try_read ld n =
     (if buffer_len ld < min n (unat (special_char (termios ld) VMIN)) then Return (Inl EAGAIN, ld)
      else rust_bind (read_loop n [] ld) (\<lambda>(bytes, ld'). Return (Inr bytes, ld')))"

definition drain_input :: "LineDiscipline \<Rightarrow> LineDiscipline rust" where
  "drain_input ld =
     rust_bind (drain (current_line ld)) (\<lambda>(_, cl).
       Return (ld\<lparr>current_line := cl, read_buffer := rb_clear (read_buffer ld)\<rparr>))"

definition set_termios :: "LineDiscipline \<Rightarrow> CTermios \<Rightarrow> LineDiscipline rust" where
  "set_termios ld tm =
     (let ld1 = ld\<lparr>termios := tm\<rparr> in
      if \<not> is_canonical_mode tm then unwrap (flush_line ld1) else Return ld1)"

definition set_window_size :: "LineDiscipline \<Rightarrow> CWinSize \<Rightarrow> LineDiscipline" where
  "set_window_size ld ws = ld\<lparr>winsize := ws\<rparr>"

section \<open>Abstraction\<close>

definition ready :: "LineDiscipline \<Rightarrow> u8 list" where
  "ready ld = rb_list (read_buffer ld)"

definition editing :: "LineDiscipline \<Rightarrow> u8 list" where
  "editing ld = take (line_len (current_line ld)) (buffer (current_line ld))"

definition ld_inv :: "LineDiscipline \<Rightarrow> bool" where
  "ld_inv ld \<longleftrightarrow> rb_inv (read_buffer ld) \<and> unat (capacity (read_buffer ld)) = 8192
     \<and> length (buffer (current_line ld)) = LINE_CAPACITY
     \<and> line_len (current_line ld) \<le> LINE_CAPACITY"

text \<open>\<open>ld'\<close> has this content; its settings are those of \<open>ld\<close>.\<close>

definition becomes :: "LineDiscipline \<Rightarrow> LineDiscipline \<Rightarrow> u8 list \<Rightarrow> u8 list \<Rightarrow> bool" where
  "becomes ld ld' r l \<longleftrightarrow> ld_inv ld' \<and> ready ld' = r \<and> editing ld' = l
     \<and> termios ld' = termios ld \<and> winsize ld' = winsize ld"

lemma unat_BUFFER_CAPACITY [simp]: "unat BUFFER_CAPACITY = 8192"
  by (simp add: BUFFER_CAPACITY_def)

lemma length_ready: "length (ready ld) = unat (rb_len (read_buffer ld))"
  by (simp add: ready_def)

lemma length_editing: "ld_inv ld \<Longrightarrow> length (editing ld) = line_len (current_line ld)"
  by (simp add: ld_inv_def editing_def)

lemma becomes_refl: "ld_inv ld \<Longrightarrow> becomes ld ld (ready ld) (editing ld)"
  by (simp add: becomes_def)

lemma becomes_trans:
  "becomes ld ld1 r1 l1 \<Longrightarrow> becomes ld1 ld2 r2 l2 \<Longrightarrow> becomes ld ld2 r2 l2"
  by (simp add: becomes_def)

lemma ld_is_full_iff:
  "ld_inv ld \<Longrightarrow> ld_is_full ld \<longleftrightarrow> 8192 \<le> length (ready ld) + length (editing ld)"
  by (simp add: ld_is_full_def length_ready length_editing) (simp add: ld_inv_def)

text \<open>The four operations on the current line.\<close>

lemma drain_spec:
  assumes "ld_inv ld"
  shows "\<exists>cl. drain (current_line ld) = Return (editing ld, cl)
    \<and> becomes ld (ld\<lparr>current_line := cl\<rparr>) (ready ld) []"
  using assms by (auto simp: drain_def becomes_def ld_inv_def editing_def ready_def)

lemma backspace_spec:
  assumes "ld_inv ld"
  shows "becomes ld (ld\<lparr>current_line := backspace (current_line ld)\<rparr>) (ready ld) (butlast (editing ld))"
  using assms by (auto simp: becomes_def ld_inv_def editing_def ready_def backspace_def butlast_take)

lemma line_push_char_spec:
  assumes "ld_inv ld"
  shows "\<exists>cl. line_push_char (current_line ld) ch = Return cl
    \<and> becomes ld (ld\<lparr>current_line := cl\<rparr>) (ready ld)
        (if length (editing ld) < LINE_CAPACITY then editing ld @ [ch] else editing ld)"
proof (cases "line_len (current_line ld) < LINE_CAPACITY")
  case True
  then have "take (Suc (line_len (current_line ld)))
      ((buffer (current_line ld))[line_len (current_line ld) := ch]) = editing ld @ [ch]"
    using assms by (simp add: ld_inv_def editing_def take_Suc_conv_app_nth)
  with True assms show ?thesis
    by (simp add: line_push_char_def becomes_def ready_def length_editing)
      (auto simp: ld_inv_def editing_def)
next
  case False
  with assms show ?thesis
    by (auto simp: line_push_char_def becomes_def ready_def ld_inv_def editing_def)
qed

text \<open>The operations on the read buffer, through the queue interface.\<close>

lemma read_buffer_push:
  assumes "ld_inv ld" "length (ready ld) < 8192"
  shows "\<exists>rb. rb_push (read_buffer ld) ch = Return (Some (), rb)
    \<and> becomes ld (ld\<lparr>read_buffer := rb\<rparr>) (ready ld @ [ch]) (editing ld)"
proof -
  have "rb_inv (read_buffer ld)" "length (rb_list (read_buffer ld)) < unat (capacity (read_buffer ld))"
    using assms by (simp_all add: ld_inv_def ready_def)
  then obtain rb where "rb_push (read_buffer ld) ch = Return (Some (), rb)" "rb_inv rb"
    "unat (capacity rb) = unat (capacity (read_buffer ld))" "rb_list rb = rb_list (read_buffer ld) @ [ch]"
    by (rule rb.push_fits)
  with assms(1) show ?thesis
    by (simp add: becomes_def ld_inv_def ready_def editing_def)
qed

lemma flush_line_spec:
  assumes "ld_inv ld" "length (ready ld) + length (editing ld) \<le> 8192"
  shows "\<exists>ld'. flush_line ld = Return (Some (), ld') \<and> becomes ld ld' (ready ld @ editing ld) []"
proof -
  obtain cl where cl: "drain (current_line ld) = Return (editing ld, cl)"
    "becomes ld (ld\<lparr>current_line := cl\<rparr>) (ready ld) []"
    using drain_spec [OF assms(1)] by blast
  have "rb_inv (read_buffer ld)"
    "length (rb_list (read_buffer ld)) + length (editing ld) \<le> unat (capacity (read_buffer ld))"
    using assms by (simp_all add: ld_inv_def ready_def)
  then obtain rb where "rb_push_slice (read_buffer ld) (editing ld) = Return (Some (), rb)" "rb_inv rb"
    "unat (capacity rb) = unat (capacity (read_buffer ld))"
    "rb_list rb = rb_list (read_buffer ld) @ editing ld"
    by (rule rb.push_slice_fits)
  with cl show ?thesis
    by (simp add: flush_line_def becomes_def ld_inv_def ready_def editing_def)
qed

lemma flush_line_full:
  assumes "ld_inv ld" "\<not> length (ready ld) + length (editing ld) \<le> 8192"
  shows "\<exists>ld'. flush_line ld = Return (None, ld')"
proof -
  obtain cl where cl: "drain (current_line ld) = Return (editing ld, cl)"
    using drain_spec [OF assms(1)] by blast
  have "rb_push_slice (read_buffer ld) (editing ld) = Return (None, read_buffer ld)"
    using assms by (intro rb.push_slice_full) (simp_all add: ld_inv_def ready_def)
  with cl show ?thesis by (simp add: flush_line_def)
qed

section \<open>Pushing characters\<close>

text \<open>
  The specification: what a character does to the bytes ready to be read and to the line being
  edited. \<open>crnl\<close> is the input mapping of carriage returns.
\<close>

definition crnl :: "CTermios \<Rightarrow> u8 \<Rightarrow> u8" where
  "crnl tm ch = (if contains (c_iflags tm) ICRNL \<and> ch = 13 then 10 else ch)"

definition edit_line :: "CTermios \<Rightarrow> u8 \<Rightarrow> u8 list \<Rightarrow> u8 list" where
  "edit_line tm ch l =
     (let l1 = (if ch = special_char tm VKILL then [] else l)
      in if ch = special_char tm VERASE then butlast l1 else l1)"

definition add_char :: "u8 \<Rightarrow> u8 list \<Rightarrow> u8 list" where
  "add_char ch l = (if is_printable_char ch \<and> length l < LINE_CAPACITY then l @ [ch] else l)"

definition char_spec :: "CTermios \<Rightarrow> u8 \<Rightarrow> u8 list \<times> u8 list \<Rightarrow> u8 list \<times> u8 list" where
  "char_spec tm ch = (\<lambda>(r, l).
     if \<not> is_canonical_mode tm then (r @ [ch], l)
     else if is_line_terminator ch tm then (r @ edit_line tm ch l @ [ch], add_char ch [])
     else (r, add_char ch (edit_line tm ch l)))"

lemma length_edit_line: "length (edit_line tm ch l) \<le> length l"
  by (auto simp: edit_line_def Let_def)

lemma kill_step_spec:
  "ld_inv ld \<Longrightarrow> \<exists>ld'. kill_step ch ld = Return ld'
    \<and> becomes ld ld' (ready ld) (if ch = special_char (termios ld) VKILL then [] else editing ld)"
  using drain_spec [of ld] becomes_refl [of ld] by (auto simp: kill_step_def)

lemma erase_step_spec:
  "ld_inv ld \<Longrightarrow> \<exists>ld'. erase_step ch ld = Return ld'
    \<and> becomes ld ld' (ready ld)
        (if ch = special_char (termios ld) VERASE then butlast (editing ld) else editing ld)"
  using backspace_spec [of ld] becomes_refl [of ld] by (auto simp: erase_step_def)

lemma terminator_step_spec:
  assumes "ld_inv ld" "length (ready ld) + length (editing ld) < 8192"
  shows "\<exists>ld'. terminator_step ch ld = Return ld'
    \<and> (if is_line_terminator ch (termios ld) then becomes ld ld' (ready ld @ editing ld @ [ch]) []
       else becomes ld ld' (ready ld) (editing ld))"
proof (cases "is_line_terminator ch (termios ld)")
  case True
  obtain ld1 where ld1: "flush_line ld = Return (Some (), ld1)" "becomes ld ld1 (ready ld @ editing ld) []"
    using flush_line_spec [of ld] assms by auto
  moreover obtain rb where "rb_push (read_buffer ld1) ch = Return (Some (), rb)"
    "becomes ld1 (ld1\<lparr>read_buffer := rb\<rparr>) (ready ld1 @ [ch]) (editing ld1)"
    using read_buffer_push [of ld1 ch] ld1(2) assms(2) by (auto simp: becomes_def)
  ultimately show ?thesis
    using True by (auto simp: terminator_step_def becomes_def)
next
  case False
  with assms(1) show ?thesis by (simp add: terminator_step_def becomes_refl)
qed

lemma printable_step_spec:
  "ld_inv ld \<Longrightarrow> \<exists>ld'. printable_step ch ld = Return ld'
    \<and> becomes ld ld' (ready ld) (add_char ch (editing ld))"
  using line_push_char_spec [of ld ch] becomes_refl [of ld]
  by (auto simp: printable_step_def add_char_def)

lemma push_char_canonical:
  assumes "ld_inv ld" "length (ready ld) + length (editing ld) < 8192" "is_canonical_mode (termios ld)"
  shows "\<exists>ld1 ld2 ld3 ld4. kill_step ch ld = Return ld1 \<and> erase_step ch ld1 = Return ld2
    \<and> terminator_step ch ld2 = Return ld3 \<and> printable_step ch ld3 = Return ld4
    \<and> (case char_spec (termios ld) ch (ready ld, editing ld) of (r, l) \<Rightarrow> becomes ld ld4 r l)"
proof -
  let ?tm = "termios ld"
  obtain ld1 where ld1: "kill_step ch ld = Return ld1"
    "becomes ld ld1 (ready ld) (if ch = special_char ?tm VKILL then [] else editing ld)"
    using kill_step_spec [OF assms(1)] by blast
  then obtain ld2 where ld2: "erase_step ch ld1 = Return ld2"
    "becomes ld ld2 (ready ld) (edit_line ?tm ch (editing ld))"
    using erase_step_spec [of ld1 ch] by (auto simp: becomes_def edit_line_def Let_def)
  then have "length (ready ld2) + length (editing ld2) < 8192"
    using assms(2) length_edit_line [of ?tm ch "editing ld"] by (simp add: becomes_def)
  with ld2 obtain ld3 where ld3: "terminator_step ch ld2 = Return ld3"
    "if is_line_terminator ch ?tm
     then becomes ld ld3 (ready ld @ edit_line ?tm ch (editing ld) @ [ch]) []
     else becomes ld ld3 (ready ld) (edit_line ?tm ch (editing ld))"
    using terminator_step_spec [of ld2 ch] becomes_trans [OF ld2(2)]
    by (cases "is_line_terminator ch ?tm") (auto simp: becomes_def)
  then obtain ld4 where ld4: "printable_step ch ld3 = Return ld4"
    "becomes ld3 ld4 (ready ld3) (add_char ch (editing ld3))"
    using printable_step_spec [of ld3 ch] by (auto simp: becomes_def split: if_splits)
  have "case char_spec ?tm ch (ready ld, editing ld) of (r, l) \<Rightarrow> becomes ld ld4 r l"
    using ld3(2) ld4(2) assms(3) by (auto simp: char_spec_def becomes_def)
  with ld1(1) ld2(1) ld3(1) ld4(1) show ?thesis by (intro exI conjI)
qed

lemma push_char_spec:
  assumes "ld_inv ld"
  shows "\<exists>res signals echoes ld'. push_char ld ch = Return (res, signals, echoes, ld')
    \<and> (if 8192 \<le> length (ready ld) + length (editing ld) then res = Inl EAGAIN \<and> ld' = ld
       else res = Inr () \<and> (case char_spec (termios ld) (crnl (termios ld) ch) (ready ld, editing ld) of
              (r, l) \<Rightarrow> becomes ld ld' r l))
    \<and> signals = (case char_to_signal (crnl (termios ld) ch) (termios ld) of Some s \<Rightarrow> [s] | None \<Rightarrow> [])
    \<and> echoes = (if contains (c_lflags (termios ld)) ECHO
                then output_char ld (crnl (termios ld) ch) else [])"
proof -
  consider "8192 \<le> length (ready ld) + length (editing ld)"
    | "length (ready ld) + length (editing ld) < 8192" "is_canonical_mode (termios ld)"
    | "length (ready ld) + length (editing ld) < 8192" "\<not> is_canonical_mode (termios ld)"
    by linarith
  then show ?thesis
  proof cases
    case 1
    with assms show ?thesis
      by (simp add: push_char_def Let_def ld_is_full_iff crnl_def)
  next
    case 2
    with assms push_char_canonical [OF assms 2, of "crnl (termios ld) ch"] show ?thesis
      by (auto simp: push_char_def Let_def ld_is_full_iff crnl_def)
  next
    case 3
    with assms read_buffer_push [OF assms, of "crnl (termios ld) ch"] show ?thesis
      by (auto simp: push_char_def Let_def ld_is_full_iff crnl_def char_spec_def)
  qed
qed

section \<open>Reading\<close>

text \<open>
  The specification of the copy loop on the list of bytes ready: the bytes returned and the
  bytes left.
\<close>

fun read_spec :: "CTermios \<Rightarrow> nat \<Rightarrow> u8 list \<Rightarrow> u8 list \<times> u8 list" where
  "read_spec tm 0 r = ([], r)"
| "read_spec tm (Suc n) [] = ([], [])"
| "read_spec tm (Suc n) (ch # r) =
     (if is_canonical_mode tm \<and> is_eof ch tm then ([], r)
      else if is_canonical_mode tm \<and> is_line_terminator ch tm then ([ch], r)
      else case read_spec tm n r of (out, rest) \<Rightarrow> (ch # out, rest))"

lemma read_loop_spec:
  assumes "ld_inv ld"
  shows "case read_spec (termios ld) n (ready ld) of (out, rest) \<Rightarrow>
    \<exists>ld'. read_loop n acc ld = Return (acc @ out, ld') \<and> becomes ld ld' rest (editing ld)"
  using assms
proof (induction n arbitrary: ld acc)
  case 0
  then show ?case by (simp add: becomes_refl)
next
  case (Suc n)
  have inv: "rb_inv (read_buffer ld)" using Suc.prems by (simp add: ld_inv_def)
  show ?case
  proof (cases "ready ld")
    case Nil
    then have "rb_pop (read_buffer ld) = Return (None, read_buffer ld)"
      using inv by (intro rb.pop_empty) (simp_all add: ready_def)
    with Nil Suc.prems becomes_refl [of ld] show ?thesis by simp
  next
    case (Cons ch r)
    then obtain rb where rb: "rb_pop (read_buffer ld) = Return (Some ch, rb)" "rb_inv rb"
      "unat (capacity rb) = unat (capacity (read_buffer ld))" "rb_list rb = r"
      using inv by (auto simp: ready_def elim: rb.pop_Cons)
    let ?ld1 = "ld\<lparr>read_buffer := rb\<rparr>"
    have b1: "becomes ld ?ld1 r (editing ld)"
      using Suc.prems rb by (simp add: becomes_def ld_inv_def ready_def editing_def)
    then have "case read_spec (termios ld) n r of (out, rest) \<Rightarrow>
      \<exists>ld'. read_loop n (acc @ [ch]) ?ld1 = Return ((acc @ [ch]) @ out, ld')
        \<and> becomes ?ld1 ld' rest (editing ld)"
      using Suc.IH [of ?ld1 "acc @ [ch]"] by (auto simp: becomes_def)
    with Cons rb b1 show ?thesis
      by (auto simp: Let_def dest: becomes_trans split: prod.splits)
  qed
qed

lemma try_read_spec:
  assumes "ld_inv ld"
  shows "if length (ready ld) < min n (unat (special_char (termios ld) VMIN))
    then try_read ld n = Return (Inl EAGAIN, ld)
    else case read_spec (termios ld) n (ready ld) of (out, rest) \<Rightarrow>
      \<exists>ld'. try_read ld n = Return (Inr out, ld') \<and> becomes ld ld' rest (editing ld)"
  using read_loop_spec [OF assms, of n "[]"]
  by (auto simp: try_read_def buffer_len_def length_ready split: prod.splits)

text \<open>In raw mode a read is a prefix; in canonical mode it stops at the first terminator.\<close>

lemma read_spec_raw: "\<not> is_canonical_mode tm \<Longrightarrow> read_spec tm n r = (take n r, drop n r)"
  by (induction tm n r rule: read_spec.induct) auto

lemma read_spec_line:
  assumes "is_canonical_mode tm" "\<forall>ch \<in> set cs. \<not> is_line_terminator ch tm"
    and "is_line_terminator t tm" "\<not> is_eof t tm" "length cs < n"
  shows "read_spec tm n (cs @ t # r) = (cs @ [t], r)"
  using assms(2,5)
proof (induction cs arbitrary: n)
  case Nil
  with assms show ?case by (cases n) simp_all
next
  case (Cons c cs)
  then obtain m where "n = Suc m" by (cases n) simp_all
  with Cons assms(1) show ?case
    by (auto simp: is_eof_def is_line_terminator_def)
qed

section \<open>Typing\<close>

fun push_chars :: "LineDiscipline \<Rightarrow> u8 list \<Rightarrow> LineDiscipline rust" where
  "push_chars ld [] = Return ld"
| "push_chars ld (ch # chs) = rust_bind (push_char ld ch) (\<lambda>(_, _, _, ld'). push_chars ld' chs)"

lemma push_chars_append:
  "push_chars ld (xs @ ys) = rust_bind (push_chars ld xs) (\<lambda>ld'. push_chars ld' ys)"
  by (induction xs arbitrary: ld) (auto simp: rust_bind_def split: rust.splits prod.splits)

text \<open>A character that is only added to the line being edited.\<close>

definition plain_char :: "CTermios \<Rightarrow> u8 \<Rightarrow> bool" where
  "plain_char tm ch \<longleftrightarrow> is_printable_char ch \<and> \<not> is_line_terminator ch tm
     \<and> ch \<noteq> special_char tm VKILL \<and> ch \<noteq> special_char tm VERASE"

lemma printable_not_cr: "is_printable_char ch \<Longrightarrow> crnl tm ch = ch"
  by (auto simp: is_printable_char_def crnl_def)

lemma push_plain:
  assumes "ld_inv ld" "is_canonical_mode (termios ld)" "\<forall>ch \<in> set cs. plain_char (termios ld) ch"
    and "length (editing ld) + length cs \<le> LINE_CAPACITY"
    and "length (ready ld) + length (editing ld) + length cs \<le> 8192"
  shows "\<exists>ld'. push_chars ld cs = Return ld' \<and> becomes ld ld' (ready ld) (editing ld @ cs)"
  using assms
proof (induction cs arbitrary: ld)
  case Nil
  then show ?case by (simp add: becomes_refl)
next
  case (Cons ch cs)
  let ?tm = "termios ld"
  have ch: "plain_char ?tm ch" using Cons.prems(3) by simp
  then have "char_spec ?tm (crnl ?tm ch) (ready ld, editing ld) = (ready ld, editing ld @ [ch])"
    using Cons.prems(2,4)
    by (auto simp: plain_char_def char_spec_def printable_not_cr add_char_def edit_line_def)
  then obtain ld1 s e where ld1: "push_char ld ch = Return (Inr (), s, e, ld1)"
    "becomes ld ld1 (ready ld) (editing ld @ [ch])"
    using push_char_spec [OF Cons.prems(1), of ch] Cons.prems(5) by auto
  then obtain ld' where "push_chars ld1 cs = Return ld'" "becomes ld1 ld' (ready ld) (editing ld @ ch # cs)"
    using Cons.IH [of ld1] Cons.prems by (auto simp: becomes_def)
  with ld1 becomes_trans show ?case by auto
qed

text \<open>A terminator that does not edit the line hands the whole line over.\<close>

lemma push_terminator:
  assumes "ld_inv ld" "is_canonical_mode (termios ld)" "crnl (termios ld) t = t"
    and "is_line_terminator t (termios ld)"
    and "t \<noteq> special_char (termios ld) VKILL" "t \<noteq> special_char (termios ld) VERASE"
    and "length (ready ld) + length (editing ld) < 8192"
  shows "\<exists>ld'. push_chars ld [t] = Return ld'
    \<and> becomes ld ld' (ready ld @ editing ld @ [t]) (if is_printable_char t then [t] else [])"
proof -
  have "char_spec (termios ld) t (ready ld, editing ld)
      = (ready ld @ editing ld @ [t], if is_printable_char t then [t] else [])"
    using assms by (simp add: char_spec_def edit_line_def add_char_def LINE_CAPACITY_def)
  then show ?thesis
    using push_char_spec [OF assms(1), of t] assms(3,7) by auto
qed

lemma ld_new_spec:
  assumes "ld_new alloc = Return ld" "segment_fits alloc 1"
  shows "ld_inv ld \<and> ready ld = [] \<and> editing ld = [] \<and> termios ld = termios_default"
proof -
  obtain rb where rb: "rb_new alloc 1 BUFFER_CAPACITY = Return rb"
    and ld: "ld = \<lparr>current_line = current_line_default, read_buffer = rb,
                   termios = termios_default, winsize = winsize_default\<rparr>"
    using assms(1) by (auto simp: ld_new_def)
  from rb_new_inv [OF rb assms(2)] show ?thesis
    by (simp add: ld ld_inv_def ready_def editing_def current_line_default_def)
qed

text \<open>A terminal to instantiate the theorems on: memory that holds zeros.\<close>

definition zero_frames :: "nat \<Rightarrow> u8 list option" where
  "zero_frames n = Some (replicate (n * PAGE_SIZE) 0)"

lemma zero_frames_fit [simp]: "segment_fits zero_frames 1"
  by (simp add: segment_fits_def zero_frames_def)

lemma ld_new_zero: "\<exists>ld. ld_new zero_frames = Return ld"
proof -
  have "is_power_of_two BUFFER_CAPACITY"
    by (auto simp: is_power_of_two_def BUFFER_CAPACITY_def intro!: bexI [of _ 13])
  then show ?thesis
    by (simp add: ld_new_def rb_new_def zero_frames_def PAGE_SIZE_def)
qed

section \<open>Properties\<close>

text \<open>
  C37. Pushing a character is total and does exactly what the line-editing specification
  says: it never panics; it is refused with \<^verbatim>\<open>EAGAIN\<close>, leaving the terminal unchanged, exactly
  when the ready and edited bytes fill the buffer; otherwise kill, erase, line terminators and
  printable characters act on the ready bytes and the edited line in that order, and in raw
  mode the character becomes ready at once. Signals and echo happen in either case.
\<close>

theorem push_char_refines:
  assumes "ld_inv ld"
  shows "\<exists>res signals echoes ld'. push_char ld ch = Return (res, signals, echoes, ld')
    \<and> (if 8192 \<le> length (ready ld) + length (editing ld) then res = Inl EAGAIN \<and> ld' = ld
       else res = Inr () \<and> (case char_spec (termios ld) (crnl (termios ld) ch) (ready ld, editing ld) of
              (r, l) \<Rightarrow> becomes ld ld' r l))
    \<and> signals = (case char_to_signal (crnl (termios ld) ch) (termios ld) of Some s \<Rightarrow> [s] | None \<Rightarrow> [])
    \<and> echoes = (if contains (c_lflags (termios ld)) ECHO
                then output_char ld (crnl (termios ld) ch) else [])"
  using assms by (rule push_char_spec)

theorem push_char_refines_witness:
  "\<exists>ld res echoes ld'. ld_inv ld \<and> push_char ld 3 = Return (res, [SIGINT], echoes, ld')"
proof -
  obtain ld where ld: "ld_new zero_frames = Return ld" using ld_new_zero by blast
  then have inv: "ld_inv ld" and tm: "termios ld = termios_default"
    using ld_new_spec [of zero_frames ld] by simp_all
  from push_char_refines [OF inv, of 3] obtain res signals echoes ld'
    where r: "push_char ld 3 = Return (res, signals, echoes, ld')"
      and "signals = (case char_to_signal (crnl (termios ld) 3) (termios ld) of Some s \<Rightarrow> [s] | None \<Rightarrow> [])"
    by blast
  then have "signals = [SIGINT]"
    by (simp add: tm crnl_def char_to_signal_def control_character_def)
  with inv r show ?thesis by blast
qed

text \<open>
  What is typed is what is read: on a terminal in canonical mode with nothing pending, a
  line of ordinary characters within the line capacity followed by a newline is returned whole
  by the next read that has room for it, and afterwards nothing is pending.
\<close>

lemma typed_line_read_back:
  assumes "ld_inv ld" "ready ld = []" "editing ld = []" "is_canonical_mode (termios ld)"
    and "\<forall>ch \<in> set cs. plain_char (termios ld) ch" "length cs \<le> LINE_CAPACITY"
    and "special_char (termios ld) VKILL \<noteq> 10" "special_char (termios ld) VERASE \<noteq> 10"
    and "special_char (termios ld) VEOF \<noteq> 10" "special_char (termios ld) VMIN \<le> 1"
    and "length cs < n"
  shows "\<exists>ld1 ld2. push_chars ld (cs @ [10]) = Return ld1
    \<and> try_read ld1 n = Return (Inr (cs @ [10]), ld2) \<and> becomes ld ld2 [] []"
proof -
  have nl: "is_line_terminator 10 tm" "crnl tm 10 = 10" "\<not> is_printable_char 10" for tm
    by (simp_all add: is_line_terminator_def crnl_def is_printable_char_def)
  obtain ld0 where ld0: "push_chars ld cs = Return ld0" "becomes ld ld0 [] cs"
    using push_plain [of ld cs] assms by (auto simp: LINE_CAPACITY_def)
  then obtain ld1 where ld1: "push_chars ld0 [10] = Return ld1" "becomes ld0 ld1 (cs @ [10]) []"
    using push_terminator [of ld0 10] assms nl by (auto simp: becomes_def LINE_CAPACITY_def)
  have "read_spec (termios ld) n (cs @ [10]) = (cs @ [10], [])"
    using assms read_spec_line [of "termios ld" cs 10 n "[]"] nl
    by (auto simp: plain_char_def is_eof_def)
  moreover have "unat (special_char (termios ld) VMIN) \<le> 1"
    using assms(10) by (simp add: word_le_nat_alt)
  moreover have "becomes ld ld1 (cs @ [10]) []"
    using becomes_trans [OF ld0(2) ld1(2)] .
  ultimately obtain ld2 where "try_read ld1 n = Return (Inr (cs @ [10]), ld2)" "becomes ld1 ld2 [] []"
    using try_read_spec [of ld1 n] by (auto simp: becomes_def)
  with \<open>becomes ld ld1 (cs @ [10]) []\<close> have "becomes ld ld2 [] []"
    by (blast intro: becomes_trans)
  with ld0(1) ld1(1) \<open>try_read ld1 n = Return (Inr (cs @ [10]), ld2)\<close> show ?thesis
    by (simp add: push_chars_append del: push_chars.simps)
qed

lemma typed_line_read_back_witness:
  "\<exists>ld ld1 ld2. ld_inv ld \<and> push_chars ld ([0x68, 0x69] @ [10]) = Return ld1
     \<and> try_read ld1 80 = Return (Inr ([0x68, 0x69] @ [10]), ld2) \<and> becomes ld ld2 [] []"
proof -
  obtain ld where ld: "ld_new zero_frames = Return ld" using ld_new_zero by blast
  then have inv: "ld_inv ld" "ready ld = []" "editing ld = []" and tm: "termios ld = termios_default"
    using ld_new_spec [of zero_frames ld] by simp_all
  have "\<exists>ld1 ld2. push_chars ld ([0x68, 0x69] @ [10]) = Return ld1
    \<and> try_read ld1 80 = Return (Inr ([0x68, 0x69] @ [10]), ld2) \<and> becomes ld ld2 [] []"
    by (rule typed_line_read_back [OF inv])
      (simp_all add: tm plain_char_def is_printable_char_def is_line_terminator_def
        control_character_def LINE_CAPACITY_def)
  with inv(1) show ?thesis by blast
qed

text \<open>The public operations as values, and a run of them.\<close>

datatype ld_op =
  PushChar u8 | TryRead nat | DrainInput | SetTermios CTermios | SetWindowSize CWinSize

fun ld_exec :: "LineDiscipline \<Rightarrow> ld_op \<Rightarrow> LineDiscipline rust" where
  "ld_exec ld (PushChar ch) = rust_bind (push_char ld ch) (\<lambda>(_, _, _, ld'). Return ld')"
| "ld_exec ld (TryRead n) = rust_bind (try_read ld n) (\<lambda>(_, ld'). Return ld')"
| "ld_exec ld DrainInput = drain_input ld"
| "ld_exec ld (SetTermios tm) = set_termios ld tm"
| "ld_exec ld (SetWindowSize ws) = Return (set_window_size ld ws)"

fun ld_run :: "LineDiscipline \<Rightarrow> ld_op list \<Rightarrow> LineDiscipline rust" where
  "ld_run ld [] = Return ld"
| "ld_run ld (op # ops) = rust_bind (ld_exec ld op) (\<lambda>ld'. ld_run ld' ops)"

text \<open>No configured line terminator is a printable character.\<close>

definition safe_termios :: "CTermios \<Rightarrow> bool" where
  "safe_termios tm \<longleftrightarrow> \<not> is_printable_char (special_char tm VEOF)
     \<and> \<not> is_printable_char (special_char tm VEOL)
     \<and> (contains (c_lflags tm) IEXTEN \<longrightarrow> \<not> is_printable_char (special_char tm VEOL2))"

definition ld_room :: "LineDiscipline \<Rightarrow> bool" where
  "ld_room ld \<longleftrightarrow> ld_inv ld \<and> safe_termios (termios ld)
     \<and> length (ready ld) + length (editing ld) \<le> 8192"

lemma safe_terminator: "safe_termios tm \<Longrightarrow> is_line_terminator ch tm \<Longrightarrow> \<not> is_printable_char ch"
  by (auto simp: safe_termios_def is_line_terminator_def is_printable_char_def)

lemma char_spec_room:
  assumes "safe_termios tm" "length r + length l < 8192" "char_spec tm ch (r, l) = (r', l')"
  shows "length r' + length l' \<le> 8192"
  using assms length_edit_line [of tm ch l] safe_terminator [OF assms(1), of ch]
  by (auto simp: char_spec_def add_char_def split: if_splits)

lemma read_spec_length: "read_spec tm n r = (out, rest) \<Longrightarrow> length rest \<le> length r"
  by (induction tm n r arbitrary: out rest rule: read_spec.induct) (fastforce split: if_splits prod.splits)+

lemma push_char_room:
  assumes "ld_room ld"
  shows "\<exists>res s e ld'. push_char ld ch = Return (res, s, e, ld') \<and> ld_room ld'"
proof -
  let ?tm = "termios ld"
  have inv: "ld_inv ld" using assms by (simp add: ld_room_def)
  obtain r l where rl: "char_spec ?tm (crnl ?tm ch) (ready ld, editing ld) = (r, l)" by fastforce
  from push_char_spec [OF inv, of ch] obtain res s e ld'
    where p: "push_char ld ch = Return (res, s, e, ld')"
      and d: "if 8192 \<le> length (ready ld) + length (editing ld) then res = Inl EAGAIN \<and> ld' = ld
              else res = Inr () \<and> becomes ld ld' r l"
    unfolding rl by auto
  have "ld_room ld'"
    using assms d char_spec_room [OF _ _ rl] by (auto simp: ld_room_def becomes_def split: if_splits)
  with p show ?thesis by blast
qed

lemma try_read_room:
  assumes "ld_room ld"
  shows "\<exists>res ld'. try_read ld n = Return (res, ld') \<and> ld_room ld'"
proof -
  obtain out rest where o: "read_spec (termios ld) n (ready ld) = (out, rest)" by fastforce
  with try_read_spec [of ld n] assms read_spec_length [OF o] show ?thesis
    by (fastforce simp: ld_room_def becomes_def split: if_splits)
qed

lemma drain_input_room:
  assumes "ld_room ld"
  shows "\<exists>ld'. drain_input ld = Return ld' \<and> ld_room ld'"
proof -
  have "ld_inv ld" using assms by (simp add: ld_room_def)
  then obtain cl where cl: "drain (current_line ld) = Return (editing ld, cl)"
    "becomes ld (ld\<lparr>current_line := cl\<rparr>) (ready ld) []"
    using drain_spec by blast
  moreover have "rb_inv (rb_clear (read_buffer ld)) \<and> rb_list (rb_clear (read_buffer ld)) = []
      \<and> unat (capacity (rb_clear (read_buffer ld))) = unat (capacity (read_buffer ld))"
    using \<open>ld_inv ld\<close> rb.clear_law [of "read_buffer ld"] by (simp add: ld_inv_def)
  ultimately have "becomes ld (ld\<lparr>current_line := cl, read_buffer := rb_clear (read_buffer ld)\<rparr>) [] []"
    by (simp add: becomes_def ld_inv_def ready_def editing_def)
  with assms cl(1) show ?thesis
    by (simp add: drain_input_def ld_room_def becomes_def)
qed

lemma set_termios_room:
  assumes "ld_room ld" "safe_termios tm"
  shows "\<exists>ld'. set_termios ld tm = Return ld' \<and> ld_room ld'"
proof -
  have "ready (ld\<lparr>termios := tm\<rparr>) = ready ld" "editing (ld\<lparr>termios := tm\<rparr>) = editing ld"
    "ld_inv (ld\<lparr>termios := tm\<rparr>) = ld_inv ld"
    by (simp_all add: ld_inv_def ready_def editing_def)
  then have "ld_room (ld\<lparr>termios := tm\<rparr>)"
    using assms by (simp add: ld_room_def)
  with flush_line_spec [of "ld\<lparr>termios := tm\<rparr>"] show ?thesis
    by (auto simp: set_termios_def ld_room_def becomes_def Let_def)
qed

lemma ld_exec_room:
  assumes "ld_room ld" "\<forall>tm. op = SetTermios tm \<longrightarrow> safe_termios tm"
  shows "\<exists>ld'. ld_exec ld op = Return ld' \<and> ld_room ld'"
proof (cases op)
  case (PushChar ch)
  with push_char_room [OF assms(1), of ch] show ?thesis by auto
next
  case (TryRead n)
  with try_read_room [OF assms(1), of n] show ?thesis by auto
next
  case DrainInput
  with drain_input_room [OF assms(1)] show ?thesis by auto
next
  case (SetTermios tm)
  with set_termios_room [OF assms(1)] assms(2) show ?thesis by auto
next
  case (SetWindowSize ws)
  with assms(1) show ?thesis
    by (auto simp: set_window_size_def ld_room_def ld_inv_def ready_def editing_def)
qed

lemma ld_run_room:
  "ld_room ld \<Longrightarrow> \<forall>tm. SetTermios tm \<in> set ops \<longrightarrow> safe_termios tm \<Longrightarrow>
   \<exists>ld'. ld_run ld ops = Return ld' \<and> ld_room ld'"
proof (induction ops arbitrary: ld)
  case (Cons op ops)
  then obtain ld1 where "ld_exec ld op = Return ld1" "ld_room ld1"
    using ld_exec_room [of ld op] by auto
  with Cons show ?case by auto
qed simp

text \<open>
  No sequence of operations panics while line terminators are unprintable: from a new
  terminal, after any pushes, reads, drains and settings in which no \<^verbatim>\<open>VEOF\<close>, \<^verbatim>\<open>VEOL\<close> or active
  \<^verbatim>\<open>VEOL2\<close> character is printable, every \<open>unwrap\<close> succeeds, the terminal is well formed and the
  ready and edited bytes together fit the read buffer.
\<close>

lemma ld_run_never_panics:
  assumes "ld_new alloc = Return ld" "segment_fits alloc 1"
    and "\<forall>tm. SetTermios tm \<in> set ops \<longrightarrow> safe_termios tm"
  shows "\<exists>ld'. ld_run ld ops = Return ld' \<and> ld_inv ld'
    \<and> length (ready ld') + length (editing ld') \<le> 8192"
proof -
  have "ld_room ld"
    using ld_new_spec [OF assms(1,2)]
    by (simp add: ld_room_def safe_termios_def is_printable_char_def control_character_def)
  from ld_run_room [OF this assms(3)] show ?thesis
    by (auto simp: ld_room_def)
qed

lemma ld_run_never_panics_witness:
  "\<exists>ld ld'. ld_new zero_frames = Return ld
     \<and> ld_run ld [PushChar 0x61, SetTermios (termios_default\<lparr>c_lflags := 0\<rparr>), TryRead 5] = Return ld'
     \<and> ld_inv ld' \<and> length (ready ld') + length (editing ld') \<le> 8192"
proof -
  obtain ld where ld: "ld_new zero_frames = Return ld" using ld_new_zero by blast
  have "special_char (termios_default\<lparr>c_lflags := 0\<rparr>) i = default_char i" for i
    using special_char_default [of i] by (simp add: special_char_def)
  then have "safe_termios (termios_default\<lparr>c_lflags := 0\<rparr>)"
    by (simp add: safe_termios_def is_printable_char_def control_character_def)
  with ld_run_never_panics [OF ld zero_frames_fit,
      of "[PushChar 0x61, SetTermios (termios_default\<lparr>c_lflags := 0\<rparr>), TryRead 5]"] ld
  show ?thesis by (auto simp del: ld_run.simps)
qed

text \<open>
  The settings of the counterexample: end-of-line is the letter \<open>a\<close>, and the same in raw mode.
\<close>

definition eol_a :: CTermios where
  "eol_a = set_special_char termios_default VEOL 0x61"

definition eol_a_raw :: CTermios where
  "eol_a_raw = eol_a\<lparr>c_lflags := 0\<rparr>"

lemma eol_a_simps [simp]:
  "special_char eol_a i = (if i = VEOL then 0x61 else default_char i)"
  "c_lflags eol_a = default_lflags" "c_iflags eol_a = default_iflags"
  using special_char_set [of termios_default VEOL "0x61" i]
  by (simp_all add: eol_a_def) (simp_all add: set_special_char_def)

lemma plain_b: "plain_char eol_a 0x62"
  by (simp add: plain_char_def is_printable_char_def is_line_terminator_def control_character_def)

lemma canonical_eol_a [simp]: "is_canonical_mode eol_a" "\<not> is_canonical_mode eol_a_raw"
  using canonical_default
  by (simp_all add: is_canonical_mode_def eol_a_raw_def) (simp add: contains_def flag_defs)

lemma ld_run_push: "ld_run ld (map PushChar cs @ ops) = rust_bind (push_chars ld cs) (\<lambda>ld'. ld_run ld' ops)"
proof (induction cs arbitrary: ld)
  case (Cons ch cs)
  then show ?case
    by (cases "push_char ld ch") (auto split: prod.splits)
qed simp

lemma overfull_line:
  assumes "ld_inv ld" "ready ld = []" "editing ld = []" "termios ld = eol_a"
  shows "\<exists>ld'. push_chars ld (replicate 4095 0x62 @ [10] @ replicate 4095 0x62 @ [0x61]) = Return ld'
    \<and> ld_inv ld' \<and> length (ready ld') = 8192 \<and> editing ld' = [0x61]"
proof -
  have pl: "\<forall>ch \<in> set (replicate 4095 0x62). plain_char eol_a ch"
    using plain_b by simp
  obtain ld1 where ld1: "push_chars ld (replicate 4095 0x62) = Return ld1"
    "becomes ld ld1 [] (replicate 4095 0x62)"
    using push_plain [of ld "replicate 4095 0x62"] assms pl by (auto simp: LINE_CAPACITY_def)
  then obtain ld2 where ld2: "push_chars ld1 [10] = Return ld2"
    "becomes ld1 ld2 (replicate 4095 0x62 @ [10]) []"
    using push_terminator [of ld1 10] assms(4)
    by (auto simp: becomes_def crnl_def is_line_terminator_def is_printable_char_def control_character_def)
  have b2: "ld_inv ld2" "termios ld2 = eol_a" "length (ready ld2) = 4096" "editing ld2 = []"
    using ld1(2) ld2(2) assms(4) by (simp_all add: becomes_def)
  then obtain ld3 where ld3: "push_chars ld2 (replicate 4095 0x62) = Return ld3"
    "becomes ld2 ld3 (ready ld2) (replicate 4095 0x62)"
    using push_plain [of ld2 "replicate 4095 0x62"] pl by (auto simp: LINE_CAPACITY_def)
  have b3: "ld_inv ld3" "termios ld3 = eol_a" "length (ready ld3) = 4096" "length (editing ld3) = 4095"
    using b2 ld3(2) by (simp_all add: becomes_def)
  then obtain ld4 where ld4: "push_chars ld3 [0x61] = Return ld4"
    "becomes ld3 ld4 (ready ld3 @ editing ld3 @ [0x61]) [0x61]"
    using push_terminator [of ld3 "0x61"]
    by (auto simp: crnl_def is_line_terminator_def is_printable_char_def control_character_def)
  have "ld_inv ld4 \<and> length (ready ld4) = 8192 \<and> editing ld4 = [0x61]"
    using ld4(2) b3 by (simp add: becomes_def)
  with ld1(1) ld2(1) ld3(1) ld4(1) show ?thesis
    by (simp add: push_chars_append del: push_chars.simps append.simps)
qed

text \<open>
  C38. The comment on \<open>set_termios\<close> that its \<open>unwrap\<close> cannot fail does not hold: on a new
  terminal, make the letter \<open>a\<close> the end-of-line character, type a full line of 4095 letters
  \<open>b\<close> and a newline, another 4095 letters \<open>b\<close> and an \<open>a\<close>, and switch to raw mode. The printable
  terminator is both flushed and added to the next line, the read buffer is full with one
  byte still being edited, and the switch panics.
\<close>

theorem set_termios_panics:
  assumes "ld_new alloc = Return ld" "segment_fits alloc 1"
  shows "ld_run ld (SetTermios eol_a
    # map PushChar (replicate 4095 0x62 @ [10] @ replicate 4095 0x62 @ [0x61])
    @ [SetTermios eol_a_raw]) = Panic"
proof -
  note new = ld_new_spec [OF assms]
  let ?ld1 = "ld\<lparr>termios := eol_a\<rparr>"
  have "ld_inv ?ld1" "ready ?ld1 = []" "editing ?ld1 = []" "termios ?ld1 = eol_a"
    using new by (simp_all add: ld_inv_def ready_def editing_def)
  then obtain ld2 where ld2: "push_chars ?ld1 (replicate 4095 0x62 @ [10] @ replicate 4095 0x62 @ [0x61])
      = Return ld2" "ld_inv ld2" "length (ready ld2) = 8192" "editing ld2 = [0x61]"
    using overfull_line by blast
  let ?ld3 = "ld2\<lparr>termios := eol_a_raw\<rparr>"
  have "ready ?ld3 = ready ld2" "editing ?ld3 = editing ld2" "ld_inv ?ld3 = ld_inv ld2"
    by (simp_all add: ld_inv_def ready_def editing_def)
  then have "\<exists>ld'. flush_line ?ld3 = Return (None, ld')"
    using ld2 by (intro flush_line_full) simp_all
  then have "set_termios ld2 eol_a_raw = Panic"
    by (auto simp: set_termios_def)
  with ld2(1) show ?thesis
    by (simp add: ld_run_push set_termios_def Let_def del: map_append push_chars.simps append.simps
        map_replicate)
qed

theorem set_termios_panics_witness:
  "\<exists>ld. ld_new zero_frames = Return ld
     \<and> ld_run ld (SetTermios eol_a
         # map PushChar (replicate 4095 0x62 @ [10] @ replicate 4095 0x62 @ [0x61])
         @ [SetTermios eol_a_raw]) = Panic"
proof -
  obtain ld where ld: "ld_new zero_frames = Return ld" using ld_new_zero by blast
  from set_termios_panics [OF ld zero_frames_fit] ld show ?thesis by blast
qed

end
