(* ===== verification/Id_Alloc.thy ===== *)
theory Id_Alloc
  imports Kei_Prelude
begin

text \<open>
  The bitmap identifier allocator of \<^verbatim>\<open>packages/ostd/libs/id-alloc/src/lib.rs\<close>. The bit vector
  (the bitvec crate) is a parameter: a record of its operations. The locale \<open>bit_vector\<close> states
  what the allocator relies on: setting a bit changes that bit and nothing else.

  Identifiers are natural numbers below the length of the bit vector; the one addition that
  can overflow \<open>usize\<close>, a \<open>checked_add\<close>, is written out. Accesses out of bounds panic, and
  \<open>debug_assert!\<close> panics when debug assertions are enabled.
\<close>

section \<open>Bit vectors\<close>

record 'b bit_ops =
  bv_len :: "'b \<Rightarrow> nat"
  bv_get :: "'b \<Rightarrow> nat \<Rightarrow> bool"
  bv_set :: "'b \<Rightarrow> nat \<Rightarrow> bool \<Rightarrow> 'b"

text \<open>The search \<open>(lo..len).find(|&i| !bitset[i]).map_or(len, |i| i)\<close> of the sources.\<close>

definition find_free :: "'b bit_ops \<Rightarrow> 'b \<Rightarrow> nat \<Rightarrow> nat" where
  "find_free ops b lo =
     (case find (\<lambda>i. \<not> bv_get ops b i) [lo..<bv_len ops b] of Some i \<Rightarrow> i | None \<Rightarrow> bv_len ops b)"

text \<open>The scan for a run of zero bits; the range is \<open>s..e\<close>.\<close>

function scan_run :: "'b bit_ops \<Rightarrow> 'b \<Rightarrow> nat \<Rightarrow> nat \<Rightarrow> nat \<Rightarrow> nat \<times> nat" where
  "scan_run ops b count s e =
     (if e - s < count \<and> e < bv_len ops b
      then if \<not> bv_get ops b e then scan_run ops b count s (e + 1)
           else scan_run ops b count (e + 1) (e + 1)
      else (s, e))"
  by pat_completeness auto
termination
  by (relation "measure (\<lambda>(ops, b, count, s, e). bv_len ops b - e)") auto

declare scan_run.simps [simp del]

text \<open>The loops that set or clear every bit of a range.\<close>

definition set_range :: "'b bit_ops \<Rightarrow> 'b \<Rightarrow> nat \<Rightarrow> nat \<Rightarrow> bool \<Rightarrow> 'b" where
  "set_range ops b s e v = fold (\<lambda>i b. bv_set ops b i v) [s..<e] b"

text \<open>\<open>n\<close> consecutive free bits from \<open>s\<close>.\<close>

definition free_run :: "'b bit_ops \<Rightarrow> 'b \<Rightarrow> nat \<Rightarrow> nat \<Rightarrow> bool" where
  "free_run ops b n s \<longleftrightarrow> s + n \<le> bv_len ops b \<and> (\<forall>i. s \<le> i \<and> i < s + n \<longrightarrow> \<not> bv_get ops b i)"

locale bit_vector =
  fixes ops :: "'b bit_ops"
  assumes len_set: "i < bv_len ops b \<Longrightarrow> bv_len ops (bv_set ops b i v) = bv_len ops b"
    and get_set: "i < bv_len ops b \<Longrightarrow> j < bv_len ops b \<Longrightarrow>
      bv_get ops (bv_set ops b i v) j = (if i = j then v else bv_get ops b j)"
begin

lemma find_free_spec:
  assumes "lo \<le> bv_len ops b"
  shows "lo \<le> find_free ops b lo \<and> find_free ops b lo \<le> bv_len ops b
    \<and> (\<forall>i. lo \<le> i \<and> i < find_free ops b lo \<longrightarrow> bv_get ops b i)
    \<and> (find_free ops b lo < bv_len ops b \<longrightarrow> \<not> bv_get ops b (find_free ops b lo))"
proof (cases "find (\<lambda>i. \<not> bv_get ops b i) [lo..<bv_len ops b]")
  case None
  then have "\<forall>i. lo \<le> i \<and> i < bv_len ops b \<longrightarrow> bv_get ops b i"
    by (auto simp: find_None_iff)
  with None assms show ?thesis by (simp add: find_free_def)
next
  case (Some i)
  then obtain k where k: "k < bv_len ops b - lo" "i = lo + k" "\<not> bv_get ops b i"
    "\<forall>j < k. bv_get ops b (lo + j)"
    by (auto simp: find_Some_iff)
  have "bv_get ops b j" if "lo \<le> j" "j < i" for j
    using k(2,4) that by (metis le_add_diff_inverse nat_add_left_cancel_less)
  with Some k show ?thesis by (simp add: find_free_def)
qed

lemma set_range_spec:
  assumes "e \<le> bv_len ops b"
  shows "bv_len ops (set_range ops b s e v) = bv_len ops b
    \<and> (\<forall>j < bv_len ops b. bv_get ops (set_range ops b s e v) j
         = (if s \<le> j \<and> j < e then v else bv_get ops b j))"
  using assms
proof (induction e)
  case 0
  then show ?case by (simp add: set_range_def)
next
  case (Suc e)
  show ?case
  proof (cases "s \<le> e")
    case True
    then have "set_range ops b s (Suc e) v = bv_set ops (set_range ops b s e v) e v"
      by (simp add: set_range_def)
    with Suc True show ?thesis
      by (auto simp: len_set get_set)
  next
    case False
    then show ?thesis by (auto simp: set_range_def)
  qed
qed

lemma scan_run_spec:
  assumes "s \<le> e" "e \<le> bv_len ops b" "e - s \<le> count"
    and "\<forall>i. s \<le> i \<and> i < e \<longrightarrow> \<not> bv_get ops b i" "\<forall>s' < s. \<not> free_run ops b count s'"
  shows "case scan_run ops b count s e of (s', e') \<Rightarrow>
    s' \<le> e' \<and> e' \<le> bv_len ops b \<and> e' - s' \<le> count
    \<and> (\<forall>i. s' \<le> i \<and> i < e' \<longrightarrow> \<not> bv_get ops b i)
    \<and> (\<forall>s'' < s'. \<not> free_run ops b count s'')
    \<and> (e' - s' < count \<longrightarrow> e' = bv_len ops b)"
  using assms
proof (induction "bv_len ops b - e" arbitrary: s e rule: less_induct)
  case less
  show ?case
  proof (cases "e - s < count \<and> e < bv_len ops b")
    case False
    with less.prems show ?thesis by (subst scan_run.simps) auto
  next
    case True
    show ?thesis
    proof (cases "bv_get ops b e")
      case False
      have "bv_len ops b - (e + 1) < bv_len ops b - e" using True by linarith
      moreover have "\<forall>i. s \<le> i \<and> i < e + 1 \<longrightarrow> \<not> bv_get ops b i"
        using less.prems(4) False by (auto simp: less_Suc_eq)
      ultimately show ?thesis
        using less.hyps [of "e + 1" s] less.prems True False by (subst scan_run.simps) auto
    next
      case bit: True
      have "\<not> free_run ops b count s'" if "s' < e + 1" for s'
      proof (cases "s' < s")
        case False
        then have "s' \<le> e" "e < s' + count"
          using that True less.prems(1) by auto
        with bit show ?thesis by (auto simp: free_run_def)
      qed (use less.prems(5) in blast)
      moreover have "bv_len ops b - (e + 1) < bv_len ops b - e" using True by linarith
      moreover have "\<forall>i. e + 1 \<le> i \<and> i < e + 1 \<longrightarrow> \<not> bv_get ops b i" by auto
      ultimately have "case scan_run ops b count (e + 1) (e + 1) of (s', e') \<Rightarrow>
        s' \<le> e' \<and> e' \<le> bv_len ops b \<and> e' - s' \<le> count
        \<and> (\<forall>i. s' \<le> i \<and> i < e' \<longrightarrow> \<not> bv_get ops b i)
        \<and> (\<forall>s'' < s'. \<not> free_run ops b count s'')
        \<and> (e' - s' < count \<longrightarrow> e' = bv_len ops b)"
        using True by (intro less.hyps) auto
      then show ?thesis
        using True bit by (subst scan_run.simps) simp
    qed
  qed
qed

end

section \<open>The allocator\<close>

record 'b IdAlloc =
  bitset :: 'b
  first_available_id :: nat

text \<open>\<open>new_bits\<close> is the bit vector after \<open>resize(capacity, false)\<close>.\<close>

definition with_capacity :: "(nat \<Rightarrow> 'b) \<Rightarrow> nat \<Rightarrow> 'b IdAlloc" where
  "with_capacity new_bits capacity = \<lparr>bitset = new_bits capacity, first_available_id = 0\<rparr>"

definition id_alloc :: "'b bit_ops \<Rightarrow> 'b IdAlloc \<Rightarrow> nat option \<times> 'b IdAlloc" where
  "id_alloc ops a =
     (if first_available_id a < bv_len ops (bitset a)
      then let i = first_available_id a;
               b = bv_set ops (bitset a) i True
           in (Some i, \<lparr>bitset = b, first_available_id = find_free ops b (i + 1)\<rparr>)
      else (None, a))"

definition alloc_consecutive ::
    "'b bit_ops \<Rightarrow> 'b IdAlloc \<Rightarrow> nat \<Rightarrow> (nat \<times> nat) option \<times> 'b IdAlloc" where
  "alloc_consecutive ops a count =
     (let first = first_available_id a in
      if count = 0 then (None, a)
      else if first + count \<ge> 2 ^ 64 then (None, a)
      else if first + count > bv_len ops (bitset a) then (None, a)
      else case scan_run ops (bitset a) count first (first + 1) of
        (s, e) \<Rightarrow>
          if e - s < count then (None, a)
          else let b = set_range ops (bitset a) s e True
               in (Some (s, e),
                   \<lparr>bitset = b,
                    first_available_id =
                      (if bv_get ops b first then find_free ops b e else first)\<rparr>))"

definition is_allocated :: "'b bit_ops \<Rightarrow> 'b IdAlloc \<Rightarrow> nat \<Rightarrow> bool rust" where
  "is_allocated ops a i =
     (if i < bv_len ops (bitset a) then Return (bv_get ops (bitset a) i) else Panic)"

text \<open>\<open>dbg\<close> tells whether debug assertions are compiled in.\<close>

fun free_loop :: "bool \<Rightarrow> 'b bit_ops \<Rightarrow> 'b \<Rightarrow> nat list \<Rightarrow> 'b rust" where
  "free_loop dbg ops b [] = Return b"
| "free_loop dbg ops b (i # is) =
     (if \<not> i < bv_len ops b \<or> dbg \<and> \<not> bv_get ops b i then Panic
      else free_loop dbg ops (bv_set ops b i False) is)"

definition free_consecutive :: "bool \<Rightarrow> 'b bit_ops \<Rightarrow> 'b IdAlloc \<Rightarrow> nat \<times> nat \<Rightarrow> 'b IdAlloc rust" where
  "free_consecutive dbg ops a = (\<lambda>(s, e).
     if e \<le> s then Return a
     else rust_bind (free_loop dbg ops (bitset a) [s..<e]) (\<lambda>b.
       Return \<lparr>bitset = b,
               first_available_id = (if s < first_available_id a then s else first_available_id a)\<rparr>))"

definition id_free :: "bool \<Rightarrow> 'b bit_ops \<Rightarrow> 'b IdAlloc \<Rightarrow> nat \<Rightarrow> 'b IdAlloc rust" where
  "id_free dbg ops a i =
     (if \<not> i < bv_len ops (bitset a) \<or> dbg \<and> \<not> bv_get ops (bitset a) i then Panic
      else Return \<lparr>bitset = bv_set ops (bitset a) i False,
                   first_available_id = (if i < first_available_id a then i else first_available_id a)\<rparr>)"

definition alloc_specific :: "'b bit_ops \<Rightarrow> 'b IdAlloc \<Rightarrow> nat \<Rightarrow> (nat option \<times> 'b IdAlloc) rust" where
  "alloc_specific ops a i =
     (if \<not> i < bv_len ops (bitset a) then Panic
      else if bv_get ops (bitset a) i then Return (None, a)
      else let b = bv_set ops (bitset a) i True
           in Return (Some i,
                \<lparr>bitset = b,
                 first_available_id =
                   (if i = first_available_id a then find_free ops b (i + 1) else first_available_id a)\<rparr>))"

section \<open>Invariant\<close>

definition used_ids :: "'b bit_ops \<Rightarrow> 'b IdAlloc \<Rightarrow> nat set" where
  "used_ids ops a = {i. i < bv_len ops (bitset a) \<and> bv_get ops (bitset a) i}"

definition id_capacity :: "'b bit_ops \<Rightarrow> 'b IdAlloc \<Rightarrow> nat" where
  "id_capacity ops a = bv_len ops (bitset a)"

text \<open>\<open>first_available_id\<close> is the least free identifier, or the capacity when all are in use.\<close>

definition id_inv :: "'b bit_ops \<Rightarrow> 'b IdAlloc \<Rightarrow> bool" where
  "id_inv ops a \<longleftrightarrow> first_available_id a \<le> bv_len ops (bitset a)
     \<and> (\<forall>i < first_available_id a. bv_get ops (bitset a) i)
     \<and> (first_available_id a < bv_len ops (bitset a) \<longrightarrow>
         \<not> bv_get ops (bitset a) (first_available_id a))"

text \<open>
  The interface of an identifier pool: identifiers below a capacity, allocated fresh, at a
  chosen value, and released.
\<close>

locale id_pool =
  fixes inv :: "'a \<Rightarrow> bool"
    and used :: "'a \<Rightarrow> nat set"
    and cap :: "'a \<Rightarrow> nat"
    and alloc :: "'a \<Rightarrow> nat option \<times> 'a"
    and alloc_at :: "'a \<Rightarrow> nat \<Rightarrow> (nat option \<times> 'a) rust"
    and release :: "'a \<Rightarrow> nat \<Rightarrow> 'a rust"
  assumes used_bound: "used a \<subseteq> {..<cap a}"
    and alloc_law: "inv a \<Longrightarrow>
      (if used a = {..<cap a} then alloc a = (None, a)
       else \<exists>i a'. alloc a = (Some i, a') \<and> inv a' \<and> cap a' = cap a
              \<and> i < cap a \<and> i \<notin> used a \<and> {..<i} \<subseteq> used a \<and> used a' = insert i (used a))"
    and alloc_at_law: "inv a \<Longrightarrow> i < cap a \<Longrightarrow>
      \<exists>a'. alloc_at a i = Return (if i \<in> used a then None else Some i, a')
         \<and> inv a' \<and> cap a' = cap a \<and> used a' = insert i (used a)"
    and release_law: "inv a \<Longrightarrow> i \<in> used a \<Longrightarrow>
      \<exists>a'. release a i = Return a' \<and> inv a' \<and> cap a' = cap a \<and> used a' = used a - {i}"
begin

lemma alloc_Some:
  assumes "inv a" "alloc a = (Some i, a')"
  shows "inv a'" "cap a' = cap a" "i < cap a" "i \<notin> used a" "used a' = insert i (used a)"
  using alloc_law [OF assms(1)] assms(2) by (auto split: if_splits)

lemma alloc_None:
  assumes "inv a" "alloc a = (None, a')"
  shows "a' = a" "used a = {..<cap a}"
  using alloc_law [OF assms(1)] assms(2) by (auto split: if_splits)

text \<open>Allocating and releasing at once restores the set of identifiers in use.\<close>

lemma alloc_release:
  assumes "inv a" "alloc a = (Some i, a')"
  shows "\<exists>a''. release a' i = Return a'' \<and> inv a'' \<and> cap a'' = cap a \<and> used a'' = used a"
  using release_law [of a' i] alloc_Some [OF assms] by auto

lemma alloc_at_release:
  assumes "inv a" "i < cap a" "alloc_at a i = Return (Some j, a')"
  shows "\<exists>a''. release a' i = Return a'' \<and> inv a'' \<and> cap a'' = cap a \<and> used a'' = used a"
proof -
  have "inv a'" "cap a' = cap a" "used a' = insert i (used a)" "i \<notin> used a"
    using alloc_at_law [OF assms(1,2)] assms(3) by (auto split: if_splits)
  with release_law [of a' i] show ?thesis by auto
qed

end

context bit_vector
begin

lemma id_inv_find_free:
  assumes "lo \<le> bv_len ops b" "\<forall>i < lo. bv_get ops b i"
  shows "id_inv ops \<lparr>bitset = b, first_available_id = find_free ops b lo\<rparr>"
proof -
  have "bv_get ops b i" if "i < find_free ops b lo" for i
    using find_free_spec [OF assms(1)] assms(2) that by (cases "i < lo") auto
  with find_free_spec [OF assms(1)] show ?thesis by (simp add: id_inv_def)
qed

lemma used_ids_set:
  assumes "i < bv_len ops b"
  shows "used_ids ops \<lparr>bitset = bv_set ops b i v, first_available_id = f\<rparr>
    = (if v then insert i {j. j < bv_len ops b \<and> bv_get ops b j}
       else {j. j < bv_len ops b \<and> bv_get ops b j} - {i})"
  using assms by (auto simp: used_ids_def len_set get_set split: if_splits)

lemma id_alloc_spec:
  assumes "id_inv ops a"
  shows "if used_ids ops a = {..<id_capacity ops a} then id_alloc ops a = (None, a)
    else \<exists>i a'. id_alloc ops a = (Some i, a') \<and> id_inv ops a' \<and> id_capacity ops a' = id_capacity ops a
       \<and> i < id_capacity ops a \<and> i \<notin> used_ids ops a \<and> {..<i} \<subseteq> used_ids ops a
       \<and> used_ids ops a' = insert i (used_ids ops a)"
proof (cases "first_available_id a < bv_len ops (bitset a)")
  case True
  let ?i = "first_available_id a"
  let ?b = "bv_set ops (bitset a) ?i True"
  have free: "?i \<notin> used_ids ops a" "{..<?i} \<subseteq> used_ids ops a"
    using assms True by (auto simp: id_inv_def used_ids_def)
  then have "used_ids ops a \<noteq> {..<id_capacity ops a}"
    using True by (auto simp: id_capacity_def)
  moreover have len: "bv_len ops ?b = bv_len ops (bitset a)" using True by (simp add: len_set)
  moreover have "id_inv ops \<lparr>bitset = ?b, first_available_id = find_free ops ?b (?i + 1)\<rparr>"
    using assms True len by (intro id_inv_find_free) (auto simp: id_inv_def get_set less_Suc_eq)
  ultimately show ?thesis
    using True free by (simp add: id_alloc_def Let_def used_ids_set id_capacity_def)
      (simp add: used_ids_def)
next
  case False
  then have "used_ids ops a = {..<id_capacity ops a}"
    using assms by (auto simp: id_inv_def used_ids_def id_capacity_def)
  with False show ?thesis by (simp add: id_alloc_def)
qed

lemma alloc_specific_spec:
  assumes "id_inv ops a" "i < id_capacity ops a"
  shows "\<exists>a'. alloc_specific ops a i = Return (if i \<in> used_ids ops a then None else Some i, a')
    \<and> id_inv ops a' \<and> id_capacity ops a' = id_capacity ops a
    \<and> used_ids ops a' = insert i (used_ids ops a)"
proof (cases "bv_get ops (bitset a) i")
  case True
  with assms show ?thesis
    by (auto simp: alloc_specific_def used_ids_def id_capacity_def)
next
  case False
  let ?b = "bv_set ops (bitset a) i True"
  let ?first = "if i = first_available_id a then find_free ops ?b (i + 1) else first_available_id a"
  have i: "i < bv_len ops (bitset a)" using assms(2) by (simp add: id_capacity_def)
  then have len: "bv_len ops ?b = bv_len ops (bitset a)" by (simp add: len_set)
  have "id_inv ops \<lparr>bitset = ?b, first_available_id = ?first\<rparr>"
  proof (cases "i = first_available_id a")
    case True
    then show ?thesis
      using assms i len id_inv_find_free [of "i + 1" ?b] by (auto simp: id_inv_def get_set less_Suc_eq)
  next
    case False
    with assms i len show ?thesis by (auto simp: id_inv_def get_set)
  qed
  with False i len show ?thesis
    by (simp add: alloc_specific_def Let_def used_ids_set id_capacity_def) (simp add: used_ids_def)
qed

lemma id_free_spec:
  assumes "id_inv ops a" "i \<in> used_ids ops a"
  shows "\<exists>a'. id_free dbg ops a i = Return a' \<and> id_inv ops a' \<and> id_capacity ops a' = id_capacity ops a
    \<and> used_ids ops a' = used_ids ops a - {i}"
proof -
  have i: "i < bv_len ops (bitset a)" "bv_get ops (bitset a) i"
    using assms(2) by (auto simp: used_ids_def)
  then have "id_inv ops \<lparr>bitset = bv_set ops (bitset a) i False,
      first_available_id = (if i < first_available_id a then i else first_available_id a)\<rparr>"
    using assms(1) by (auto simp: id_inv_def len_set get_set)
  with i show ?thesis
    by (simp add: id_free_def used_ids_set id_capacity_def len_set) (simp add: used_ids_def)
qed

end

sublocale bit_vector \<subseteq> pool: id_pool "id_inv ops" "used_ids ops" "id_capacity ops" "id_alloc ops"
    "alloc_specific ops" "id_free dbg ops" for dbg
proof unfold_locales
  show "used_ids ops a \<subseteq> {..<id_capacity ops a}" for a
    by (auto simp: used_ids_def id_capacity_def)
qed (rule id_alloc_spec alloc_specific_spec id_free_spec; assumption)+

context bit_vector
begin

lemma scan_run_first_fit:
  assumes "id_inv ops a" "0 < count" "first_available_id a + count \<le> bv_len ops (bitset a)"
    and "scan_run ops (bitset a) count (first_available_id a) (first_available_id a + 1) = (s, e)"
  shows "if e - s < count then \<forall>s'. \<not> free_run ops (bitset a) count s'
    else e = s + count \<and> first_available_id a \<le> s \<and> free_run ops (bitset a) count s
      \<and> (\<forall>s' < s. \<not> free_run ops (bitset a) count s')"
proof -
  let ?f = "first_available_id a" and ?b = "bitset a"
  have f: "?f < bv_len ops ?b" "\<not> bv_get ops ?b ?f" "\<forall>i < ?f. bv_get ops ?b i"
    using assms(1-3) by (auto simp: id_inv_def)
  have low: "\<not> free_run ops ?b count s'" if "s' < ?f" for s'
    using f(3) that assms(2) by (auto simp: free_run_def)
  have "\<forall>i. ?f \<le> i \<and> i < ?f + 1 \<longrightarrow> \<not> bv_get ops ?b i"
    using f(2) by (auto simp: less_Suc_eq)
  then have r: "s \<le> e" "e \<le> bv_len ops ?b" "e - s \<le> count" "\<forall>i. s \<le> i \<and> i < e \<longrightarrow> \<not> bv_get ops ?b i"
    "\<forall>s'' < s. \<not> free_run ops ?b count s''" "e - s < count \<longrightarrow> e = bv_len ops ?b"
    using scan_run_spec [of ?f "?f + 1" ?b count] assms(2,4) f(1) low by auto
  show ?thesis
  proof (cases "e - s < count")
    case True
    then have "\<not> free_run ops ?b count s'" if "s \<le> s'" for s'
      using r(6) that by (auto simp: free_run_def)
    with True r(5) show ?thesis by (metis not_le)
  next
    case False
    then have e: "e = s + count" using r(1,3) by simp
    moreover have "free_run ops ?b count s" using r(2,4) e by (simp add: free_run_def)
    moreover have "?f \<le> s" using low calculation(2) by (meson not_le)
    ultimately show ?thesis using False r(5) by simp
  qed
qed

lemma alloc_consecutive_spec:
  assumes "id_inv ops a" "id_capacity ops a < 2 ^ 64" "0 < count"
  shows "if \<exists>s. free_run ops (bitset a) count s
    then \<exists>s a'. alloc_consecutive ops a count = (Some (s, s + count), a')
       \<and> free_run ops (bitset a) count s \<and> (\<forall>s' < s. \<not> free_run ops (bitset a) count s')
       \<and> id_inv ops a' \<and> id_capacity ops a' = id_capacity ops a
       \<and> used_ids ops a' = used_ids ops a \<union> {s..<s + count}
    else alloc_consecutive ops a count = (None, a)"
proof (cases "first_available_id a + count \<le> bv_len ops (bitset a)")
  case False
  have "\<not> free_run ops (bitset a) count s" for s
  proof
    assume run: "free_run ops (bitset a) count s"
    then have "\<not> s < first_available_id a"
      using assms(1,3) by (auto simp: id_inv_def free_run_def)
    with run False show False by (simp add: free_run_def)
  qed
  with False assms(3) show ?thesis by (simp add: alloc_consecutive_def Let_def)
next
  case True
  let ?f = "first_available_id a"
  obtain s e where se: "scan_run ops (bitset a) count ?f (?f + 1) = (s, e)" by fastforce
  note fit = scan_run_first_fit [OF assms(1,3) True se]
  have small: "\<not> 2 ^ 64 \<le> ?f + count" using True assms(2) by (simp add: id_capacity_def)
  show ?thesis
  proof (cases "e - s < count")
    case short: True
    with fit have "\<nexists>s. free_run ops (bitset a) count s" by simp
    with True se small short assms(3) show ?thesis
      by (simp add: alloc_consecutive_def Let_def)
  next
    case False
    with fit have r: "e = s + count" "?f \<le> s" "free_run ops (bitset a) count s"
      "\<forall>s' < s. \<not> free_run ops (bitset a) count s'"
      by auto
    let ?b = "set_range ops (bitset a) s e True"
    let ?a' = "\<lparr>bitset = ?b, first_available_id = (if bv_get ops ?b ?f then find_free ops ?b e else ?f)\<rparr>"
    have b: "bv_len ops ?b = bv_len ops (bitset a)"
      "\<forall>j < bv_len ops (bitset a). bv_get ops ?b j = (s \<le> j \<and> j < e \<or> bv_get ops (bitset a) j)"
      using set_range_spec [of e "bitset a" s True] r(1,3) by (auto simp: free_run_def)
    have e_len: "e \<le> bv_len ops (bitset a)" using r(1,3) by (simp add: free_run_def)
    have "id_inv ops ?a'"
    proof (cases "bv_get ops ?b ?f")
      case first: True
      then have "s = ?f"
        using b(2) r(2) assms(1,3) True by (auto simp: id_inv_def)
      then have "\<forall>i < e. bv_get ops ?b i"
        using b(2) e_len assms(1) by (auto simp: id_inv_def not_le [symmetric])
      with first e_len b(1) id_inv_find_free [of e ?b] show ?thesis by simp
    next
      case False
      with assms(1) b e_len show ?thesis by (auto simp: id_inv_def)
    qed
    moreover have "used_ids ops ?a' = used_ids ops a \<union> {s..<s + count}"
      using b e_len r(1) by (auto simp: used_ids_def)
    ultimately show ?thesis
      using True se small False assms(3) r b(1)
      by (auto simp: alloc_consecutive_def Let_def id_capacity_def)
  qed
qed

lemma free_loop_spec:
  assumes "e \<le> bv_len ops b" "\<forall>i. s \<le> i \<and> i < e \<longrightarrow> bv_get ops b i"
  shows "free_loop dbg ops b [s..<e] = Return (set_range ops b s e False)"
  using assms
proof (induction "e - s" arbitrary: s b)
  case 0
  then show ?case by (simp add: set_range_def)
next
  case (Suc n)
  then have "s < e" by simp
  moreover have "free_loop dbg ops (bv_set ops b s False) [Suc s..<e]
      = Return (set_range ops (bv_set ops b s False) (Suc s) e False)"
    using Suc.hyps(2) Suc.prems \<open>s < e\<close> by (intro Suc.hyps(1)) (auto simp: len_set get_set)
  ultimately show ?case
    using Suc.prems by (simp add: upt_conv_Cons set_range_def)
qed

lemma free_consecutive_spec:
  assumes "id_inv ops a" "{s..<e} \<subseteq> used_ids ops a"
  shows "\<exists>a'. free_consecutive dbg ops a (s, e) = Return a' \<and> id_inv ops a'
    \<and> id_capacity ops a' = id_capacity ops a \<and> used_ids ops a' = used_ids ops a - {s..<e}"
proof (cases "e \<le> s")
  case True
  with assms show ?thesis by (simp add: free_consecutive_def)
next
  case False
  then have "e - 1 \<in> used_ids ops a"
    using assms(2) by auto
  then have e: "e \<le> bv_len ops (bitset a)" by (auto simp: used_ids_def)
  have get: "\<forall>i. s \<le> i \<and> i < e \<longrightarrow> bv_get ops (bitset a) i"
    using assms(2) by (auto simp: used_ids_def)
  let ?b = "set_range ops (bitset a) s e False"
  have b: "bv_len ops ?b = bv_len ops (bitset a)"
    "\<forall>j < bv_len ops (bitset a). bv_get ops ?b j = (\<not> (s \<le> j \<and> j < e) \<and> bv_get ops (bitset a) j)"
    using set_range_spec [OF e, of s False] by auto
  have "id_inv ops \<lparr>bitset = ?b,
      first_available_id = (if s < first_available_id a then s else first_available_id a)\<rparr>"
    using assms(1) b e False by (auto simp: id_inv_def)
  moreover have "used_ids ops \<lparr>bitset = ?b, first_available_id = f\<rparr> = used_ids ops a - {s..<e}" for f
    using b e by (auto simp: used_ids_def)
  ultimately show ?thesis
    using False b(1) by (simp add: free_consecutive_def free_loop_spec [OF e get] id_capacity_def)
qed

end

section \<open>Properties\<close>

text \<open>Bit vectors as lists of Booleans, on which the theorems are instantiated.\<close>

definition bool_ops :: "bool list bit_ops" where
  "bool_ops = \<lparr>bv_len = length, bv_get = (\<lambda>b i. b ! i), bv_set = (\<lambda>b i v. b[i := v])\<rparr>"

interpretation bools: bit_vector bool_ops
  by unfold_locales (simp_all add: bool_ops_def)

lemma with_capacity_inv:
  assumes "bit_vector ops" "bv_len ops (new_bits n) = n" "\<forall>i < n. \<not> bv_get ops (new_bits n) i"
  shows "id_inv ops (with_capacity new_bits n) \<and> used_ids ops (with_capacity new_bits n) = {}
    \<and> id_capacity ops (with_capacity new_bits n) = n"
  using assms by (auto simp: id_inv_def with_capacity_def used_ids_def id_capacity_def)

text \<open>
  Single allocation is exact: \<open>alloc\<close> fails if and only if every identifier below the
  capacity is in use; otherwise it returns the smallest free one and marks exactly that one.
\<close>

lemma id_alloc_least_free:
  assumes "bit_vector ops" "id_inv ops a"
  shows "if used_ids ops a = {..<id_capacity ops a} then id_alloc ops a = (None, a)
    else \<exists>i a'. id_alloc ops a = (Some i, a') \<and> id_inv ops a' \<and> id_capacity ops a' = id_capacity ops a
       \<and> i < id_capacity ops a \<and> i \<notin> used_ids ops a \<and> {..<i} \<subseteq> used_ids ops a
       \<and> used_ids ops a' = insert i (used_ids ops a)"
  using bit_vector.id_alloc_spec [OF assms] .

lemma id_alloc_least_free_witness:
  "\<exists>i a'. id_alloc bool_ops \<lparr>bitset = [True, False, True], first_available_id = 1\<rparr> = (Some i, a')
     \<and> id_inv bool_ops a' \<and> i = 1"
proof -
  let ?a = "\<lparr>bitset = [True, False, True], first_available_id = 1\<rparr>"
  have "id_inv bool_ops ?a" by (simp add: id_inv_def bool_ops_def)
  moreover have "1 \<notin> used_ids bool_ops ?a" "id_capacity bool_ops ?a = 3"
    by (simp_all add: used_ids_def id_capacity_def bool_ops_def)
  ultimately obtain i a' where r: "id_alloc bool_ops ?a = (Some i, a')" "id_inv bool_ops a'"
    using id_alloc_least_free [OF bools.bit_vector_axioms, of ?a] by (auto split: if_splits)
  moreover have "i = 1" using r(1) by (simp add: id_alloc_def bool_ops_def Let_def)
  ultimately show ?thesis by blast
qed

text \<open>
  Range allocation is a complete first fit: for a positive count, \<open>alloc_consecutive\<close>
  fails if and only if no run of that many consecutive free identifiers exists; otherwise it
  returns the run with the smallest start, marks exactly that run and keeps the invariant.
\<close>

lemma alloc_consecutive_first_fit:
  assumes "bit_vector ops" "id_inv ops a" "id_capacity ops a < 2 ^ 64" "0 < count"
  shows "if \<exists>s. free_run ops (bitset a) count s
    then \<exists>s a'. alloc_consecutive ops a count = (Some (s, s + count), a')
       \<and> free_run ops (bitset a) count s \<and> (\<forall>s' < s. \<not> free_run ops (bitset a) count s')
       \<and> id_inv ops a' \<and> id_capacity ops a' = id_capacity ops a
       \<and> used_ids ops a' = used_ids ops a \<union> {s..<s + count}
    else alloc_consecutive ops a count = (None, a)"
  using bit_vector.alloc_consecutive_spec [OF assms] .

lemma alloc_consecutive_first_fit_witness:
  "\<exists>s a'. alloc_consecutive bool_ops
        \<lparr>bitset = [True, False, True, False, False], first_available_id = 1\<rparr> 2 = (Some (s, s + 2), a')
     \<and> free_run bool_ops [True, False, True, False, False] 2 s"
proof -
  let ?a = "\<lparr>bitset = [True, False, True, False, False], first_available_id = 1\<rparr>"
  have "id_inv bool_ops ?a" "id_capacity bool_ops ?a < 2 ^ 64"
    by (simp_all add: id_inv_def bool_ops_def id_capacity_def)
  moreover have "free_run bool_ops (bitset ?a) 2 3"
    by (auto simp: free_run_def bool_ops_def nth_Cons')
  ultimately show ?thesis
    using alloc_consecutive_first_fit [OF bools.bit_vector_axioms, of ?a 2] by (auto split: if_splits)
qed

text \<open>
  Releasing is exact and safe: releasing a range of identifiers in use never panics, with
  or without debug assertions, frees exactly that range and keeps \<open>first_available_id\<close> the least
  free identifier, so the next allocation can reuse it.
\<close>

lemma free_consecutive_exact:
  assumes "bit_vector ops" "id_inv ops a" "{s..<e} \<subseteq> used_ids ops a"
  shows "\<exists>a'. free_consecutive dbg ops a (s, e) = Return a' \<and> id_inv ops a'
    \<and> id_capacity ops a' = id_capacity ops a \<and> used_ids ops a' = used_ids ops a - {s..<e}"
  using bit_vector.free_consecutive_spec [OF assms] .

lemma free_consecutive_exact_witness:
  "\<exists>a'. free_consecutive True bool_ops \<lparr>bitset = [True, True, True, False], first_available_id = 3\<rparr> (1, 3)
     = Return a' \<and> id_inv bool_ops a'"
proof -
  let ?a = "\<lparr>bitset = [True, True, True, False], first_available_id = 3\<rparr>"
  have "id_inv bool_ops ?a" "{1..<3} \<subseteq> used_ids bool_ops ?a"
    by (auto simp: id_inv_def bool_ops_def used_ids_def nth_Cons' less_Suc_eq numeral_eq_Suc)
  from free_consecutive_exact [OF bools.bit_vector_axioms this, of True] show ?thesis by blast
qed

end
