(* ===== verification/Id_Bitmap.thy ===== *)
theory Id_Bitmap
  imports Id_Alloc
begin

text \<open>
  The on-disk identifier bitmap of \<^verbatim>\<open>kernel/src/fs/utils/id_bitmap.rs\<close>: a byte buffer whose
  first \<open>len\<close> bits, least significant bit of each byte first, mark the identifiers in use, with
  16-bit indices. The lemmas show that every operation is the operation of the identifier
  allocator on those bits, so the results about the allocator carry over to the bytes.
\<close>

section \<open>Bits of a byte buffer\<close>

text \<open>The bit slice \<open>&buf.as_bits()[..len]\<close> in \<open>Lsb0\<close> order.\<close>

definition byte_ops :: "nat \<Rightarrow> u8 list bit_ops" where
  "byte_ops n =
     \<lparr>bv_len = (\<lambda>b. min n (8 * length b)),
      bv_get = (\<lambda>b i. bit (b ! (i div 8)) (i mod 8)),
      bv_set = (\<lambda>b i v. b[i div 8 := (if v then set_bit (i mod 8) (b ! (i div 8))
                                      else unset_bit (i mod 8) (b ! (i div 8)))])\<rparr>"

lemma byte_ops_get_set:
  assumes "i < 8 * length b"
  shows "bv_get (byte_ops n) (bv_set (byte_ops n) b i v) j = (if i = j then v else bv_get (byte_ops n) b j)"
proof -
  have i: "i div 8 < length b" using assms by (simp add: div_less_iff_less_mult mult.commute)
  have "i mod 8 = j mod 8 \<and> i div 8 = j div 8 \<longleftrightarrow> i = j"
    by (metis div_mult_mod_eq)
  with i show ?thesis
    by (cases "i div 8 = j div 8") (auto simp: byte_ops_def bit_set_bit_iff bit_unset_bit_iff)
qed

lemma byte_ops_len [simp]:
  "bv_len (byte_ops n) b = min n (8 * length b)" "length (bv_set (byte_ops n) b i v) = length b"
  by (simp_all add: byte_ops_def)

interpretation bytes: bit_vector "byte_ops n"
  by unfold_locales (simp_all add: byte_ops_get_set byte_ops_len)

section \<open>The bitmap\<close>

definition BLOCK_SIZE :: nat where "BLOCK_SIZE = 4096"

record IdBitmap =
  buf :: "u8 list"
  ib_first :: u16
  ib_len :: u16

definition ib_capacity :: u16 where
  "ib_capacity = word_of_nat BLOCK_SIZE * 8"

definition ib_ops :: "IdBitmap \<Rightarrow> u8 list bit_ops" where
  "ib_ops b = byte_ops (unat (ib_len b))"

text \<open>Slicing the bits of a buffer that is too short panics, and so does an index beyond \<open>len\<close>.\<close>

definition from_buf :: "u8 list \<Rightarrow> u16 \<Rightarrow> IdBitmap rust" where
  "from_buf bytes len =
     (if \<not> len \<le> ib_capacity \<or> 8 * length bytes < unat len then Panic
      else Return \<lparr>buf = bytes,
                   ib_first = word_of_nat (find_free (byte_ops (unat len)) bytes 0), ib_len = len\<rparr>)"

definition ib_is_allocated :: "IdBitmap \<Rightarrow> u16 \<Rightarrow> bool rust" where
  "ib_is_allocated b i =
     (if i < ib_len b then Return (bv_get (ib_ops b) (buf b) (unat i)) else Panic)"

definition ib_alloc :: "IdBitmap \<Rightarrow> u16 option \<times> IdBitmap" where
  "ib_alloc b =
     (if ib_first b < ib_len b
      then let i = ib_first b;
               bytes = bv_set (ib_ops b) (buf b) (unat i) True
           in (Some i, b\<lparr>buf := bytes,
                         ib_first := word_of_nat (find_free (ib_ops b) bytes (unat (i + 1)))\<rparr>)
      else (None, b))"

definition ib_alloc_consecutive :: "IdBitmap \<Rightarrow> u16 \<Rightarrow> (u16 \<times> u16) option \<times> IdBitmap" where
  "ib_alloc_consecutive b count =
     (let first = ib_first b in
      if count = 0 then (None, b)
      else if unat first + unat count \<ge> 2 ^ 16 then (None, b)
      else if unat first + unat count > unat (ib_len b) then (None, b)
      else case scan_run (ib_ops b) (buf b) (unat count) (unat first) (unat first + 1) of
        (s, e) \<Rightarrow>
          if e - s < unat count then (None, b)
          else let bytes = set_range (ib_ops b) (buf b) s e True
               in (Some (word_of_nat s, word_of_nat e),
                   b\<lparr>buf := bytes,
                     ib_first := (if bv_get (ib_ops b) bytes (unat first)
                                  then word_of_nat (find_free (ib_ops b) bytes e) else first)\<rparr>))"

definition ib_free :: "bool \<Rightarrow> IdBitmap \<Rightarrow> u16 \<Rightarrow> IdBitmap rust" where
  "ib_free dbg b i =
     (if \<not> i < ib_len b \<or> dbg \<and> \<not> bv_get (ib_ops b) (buf b) (unat i) then Panic
      else Return (b\<lparr>buf := bv_set (ib_ops b) (buf b) (unat i) False,
                     ib_first := (if i < ib_first b then i else ib_first b)\<rparr>))"

definition ib_free_consecutive :: "bool \<Rightarrow> IdBitmap \<Rightarrow> u16 \<times> u16 \<Rightarrow> IdBitmap rust" where
  "ib_free_consecutive dbg b = (\<lambda>(s, e).
     if e \<le> s then Return b
     else rust_bind (free_loop dbg (ib_ops b) (buf b) [unat s..<unat e]) (\<lambda>bytes.
       Return (b\<lparr>buf := bytes, ib_first := (if s < ib_first b then s else ib_first b)\<rparr>)))"

section \<open>Refinement to the allocator\<close>

definition as_id_alloc :: "IdBitmap \<Rightarrow> u8 list IdAlloc" where
  "as_id_alloc b = \<lparr>bitset = buf b, first_available_id = unat (ib_first b)\<rparr>"

definition ib_inv :: "IdBitmap \<Rightarrow> bool" where
  "ib_inv b \<longleftrightarrow> unat (ib_len b) \<le> 8 * length (buf b) \<and> id_inv (ib_ops b) (as_id_alloc b)"

lemma bv_len_ib [simp]: "ib_inv b \<Longrightarrow> bv_len (ib_ops b) (buf b) = unat (ib_len b)"
  by (simp add: ib_inv_def ib_ops_def byte_ops_def)

lemma ib_ops_upd [simp]: "ib_ops (b\<lparr>buf := x, ib_first := f\<rparr>) = ib_ops b"
  by (simp add: ib_ops_def)

lemma length_bv_set [simp]: "length (bv_set (ib_ops b) x i v) = length x"
  by (simp add: ib_ops_def byte_ops_def)

lemma length_set_range [simp]: "length (set_range (ib_ops b) x s e v) = length x"
proof -
  have "length (fold (\<lambda>i b'. bv_set (ib_ops b) b' i v) is x) = length x" for "is"
    by (induction "is" arbitrary: x) simp_all
  then show ?thesis by (simp add: set_range_def)
qed

text \<open>A position within the bitmap survives the conversion to 16 bits.\<close>

lemma unat_position: "n \<le> unat w \<Longrightarrow> unat (word_of_nat n :: u16) = n" for w :: u16
  using unat_u16_less [of w] by (simp add: unat_of_nat_u16)

lemma find_free_bound: "find_free ops x lo \<le> max lo (bv_len ops x)"
  by (auto simp: find_free_def find_Some_iff split: option.splits)

lemma unat_find_free:
  assumes "ib_inv b" "length x = length (buf b)" "lo \<le> unat (ib_len b)"
  shows "unat (word_of_nat (find_free (ib_ops b) x lo) :: u16) = find_free (ib_ops b) x lo"
proof -
  have "bv_len (ib_ops b) x = unat (ib_len b)"
    using assms(1,2) by (simp add: ib_inv_def ib_ops_def byte_ops_def)
  with find_free_bound [of "ib_ops b" x lo] assms(3)
  have "find_free (ib_ops b) x lo \<le> unat (ib_len b)" by simp
  then show ?thesis by (rule unat_position)
qed

lemma unat_succ: "i < l \<Longrightarrow> unat (i + 1) = unat i + 1" for i l :: u16
  using unat_u16_less [of l] by (simp add: unat_word_ariths word_less_nat_alt)

lemma ib_alloc_refines:
  assumes "ib_inv b"
  shows "case ib_alloc b of (r, b') \<Rightarrow>
    id_alloc (ib_ops b) (as_id_alloc b) = (map_option unat r, as_id_alloc b')
    \<and> ib_inv b' \<and> ib_len b' = ib_len b"
proof (cases "ib_first b < ib_len b")
  case True
  let ?bytes = "bv_set (ib_ops b) (buf b) (unat (ib_first b)) True"
  let ?b' = "b\<lparr>buf := ?bytes, ib_first := word_of_nat (find_free (ib_ops b) ?bytes (unat (ib_first b + 1)))\<rparr>"
  have lt: "unat (ib_first b) < unat (ib_len b)" using True by (simp add: word_less_nat_alt)
  have "id_alloc (ib_ops b) (as_id_alloc b) = (Some (unat (ib_first b)), as_id_alloc ?b')"
    using assms lt unat_find_free [OF assms, of ?bytes "unat (ib_first b) + 1"] unat_succ [OF True]
    by (simp add: id_alloc_def as_id_alloc_def Let_def)
  moreover have "id_inv (ib_ops b) (as_id_alloc ?b')"
    using bytes.id_alloc_spec [of "unat (ib_len b)" "as_id_alloc b"] assms calculation
    by (auto simp: ib_inv_def ib_ops_def split: if_splits)
  ultimately show ?thesis
    using True assms by (simp add: ib_alloc_def Let_def ib_inv_def)
next
  case False
  with assms show ?thesis
    by (simp add: ib_alloc_def id_alloc_def as_id_alloc_def word_less_nat_alt)
qed

lemma ib_free_refines:
  assumes "ib_inv b"
  shows "case ib_free dbg b i of
      Panic \<Rightarrow> id_free dbg (ib_ops b) (as_id_alloc b) (unat i) = Panic
    | Return b' \<Rightarrow> id_free dbg (ib_ops b) (as_id_alloc b) (unat i) = Return (as_id_alloc b')
        \<and> ib_len b' = ib_len b"
  using assms by (auto simp: ib_free_def id_free_def as_id_alloc_def word_less_nat_alt)

lemma ib_alloc_consecutive_refines:
  assumes "ib_inv b"
  shows "case ib_alloc_consecutive b count of (r, b') \<Rightarrow>
    alloc_consecutive (ib_ops b) (as_id_alloc b) (unat count)
      = (map_option (\<lambda>(s, e). (unat s, unat e)) r, as_id_alloc b')
    \<and> ib_len b' = ib_len b"
proof (cases "count = 0 \<or> unat (ib_first b) + unat count > unat (ib_len b)")
  case True
  with assms show ?thesis
    by (auto simp: ib_alloc_consecutive_def alloc_consecutive_def as_id_alloc_def Let_def unat_eq_zero)
next
  case False
  let ?f = "unat (ib_first b)"
  have small: "?f + unat count < 2 ^ 16" "?f + unat count \<le> unat (ib_len b)" "0 < unat count"
    using False unat_u16_less [of "ib_len b"] by (auto simp: unat_gt_0)
  obtain s e where se: "scan_run (ib_ops b) (buf b) (unat count) ?f (?f + 1) = (s, e)" by fastforce
  show ?thesis
  proof (cases "e - s < unat count")
    case True
    with False small assms se show ?thesis
      by (simp add: ib_alloc_consecutive_def alloc_consecutive_def as_id_alloc_def Let_def)
  next
    case long: False
    have inv: "id_inv (byte_ops (unat (ib_len b))) (as_id_alloc b)"
      using assms by (simp add: ib_inv_def ib_ops_def)
    have "e = s + unat count" "free_run (ib_ops b) (buf b) (unat count) s"
      using bytes.scan_run_first_fit [OF inv small(3)] small(2) assms se long
      by (auto simp: as_id_alloc_def ib_ops_def [symmetric])
    then have le: "s \<le> e" "e \<le> unat (ib_len b)"
      using assms by (auto simp: free_run_def)
    let ?bytes = "set_range (ib_ops b) (buf b) s e True"
    have "unat (word_of_nat (find_free (ib_ops b) ?bytes e) :: u16) = find_free (ib_ops b) ?bytes e"
      using unat_find_free [OF assms, of ?bytes e] le by simp
    with le False small assms se long show ?thesis
      using unat_position [of s "ib_len b"] unat_position [of e "ib_len b"]
      by (simp add: ib_alloc_consecutive_def alloc_consecutive_def as_id_alloc_def Let_def)
  qed
qed

lemma from_buf_inv:
  assumes "from_buf bytes len = Return b"
  shows "ib_inv b \<and> buf b = bytes \<and> ib_len b = len"
proof -
  have b: "b = \<lparr>buf = bytes, ib_first = word_of_nat (find_free (byte_ops (unat len)) bytes 0), ib_len = len\<rparr>"
    and len: "unat len \<le> 8 * length bytes"
    using assms by (auto simp: from_buf_def split: if_splits)
  have "find_free (byte_ops (unat len)) bytes 0 \<le> unat len"
    using find_free_bound [of "byte_ops (unat len)" bytes 0] len by simp
  then have "unat (word_of_nat (find_free (byte_ops (unat len)) bytes 0) :: u16)
      = find_free (byte_ops (unat len)) bytes 0"
    by (rule unat_position)
  with len bytes.id_inv_find_free [of 0 "unat len" bytes] show ?thesis
    by (simp add: b ib_inv_def ib_ops_def as_id_alloc_def)
qed

section \<open>Properties\<close>



end
