(* ===== verification/Sysv_Sem.thy ===== *)
theory Sysv_Sem
  imports Kei_Prelude "HOL-Library.Multiset"
begin

text \<open>
  System V semaphores: \<^verbatim>\<open>kernel/src/ipc/semaphore/system_v/sem.rs\<close> and \<^verbatim>\<open>sem_set.rs\<close>. Semaphore
  values (\<open>i32\<close>) and operations (\<open>i16\<close>) are integers; the values stay within 0..32767, which is
  proved, so no addition overflows. A pending operation carries the identity of its shared
  status cell, which the source compares with \<open>Arc::ptr_eq\<close>. The pid, the clock and the
  identity of a new waiter are arguments.

  The lemmas show that the duplicate check is exact, that a successful operation is the
  sequential execution of its parts, and that after every change no pending operation is left
  behind that could proceed.
\<close>

section \<open>Data\<close>

definition SEMMNI :: nat where "SEMMNI = 32000"
definition SEMMSL :: nat where "SEMMSL = 32000"
definition SEMVMX :: int where "SEMVMX = 32767"

definition IPC_CREAT :: u32 where "IPC_CREAT = 0x200"
definition IPC_EXCL :: u32 where "IPC_EXCL = 0x400"
definition IPC_NOWAIT :: u32 where "IPC_NOWAIT = 0x800"
definition SEM_UNDO :: u32 where "SEM_UNDO = 0x1000"

text \<open>\<open>IpcFlags::from_bits_truncate\<close>: unknown bits are dropped.\<close>

definition from_bits_truncate :: "u32 \<Rightarrow> u32" where
  "from_bits_truncate w = w AND (IPC_CREAT OR IPC_EXCL OR IPC_NOWAIT OR SEM_UNDO)"

record SemBuf =
  sem_num :: u16
  sem_op :: int
  sem_flags :: u16

datatype Status = Normal | Pending | Removed | ErrWouldBlock | ErrValRange

datatype PendingBlocker = Zero nat | Decrease nat | NotBlock

record PendingOp =
  sops :: "SemBuf list"
  status :: Status
  op_id :: nat
  waker :: "nat option"
  op_pid :: int

record Semaphore =
  val :: int
  latest_modified_pid :: int

datatype SemErrno = EFBIG | EINVAL | EOPNOTSUPP | ERANGE | EIDRM | EAGAIN | EINTR
  | ENOSPC | EEXIST | ENOENT

text \<open>\<open>op.sem_flags as u32\<close> sign-extends the \<open>i16\<close>.\<close>

definition flags_of :: "SemBuf \<Rightarrow> u32" where
  "flags_of op = from_bits_truncate (scast (sem_flags op))"

fun pending_op_check :: "SemBuf list \<Rightarrow> nat \<Rightarrow> SemErrno + unit" where
  "pending_op_check [] num_sems = Inr ()"
| "pending_op_check (op # ops) num_sems =
     (if unat (sem_num op) \<ge> num_sems then Inl EFBIG
      else if contains (flags_of op) SEM_UNDO then Inl EINVAL
      else pending_op_check ops num_sems)"

definition pending_op_new ::
    "SemBuf list \<Rightarrow> int \<Rightarrow> nat \<Rightarrow> nat \<Rightarrow> SemErrno + PendingOp" where
  "pending_op_new ops pid num_sems i =
     (case pending_op_check ops num_sems of
        Inl e \<Rightarrow> Inl e
      | Inr _ \<Rightarrow> Inr \<lparr>sops = ops, status = Pending, op_id = i, waker = None, op_pid = pid\<rparr>)"

section \<open>Performing one operation\<close>

fun blocker :: "SemBuf list \<Rightarrow> Semaphore list \<Rightarrow> (Status + PendingBlocker) rust" where
  "blocker [] sems = Return (Inr NotBlock)"
| "blocker (op # ops) sems =
     (let n = unat (sem_num op) in
      if n \<ge> length sems then Panic
      else let v = val (sems ! n) in
        if sem_op op = 0 \<and> v \<noteq> 0
        then Return (if contains (flags_of op) IPC_NOWAIT then Inl ErrWouldBlock else Inr (Zero n))
        else if sem_op op < - v
        then Return (if contains (flags_of op) IPC_NOWAIT then Inl ErrWouldBlock else Inr (Decrease n))
        else if sem_op op > SEMVMX - v then Return (Inl ErrValRange)
        else blocker ops sems)"

fun apply_sops :: "SemBuf list \<Rightarrow> int \<Rightarrow> Semaphore list \<Rightarrow> Semaphore list rust" where
  "apply_sops [] pid sems = Return sems"
| "apply_sops (op # ops) pid sems =
     (let n = unat (sem_num op) in
      if n \<ge> length sems then Panic
      else apply_sops ops pid
        (sems[n := \<lparr>val = val (sems ! n) + sem_op op, latest_modified_pid = pid\<rparr>]))"

definition perform_atomic_semop ::
    "Semaphore list \<Rightarrow> PendingOp \<Rightarrow> (Status option \<times> Semaphore list) rust" where
  "perform_atomic_semop sems p =
     rust_bind (blocker (sops p) sems) (\<lambda>b.
       case b of
         Inr NotBlock \<Rightarrow>
           rust_bind (apply_sops (sops p) (op_pid p) sems) (\<lambda>sems'. Return (Some Normal, sems'))
       | Inr _ \<Rightarrow> Return (None, sems)
       | Inl st \<Rightarrow> Return (Some st, sems))"

section \<open>Checks on the operations of a call\<close>

fun check_dup_slow :: "SemBuf list \<Rightarrow> bool" where
  "check_dup_slow [] = False"
| "check_dup_slow (op # ops) =
     (sem_op op \<noteq> 0 \<and> (\<exists>o' \<in> set ops. sem_num op = sem_num o') \<or> check_dup_slow ops)"

text \<open>\<open>1u64 << (sem_num % 64)\<close>.\<close>

definition sem_bit :: "SemBuf \<Rightarrow> u64" where
  "sem_bit op = push_bit (unat (sem_num op) mod 64) 1"

fun check_dup_loop :: "SemBuf list \<Rightarrow> u64 \<Rightarrow> SemBuf list \<Rightarrow> bool" where
  "check_dup_loop all m [] = False"
| "check_dup_loop all m (op # ops) =
     (if m AND sem_bit op \<noteq> 0 then check_dup_slow all
      else check_dup_loop all (if sem_op op \<noteq> 0 then m OR sem_bit op else m) ops)"

definition check_dup_sops :: "SemBuf list \<Rightarrow> bool" where
  "check_dup_sops ops = check_dup_loop ops 0 ops"

definition check_alter_sop :: "SemBuf list \<Rightarrow> bool" where
  "check_alter_sop ops \<longleftrightarrow> (\<exists>op \<in> set ops. sem_op op \<noteq> 0)"

section \<open>Pending operations\<close>

text \<open>
  The loop of \<open>wake_const_ops\<close> over the list: whether an operation completed, the operations
  left in the list, the operations moved to the wake queue, and the semaphores.
\<close>

fun wake_const_ops ::
    "Semaphore list \<Rightarrow> PendingOp list \<Rightarrow> (bool \<times> PendingOp list \<times> PendingOp list \<times> Semaphore list) rust" where
  "wake_const_ops sems [] = Return (False, [], [], sems)"
| "wake_const_ops sems (p # ps) =
     rust_bind (perform_atomic_semop sems p) (\<lambda>(r, sems1).
       case r of
         Some st \<Rightarrow>
           rust_bind (wake_const_ops sems1 ps) (\<lambda>(c, left, woken, sems2).
             Return (st = Normal \<or> c, left, p\<lparr>status := st\<rparr> # woken, sems2))
       | None \<Rightarrow>
           rust_bind (wake_const_ops sems1 ps) (\<lambda>(c, left, woken, sems2).
             Return (c, p # left, woken, sems2)))"

fun do_smart_wakeup_zero ::
    "Semaphore list \<Rightarrow> PendingOp list \<Rightarrow> SemBuf list
     \<Rightarrow> (PendingOp list \<times> PendingOp list \<times> Semaphore list) rust" where
  "do_smart_wakeup_zero sems ps [] = Return (ps, [], sems)"
| "do_smart_wakeup_zero sems ps (op # ops) =
     (let n = unat (sem_num op) in
      if n \<ge> length sems then Panic
      else if val (sems ! n) = 0
      then rust_bind (wake_const_ops sems ps) (\<lambda>(_, left, woken, sems'). Return (left, woken, sems'))
      else do_smart_wakeup_zero sems ps ops)"

text \<open>
  The loop of \<open>update_pending_alter\<close>. The list under the cursor is \<open>passed @ rest\<close> with the cursor
  at the head of \<open>rest\<close>.
\<close>

function (sequential) alter_loop ::
    "Semaphore list \<Rightarrow> PendingOp list \<Rightarrow> PendingOp list \<Rightarrow> PendingOp list \<Rightarrow> PendingOp list \<Rightarrow> bool
     \<Rightarrow> (bool \<times> PendingOp list \<times> PendingOp list \<times> PendingOp list \<times> Semaphore list) rust" where
  "alter_loop sems passed [] zeros wake done = Return (done, passed, zeros, wake, sems)"
| "alter_loop sems passed (p # rest) zeros wake done =
     (case perform_atomic_semop sems p of
        Panic \<Rightarrow> Panic
      | Return (None, _) \<Rightarrow> alter_loop sems (passed @ [p]) rest zeros wake done
      | Return (Some st, sems1) \<Rightarrow>
          if st \<noteq> Normal then alter_loop sems1 passed rest zeros (wake @ [p\<lparr>status := st\<rparr>]) done
          else (case do_smart_wakeup_zero sems1 zeros (sops p) of
                  Panic \<Rightarrow> Panic
                | Return (zeros1, woken, sems2) \<Rightarrow>
                    alter_loop sems2 [] (passed @ rest) zeros1 (wake @ woken @ [p\<lparr>status := st\<rparr>]) True))"
  by pat_completeness auto
termination
  by (relation "(\<lambda>(sems, passed, rest, zeros, wake, d). length passed + length rest)
      <*mlex*> measure (\<lambda>(sems, passed, rest, zeros, wake, d). length rest)")
    (auto simp: mlex_prod_def)

definition update_pending_alter ::
    "Semaphore list \<Rightarrow> PendingOp list \<Rightarrow> PendingOp list \<Rightarrow> PendingOp list
     \<Rightarrow> (bool \<times> PendingOp list \<times> PendingOp list \<times> PendingOp list \<times> Semaphore list) rust" where
  "update_pending_alter sems alters zeros wake = alter_loop sems [] alters zeros wake False"

definition do_smart_update ::
    "Semaphore list \<Rightarrow> PendingOp list \<Rightarrow> PendingOp list \<Rightarrow> SemBuf list
     \<Rightarrow> (PendingOp list \<times> PendingOp list \<times> PendingOp list \<times> Semaphore list) rust" where
  "do_smart_update sems alters zeros ops =
     rust_bind (if zeros \<noteq> [] then do_smart_wakeup_zero sems zeros ops else Return (zeros, [], sems))
       (\<lambda>(zeros1, wake1, sems1).
         if alters \<noteq> []
         then rust_bind (update_pending_alter sems1 alters zeros1 wake1)
                (\<lambda>(_, alters2, zeros2, wake2, sems2). Return (alters2, zeros2, wake2, sems2))
         else Return (alters, zeros1, wake1, sems1))"

section \<open>Semaphore sets\<close>

record SemaphoreSet =
  num_sems :: nat
  sems :: "Semaphore list"
  pending_alter :: "PendingOp list"
  pending_const :: "PendingOp list"
  perm_key :: int
  sem_ctime :: u64
  sem_otime :: u64

definition sem_set_new :: "int \<Rightarrow> nat \<Rightarrow> u64 \<Rightarrow> SemErrno + SemaphoreSet" where
  "sem_set_new key n now =
     (if n = 0 then Inl EINVAL
      else if n > SEMMSL then Inl EINVAL
      else Inr \<lparr>num_sems = n, sems = replicate n \<lparr>val = 0, latest_modified_pid = 0\<rparr>,
                pending_alter = [], pending_const = [], perm_key = key,
                sem_ctime = now, sem_otime = 0\<rparr>)"

text \<open>The operations of a pending list that wait for the given blocker.\<close>

definition count_blocked :: "PendingBlocker \<Rightarrow> Semaphore list \<Rightarrow> PendingOp list \<Rightarrow> nat" where
  "count_blocked b ss ps = length (filter (\<lambda>p. blocker (sops p) ss = Return (Inr b)) ps)"

definition pending_zero_count :: "SemaphoreSet \<Rightarrow> nat \<Rightarrow> SemErrno + nat" where
  "pending_zero_count s n =
     (if n \<ge> num_sems s then Inl EINVAL
      else Inr (count_blocked (Zero n) (sems s) (pending_const s)
              + count_blocked (Zero n) (sems s) (pending_alter s)))"

definition pending_decrease_count :: "SemaphoreSet \<Rightarrow> nat \<Rightarrow> SemErrno + nat" where
  "pending_decrease_count s n =
     (if n \<ge> num_sems s then Inl EINVAL
      else Inr (count_blocked (Decrease n) (sems s) (pending_alter s)))"

text \<open>The wakers called, in order.\<close>

definition wakeups :: "PendingOp list \<Rightarrow> nat list" where
  "wakeups ps = List.map_filter waker ps"

text \<open>\<open>setval\<close>: the result, the new set, and the operations taken off the pending lists.\<close>

definition setval ::
    "SemaphoreSet \<Rightarrow> nat \<Rightarrow> int \<Rightarrow> int \<Rightarrow> u64
     \<Rightarrow> ((SemErrno + unit) \<times> SemaphoreSet \<times> PendingOp list) rust" where
  "setval s n v pid now =
     (if \<not> (0 \<le> v \<and> v \<le> SEMVMX) then Return (Inl ERANGE, s, [])
      else if n \<ge> length (sems s) then Return (Inl EINVAL, s, [])
      else let ss = (sems s)[n := \<lparr>val = v, latest_modified_pid = pid\<rparr>] in
        rust_bind (if v = 0 then wake_const_ops ss (pending_const s)
                   else Return (False, pending_const s, [], ss)) (\<lambda>(c1, zeros1, wake1, ss1).
        rust_bind (update_pending_alter ss1 (pending_alter s) zeros1 wake1)
          (\<lambda>(c2, alters2, zeros2, wake2, ss2).
            Return (Inr (),
              s\<lparr>sems := ss2, pending_alter := alters2, pending_const := zeros2,
                sem_ctime := now, sem_otime := (if c1 \<or> c2 then now else sem_otime s)\<rparr>,
              wake2))))"

datatype SemOpResult = Completed Status | Waiting nat

text \<open>
  \<open>sem_op\<close> up to the point where it either returns or pauses on a new status cell \<open>i\<close>.
\<close>

definition sem_op_start ::
    "SemaphoreSet \<Rightarrow> SemBuf list \<Rightarrow> int \<Rightarrow> nat \<Rightarrow> u64
     \<Rightarrow> ((SemErrno + SemOpResult) \<times> SemaphoreSet \<times> PendingOp list) rust" where
  "sem_op_start s ops pid i now =
     (if check_dup_sops ops then Return (Inl EOPNOTSUPP, s, [])
      else case pending_op_new ops pid (num_sems s) i of
        Inl e \<Rightarrow> Return (Inl e, s, [])
      | Inr p \<Rightarrow>
          rust_bind (perform_atomic_semop (sems s) p) (\<lambda>(r, ss).
            case r of
              Some st \<Rightarrow>
                if st \<noteq> Normal then Return (Inr (Completed st), s\<lparr>sems := ss\<rparr>, [])
                else if check_alter_sop ops
                then rust_bind (do_smart_update ss (pending_alter s) (pending_const s) ops)
                  (\<lambda>(alters, zeros, wake, ss').
                    Return (Inr (Completed st),
                      s\<lparr>sems := ss', pending_alter := alters, pending_const := zeros,
                        sem_otime := now\<rparr>, wake))
                else Return (Inr (Completed st), s\<lparr>sems := ss, sem_otime := now\<rparr>, [])
            | None \<Rightarrow>
                let p' = p\<lparr>waker := Some i\<rparr> in
                Return (Inr (Waiting i),
                  if check_alter_sop ops
                  then s\<lparr>sems := ss, pending_alter := pending_alter s @ [p']\<rparr>
                  else s\<lparr>sems := ss, pending_const := pending_const s @ [p']\<rparr>, [])))"

text \<open>What a caller returns for a final status; \<open>timed_out\<close> tells why the wait ended.\<close>

fun map_status_to_result :: "Status \<Rightarrow> bool \<Rightarrow> SemErrno + unit" where
  "map_status_to_result Normal timed_out = Inr ()"
| "map_status_to_result Removed timed_out = Inl EIDRM"
| "map_status_to_result Pending timed_out = Inl (if timed_out then EAGAIN else EINTR)"
| "map_status_to_result ErrWouldBlock timed_out = Inl EAGAIN"
| "map_status_to_result ErrValRange timed_out = Inl ERANGE"

text \<open>The removal of a waiter whose status is still pending when its pause ends.\<close>

definition sem_op_cancel :: "SemaphoreSet \<Rightarrow> bool \<Rightarrow> nat \<Rightarrow> SemaphoreSet" where
  "sem_op_cancel s is_alter i =
     (if is_alter then s\<lparr>pending_alter := filter (\<lambda>p. op_id p \<noteq> i) (pending_alter s)\<rparr>
      else s\<lparr>pending_const := filter (\<lambda>p. op_id p \<noteq> i) (pending_const s)\<rparr>)"

text \<open>Dropping a set: every pending operation is marked removed and woken.\<close>

definition sem_set_drop :: "SemaphoreSet \<Rightarrow> PendingOp list" where
  "sem_set_drop s = map (\<lambda>p. p\<lparr>status := Removed\<rparr>) (pending_alter s @ pending_const s)"

section \<open>The duplicate check\<close>

text \<open>Two operations on one semaphore, the earlier of which changes it.\<close>

definition has_dup :: "SemBuf list \<Rightarrow> bool" where
  "has_dup ops \<longleftrightarrow> (\<exists>i j. i < j \<and> j < length ops \<and> sem_op (ops ! i) \<noteq> 0
     \<and> sem_num (ops ! i) = sem_num (ops ! j))"

lemma has_dup_Nil [simp]: "\<not> has_dup []"
  by (simp add: has_dup_def)

lemma has_dup_Cons:
  "has_dup (op # ops) \<longleftrightarrow> sem_op op \<noteq> 0 \<and> (\<exists>o' \<in> set ops. sem_num op = sem_num o') \<or> has_dup ops"
proof
  assume "has_dup (op # ops)"
  then obtain i j where ij: "i < j" "j < length (op # ops)" "sem_op ((op # ops) ! i) \<noteq> 0"
    "sem_num ((op # ops) ! i) = sem_num ((op # ops) ! j)"
    by (auto simp: has_dup_def)
  show "sem_op op \<noteq> 0 \<and> (\<exists>o' \<in> set ops. sem_num op = sem_num o') \<or> has_dup ops"
  proof (cases i)
    case 0
    with ij show ?thesis by (cases j) auto
  next
    case (Suc k)
    with ij obtain l where "j = Suc l" by (cases j) auto
    with ij Suc show ?thesis by (auto simp: has_dup_def)
  qed
next
  assume r: "sem_op op \<noteq> 0 \<and> (\<exists>o' \<in> set ops. sem_num op = sem_num o') \<or> has_dup ops"
  then show "has_dup (op # ops)"
  proof
    assume "sem_op op \<noteq> 0 \<and> (\<exists>o' \<in> set ops. sem_num op = sem_num o')"
    then obtain k where "k < length ops" "sem_num op = sem_num (ops ! k)" "sem_op op \<noteq> 0"
      by (auto simp: in_set_conv_nth)
    then show ?thesis
      unfolding has_dup_def by (intro exI [of _ 0] exI [of _ "Suc k"]) simp
  next
    assume "has_dup ops"
    then obtain i j where "i < j" "j < length ops" "sem_op (ops ! i) \<noteq> 0"
      "sem_num (ops ! i) = sem_num (ops ! j)"
      by (auto simp: has_dup_def)
    then show ?thesis
      unfolding has_dup_def by (intro exI [of _ "Suc i"] exI [of _ "Suc j"]) simp
  qed
qed

lemma check_dup_slow_iff: "check_dup_slow ops \<longleftrightarrow> has_dup ops"
  by (induction ops) (auto simp: has_dup_Cons)

lemma sem_bit_and: "m AND sem_bit op \<noteq> 0 \<longleftrightarrow> bit m (unat (sem_num op) mod 64)"
proof -
  have "m AND push_bit k 1 = (if bit m k then push_bit k 1 else 0)" if "k < 64" for k
    using that by (intro bit_word_eqI) (auto simp: bit_simps)
  then show ?thesis
    by (simp add: sem_bit_def not_le)
qed

lemma bit_sem_bit: "bit (sem_bit op) k \<longleftrightarrow> k = unat (sem_num op) mod 64"
  by (auto simp: sem_bit_def bit_simps)

lemma has_dup_snoc:
  "has_dup (pre @ [op]) \<longleftrightarrow> has_dup pre \<or> (\<exists>o' \<in> set pre. sem_op o' \<noteq> 0 \<and> sem_num o' = sem_num op)"
  by (induction pre) (auto simp: has_dup_Cons)

text \<open>
  As long as the mask covers every altering operation passed so far, reaching the end means
  that no pair was missed.
\<close>

lemma check_dup_loop_iff:
  assumes "\<forall>op \<in> set pre. sem_op op \<noteq> 0 \<longrightarrow> bit m (unat (sem_num op) mod 64)" "\<not> has_dup pre"
  shows "check_dup_loop (pre @ ops) m ops \<longleftrightarrow> has_dup (pre @ ops)"
  using assms
proof (induction ops arbitrary: pre m)
  case (Cons op ops)
  show ?case
  proof (cases "m AND sem_bit op = 0")
    case True
    then have nbit: "\<not> bit m (unat (sem_num op) mod 64)"
      using sem_bit_and [of m op] by simp
    let ?m' = "if sem_op op \<noteq> 0 then m OR sem_bit op else m"
    have "\<not> has_dup (pre @ [op])"
      using Cons.prems nbit by (auto simp: has_dup_snoc)
    moreover have "\<forall>o' \<in> set (pre @ [op]). sem_op o' \<noteq> 0 \<longrightarrow> bit ?m' (unat (sem_num o') mod 64)"
      using Cons.prems(1) by (auto simp: bit_or_iff bit_sem_bit)
    ultimately have "check_dup_loop ((pre @ [op]) @ ops) ?m' ops \<longleftrightarrow> has_dup ((pre @ [op]) @ ops)"
      by (rule Cons.IH [rotated])
    with True show ?thesis by simp
  qed (simp add: check_dup_slow_iff)
qed simp

lemma check_dup_sops_iff: "check_dup_sops ops \<longleftrightarrow> has_dup ops"
  using check_dup_loop_iff [of "[]" 0 ops] by (simp add: check_dup_sops_def)

text \<open>
  The fast duplicate check is exact: the single pass with a 64-bit mask and a fallback
  gives the same answer, for any semaphore numbers, as looking for two operations on the same
  semaphore of which the earlier one changes its value.
\<close>

lemma check_dup_sops_exact:
  "check_dup_sops ops \<longleftrightarrow> (\<exists>i j. i < j \<and> j < length ops \<and> sem_op (ops ! i) \<noteq> 0
     \<and> sem_num (ops ! i) = sem_num (ops ! j))"
  by (simp add: check_dup_sops_iff has_dup_def)

section \<open>Atomicity\<close>

definition vals_ok :: "Semaphore list \<Rightarrow> bool" where
  "vals_ok ss \<longleftrightarrow> (\<forall>s \<in> set ss. 0 \<le> val s \<and> val s \<le> SEMVMX)"

definition in_range :: "SemBuf list \<Rightarrow> Semaphore list \<Rightarrow> bool" where
  "in_range ops ss \<longleftrightarrow> (\<forall>op \<in> set ops. unat (sem_num op) < length ss)"

text \<open>One operation can proceed at value \<open>v\<close>; the sequential execution of a list.\<close>

definition can_op :: "SemBuf \<Rightarrow> int \<Rightarrow> bool" where
  "can_op op v \<longleftrightarrow> (if sem_op op = 0 then v = 0 else 0 \<le> v + sem_op op \<and> v + sem_op op \<le> SEMVMX)"

fun seq_ops :: "SemBuf list \<Rightarrow> int list \<Rightarrow> int list option" where
  "seq_ops [] v = Some v"
| "seq_ops (op # ops) v =
     (let n = unat (sem_num op) in
      if can_op op (v ! n) then seq_ops ops (v[n := v ! n + sem_op op]) else None)"

definition add_op :: "int list \<Rightarrow> SemBuf \<Rightarrow> int list" where
  "add_op v op = v[unat (sem_num op) := v ! unat (sem_num op) + sem_op op]"

lemma seq_ops_no_dup:
  assumes "\<not> has_dup ops" "\<forall>op \<in> set ops. unat (sem_num op) < length v"
  shows "seq_ops ops v =
    (if \<forall>op \<in> set ops. can_op op (v ! unat (sem_num op)) then Some (foldl add_op v ops) else None)"
  using assms
proof (induction ops arbitrary: v)
  case (Cons op ops)
  let ?v = "v[unat (sem_num op) := v ! unat (sem_num op) + sem_op op]"
  have "?v ! unat (sem_num o') = v ! unat (sem_num o')" if "o' \<in> set ops" for o'
    using Cons.prems that by (cases "sem_op op = 0") (auto simp: has_dup_Cons nth_list_update unsigned_word_eqI)
  moreover have "seq_ops ops ?v = (if \<forall>op \<in> set ops. can_op op (?v ! unat (sem_num op))
      then Some (foldl add_op ?v ops) else None)"
    using Cons.prems by (intro Cons.IH) (auto simp: has_dup_Cons)
  moreover have "foldl add_op v (op # ops) = foldl add_op ?v ops"
    by (simp add: add_op_def [of v])
  ultimately show ?case by (auto simp: Let_def)
qed simp

lemma blocker_spec:
  assumes "in_range ops ss" "vals_ok ss"
  shows "\<exists>b. blocker ops ss = Return b
    \<and> (b = Inr NotBlock \<longleftrightarrow> (\<forall>op \<in> set ops. can_op op (val (ss ! unat (sem_num op)))))
    \<and> b \<noteq> Inl Normal \<and> b \<noteq> Inl Pending"
  using assms
proof (induction ops)
  case (Cons op ops)
  have n: "unat (sem_num op) < length ss" using Cons.prems(1) by (simp add: in_range_def)
  then have v: "0 \<le> val (ss ! unat (sem_num op))" "val (ss ! unat (sem_num op)) \<le> SEMVMX"
    using Cons.prems(2) by (auto simp: vals_ok_def)
  have "in_range ops ss" using Cons.prems(1) by (simp add: in_range_def)
  with Cons obtain b where b: "blocker ops ss = Return b"
    "b = Inr NotBlock \<longleftrightarrow> (\<forall>op \<in> set ops. can_op op (val (ss ! unat (sem_num op))))"
    "b \<noteq> Inl Normal" "b \<noteq> Inl Pending"
    by blast
  with n v show ?case by (auto simp: Let_def can_op_def)
qed simp

lemma apply_sops_spec:
  assumes "in_range ops ss"
  shows "\<exists>ss'. apply_sops ops pid ss = Return ss' \<and> length ss' = length ss
    \<and> map val ss' = foldl add_op (map val ss) ops"
  using assms
proof (induction ops arbitrary: ss)
  case (Cons op ops)
  let ?n = "unat (sem_num op)"
  let ?ss = "ss[?n := \<lparr>val = val (ss ! ?n) + sem_op op, latest_modified_pid = pid\<rparr>]"
  have n: "?n < length ss" and "in_range ops ?ss"
    using Cons.prems by (auto simp: in_range_def)
  then obtain ss' where ss': "apply_sops ops pid ?ss = Return ss'" "length ss' = length ?ss"
    "map val ss' = foldl add_op (map val ?ss) ops"
    using Cons.IH by blast
  have "map val ?ss = add_op (map val ss) op"
    using n by (simp add: add_op_def map_update)
  with n ss' show ?case by (simp add: Let_def)
qed simp

lemma vals_ok_map: "vals_ok ss \<longleftrightarrow> (\<forall>v \<in> set (map val ss). 0 \<le> v \<and> v \<le> SEMVMX)"
  by (auto simp: vals_ok_def)

lemma seq_ops_range:
  "seq_ops ops v = Some v' \<Longrightarrow> \<forall>x \<in> set v. 0 \<le> x \<and> x \<le> SEMVMX \<Longrightarrow>
   \<forall>op \<in> set ops. unat (sem_num op) < length v \<Longrightarrow> \<forall>x \<in> set v'. 0 \<le> x \<and> x \<le> SEMVMX"
proof (induction ops arbitrary: v)
  case (Cons op ops)
  let ?n = "unat (sem_num op)"
  let ?v = "v[?n := v ! ?n + sem_op op]"
  have can: "can_op op (v ! ?n)" and rest: "seq_ops ops ?v = Some v'"
    using Cons.prems(1) by (auto simp: Let_def split: if_splits)
  have n: "v ! ?n \<in> set v" using Cons.prems(3) by simp
  have "\<forall>x \<in> set ?v. 0 \<le> x \<and> x \<le> SEMVMX"
  proof
    fix x assume "x \<in> set ?v"
    then have "x = v ! ?n + sem_op op \<or> x \<in> set v"
      using set_update_subset_insert by fastforce
    with can Cons.prems(2) n show "0 \<le> x \<and> x \<le> SEMVMX"
      by (auto simp: can_op_def SEMVMX_def split: if_splits)
  qed
  with Cons.IH [OF rest] Cons.prems(3) show ?case by auto
qed simp

lemma perform_spec:
  assumes "in_range (sops p) ss" "vals_ok ss" "\<not> has_dup (sops p)"
  shows "\<exists>r ss'. perform_atomic_semop ss p = Return (r, ss') \<and> length ss' = length ss \<and> vals_ok ss'
    \<and> r \<noteq> Some Pending
    \<and> (if r = Some Normal then seq_ops (sops p) (map val ss) = Some (map val ss')
       else seq_ops (sops p) (map val ss) = None \<and> ss' = ss)"
proof -
  let ?ok = "\<forall>op \<in> set (sops p). can_op op (val (ss ! unat (sem_num op)))"
  obtain b where b: "blocker (sops p) ss = Return b" "b = Inr NotBlock \<longleftrightarrow> ?ok"
    "b \<noteq> Inl Normal" "b \<noteq> Inl Pending"
    using blocker_spec [OF assms(1,2)] by blast
  have rng: "\<forall>op \<in> set (sops p). unat (sem_num op) < length (map val ss)"
    using assms(1) by (simp add: in_range_def)
  have seq: "seq_ops (sops p) (map val ss) = (if ?ok then Some (foldl add_op (map val ss) (sops p)) else None)"
    using seq_ops_no_dup [OF assms(3) rng] rng by (auto simp: Ball_def)
  show ?thesis
  proof (cases ?ok)
    case True
    obtain ss' where ss': "apply_sops (sops p) (op_pid p) ss = Return ss'" "length ss' = length ss"
      "map val ss' = foldl add_op (map val ss) (sops p)"
      using apply_sops_spec [OF assms(1)] by blast
    have "seq_ops (sops p) (map val ss) = Some (map val ss')"
      using True seq ss'(3) by simp
    moreover have "vals_ok ss'"
      using seq_ops_range [OF calculation _ rng] assms(2) unfolding vals_ok_map by blast
    ultimately show ?thesis
      using True b ss'(1,2) by (simp add: perform_atomic_semop_def)
  next
    case False
    with b seq assms(2) show ?thesis
      by (auto simp: perform_atomic_semop_def split: sum.splits PendingBlocker.splits)
  qed
qed

text \<open>
  A call's operations are atomic. For a list without duplicates on semaphores of the set,
  \<open>perform_atomic_semop\<close> does not index out of bounds; it reports success exactly when executing
  the operations one after the other, each seeing the effect of the earlier ones, succeeds, and
  then leaves the values of that execution; otherwise it leaves the semaphores untouched. All
  values stay between 0 and \<open>SEMVMX\<close>.
\<close>

lemma semop_atomic:
  assumes "\<forall>op \<in> set (sops p). unat (sem_num op) < length ss"
    and "\<forall>s \<in> set ss. 0 \<le> val s \<and> val s \<le> SEMVMX"
    and "\<not> check_dup_sops (sops p)"
  shows "\<exists>r ss'. perform_atomic_semop ss p = Return (r, ss')
    \<and> (\<forall>s \<in> set ss'. 0 \<le> val s \<and> val s \<le> SEMVMX)
    \<and> (if r = Some Normal then seq_ops (sops p) (map val ss) = Some (map val ss')
       else seq_ops (sops p) (map val ss) = None \<and> ss' = ss)"
  using perform_spec [of p ss] assms unfolding in_range_def vals_ok_def check_dup_sops_iff by blast

definition two_sems :: "Semaphore list" where
  "two_sems = [\<lparr>val = 2, latest_modified_pid = 0\<rparr>, \<lparr>val = 0, latest_modified_pid = 0\<rparr>]"

definition swap_op :: PendingOp where
  "swap_op = \<lparr>sops = [\<lparr>sem_num = 0, sem_op = -1, sem_flags = 0\<rparr>, \<lparr>sem_num = 1, sem_op = 1, sem_flags = 0\<rparr>],
     status = Pending, op_id = 0, waker = None, op_pid = 7\<rparr>"

lemma semop_atomic_witness:
  "\<exists>ss'. perform_atomic_semop two_sems swap_op = Return (Some Normal, ss') \<and> map val ss' = [1, 1]"
proof -
  have pre: "\<forall>op \<in> set (sops swap_op). unat (sem_num op) < length two_sems"
    "\<forall>s \<in> set two_sems. 0 \<le> val s \<and> val s \<le> SEMVMX" "\<not> check_dup_sops (sops swap_op)"
    by (code_simp, code_simp, code_simp)
  have "seq_ops (sops swap_op) (map val two_sems) = Some [1, 1]" by code_simp
  with semop_atomic [OF pre] show ?thesis by (auto split: if_splits)
qed

section \<open>Waiting operations\<close>

definition completable :: "int list \<Rightarrow> PendingOp \<Rightarrow> bool" where
  "completable v p \<longleftrightarrow> (\<forall>op \<in> set (sops p). can_op op (v ! unat (sem_num op)))"

definition op_ok :: "nat \<Rightarrow> PendingOp \<Rightarrow> bool" where
  "op_ok n p \<longleftrightarrow> (\<forall>op \<in> set (sops p). unat (sem_num op) < n) \<and> \<not> has_dup (sops p)"

definition const_ok :: "nat \<Rightarrow> PendingOp \<Rightarrow> bool" where
  "const_ok n p \<longleftrightarrow> op_ok n p \<and> \<not> check_alter_sop (sops p)"

definition op_ids :: "PendingOp list \<Rightarrow> nat multiset" where
  "op_ids ps = mset (map op_id ps)"

lemma op_ids_simps [simp]:
  "op_ids [] = {#}" "op_ids (p # ps) = add_mset (op_id p) (op_ids ps)"
  "op_ids (ps @ qs) = op_ids ps + op_ids qs"
  by (simp_all add: op_ids_def)

lemma perform_cases:
  assumes "op_ok (length ss) p" "vals_ok ss"
  obtains r ss' where "perform_atomic_semop ss p = Return (r, ss')" "length ss' = length ss"
    "vals_ok ss'" "r \<noteq> Some Pending" "r = Some Normal \<longleftrightarrow> completable (map val ss) p"
    "r \<noteq> Some Normal \<Longrightarrow> ss' = ss"
    "r = Some Normal \<Longrightarrow> map val ss' = foldl add_op (map val ss) (sops p)"
proof -
  have rng: "in_range (sops p) ss" "\<forall>op \<in> set (sops p). unat (sem_num op) < length (map val ss)"
    and nd: "\<not> has_dup (sops p)"
    using assms(1) by (auto simp: in_range_def op_ok_def)
  obtain r ss' where *: "perform_atomic_semop ss p = Return (r, ss')" "length ss' = length ss"
    "vals_ok ss'" "r \<noteq> Some Pending"
    "if r = Some Normal then seq_ops (sops p) (map val ss) = Some (map val ss')
     else seq_ops (sops p) (map val ss) = None \<and> ss' = ss"
    using perform_spec [OF rng(1) assms(2) nd] by blast
  have seq: "seq_ops (sops p) (map val ss) =
      (if completable (map val ss) p then Some (foldl add_op (map val ss) (sops p)) else None)"
    using seq_ops_no_dup [OF nd rng(2)] by (simp add: completable_def)
  show thesis
    using that [OF *(1-4)] *(5) seq by (auto split: if_splits)
qed

lemma foldl_add_const: "\<not> check_alter_sop ops \<Longrightarrow> foldl add_op v ops = v"
  by (induction ops arbitrary: v) (auto simp: check_alter_sop_def add_op_def)

lemma foldl_add_other:
  "\<forall>op \<in> set ops. unat (sem_num op) \<noteq> n \<Longrightarrow> foldl add_op v ops ! n = v ! n"
proof (induction ops arbitrary: v)
  case (Cons op ops)
  then have "foldl add_op (add_op v op) ops ! n = add_op v op ! n" by simp
  with Cons.prems show ?case by (simp add: add_op_def [of v])
qed simp

lemma wake_const_ops_spec:
  assumes "\<forall>p \<in> set ps. const_ok (length ss) p" "vals_ok ss"
  shows "\<exists>c left woken ss'. wake_const_ops ss ps = Return (c, left, woken, ss')
    \<and> length ss' = length ss \<and> map val ss' = map val ss \<and> vals_ok ss'
    \<and> set left \<subseteq> set ps \<and> (\<forall>p \<in> set left. \<not> completable (map val ss) p)
    \<and> (\<forall>p \<in> set woken. status p \<noteq> Pending) \<and> op_ids left + op_ids woken = op_ids ps"
  using assms
proof (induction ps arbitrary: ss)
  case (Cons p ps)
  have p: "op_ok (length ss) p" "\<not> check_alter_sop (sops p)"
    using Cons.prems(1) by (auto simp: const_ok_def)
  obtain r ss1 where r: "perform_atomic_semop ss p = Return (r, ss1)" "length ss1 = length ss"
    "vals_ok ss1" "r \<noteq> Some Pending" "r = Some Normal \<longleftrightarrow> completable (map val ss) p"
    and v: "map val ss1 = map val ss"
    using perform_cases [OF p(1) Cons.prems(2)] foldl_add_const [OF p(2)] by metis
  obtain c left woken ss2 where w: "wake_const_ops ss1 ps = Return (c, left, woken, ss2)"
    "length ss2 = length ss" "map val ss2 = map val ss" "vals_ok ss2" "set left \<subseteq> set ps"
    "\<forall>p \<in> set left. \<not> completable (map val ss) p" "\<forall>p \<in> set woken. status p \<noteq> Pending"
    "op_ids left + op_ids woken = op_ids ps"
    using Cons.IH [of ss1] Cons.prems(1) r(2,3) v by auto
  show ?case
  proof (cases r)
    case None
    with r w show ?thesis by (auto simp: subset_iff)
  next
    case (Some st)
    with r w show ?thesis by (auto simp: subset_iff)
  qed
qed auto

lemma smart_wakeup_cases:
  assumes "\<forall>op \<in> set ops. unat (sem_num op) < length ss"
  shows "do_smart_wakeup_zero ss ps ops =
    (if \<exists>op \<in> set ops. val (ss ! unat (sem_num op)) = 0
     then rust_bind (wake_const_ops ss ps) (\<lambda>(_, left, woken, ss'). Return (left, woken, ss'))
     else Return (ps, [], ss))"
  using assms by (induction ops) (auto simp: Let_def)

text \<open>
  A waiting operation that changes nothing can only become completable when a semaphore it waits
  for reaches zero, so looking at the semaphores of the completed operation is enough.
\<close>

lemma const_completable_zero:
  assumes "\<not> check_alter_sop (sops p)" "\<not> completable v p" "completable (foldl add_op v ops) p"
  shows "\<exists>op \<in> set ops. foldl add_op v ops ! unat (sem_num op) = 0"
proof -
  obtain q where q: "q \<in> set (sops p)" "\<not> can_op q (v ! unat (sem_num q))"
    using assms(2) by (auto simp: completable_def)
  with assms(1,3) have z: "foldl add_op v ops ! unat (sem_num q) = 0" "v ! unat (sem_num q) \<noteq> 0"
    by (auto simp: completable_def can_op_def check_alter_sop_def)
  then have "\<exists>op \<in> set ops. unat (sem_num op) = unat (sem_num q)"
    using foldl_add_other [of ops "unat (sem_num q)" v] by auto
  with z(1) show ?thesis by metis
qed

lemma do_smart_wakeup_zero_spec:
  assumes ps: "\<forall>p \<in> set ps. const_ok (length ss) p" and ok: "vals_ok ss"
    and rng: "\<forall>op \<in> set ops. unat (sem_num op) < length ss"
    and old: "\<forall>p \<in> set ps. \<not> completable v p" and v: "map val ss = foldl add_op v ops"
  shows "\<exists>left woken ss'. do_smart_wakeup_zero ss ps ops = Return (left, woken, ss')
    \<and> length ss' = length ss \<and> map val ss' = map val ss \<and> vals_ok ss'
    \<and> set left \<subseteq> set ps \<and> (\<forall>p \<in> set left. \<not> completable (map val ss) p)
    \<and> (\<forall>p \<in> set woken. status p \<noteq> Pending) \<and> op_ids left + op_ids woken = op_ids ps"
proof (cases "\<exists>op \<in> set ops. val (ss ! unat (sem_num op)) = 0")
  case True
  with smart_wakeup_cases [OF rng, of ps] wake_const_ops_spec [OF ps ok] show ?thesis by auto
next
  case False
  have "\<not> completable (map val ss) p" if "p \<in> set ps" for p
  proof
    assume "completable (map val ss) p"
    then have "\<exists>op \<in> set ops. map val ss ! unat (sem_num op) = 0"
      using const_completable_zero [of p v ops] ps old that by (auto simp: v const_ok_def)
    with False rng show False by auto
  qed
  with False smart_wakeup_cases [OF rng, of ps] ok show ?thesis by auto
qed

text \<open>What the lists of waiting operations and the wake queue look like after a pass.\<close>

definition pass_ok ::
    "nat \<Rightarrow> PendingOp list \<Rightarrow> PendingOp list \<Rightarrow> PendingOp list
     \<Rightarrow> PendingOp list \<times> PendingOp list \<times> PendingOp list \<times> Semaphore list \<Rightarrow> bool" where
  "pass_ok n alters zeros wake = (\<lambda>(alters', zeros', wake', ss').
     length ss' = n \<and> vals_ok ss' \<and> set alters' \<subseteq> set alters \<and> set zeros' \<subseteq> set zeros
     \<and> (\<forall>p \<in> set alters' \<union> set zeros'. \<not> completable (map val ss') p)
     \<and> (\<forall>p \<in> set wake'. p \<in> set wake \<or> status p \<noteq> Pending)
     \<and> op_ids alters' + op_ids zeros' + op_ids wake' = op_ids alters + op_ids zeros + op_ids wake)"

lemma pass_ok_trans:
  assumes "pass_ok n alters zeros wake (alters', zeros', wake', ss')"
    and "set alters \<subseteq> set alters0" "set zeros \<subseteq> set zeros0"
    and "\<forall>p \<in> set wake. p \<in> set wake0 \<or> status p \<noteq> Pending"
    and "op_ids alters + op_ids zeros + op_ids wake = op_ids alters0 + op_ids zeros0 + op_ids wake0"
  shows "pass_ok n alters0 zeros0 wake0 (alters', zeros', wake', ss')"
  using assms unfolding pass_ok_def by auto

lemma alter_loop_spec:
  assumes "\<forall>p \<in> set (passed @ rest). op_ok (length ss) p" "\<forall>p \<in> set zeros. const_ok (length ss) p"
    and "vals_ok ss" "\<forall>p \<in> set passed \<union> set zeros. \<not> completable (map val ss) p"
  shows "\<exists>d al co wk ss'. alter_loop ss passed rest zeros wake d0 = Return (d, al, co, wk, ss')
    \<and> pass_ok (length ss) (passed @ rest) zeros wake (al, co, wk, ss')"
  using assms
proof (induction ss passed rest zeros wake d0 rule: alter_loop.induct)
  case (1 ss passed zeros wake d0)
  then show ?case by (auto simp: pass_ok_def)
next
  case (2 ss passed p rest zeros wake d0)
  have p: "op_ok (length ss) p" using "2.prems"(1) by simp
  obtain r ss1 where r: "perform_atomic_semop ss p = Return (r, ss1)" "length ss1 = length ss"
    "vals_ok ss1" "r \<noteq> Some Pending" "r = Some Normal \<longleftrightarrow> completable (map val ss) p"
    "r \<noteq> Some Normal \<Longrightarrow> ss1 = ss"
    "r = Some Normal \<Longrightarrow> map val ss1 = foldl add_op (map val ss) (sops p)"
    using perform_cases [OF p "2.prems"(3)] by metis
  consider (block) "r = None" | (err) st where "r = Some st" "st \<noteq> Normal" | (run) "r = Some Normal"
    by (cases r) auto
  then show ?case
  proof cases
    case block
    with r "2.IH"(1) [OF r(1)] "2.prems" show ?thesis by auto
  next
    case err
    then have ss1: "ss1 = ss" using r(6) by simp
    have "\<exists>d al co wk ss'. alter_loop ss passed rest zeros (wake @ [p\<lparr>status := st\<rparr>]) d0
        = Return (d, al, co, wk, ss')
      \<and> pass_ok (length ss) (passed @ rest) zeros (wake @ [p\<lparr>status := st\<rparr>]) (al, co, wk, ss')"
      using "2.IH"(2) [OF r(1)] err ss1 "2.prems" by auto
    then show ?thesis
      using err r(1,4) ss1 by (fastforce elim: pass_ok_trans)
  next
    case run
    obtain left woken ss2 where w: "do_smart_wakeup_zero ss1 zeros (sops p) = Return (left, woken, ss2)"
      "length ss2 = length ss" "map val ss2 = map val ss1" "vals_ok ss2" "set left \<subseteq> set zeros"
      "\<forall>p \<in> set left. \<not> completable (map val ss2) p" "\<forall>p \<in> set woken. status p \<noteq> Pending"
      "op_ids left + op_ids woken = op_ids zeros"
      using do_smart_wakeup_zero_spec [of zeros ss1 "sops p" "map val ss"] "2.prems" p r(2,3)
        r(7) [OF run] by (auto simp: op_ok_def)
    have left: "\<forall>x \<in> set left. const_ok (length ss) x" using w(5) "2.prems"(2) by blast
    have "\<exists>d al co wk ss'. alter_loop ss2 [] (passed @ rest) left (wake @ woken @ [p\<lparr>status := Normal\<rparr>]) True
        = Return (d, al, co, wk, ss')
      \<and> pass_ok (length ss) (passed @ rest) left (wake @ woken @ [p\<lparr>status := Normal\<rparr>]) (al, co, wk, ss')"
      using "2.IH"(3) [OF r(1)] run w "2.prems" left by auto
    then show ?thesis
      using run r(1) w by (fastforce elim: pass_ok_trans)
  qed
qed

text \<open>The invariant of a set between calls.\<close>

definition waiting_ids :: "SemaphoreSet \<Rightarrow> nat multiset" where
  "waiting_ids s = op_ids (pending_alter s) + op_ids (pending_const s)"

definition sem_inv :: "SemaphoreSet \<Rightarrow> bool" where
  "sem_inv s \<longleftrightarrow> length (sems s) = num_sems s \<and> vals_ok (sems s)
     \<and> (\<forall>p \<in> set (pending_alter s). op_ok (num_sems s) p)
     \<and> (\<forall>p \<in> set (pending_const s). const_ok (num_sems s) p)
     \<and> (\<forall>p \<in> set (pending_alter s) \<union> set (pending_const s).
          status p = Pending \<and> \<not> completable (map val (sems s)) p)"

lemma pending_op_check_range:
  "pending_op_check ops n = Inr () \<Longrightarrow> \<forall>op \<in> set ops. unat (sem_num op) < n"
  by (induction ops) (auto split: if_splits)

lemma sem_set_new_inv: "sem_set_new key n now = Inr s \<Longrightarrow> sem_inv s \<and> waiting_ids s = {#}"
  by (auto simp: sem_set_new_def sem_inv_def waiting_ids_def vals_ok_def SEMVMX_def split: if_splits)

lemma update_pending_alter_spec:
  assumes "\<forall>p \<in> set alters. op_ok (length ss) p" "\<forall>p \<in> set zeros. const_ok (length ss) p"
    and "vals_ok ss" "\<forall>p \<in> set zeros. \<not> completable (map val ss) p"
  shows "\<exists>d al co wk ss'. update_pending_alter ss alters zeros wake = Return (d, al, co, wk, ss')
    \<and> pass_ok (length ss) alters zeros wake (al, co, wk, ss')"
  using alter_loop_spec [of "[]" alters ss zeros wake False] assms
  by (simp add: update_pending_alter_def)

lemma do_smart_update_spec:
  assumes al: "\<forall>p \<in> set alters. op_ok (length ss) p" and ze: "\<forall>p \<in> set zeros. const_ok (length ss) p"
    and ok: "vals_ok ss" and rng: "\<forall>op \<in> set ops. unat (sem_num op) < length ss"
    and old: "\<forall>p \<in> set zeros. \<not> completable v p" and v: "map val ss = foldl add_op v ops"
  shows "\<exists>al co wk ss'. do_smart_update ss alters zeros ops = Return (al, co, wk, ss')
    \<and> pass_ok (length ss) alters zeros [] (al, co, wk, ss')"
proof -
  obtain left woken ss1 where w:
    "(if zeros \<noteq> [] then do_smart_wakeup_zero ss zeros ops else Return (zeros, [], ss))
      = Return (left, woken, ss1)"
    "length ss1 = length ss" "map val ss1 = map val ss" "vals_ok ss1" "set left \<subseteq> set zeros"
    "\<forall>p \<in> set left. \<not> completable (map val ss1) p" "\<forall>p \<in> set woken. status p \<noteq> Pending"
    "op_ids left + op_ids woken = op_ids zeros"
    using do_smart_wakeup_zero_spec [OF ze ok rng old v] ok by (cases "zeros = []") auto
  have "\<forall>p \<in> set left. const_ok (length ss) p" using ze w(5) by blast
  then obtain d al co wk ss2 where
    u: "update_pending_alter ss1 alters left woken = Return (d, al, co, wk, ss2)"
    "pass_ok (length ss) alters left woken (al, co, wk, ss2)"
    using update_pending_alter_spec [of alters ss1 left woken] al w(2,4,6) by auto
  then have "pass_ok (length ss) alters zeros [] (al, co, wk, ss2)"
    using w(5,7,8) by (auto elim: pass_ok_trans)
  moreover have "pass_ok (length ss) alters zeros [] (alters, left, woken, ss1)" if "alters = []"
    using that w(2-8) by (auto simp: pass_ok_def)
  ultimately show ?thesis
    using w(1) u(1) by (cases "alters = []") (auto simp: do_smart_update_def)
qed

lemma sem_inv_pass:
  assumes "sem_inv s" "pass_ok (num_sems s) (pending_alter s) (pending_const s) [] (al, co, wk, ss')"
    and "s' = s\<lparr>sems := ss', pending_alter := al, pending_const := co,
                sem_ctime := ct, sem_otime := ot\<rparr>"
  shows "sem_inv s' \<and> (\<forall>p \<in> set wk. status p \<noteq> Pending) \<and> waiting_ids s' + op_ids wk = waiting_ids s"
  using assms by (auto simp: sem_inv_def pass_ok_def waiting_ids_def subset_iff)

lemma setval_zeros:
  assumes "sem_inv s" "n < length (sems s)" "vals_ok ss"
    and ss: "ss = (sems s)[n := \<lparr>val = v, latest_modified_pid = pid\<rparr>]"
  shows "\<exists>c left woken ss1.
    (if v = 0 then wake_const_ops ss (pending_const s) else Return (False, pending_const s, [], ss))
      = Return (c, left, woken, ss1)
    \<and> length ss1 = num_sems s \<and> vals_ok ss1 \<and> set left \<subseteq> set (pending_const s)
    \<and> (\<forall>p \<in> set left. \<not> completable (map val ss1) p) \<and> (\<forall>p \<in> set woken. status p \<noteq> Pending)
    \<and> op_ids left + op_ids woken = op_ids (pending_const s)"
proof (cases "v = 0")
  case True
  have "\<forall>p \<in> set (pending_const s). const_ok (length ss) p" "length ss = num_sems s"
    using assms(1) ss by (auto simp: sem_inv_def)
  then show ?thesis using True wake_const_ops_spec [of "pending_const s" ss] assms(3) by auto
next
  case False
  have "\<not> completable (map val ss) p" if "p \<in> set (pending_const s)" for p
  proof -
    have "\<not> completable (map val (sems s)) p" "const_ok (length (sems s)) p"
      using assms(1) that by (auto simp: sem_inv_def)
    then obtain q where q: "q \<in> set (sops p)" "\<not> can_op q (map val (sems s) ! unat (sem_num q))"
      "sem_op q = 0" "unat (sem_num q) < length (sems s)"
      by (auto simp: completable_def const_ok_def check_alter_sop_def op_ok_def)
    then have "\<not> can_op q (map val ss ! unat (sem_num q))"
      using False ss by (cases "unat (sem_num q) = n") (auto simp: can_op_def)
    with q(1) show ?thesis by (auto simp: completable_def)
  qed
  moreover have "length ss = num_sems s" using assms(1) ss by (simp add: sem_inv_def)
  ultimately show ?thesis using False assms(3) by auto
qed

lemma vals_ok_update:
  assumes "vals_ok ss" "0 \<le> v" "v \<le> SEMVMX"
  shows "vals_ok (ss[n := \<lparr>val = v, latest_modified_pid = pid\<rparr>])"
proof -
  have "set (ss[n := \<lparr>val = v, latest_modified_pid = pid\<rparr>])
      \<subseteq> insert \<lparr>val = v, latest_modified_pid = pid\<rparr> (set ss)"
    by (rule set_update_subset_insert)
  with assms show ?thesis unfolding vals_ok_def by auto
qed

lemma setval_spec:
  assumes inv: "sem_inv s"
  shows "\<exists>r s' wake. setval s n v pid now = Return (r, s', wake) \<and> sem_inv s'
    \<and> (\<forall>p \<in> set wake. status p \<noteq> Pending) \<and> waiting_ids s' + op_ids wake = waiting_ids s"
proof (cases "0 \<le> v \<and> v \<le> SEMVMX \<and> n < length (sems s)")
  case True
  let ?ss = "(sems s)[n := \<lparr>val = v, latest_modified_pid = pid\<rparr>]"
  have ok: "vals_ok ?ss"
    using inv True by (simp add: vals_ok_update sem_inv_def)
  obtain c left woken ss1 where w: "(if v = 0 then wake_const_ops ?ss (pending_const s)
      else Return (False, pending_const s, [], ?ss)) = Return (c, left, woken, ss1)"
    "length ss1 = num_sems s" "vals_ok ss1" "set left \<subseteq> set (pending_const s)"
    "\<forall>p \<in> set left. \<not> completable (map val ss1) p" "\<forall>p \<in> set woken. status p \<noteq> Pending"
    "op_ids left + op_ids woken = op_ids (pending_const s)"
    using setval_zeros [OF inv _ ok refl] True by blast
  have ze: "\<forall>p \<in> set left. const_ok (length ss1) p" and al: "\<forall>p \<in> set (pending_alter s). op_ok (length ss1) p"
    using w(2,4) inv by (auto simp: sem_inv_def)
  obtain d al' co wk ss2 where
    u: "update_pending_alter ss1 (pending_alter s) left woken = Return (d, al', co, wk, ss2)"
    "pass_ok (num_sems s) (pending_alter s) left woken (al', co, wk, ss2)"
    using update_pending_alter_spec [OF al ze w(3,5), of woken] w(2) by auto
  have "pass_ok (num_sems s) (pending_alter s) (pending_const s) [] (al', co, wk, ss2)"
    by (rule pass_ok_trans [OF u(2)]) (use w(4,6,7) in auto)
  from sem_inv_pass [OF inv this refl] show ?thesis
    using True unfolding setval_def Let_def w(1) by (simp add: u(1))
qed (use inv in \<open>auto simp: setval_def\<close>)

text \<open>The cases of a call that passes the checks, with \<open>p\<close> its new operation.\<close>

lemma sem_op_waits:
  assumes inv: "sem_inv s" and p: "op_ok (num_sems s) p" "\<not> completable (map val (sems s)) p"
    "status p = Pending"
  shows "sem_inv (if check_alter_sop (sops p) then s\<lparr>pending_alter := pending_alter s @ [p]\<rparr>
      else s\<lparr>pending_const := pending_const s @ [p]\<rparr>)"
    and "waiting_ids (if check_alter_sop (sops p) then s\<lparr>pending_alter := pending_alter s @ [p]\<rparr>
      else s\<lparr>pending_const := pending_const s @ [p]\<rparr>) = waiting_ids s + {#op_id p#}"
  using assms by (auto simp: sem_inv_def const_ok_def waiting_ids_def)

lemma sem_op_const:
  assumes "sem_inv s" "map val ss = map val (sems s)" "length ss = length (sems s)" "vals_ok ss"
  shows "sem_inv (s\<lparr>sems := ss, sem_otime := now\<rparr>)"
  using assms by (simp add: sem_inv_def)

lemma sem_op_alter:
  assumes inv: "sem_inv s" and ss: "length ss = length (sems s)" "vals_ok ss"
    "map val ss = foldl add_op (map val (sems s)) ops"
    and rng: "\<forall>op \<in> set ops. unat (sem_num op) < length (sems s)"
  obtains al co wk ss' where
    "do_smart_update ss (pending_alter s) (pending_const s) ops = Return (al, co, wk, ss')"
    "pass_ok (num_sems s) (pending_alter s) (pending_const s) [] (al, co, wk, ss')"
proof -
  have *: "\<forall>p \<in> set (pending_const s). \<not> completable (map val (sems s)) p"
    "\<forall>p \<in> set (pending_alter s). op_ok (length ss) p"
    "\<forall>p \<in> set (pending_const s). const_ok (length ss) p" "length ss = num_sems s"
    using inv ss(1) by (auto simp: sem_inv_def)
  have "\<forall>op \<in> set ops. unat (sem_num op) < length ss" using rng ss(1) by simp
  from do_smart_update_spec [OF *(2,3) ss(2) this *(1) ss(3)] show thesis
    using that *(4) by auto
qed

lemma sem_op_start_spec:
  assumes inv: "sem_inv s"
  shows "\<exists>r s' wake. sem_op_start s ops pid i now = Return (r, s', wake) \<and> sem_inv s'
    \<and> (\<forall>p \<in> set wake. status p \<noteq> Pending)
    \<and> waiting_ids s' + op_ids wake = waiting_ids s + (if r = Inr (Waiting i) then {#i#} else {#})"
proof (cases "check_dup_sops ops \<or> (\<exists>e. pending_op_check ops (num_sems s) = Inl e)")
  case True
  then show ?thesis
    using inv by (auto simp: sem_op_start_def pending_op_new_def)
next
  case False
  let ?p = "\<lparr>sops = ops, status = Pending, op_id = i, waker = None, op_pid = pid\<rparr>"
  have "pending_op_check ops (num_sems s) = Inr ()"
    using False by (cases "pending_op_check ops (num_sems s)") auto
  then have new: "pending_op_new ops pid (num_sems s) i = Inr ?p"
    and rng: "\<forall>op \<in> set ops. unat (sem_num op) < length (sems s)"
    using pending_op_check_range [of ops "num_sems s"] inv by (auto simp: pending_op_new_def sem_inv_def)
  have p: "op_ok (length (sems s)) ?p" and nd: "\<not> check_dup_sops ops"
    using rng False by (auto simp: op_ok_def check_dup_sops_iff)
  obtain r ss where r: "perform_atomic_semop (sems s) ?p = Return (r, ss)"
    "length ss = length (sems s)" "vals_ok ss"
    "r = Some Normal \<longleftrightarrow> completable (map val (sems s)) ?p" "r \<noteq> Some Normal \<Longrightarrow> ss = sems s"
    "r = Some Normal \<Longrightarrow> map val ss = foldl add_op (map val (sems s)) ops"
    using perform_cases [OF p] inv unfolding sem_inv_def PendingOp.select_convs by metis
  note start = sem_op_start_def [of s ops pid i now] nd new r(1)
  consider (wait) "r = None" | (err) st where "r = Some st" "st \<noteq> Normal"
    | (const) "r = Some Normal" "\<not> check_alter_sop ops" | (alter) "r = Some Normal" "check_alter_sop ops"
    by (cases r) auto
  then show ?thesis
  proof cases
    case wait
    then have "ss = sems s" "\<not> completable (map val (sems s)) (?p\<lparr>waker := Some i\<rparr>)"
      "op_ok (num_sems s) (?p\<lparr>waker := Some i\<rparr>)"
      using r(4,5) p inv by (auto simp: completable_def op_ok_def sem_inv_def)
    with sem_op_waits [OF inv this(3,2)] wait show ?thesis
      by (cases "check_alter_sop ops") (simp_all add: start)
  next
    case err
    with r(5) inv show ?thesis by (simp add: start)
  next
    case const
    with sem_op_const [OF inv _ r(2,3)] r(6) foldl_add_const show ?thesis
      by (simp add: start waiting_ids_def)
  next
    case alter
    obtain al co wk ss' where
      u: "do_smart_update ss (pending_alter s) (pending_const s) ops = Return (al, co, wk, ss')"
      "pass_ok (num_sems s) (pending_alter s) (pending_const s) [] (al, co, wk, ss')"
      using sem_op_alter [OF inv r(2,3) r(6) [OF alter(1)] rng] .
    from sem_inv_pass [OF inv u(2) refl, of now "sem_ctime s"] show ?thesis
      using alter by (simp add: start u(1))
  qed
qed

lemma sem_op_cancel_spec:
  assumes "sem_inv s"
  shows "sem_inv (sem_op_cancel s is_alter i)"
  using assms by (auto simp: sem_op_cancel_def sem_inv_def)

text \<open>
  The states a set goes through: creation, calls of \<open>semop\<close>, \<open>SETVAL\<close>, and the removal of
  waiters that give up, in any order.
\<close>

inductive sem_reachable :: "SemaphoreSet \<Rightarrow> bool" where
  created: "sem_set_new key n now = Inr s \<Longrightarrow> sem_reachable s"
| op: "sem_reachable s \<Longrightarrow> sem_op_start s ops pid i now = Return (r, s', wake) \<Longrightarrow> sem_reachable s'"
| set: "sem_reachable s \<Longrightarrow> setval s n v pid now = Return (r, s', wake) \<Longrightarrow> sem_reachable s'"
| cancel: "sem_reachable s \<Longrightarrow> sem_reachable (sem_op_cancel s is_alter i)"

lemma sem_reachable_inv: "sem_reachable s \<Longrightarrow> sem_inv s"
proof (induction rule: sem_reachable.induct)
  case (op s ops pid i now r s' wake)
  then show ?case using sem_op_start_spec [of s ops pid i now] by auto
next
  case (set s n v pid now r s' wake)
  then show ?case using setval_spec [of s n v pid now] by auto
qed (auto simp: sem_set_new_inv sem_op_cancel_spec)

text \<open>
  C25. No waiting operation is forgotten. In every state a semaphore set can reach, all values
  are between 0 and \<open>SEMVMX\<close>, and each operation left on a pending list is still marked pending
  and has a part that cannot proceed at the current values: an operation that has become possible
  has been completed by the call that made it so.
\<close>

theorem no_lost_wakeup:
  assumes "sem_reachable s"
  shows "(\<forall>x \<in> set (sems s). 0 \<le> val x \<and> val x \<le> SEMVMX)
    \<and> (\<forall>p \<in> set (pending_alter s @ pending_const s). status p = Pending
        \<and> (\<exists>op \<in> set (sops p). \<not> can_op op (val (sems s ! unat (sem_num op)))))"
proof -
  have inv: "sem_inv s" by (rule sem_reachable_inv [OF assms])
  have "\<exists>op \<in> set (sops p). \<not> can_op op (val (sems s ! unat (sem_num op)))"
    if "p \<in> set (pending_alter s @ pending_const s)" for p
  proof -
    have "\<not> completable (map val (sems s)) p" "op_ok (length (sems s)) p"
      using inv that by (auto simp: sem_inv_def const_ok_def)
    then show ?thesis by (fastforce simp: completable_def op_ok_def)
  qed
  with inv show ?thesis by (auto simp: sem_inv_def vals_ok_def)
qed

definition sem_bump :: "int \<Rightarrow> SemBuf" where
  "sem_bump d = \<lparr>sem_num = 0, sem_op = d, sem_flags = 0\<rparr>"

definition sample_set :: SemaphoreSet where
  "sample_set = \<lparr>num_sems = 1, sems = [\<lparr>val = 0, latest_modified_pid = 0\<rparr>],
     pending_alter = [\<lparr>sops = [sem_bump (-1)], status = Pending, op_id = 4, waker = Some 4, op_pid = 9\<rparr>],
     pending_const = [], perm_key = 0, sem_ctime = 5, sem_otime = 0\<rparr>"

lemma sample_set_reachable: "sem_reachable sample_set"
proof -
  let ?s0 = "\<lparr>num_sems = 1, sems = [\<lparr>val = 0, latest_modified_pid = 0\<rparr>], pending_alter = [],
    pending_const = [], perm_key = 0, sem_ctime = 5, sem_otime = 0\<rparr>"
  have "sem_reachable ?s0"
    by (rule created [of 0 1 5]) (simp add: sem_set_new_def SEMMSL_def)
  then show ?thesis
    by (rule op [of _ "[sem_bump (-1)]" 9 4 6 "Inr (Waiting 4)" _ "[]"])
      (code_simp)
qed

theorem no_lost_wakeup_witness:
  "\<exists>op \<in> set (sops (hd (pending_alter sample_set))). \<not> can_op op (val (sems sample_set ! unat (sem_num op)))"
  using no_lost_wakeup [OF sample_set_reachable] by (simp add: sample_set_def)

text \<open>
  Calls are safe and account for every waiter. From every reachable set, \<open>semop\<close> with any
  operation list and \<open>SETVAL\<close> with any arguments return without a panic; the operations they hand
  to the wake queue carry a final status; and the waiters before the call, with the caller itself
  if it starts to wait, are exactly the waiters after it together with the woken ones.
\<close>

lemma waiters_accounted:
  assumes "sem_reachable s"
  shows "(\<exists>r s' wake. sem_op_start s ops pid i now = Return (r, s', wake)
      \<and> (\<forall>p \<in> set wake. status p \<noteq> Pending)
      \<and> waiting_ids s' + op_ids wake = waiting_ids s + (if r = Inr (Waiting i) then {#i#} else {#}))
    \<and> (\<exists>r s' wake. setval s n v pid now = Return (r, s', wake)
      \<and> (\<forall>p \<in> set wake. status p \<noteq> Pending)
      \<and> waiting_ids s' + op_ids wake = waiting_ids s)"
  using sem_op_start_spec [OF sem_reachable_inv [OF assms], of ops pid i now]
    setval_spec [OF sem_reachable_inv [OF assms], of n v pid now] by blast

lemma waiters_accounted_witness:
  "\<exists>r s' wake. setval sample_set 0 3 1 7 = Return (r, s', wake)
    \<and> waiting_ids s' + op_ids wake = {#4#} \<and> map val (sems s') = [2]"
proof -
  obtain r s' wake where *: "setval sample_set 0 3 1 7 = Return (r, s', wake)"
    "waiting_ids s' + op_ids wake = waiting_ids sample_set"
    using waiters_accounted [OF sample_set_reachable, of "[]" _ _ _ 0 3] by blast
  have "waiting_ids sample_set = {#4#}" by (simp add: waiting_ids_def sample_set_def)
  moreover have "(case setval sample_set 0 3 1 7 of Return (r, s', wake) \<Rightarrow> map val (sems s') = [2]
      | Panic \<Rightarrow> False)"
    by code_simp
  ultimately show ?thesis using * by simp
qed

end
