(* ===== verification/Ipc_Namespace.thy ===== *)
theory Ipc_Namespace
  imports Sysv_Sem Id_Alloc
begin

text \<open>
  The table of IPC objects and the IPC namespace: \<^verbatim>\<open>kernel/src/ipc/ipc_ids.rs\<close> and
  \<^verbatim>\<open>kernel/src/ipc/ipc_ns.rs\<close>, on top of the identifier allocator and the semaphore sets. The
  closures passed to the table are arguments, and \<open>dbg\<close> tells whether debug assertions are
  compiled in, as in the allocator.

  \<open>get_or_create_sem_set\<close> releases the table's lock between looking a set up and inserting it, and
  starts over when another thread was faster. What the other threads do to the table at each
  of these points is the argument \<open>env\<close>, and the loop is a partial function, so that a run that
  does not return is \<open>None\<close>.
\<close>

section \<open>The table\<close>

text \<open>\<open>IpcId\<close> is a ranged integer: its constructor asserts the range.\<close>

definition ipc_id_new :: "nat \<Rightarrow> nat rust" where
  "ipc_id_new v = (if 1 \<le> v \<and> v \<le> 2 ^ 31 - 1 then Return v else Panic)"

record ('b, 't) IpcIds =
  objects :: "nat \<rightharpoonup> 't"
  id_allocator :: "'b IdAlloc"

definition ids_new :: "'b bit_ops \<Rightarrow> (nat \<Rightarrow> 'b) \<Rightarrow> nat \<Rightarrow> ('b, 't) IpcIds rust" where
  "ids_new ops new_bits max_id =
     rust_bind (alloc_specific ops (with_capacity new_bits (max_id + 1)) 0) (\<lambda>(r, a).
       case r of None \<Rightarrow> Panic | Some _ \<Rightarrow> Return \<lparr>objects = Map.empty, id_allocator = a\<rparr>)"

datatype IdNotExistError = IdNotExistError

definition ids_with :: "('b, 't) IpcIds \<Rightarrow> nat \<Rightarrow> ('t \<Rightarrow> 'r) \<Rightarrow> IdNotExistError + 'r" where
  "ids_with ids i op = (case objects ids i of None \<Rightarrow> Inl IdNotExistError | Some x \<Rightarrow> Inr (op x))"

definition ids_remove ::
    "bool \<Rightarrow> 'b bit_ops \<Rightarrow> ('b, 't) IpcIds \<Rightarrow> nat \<Rightarrow> ('t \<Rightarrow> SemErrno + unit)
     \<Rightarrow> ((SemErrno + unit) \<times> ('b, 't) IpcIds) rust" where
  "ids_remove dbg ops ids i may_remove =
     (case objects ids i of
        None \<Rightarrow> Return (Inl EINVAL, ids)
      | Some x \<Rightarrow>
          (case may_remove x of
             Inl e \<Rightarrow> Return (Inl e, ids)
           | Inr _ \<Rightarrow>
               rust_bind (id_free dbg ops (id_allocator ids) i) (\<lambda>a.
                 Return (Inr (), \<lparr>objects = (objects ids)(i := None), id_allocator = a\<rparr>))))"

text \<open>The end of both insertions: build the object, or give the identifier back.\<close>

definition ids_finish ::
    "bool \<Rightarrow> 'b bit_ops \<Rightarrow> ('b, 't) IpcIds \<Rightarrow> nat \<Rightarrow> (nat \<Rightarrow> SemErrno + 't) \<Rightarrow> 'r
     \<Rightarrow> ((SemErrno + 'r) \<times> ('b, 't) IpcIds) rust" where
  "ids_finish dbg ops ids i new_object result =
     (case new_object i of
        Inl e \<Rightarrow> rust_bind (id_free dbg ops (id_allocator ids) i) (\<lambda>a.
                   Return (Inl e, ids\<lparr>id_allocator := a\<rparr>))
      | Inr x \<Rightarrow> Return (Inr result, ids\<lparr>objects := (objects ids)(i \<mapsto> x)\<rparr>))"

definition insert_auto ::
    "bool \<Rightarrow> 'b bit_ops \<Rightarrow> ('b, 't) IpcIds \<Rightarrow> (nat \<Rightarrow> SemErrno + 't)
     \<Rightarrow> ((SemErrno + nat) \<times> ('b, 't) IpcIds) rust" where
  "insert_auto dbg ops ids new_object =
     (case id_alloc ops (id_allocator ids) of
        (None, a) \<Rightarrow> Return (Inl ENOSPC, ids\<lparr>id_allocator := a\<rparr>)
      | (Some i, a) \<Rightarrow>
          rust_bind (ipc_id_new (i mod 2 ^ 32)) (\<lambda>i.
            ids_finish dbg ops (ids\<lparr>id_allocator := a\<rparr>) i new_object i))"

definition insert_at ::
    "bool \<Rightarrow> 'b bit_ops \<Rightarrow> ('b, 't) IpcIds \<Rightarrow> nat \<Rightarrow> (nat \<Rightarrow> SemErrno + 't)
     \<Rightarrow> ((SemErrno + unit) \<times> ('b, 't) IpcIds) rust" where
  "insert_at dbg ops ids i new_object =
     rust_bind (alloc_specific ops (id_allocator ids) i) (\<lambda>(r, a).
       case r of
         None \<Rightarrow> Return (Inl EEXIST, ids\<lparr>id_allocator := a\<rparr>)
       | Some _ \<Rightarrow> ids_finish dbg ops (ids\<lparr>id_allocator := a\<rparr>) i new_object ())"

section \<open>The namespace\<close>

type_synonym 'b sem_ids = "('b, SemaphoreSet) IpcIds"

definition ns_new :: "'b bit_ops \<Rightarrow> (nat \<Rightarrow> 'b) \<Rightarrow> 'b sem_ids rust" where
  "ns_new ops new_bits = rust_bind (ipc_id_new SEMMNI) (ids_new ops new_bits)"

text \<open>\<open>validate_sem_set\<close> only logs; the identifier's absence becomes \<open>EINVAL\<close>.\<close>

definition with_sem_set :: "'b sem_ids \<Rightarrow> nat \<Rightarrow> (SemaphoreSet \<Rightarrow> SemErrno + 'r) \<Rightarrow> SemErrno + 'r" where
  "with_sem_set ids i op =
     (case ids_with ids i op of Inl IdNotExistError \<Rightarrow> Inl EINVAL | Inr r \<Rightarrow> r)"

definition remove_sem_set ::
    "bool \<Rightarrow> 'b bit_ops \<Rightarrow> 'b sem_ids \<Rightarrow> nat \<Rightarrow> (SemaphoreSet \<Rightarrow> SemErrno + unit)
     \<Rightarrow> ((SemErrno + unit) \<times> 'b sem_ids) rust" where
  "remove_sem_set dbg ops ids i may_remove = ids_remove dbg ops ids i may_remove"

definition IPC_PRIVATE :: int where "IPC_PRIVATE = 0"

definition create_sem_set ::
    "bool \<Rightarrow> 'b bit_ops \<Rightarrow> 'b sem_ids \<Rightarrow> nat \<Rightarrow> u64 \<Rightarrow> ((SemErrno + nat) \<times> 'b sem_ids) rust" where
  "create_sem_set dbg ops ids n now = insert_auto dbg ops ids (\<lambda>_. sem_set_new IPC_PRIVATE n now)"

text \<open>The check on a set found at the key's identifier.\<close>

definition existing_sem_set ::
    "int \<Rightarrow> nat \<Rightarrow> u32 \<Rightarrow> nat \<Rightarrow> SemaphoreSet \<Rightarrow> SemErrno + nat" where
  "existing_sem_set key n flags semid s =
     (if perm_key s \<noteq> key
      then if contains flags IPC_CREAT then Inl ENOSPC else Inl ENOENT
      else if contains flags (IPC_CREAT OR IPC_EXCL) then Inl EEXIST
      else if num_sems s < n then Inl EINVAL
      else Inr semid)"

partial_function (option) create_loop ::
    "bool \<Rightarrow> 'b bit_ops \<Rightarrow> (nat \<Rightarrow> 'b sem_ids \<Rightarrow> 'b sem_ids) \<Rightarrow> int \<Rightarrow> nat \<Rightarrow> u32 \<Rightarrow> u64 \<Rightarrow> nat
     \<Rightarrow> nat \<Rightarrow> 'b sem_ids \<Rightarrow> ((SemErrno + nat) \<times> 'b sem_ids) rust option" where
  "create_loop dbg ops env key n flags now semid t ids =
     (let ids1 = env (2 * t) ids in
      case ids_with ids1 semid (existing_sem_set key n flags semid) of
        Inr r \<Rightarrow> Some (Return (r, ids1))
      | Inl _ \<Rightarrow>
          if \<not> contains flags IPC_CREAT then Some (Return (Inl ENOENT, ids1))
          else (case insert_at dbg ops (env (2 * t + 1) ids1) semid (\<lambda>_. sem_set_new key n now) of
                  Panic \<Rightarrow> Some Panic
                | Return (r, ids2) \<Rightarrow>
                    if r = Inl EEXIST
                    then create_loop dbg ops env key n flags now semid (t + 1) ids2
                    else Some (Return (case r of Inl e \<Rightarrow> Inl e | Inr _ \<Rightarrow> Inr semid, ids2))))"

definition get_or_create_sem_set ::
    "bool \<Rightarrow> 'b bit_ops \<Rightarrow> (nat \<Rightarrow> 'b sem_ids \<Rightarrow> 'b sem_ids) \<Rightarrow> 'b sem_ids \<Rightarrow> int \<Rightarrow> nat \<Rightarrow> u32 \<Rightarrow> u64
     \<Rightarrow> ((SemErrno + nat) \<times> 'b sem_ids) rust option" where
  "get_or_create_sem_set dbg ops env ids key n flags now =
     (if key = IPC_PRIVATE then Some (create_sem_set dbg ops ids n now)
      else case ipc_id_new (nat (key mod 2 ^ 32) mod SEMMNI + 1) of
        Panic \<Rightarrow> Some Panic
      | Return semid \<Rightarrow> create_loop dbg ops env key n flags now semid 0 ids)"

section \<open>Invariant\<close>

text \<open>
  The allocator's identifiers in use are those of the objects, and 0, which is never given out.
\<close>

definition ids_inv :: "'b bit_ops \<Rightarrow> nat \<Rightarrow> ('b, 't) IpcIds \<Rightarrow> bool" where
  "ids_inv ops m ids \<longleftrightarrow> m \<le> 2 ^ 31 - 1 \<and> id_inv ops (id_allocator ids)
     \<and> id_capacity ops (id_allocator ids) = m + 1 \<and> 0 \<notin> dom (objects ids)
     \<and> used_ids ops (id_allocator ids) = insert 0 (dom (objects ids))"

text \<open>What a caller of \<open>get_or_create_sem_set\<close> may rely on.\<close>

definition goc_ok :: "int \<Rightarrow> nat \<Rightarrow> u32 \<Rightarrow> SemErrno + nat \<Rightarrow> 'b sem_ids \<Rightarrow> bool" where
  "goc_ok key n flags r ids =
     (case r of
        Inr i \<Rightarrow> 1 \<le> i \<and> i \<le> SEMMNI
          \<and> (case objects ids i of None \<Rightarrow> False | Some s \<Rightarrow> perm_key s = key \<and> n \<le> num_sems s)
      | Inl e \<Rightarrow> e \<in> {EINVAL, ENOSPC, ENOENT} \<or> e = EEXIST \<and> contains flags (IPC_CREAT OR IPC_EXCL))"

context bit_vector
begin

lemma ids_inv_range: "ids_inv ops m ids \<Longrightarrow> i \<in> dom (objects ids) \<Longrightarrow> 1 \<le> i \<and> i \<le> m"
proof -
  assume inv: "ids_inv ops m ids" and i: "i \<in> dom (objects ids)"
  then have "i \<in> used_ids ops (id_allocator ids)" "id_capacity ops (id_allocator ids) = m + 1" "i \<noteq> 0"
    unfolding ids_inv_def by auto
  with pool.used_bound [of "id_allocator ids"] show "1 \<le> i \<and> i \<le> m" by auto
qed

lemma ids_new_spec:
  assumes "bv_len ops (new_bits (m + 1)) = m + 1" "\<forall>i < m + 1. \<not> bv_get ops (new_bits (m + 1)) i"
    and "m \<le> 2 ^ 31 - 1"
  shows "\<exists>ids. ids_new ops new_bits m = Return ids \<and> ids_inv ops m ids \<and> objects ids = Map.empty"
proof -
  let ?a = "with_capacity new_bits (m + 1)"
  have a: "id_inv ops ?a" "used_ids ops ?a = {}" "id_capacity ops ?a = m + 1"
    using with_capacity_inv [where new_bits = new_bits and n = "m + 1", OF bit_vector_axioms assms(1,2)] by auto
  with pool.alloc_at_law [of ?a 0] assms(3) show ?thesis
    by (auto simp: ids_new_def ids_inv_def)
qed

lemma ids_finish_spec:
  assumes inv: "ids_inv ops m ids" and a: "id_inv ops a" "id_capacity ops a = m + 1"
    and i: "i \<notin> insert 0 (dom (objects ids))" "used_ids ops a = insert i (insert 0 (dom (objects ids)))"
  shows "\<exists>ids'. ids_finish dbg ops (ids\<lparr>id_allocator := a\<rparr>) i f result
      = Return (case f i of Inl e \<Rightarrow> Inl e | Inr x \<Rightarrow> Inr result, ids')
    \<and> ids_inv ops m ids'
    \<and> objects ids' = (case f i of Inl e \<Rightarrow> objects ids | Inr x \<Rightarrow> (objects ids)(i \<mapsto> x))"
proof (cases "f i")
  case (Inl e)
  have "i \<in> used_ids ops a" using i(2) by simp
  then obtain a' where "id_free dbg ops a i = Return a'" "id_inv ops a'"
    "id_capacity ops a' = m + 1" "used_ids ops a' = insert 0 (dom (objects ids))"
    using pool.release_law [OF a(1), of i dbg] a(2) i by auto
  with Inl inv show ?thesis by (simp add: ids_finish_def ids_inv_def)
next
  case (Inr x)
  with inv a i show ?thesis by (auto simp: ids_finish_def ids_inv_def)
qed

lemma insert_auto_spec:
  assumes inv: "ids_inv ops m ids"
  shows "if dom (objects ids) = {1..m} then insert_auto dbg ops ids f = Return (Inl ENOSPC, ids)
    else \<exists>i ids'. 1 \<le> i \<and> i \<le> m \<and> i \<notin> dom (objects ids) \<and> {1..<i} \<subseteq> dom (objects ids)
      \<and> insert_auto dbg ops ids f = Return (case f i of Inl e \<Rightarrow> Inl e | Inr x \<Rightarrow> Inr i, ids')
      \<and> ids_inv ops m ids'
      \<and> objects ids' = (case f i of Inl e \<Rightarrow> objects ids | Inr x \<Rightarrow> (objects ids)(i \<mapsto> x))"
proof -
  let ?a = "id_allocator ids"
  have a: "id_inv ops ?a" "id_capacity ops ?a = m + 1" "used_ids ops ?a = insert 0 (dom (objects ids))"
    "0 \<notin> dom (objects ids)" "m \<le> 2 ^ 31 - 1"
    using inv by (auto simp: ids_inv_def)
  have full: "used_ids ops ?a = {..<id_capacity ops ?a} \<longleftrightarrow> dom (objects ids) = {1..m}"
  proof -
    have "{..<m + 1} = insert 0 {1..m}" by auto
    with a(2,3) insert_ident [OF a(4), of "{1..m}"] show ?thesis by simp
  qed
  show ?thesis
  proof (cases "dom (objects ids) = {1..m}")
    case True
    with pool.alloc_law [OF a(1)] full show ?thesis by (simp add: insert_auto_def)
  next
    case False
    then obtain i a' where i: "id_alloc ops ?a = (Some i, a')" "id_inv ops a'" "id_capacity ops a' = m + 1"
      "i < m + 1" "i \<notin> insert 0 (dom (objects ids))" "{..<i} \<subseteq> insert 0 (dom (objects ids))"
      "used_ids ops a' = insert i (insert 0 (dom (objects ids)))"
      using pool.alloc_law [OF a(1)] full a(2,3) by auto
    then have "ipc_id_new (i mod 2 ^ 32) = Return i" using a(5) by (simp add: ipc_id_new_def)
    moreover have "{1..<i} \<subseteq> dom (objects ids)" using i(6) by auto
    moreover have "1 \<le> i" "i \<le> m" using i(4,5) by auto
    moreover obtain ids' where "ids_finish dbg ops (ids\<lparr>id_allocator := a'\<rparr>) i f i
        = Return (case f i of Inl e \<Rightarrow> Inl e | Inr x \<Rightarrow> Inr i, ids')" "ids_inv ops m ids'"
      "objects ids' = (case f i of Inl e \<Rightarrow> objects ids | Inr x \<Rightarrow> (objects ids)(i \<mapsto> x))"
      using ids_finish_spec [OF inv i(2,3,5,7), of dbg f i] by blast
    ultimately have "1 \<le> i \<and> i \<le> m \<and> i \<notin> dom (objects ids) \<and> {1..<i} \<subseteq> dom (objects ids)
      \<and> insert_auto dbg ops ids f = Return (case f i of Inl e \<Rightarrow> Inl e | Inr x \<Rightarrow> Inr i, ids')
      \<and> ids_inv ops m ids'
      \<and> objects ids' = (case f i of Inl e \<Rightarrow> objects ids | Inr x \<Rightarrow> (objects ids)(i \<mapsto> x))"
      using i(1,5) by (simp add: insert_auto_def)
    with False show ?thesis by (simp only: if_False) blast
  qed
qed

lemma insert_at_spec:
  assumes inv: "ids_inv ops m ids" and i: "1 \<le> i" "i \<le> m"
  shows "\<exists>ids'. ids_inv ops m ids'
    \<and> insert_at dbg ops ids i f =
        Return (if i \<in> dom (objects ids) then Inl EEXIST
                else case f i of Inl e \<Rightarrow> Inl e | Inr x \<Rightarrow> Inr (), ids')
    \<and> objects ids' = (if i \<in> dom (objects ids) then objects ids
        else case f i of Inl e \<Rightarrow> objects ids | Inr x \<Rightarrow> (objects ids)(i \<mapsto> x))"
proof -
  let ?a = "id_allocator ids"
  have a: "id_inv ops ?a" "id_capacity ops ?a = m + 1" "used_ids ops ?a = insert 0 (dom (objects ids))"
    "0 \<notin> dom (objects ids)" "m \<le> 2 ^ 31 - 1"
    using inv by (auto simp: ids_inv_def)
  obtain a' where a': "alloc_specific ops ?a i = Return (if i \<in> used_ids ops ?a then None else Some i, a')"
    "id_inv ops a'" "id_capacity ops a' = m + 1" "used_ids ops a' = insert i (insert 0 (dom (objects ids)))"
    using pool.alloc_at_law [OF a(1), of i] a(2,3) i by auto
  show ?thesis
  proof (cases "i \<in> dom (objects ids)")
    case True
    with a a' show ?thesis by (auto simp: insert_at_def ids_inv_def)
  next
    case False
    then have "i \<notin> insert 0 (dom (objects ids))" using i(1) by auto
    from ids_finish_spec [OF inv a'(2,3) this a'(4), of dbg f "()"] show ?thesis
      using a'(1) a(3) False i(1) by (auto simp: insert_at_def)
  qed
qed

lemma ids_remove_spec:
  assumes inv: "ids_inv ops m ids"
  shows "\<exists>r ids'. ids_remove dbg ops ids i g = Return (r, ids') \<and> ids_inv ops m ids'
    \<and> (case objects ids i of
         None \<Rightarrow> r = Inl EINVAL \<and> objects ids' = objects ids
       | Some x \<Rightarrow> r = g x \<and> objects ids' = (if g x = Inr () then (objects ids)(i := None) else objects ids))"
proof (cases "objects ids i")
  case None
  with inv show ?thesis by (simp add: ids_remove_def)
next
  case (Some x)
  have a: "id_inv ops (id_allocator ids)" "i \<in> used_ids ops (id_allocator ids)" "i \<noteq> 0"
    using inv Some by (auto simp: ids_inv_def intro: gr0I)
  show ?thesis
  proof (cases "g x")
    case (Inl e)
    with inv Some show ?thesis by (simp add: ids_remove_def)
  next
    case (Inr u)
    with inv Some pool.release_law [OF a(1,2), of dbg] a(3) show ?thesis
      by (auto simp: ids_remove_def ids_inv_def)
  qed
qed

text \<open>One turn of the creation loop, and the whole loop once the other threads are quiet.\<close>

lemma create_loop_turn:
  assumes "ids_inv ops SEMMNI ids1" "ids_inv ops SEMMNI ids2" "1 \<le> semid" "semid \<le> SEMMNI"
    and "ids1 = env (2 * t) ids" "ids2 = env (2 * t + 1) ids1"
  shows "(\<exists>r ids'. create_loop dbg ops env key n flags now semid t ids = Some (Return (r, ids'))
      \<and> ids_inv ops SEMMNI ids' \<and> goc_ok key n flags r ids')
    \<or> semid \<notin> dom (objects ids1) \<and> semid \<in> dom (objects ids2)
      \<and> (\<exists>ids3. ids_inv ops SEMMNI ids3 \<and> create_loop dbg ops env key n flags now semid t ids
            = create_loop dbg ops env key n flags now semid (t + 1) ids3)"
proof (cases "objects ids1 semid")
  case (Some s)
  then have "create_loop dbg ops env key n flags now semid t ids
      = Some (Return (existing_sem_set key n flags semid s, ids1))"
    using assms(5) by (simp add: create_loop.simps [of dbg ops env key n flags now semid t] ids_with_def)
  moreover have "goc_ok key n flags (existing_sem_set key n flags semid s) ids1"
    using Some assms(3,4) by (auto simp: goc_ok_def existing_sem_set_def)
  ultimately show ?thesis using assms(1) by blast
next
  case None
  note turn = create_loop.simps [of dbg ops env key n flags now semid t ids] ids_with_def
  show ?thesis
  proof (cases "contains flags IPC_CREAT")
    case False
    with None assms show ?thesis by (auto simp: turn goc_ok_def)
  next
    case True
    obtain ids3 where ins: "ids_inv ops SEMMNI ids3"
      "insert_at dbg ops ids2 semid (\<lambda>_. sem_set_new key n now) =
        Return (if semid \<in> dom (objects ids2) then Inl EEXIST
                else case sem_set_new key n now of Inl e \<Rightarrow> Inl e | Inr x \<Rightarrow> Inr (), ids3)"
      "objects ids3 = (if semid \<in> dom (objects ids2) then objects ids2
        else case sem_set_new key n now of Inl e \<Rightarrow> objects ids2 | Inr x \<Rightarrow> (objects ids2)(semid \<mapsto> x))"
      using insert_at_spec [OF assms(2-4), of dbg "\<lambda>_. sem_set_new key n now"] by blast
    show ?thesis
    proof (cases "semid \<in> dom (objects ids2)")
      case there: True
      then have "create_loop dbg ops env key n flags now semid t ids
            = create_loop dbg ops env key n flags now semid (t + 1) ids3"
        using None True ins(2) assms(5,6) by (simp add: turn Let_def)
      with None there ins(1) show ?thesis by blast
    next
      case False
      show ?thesis
      proof (cases "sem_set_new key n now")
        case (Inl e)
        then have "e = EINVAL" by (auto simp: sem_set_new_def split: if_splits)
        with None True ins False Inl assms(5,6) show ?thesis by (auto simp: turn Let_def goc_ok_def)
      next
        case (Inr s)
        then have "perm_key s = key" "num_sems s = n" by (auto simp: sem_set_new_def split: if_splits)
        with None True ins False Inr assms(3-6) show ?thesis
          by (auto simp: turn Let_def goc_ok_def)
      qed
    qed
  qed
qed

lemma create_loop_spec:
  assumes "ids_inv ops SEMMNI ids" "1 \<le> semid" "semid \<le> SEMMNI"
    and env: "\<And>i x. ids_inv ops SEMMNI x \<Longrightarrow> ids_inv ops SEMMNI (env i x)"
    and quiet: "\<And>i x. k \<le> i \<Longrightarrow> env i x = x"
  shows "\<exists>r ids'. create_loop dbg ops env key n flags now semid t ids = Some (Return (r, ids'))
    \<and> ids_inv ops SEMMNI ids' \<and> goc_ok key n flags r ids'"
  using assms(1)
proof (induction "k - t" arbitrary: t ids rule: less_induct)
  case less
  let ?ids1 = "env (2 * t) ids" and ?ids2 = "env (2 * t + 1) (env (2 * t) ids)"
  have "ids_inv ops SEMMNI ?ids1" "ids_inv ops SEMMNI ?ids2" using less.prems env by auto
  from create_loop_turn [OF this assms(2,3) refl refl, of dbg key n flags now]
  consider (returns) "\<exists>r ids'. create_loop dbg ops env key n flags now semid t ids = Some (Return (r, ids'))
      \<and> ids_inv ops SEMMNI ids' \<and> goc_ok key n flags r ids'"
    | (again) ids3 where "semid \<notin> dom (objects ?ids1)" "semid \<in> dom (objects ?ids2)"
        "ids_inv ops SEMMNI ids3" "create_loop dbg ops env key n flags now semid t ids
            = create_loop dbg ops env key n flags now semid (t + 1) ids3"
    by blast
  then show ?case
  proof cases
    case again
    have "t < k"
    proof (rule ccontr)
      assume "\<not> t < k"
      then have "?ids2 = ?ids1" using quiet [of "2 * t + 1"] by simp
      with again(1,2) show False by simp
    qed
    then have "k - (t + 1) < k - t" by simp
    from less.hyps [OF this again(3)] again(4) show ?thesis by simp
  qed simp
qed

lemma get_or_create_spec:
  assumes inv: "ids_inv ops SEMMNI ids"
    and env: "\<And>i x. ids_inv ops SEMMNI x \<Longrightarrow> ids_inv ops SEMMNI (env i x)"
    and quiet: "\<And>i x. k \<le> i \<Longrightarrow> env i x = x"
  shows "\<exists>r ids'. get_or_create_sem_set dbg ops env ids key n flags now = Some (Return (r, ids'))
    \<and> ids_inv ops SEMMNI ids' \<and> goc_ok key n flags r ids'"
proof (cases "key = IPC_PRIVATE")
  case False
  let ?semid = "nat (key mod 2 ^ 32) mod SEMMNI + 1"
  have id: "1 \<le> ?semid" "?semid \<le> SEMMNI" by (simp_all add: SEMMNI_def Suc_le_eq)
  then have "ipc_id_new ?semid = Return ?semid" by (simp add: ipc_id_new_def SEMMNI_def)
  with False create_loop_spec [where t = 0 and key = key and n = n and flags = flags and now = now
      and dbg = dbg and k = k, OF inv id env quiet] show ?thesis
    by (simp add: get_or_create_sem_set_def)
next
  case True
  show ?thesis
  proof (cases "dom (objects ids) = {1..SEMMNI}")
    case full: True
    with insert_auto_spec [OF inv, of dbg] True inv show ?thesis
      by (simp add: get_or_create_sem_set_def create_sem_set_def goc_ok_def)
  next
    case False
    with insert_auto_spec [OF inv, of dbg "\<lambda>_. sem_set_new IPC_PRIVATE n now"] obtain i ids' where
      i: "1 \<le> i" "i \<le> SEMMNI" "ids_inv ops SEMMNI ids'"
      "create_sem_set dbg ops ids n now
        = Return (case sem_set_new IPC_PRIVATE n now of Inl e \<Rightarrow> Inl e | Inr x \<Rightarrow> Inr i, ids')"
      "objects ids' = (case sem_set_new IPC_PRIVATE n now of Inl e \<Rightarrow> objects ids
        | Inr x \<Rightarrow> (objects ids)(i \<mapsto> x))"
      unfolding create_sem_set_def by (simp only: if_False) blast
    have "goc_ok key n flags (case sem_set_new IPC_PRIVATE n now of Inl e \<Rightarrow> Inl e | Inr x \<Rightarrow> Inr i) ids'"
      using i(1,2,5) True by (auto simp: goc_ok_def sem_set_new_def)
    with i(3,4) True show ?thesis by (simp add: get_or_create_sem_set_def)
  qed
qed

end

section \<open>Properties\<close>

text \<open>
  C26. Creating by key returns and gives the right set, whatever other threads do. Suppose the
  other threads keep the table well formed at each point where the lock is free and are quiet
  from some point on. Then \<open>get_or_create_sem_set\<close> returns without a panic; on success the table
  has, at the returned identifier in 1..SEMMNI, a set with that key and at least the requested
  number of semaphores; and \<open>EEXIST\<close> reaches the caller only if both creation flags were given,
  never because of a lost race.
\<close>

theorem get_or_create_returns:
  assumes "bit_vector ops" "ids_inv ops SEMMNI ids"
    and "\<And>i x. ids_inv ops SEMMNI x \<Longrightarrow> ids_inv ops SEMMNI (env i x)"
    and "\<And>i x. k \<le> i \<Longrightarrow> env i x = x"
  shows "\<exists>r ids'. get_or_create_sem_set dbg ops env ids key n flags now = Some (Return (r, ids'))
    \<and> ids_inv ops SEMMNI ids'
    \<and> (case r of
         Inr i \<Rightarrow> 1 \<le> i \<and> i \<le> SEMMNI
           \<and> (\<exists>s. objects ids' i = Some s \<and> perm_key s = key \<and> n \<le> num_sems s)
       | Inl e \<Rightarrow> e \<in> {EINVAL, ENOSPC, ENOENT}
           \<or> e = EEXIST \<and> contains flags (IPC_CREAT OR IPC_EXCL))"
proof -
  obtain r ids' where r: "get_or_create_sem_set dbg ops env ids key n flags now = Some (Return (r, ids'))"
    "ids_inv ops SEMMNI ids'" "goc_ok key n flags r ids'"
    using bit_vector.get_or_create_spec [where dbg = dbg and key = key and n = n and flags = flags
        and now = now and env = env and k = k, OF assms] by blast
  from r(3) have "case r of
         Inr i \<Rightarrow> 1 \<le> i \<and> i \<le> SEMMNI
           \<and> (\<exists>s. objects ids' i = Some s \<and> perm_key s = key \<and> n \<le> num_sems s)
       | Inl e \<Rightarrow> e \<in> {EINVAL, ENOSPC, ENOENT}
           \<or> e = EEXIST \<and> contains flags (IPC_CREAT OR IPC_EXCL)"
    by (auto simp: goc_ok_def split: sum.splits option.splits)
  with r(1,2) show ?thesis by blast
qed

definition empty_ids :: "nat \<Rightarrow> (bool list, 't) IpcIds" where
  "empty_ids m = \<lparr>objects = Map.empty,
     id_allocator = \<lparr>bitset = True # replicate m False, first_available_id = 1\<rparr>\<rparr>"

lemma empty_ids_inv: "m \<le> 2 ^ 31 - 1 \<Longrightarrow> ids_inv bool_ops m (empty_ids m)"
proof -
  assume "m \<le> 2 ^ 31 - 1"
  moreover have "(True # replicate m False) ! i \<longleftrightarrow> i = 0" if "i < m + 1" for i
    using that by (cases i) auto
  ultimately show ?thesis
    by (auto simp: ids_inv_def empty_ids_def id_inv_def id_capacity_def used_ids_def bool_ops_def)
qed

theorem get_or_create_returns_witness:
  "\<exists>r ids'. get_or_create_sem_set True bool_ops (\<lambda>_ x. x) (empty_ids SEMMNI) 7 2 IPC_CREAT 0
     = Some (Return (r, ids')) \<and> ids_inv bool_ops SEMMNI ids'"
proof -
  have "ids_inv bool_ops SEMMNI (empty_ids SEMMNI)" by (rule empty_ids_inv) (simp add: SEMMNI_def)
  from get_or_create_returns [OF bools.bit_vector_axioms this, where env = "\<lambda>_ x. x" and k = 0 and dbg = True
      and key = 7 and n = 2 and flags = IPC_CREAT and now = 0]
  show ?thesis by auto
qed

text \<open>
  The identifier table is exact. Inserting an object fails with \<open>ENOSPC\<close> if and only if all
  identifiers are taken; otherwise it uses the least free identifier, and a failing constructor
  leaves the objects as they were with the identifier given back. Removing an object just
  inserted restores the table's contents. None of this panics, with or without debug assertions.
\<close>

lemma ipc_table_exact:
  assumes "bit_vector ops" "ids_inv ops m ids"
  shows "if dom (objects ids) = {1..m} then insert_auto dbg ops ids f = Return (Inl ENOSPC, ids)
    else \<exists>i ids'. 1 \<le> i \<and> i \<le> m \<and> i \<notin> dom (objects ids) \<and> {1..<i} \<subseteq> dom (objects ids)
      \<and> insert_auto dbg ops ids f = Return (case f i of Inl e \<Rightarrow> Inl e | Inr x \<Rightarrow> Inr i, ids')
      \<and> ids_inv ops m ids'
      \<and> (case f i of
           Inl e \<Rightarrow> objects ids' = objects ids
         | Inr x \<Rightarrow> objects ids' = (objects ids)(i \<mapsto> x)
             \<and> (\<exists>ids''. ids_remove dbg ops ids' i (\<lambda>_. Inr ()) = Return (Inr (), ids'')
                  \<and> ids_inv ops m ids'' \<and> objects ids'' = objects ids))"
proof (cases "dom (objects ids) = {1..m}")
  case True
  with bit_vector.insert_auto_spec [OF assms, of dbg f] show ?thesis by simp
next
  case False
  with bit_vector.insert_auto_spec [OF assms, of dbg f] obtain i ids' where
    i: "1 \<le> i" "i \<le> m" "i \<notin> dom (objects ids)" "{1..<i} \<subseteq> dom (objects ids)"
    "insert_auto dbg ops ids f = Return (case f i of Inl e \<Rightarrow> Inl e | Inr x \<Rightarrow> Inr i, ids')"
    "ids_inv ops m ids'"
    "objects ids' = (case f i of Inl e \<Rightarrow> objects ids | Inr x \<Rightarrow> (objects ids)(i \<mapsto> x))"
    by (simp only: if_False) blast
  have "case f i of
           Inl e \<Rightarrow> objects ids' = objects ids
         | Inr x \<Rightarrow> objects ids' = (objects ids)(i \<mapsto> x)
             \<and> (\<exists>ids''. ids_remove dbg ops ids' i (\<lambda>_. Inr ()) = Return (Inr (), ids'')
                  \<and> ids_inv ops m ids'' \<and> objects ids'' = objects ids)"
  proof (cases "f i")
    case (Inr x)
    have "(objects ids)(i := None) = objects ids" using i(3) by (auto simp: fun_eq_iff)
    with Inr i(7) bit_vector.ids_remove_spec [OF assms(1) i(6), of dbg i "\<lambda>_. Inr ()"] show ?thesis
      by auto
  qed (simp add: i(7))
  with False i(1-6) show ?thesis by (simp only: if_False) blast
qed

lemma ipc_table_exact_witness:
  "\<exists>i ids'. insert_auto True bool_ops (empty_ids 3) (\<lambda>_. Inr ''set'') = Return (Inr i, ids')
     \<and> objects ids' i = Some ''set''"
proof -
  let ?ids = "empty_ids 3 :: (bool list, string) IpcIds"
  have inv: "ids_inv bool_ops 3 ?ids" by (rule empty_ids_inv) simp
  have "dom (objects ?ids) \<noteq> {1..3}" by (simp add: empty_ids_def)
  with ipc_table_exact [OF bools.bit_vector_axioms inv, of True "\<lambda>_. Inr ''set''"] show ?thesis
    by auto
qed

end
