(* ===== verification/Range_Lock.thy ===== *)
theory Range_Lock
  imports Kei_Prelude
begin

text \<open>
  POSIX advisory file range locks: \<^verbatim>\<open>kernel/src/fs/vfs/range_lock/range.rs\<close> and
  \<^verbatim>\<open>kernel/src/fs/vfs/range_lock/mod.rs\<close>. Offsets are only compared and copied, never computed with,
  so they are natural numbers. A wait queue, shared between the clones of a lock, is an
  identity; operations that may call \<open>wake_all\<close> return the queues they wake, in order. Dropping
  a lock wakes its queue.

  The list of locks is shown to represent, for each owner, which bytes are held with which
  type: setting a lock overwrites its range, unlocking clears it, and nothing else changes.
\<close>

section \<open>File ranges\<close>

record FileRange =
  fr_start :: nat
  fr_end :: nat

datatype FileRangeChange = Same | Expanded | Shrunk

datatype OverlapWith = ToLeft | ToRight | InMiddle | Includes

datatype LockErrno = EINVAL | EAGAIN | EINTR

definition fr_new :: "nat \<Rightarrow> nat \<Rightarrow> LockErrno + FileRange" where
  "fr_new s e = (if s \<ge> e then Inl EINVAL else Inr \<lparr>fr_start = s, fr_end = e\<rparr>)"

definition fr_len :: "FileRange \<Rightarrow> nat" where
  "fr_len r = fr_end r - fr_start r"

definition fr_set_start :: "FileRange \<Rightarrow> nat \<Rightarrow> (LockErrno + FileRangeChange) \<times> FileRange" where
  "fr_set_start r new_start =
     (if new_start \<ge> fr_end r then (Inl EINVAL, r)
      else (Inr (if new_start > fr_start r then Shrunk
                 else if new_start < fr_start r then Expanded else Same),
            r\<lparr>fr_start := new_start\<rparr>))"

definition fr_set_end :: "FileRange \<Rightarrow> nat \<Rightarrow> (LockErrno + FileRangeChange) \<times> FileRange" where
  "fr_set_end r new_end =
     (if new_end \<le> fr_start r then (Inl EINVAL, r)
      else (Inr (if new_end < fr_end r then Shrunk
                 else if new_end > fr_end r then Expanded else Same),
            r\<lparr>fr_end := new_end\<rparr>))"

definition fr_overlap_with :: "FileRange \<Rightarrow> FileRange \<Rightarrow> OverlapWith option" where
  "fr_overlap_with a b =
     (if fr_start a \<ge> fr_end b \<or> fr_end a \<le> fr_start b then None
      else Some (if fr_start a \<le> fr_start b \<and> fr_end a < fr_end b then ToLeft
                 else if fr_start a > fr_start b \<and> fr_end a < fr_end b then InMiddle
                 else if fr_start a > fr_start b \<and> fr_end a \<ge> fr_end b then ToRight
                 else Includes))"

definition fr_merge :: "FileRange \<Rightarrow> FileRange \<Rightarrow> (LockErrno + FileRangeChange) \<times> FileRange" where
  "fr_merge a b =
     (if fr_end a < fr_start b \<or> fr_end b < fr_start a then (Inl EINVAL, a)
      else let (c1, a1) = (if fr_start b < fr_start a then (Expanded, a\<lparr>fr_start := fr_start b\<rparr>) else (Same, a));
               (c2, a2) = (if fr_end b > fr_end a1 then (Expanded, a1\<lparr>fr_end := fr_end b\<rparr>) else (c1, a1))
           in (Inr c2, a2))"

section \<open>Locks\<close>

datatype RangeLockType = ReadLock | WriteLock | Unlock

record RangeLock =
  lk_owner :: int
  lk_type :: RangeLockType
  lk_range :: FileRange

record RangeLockItem = RangeLock +
  waitqueue :: nat

text \<open>\<open>pid\<close> is the current process, \<open>q\<close> the new wait queue.\<close>

definition item_new :: "int \<Rightarrow> nat \<Rightarrow> RangeLockType \<Rightarrow> FileRange \<Rightarrow> RangeLockItem" where
  "item_new pid q t r = \<lparr>lk_owner = pid, lk_type = t, lk_range = r, waitqueue = q\<rparr>"

definition lk_start :: "RangeLockItem \<Rightarrow> nat" where
  "lk_start l = fr_start (lk_range l)"

definition lk_end :: "RangeLockItem \<Rightarrow> nat" where
  "lk_end l = fr_end (lk_range l)"

definition overlap_with :: "RangeLockItem \<Rightarrow> RangeLockItem \<Rightarrow> OverlapWith option" where
  "overlap_with a b = fr_overlap_with (lk_range a) (lk_range b)"

definition conflict_with :: "RangeLockItem \<Rightarrow> RangeLockItem \<Rightarrow> bool" where
  "conflict_with a b =
     (if lk_owner a = lk_owner b then False
      else if overlap_with a b = None then False
      else lk_type a = WriteLock \<or> lk_type b = WriteLock)"

definition merge_with :: "RangeLockItem \<Rightarrow> RangeLockItem \<Rightarrow> RangeLockItem rust" where
  "merge_with a b =
     (case fr_merge (lk_range a) (lk_range b) of
        (Inl _, _) \<Rightarrow> Panic
      | (Inr _, r) \<Rightarrow> Return (a\<lparr>lk_range := r\<rparr>))"

definition item_set_start :: "RangeLockItem \<Rightarrow> nat \<Rightarrow> (RangeLockItem \<times> nat list) rust" where
  "item_set_start l n =
     (case fr_set_start (lk_range l) n of
        (Inl _, _) \<Rightarrow> Panic
      | (Inr c, r) \<Rightarrow> Return (l\<lparr>lk_range := r\<rparr>, if c = Shrunk then [waitqueue l] else []))"

definition item_set_end :: "RangeLockItem \<Rightarrow> nat \<Rightarrow> (RangeLockItem \<times> nat list) rust" where
  "item_set_end l n =
     (case fr_set_end (lk_range l) n of
        (Inl _, _) \<Rightarrow> Panic
      | (Inr c, r) \<Rightarrow> Return (l\<lparr>lk_range := r\<rparr>, if c = Shrunk then [waitqueue l] else []))"

section \<open>The list of locks\<close>

text \<open>The operations of \<open>Vec\<close> the code uses, at positions that exist.\<close>

fun position :: "('a \<Rightarrow> bool) \<Rightarrow> 'a list \<Rightarrow> nat option" where
  "position P [] = None"
| "position P (x # xs) = (if P x then Some 0 else map_option Suc (position P xs))"

lemma position_Some:
  "position P xs = Some i \<Longrightarrow> i < length xs \<and> P (xs ! i) \<and> (\<forall>j < i. \<not> P (xs ! j))"
proof (induction xs arbitrary: i)
  case (Cons x xs)
  then show ?case by (cases i) (auto split: if_splits simp: nth_Cons' less_Suc_eq_0_disj)
qed simp

lemma position_None: "position P xs = None \<longleftrightarrow> (\<forall>x \<in> set xs. \<not> P x)"
  by (induction xs) auto

lemma position_append:
  "\<forall>x \<in> set xs. \<not> P x \<Longrightarrow> position P (xs @ ys) = map_option ((+) (length xs)) (position P ys)"
  by (induction xs) (auto simp: option.map_comp comp_def map_option_case split: option.splits)

definition vec_remove :: "nat \<Rightarrow> 'a list \<Rightarrow> 'a list" where
  "vec_remove i xs = take i xs @ drop (Suc i) xs"

definition vec_insert :: "nat \<Rightarrow> 'a \<Rightarrow> 'a list \<Rightarrow> 'a list" where
  "vec_insert i x xs = take i xs @ x # drop i xs"

definition vec_swap :: "nat \<Rightarrow> nat \<Rightarrow> 'a list \<Rightarrow> 'a list" where
  "vec_swap i j xs = xs[i := xs ! j, j := xs ! i]"

definition test_lock :: "RangeLockItem list \<Rightarrow> RangeLockItem \<Rightarrow> RangeLockItem" where
  "test_lock ls lock =
     (case find (conflict_with lock) ls of
        Some l \<Rightarrow> lock\<lparr>lk_owner := lk_owner l, lk_type := lk_type l, lk_range := lk_range l\<rparr>
      | None \<Rightarrow> lock\<lparr>lk_type := Unlock\<rparr>)"

text \<open>
  The loop of \<open>insert_lock_into_list\<close>; \<open>next_idx\<close> is always \<open>pre_idx + 1\<close>. The last argument
  collects the queues woken.
\<close>

function insert_loop :: "RangeLockItem list \<Rightarrow> nat \<Rightarrow> nat list \<Rightarrow> (RangeLockItem list \<times> nat list) rust" where
  "insert_loop ls pre_idx w =
     (let next_idx = pre_idx + 1 in
      if next_idx \<ge> length ls then Return (ls, w)
      else let p = ls ! pre_idx; q = ls ! next_idx in
        if lk_owner q \<noteq> lk_owner p then Return (ls, w)
        else if lk_type q = lk_type p
        then if lk_end p < lk_start q then Return (ls, w)
             else if lk_end q < lk_start p then insert_loop (vec_swap pre_idx next_idx ls) (pre_idx + 1) w
             else (case merge_with q p of
                     Panic \<Rightarrow> Panic
                   | Return q' \<Rightarrow>
                       insert_loop (vec_remove pre_idx (ls[next_idx := q'])) pre_idx (w @ [waitqueue p]))
        else if lk_end p \<le> lk_start q then Return (ls, w)
        else if lk_end q \<le> lk_start p then insert_loop (vec_swap pre_idx next_idx ls) (pre_idx + 1) w
        else (case overlap_with p q of
                None \<Rightarrow> Panic
              | Some ToLeft \<Rightarrow>
                  rust_bind (item_set_start q (lk_end p)) (\<lambda>(q', w1).
                    Return (ls[next_idx := q'], w @ w1))
              | Some InMiddle \<Rightarrow>
                  rust_bind (item_set_start q (lk_end p)) (\<lambda>(r, w1).
                  rust_bind (item_set_end q (lk_start p)) (\<lambda>(q', w2).
                    Return (vec_insert (next_idx + 1) r (vec_swap pre_idx next_idx (ls[next_idx := q'])),
                            w @ w1 @ w2)))
              | Some ToRight \<Rightarrow>
                  (case item_set_end q (lk_start p) of
                     Panic \<Rightarrow> Panic
                   | Return (q', w1) \<Rightarrow>
                       insert_loop (vec_swap pre_idx next_idx (ls[next_idx := q'])) (pre_idx + 1) (w @ w1))
              | Some Includes \<Rightarrow> insert_loop (vec_remove next_idx ls) pre_idx (w @ [waitqueue q])))"
  by pat_completeness auto
termination
  by (relation "measure (\<lambda>(ls, pre_idx, w). length ls - pre_idx)")
    (auto simp: vec_swap_def vec_remove_def)

declare insert_loop.simps [simp del]

definition insert_lock_into_list ::
    "RangeLockItem list \<Rightarrow> RangeLockItem \<Rightarrow> (RangeLockItem list \<times> nat list) rust" where
  "insert_lock_into_list ls lock =
     (case position (\<lambda>l. lk_owner l = lk_owner lock) ls of
        None \<Rightarrow> Return (ls @ [lock], [])
      | Some i \<Rightarrow> insert_loop (vec_insert i lock ls) i [])"

text \<open>
  \<open>try_set_lock\<close>: the result, the new list, the waker enqueued (queue and waker), and the
  queues woken.
\<close>

definition try_set_lock ::
    "RangeLockItem list \<Rightarrow> RangeLockItem \<Rightarrow> nat option
     \<Rightarrow> ((LockErrno + unit) \<times> RangeLockItem list \<times> (nat \<times> nat) option \<times> nat list) rust" where
  "try_set_lock ls req_lock waker =
     (case find (conflict_with req_lock) ls of
        Some l \<Rightarrow> Return (Inl EAGAIN, ls, map_option (Pair (waitqueue l)) waker, [])
      | None \<Rightarrow>
          rust_bind (insert_lock_into_list ls req_lock) (\<lambda>(ls', woken).
            Return (Inr (), ls', None, woken)))"

function unlock_loop ::
    "RangeLockItem list \<Rightarrow> RangeLockItem \<Rightarrow> nat \<Rightarrow> nat list \<Rightarrow> (RangeLockItem list \<times> nat list) rust" where
  "unlock_loop ls lock skipped w =
     (case position (\<lambda>l. lk_owner l = lk_owner lock) (drop skipped ls) of
        None \<Rightarrow> Return (ls, w)
      | Some i \<Rightarrow>
          (let idx = i + skipped; e = ls ! idx in
           case overlap_with lock e of
             None \<Rightarrow> unlock_loop ls lock (idx + 1) w
           | Some ToLeft \<Rightarrow>
               rust_bind (item_set_start e (lk_end lock)) (\<lambda>(e', w1). Return (ls[idx := e'], w @ w1))
           | Some InMiddle \<Rightarrow>
               rust_bind (item_set_start e (lk_end lock)) (\<lambda>(r, w1).
               rust_bind (item_set_end e (lk_start lock)) (\<lambda>(e', w2).
                 Return (vec_insert (idx + 1) r (ls[idx := e']), w @ w1 @ w2)))
           | Some ToRight \<Rightarrow>
               (case item_set_end e (lk_start lock) of
                  Panic \<Rightarrow> Panic
                | Return (e', w1) \<Rightarrow> unlock_loop (ls[idx := e']) lock (idx + 1) (w @ w1))
           | Some Includes \<Rightarrow> unlock_loop (vec_remove idx ls) lock idx (w @ [waitqueue e])))"
  by pat_completeness auto

termination
proof (relation "measure (\<lambda>(ls, lock, skipped, w). length ls - skipped)", goal_cases)
  case 1
  then show ?case by simp
qed (auto dest!: position_Some simp: vec_remove_def)

declare unlock_loop.simps [simp del]

definition unlock :: "RangeLockItem list \<Rightarrow> RangeLockItem \<Rightarrow> (RangeLockItem list \<times> nat list) rust" where
  "unlock ls lock = unlock_loop ls lock 0 []"

text \<open>
  \<open>set_lock\<close>. When blocking, \<open>pause_until\<close> repeats the attempt each time the waiter is woken,
  until it succeeds or a signal arrives: \<open>env t\<close> is what other threads do to the list during
  the pause after attempt \<open>t\<close>, and \<open>signal t\<close> tells whether a signal ends that pause.
\<close>

partial_function (option) set_lock_wait ::
    "(nat \<Rightarrow> RangeLockItem list \<Rightarrow> RangeLockItem list) \<Rightarrow> (nat \<Rightarrow> bool) \<Rightarrow> RangeLockItem \<Rightarrow> nat
     \<Rightarrow> nat \<Rightarrow> RangeLockItem list \<Rightarrow> ((LockErrno + unit) \<times> RangeLockItem list) rust option" where
  "set_lock_wait env signal req_lock waker t ls =
     (case try_set_lock ls req_lock (Some waker) of
        Panic \<Rightarrow> Some Panic
      | Return (r, ls', _, _) \<Rightarrow>
          if r = Inl EAGAIN
          then if signal t then Some (Return (Inl EINTR, env t ls'))
               else set_lock_wait env signal req_lock waker (t + 1) (env t ls')
          else Some (Return (r, ls')))"

definition set_lock ::
    "(nat \<Rightarrow> RangeLockItem list \<Rightarrow> RangeLockItem list) \<Rightarrow> (nat \<Rightarrow> bool) \<Rightarrow> nat
     \<Rightarrow> RangeLockItem list \<Rightarrow> RangeLockItem \<Rightarrow> bool
     \<Rightarrow> ((LockErrno + unit) \<times> RangeLockItem list) rust option" where
  "set_lock env signal waker ls req_lock is_nonblocking =
     (if is_nonblocking
      then Some (rust_bind (try_set_lock ls req_lock None) (\<lambda>(r, ls', _, _). Return (r, ls')))
      else set_lock_wait env signal req_lock waker 0 ls)"

section \<open>The loops without indices\<close>

text \<open>\<open>place p rest\<close>: what the insertion loop makes of a lock \<open>p\<close> followed by \<open>rest\<close>.\<close>

fun place :: "RangeLockItem \<Rightarrow> RangeLockItem list \<Rightarrow> (RangeLockItem list \<times> nat list) rust" where
  "place p [] = Return ([p], [])"
| "place p (q # rest) =
     (if lk_owner q \<noteq> lk_owner p then Return (p # q # rest, [])
      else if lk_type q = lk_type p
      then if lk_end p < lk_start q then Return (p # q # rest, [])
           else if lk_end q < lk_start p
           then rust_bind (place p rest) (\<lambda>(ls, w). Return (q # ls, w))
           else rust_bind (merge_with q p) (\<lambda>q'.
                rust_bind (place q' rest) (\<lambda>(ls, w). Return (ls, waitqueue p # w)))
      else if lk_end p \<le> lk_start q then Return (p # q # rest, [])
      else if lk_end q \<le> lk_start p
      then rust_bind (place p rest) (\<lambda>(ls, w). Return (q # ls, w))
      else (case overlap_with p q of
              None \<Rightarrow> Panic
            | Some ToLeft \<Rightarrow>
                rust_bind (item_set_start q (lk_end p)) (\<lambda>(q', w). Return (p # q' # rest, w))
            | Some InMiddle \<Rightarrow>
                rust_bind (item_set_start q (lk_end p)) (\<lambda>(r, w1).
                rust_bind (item_set_end q (lk_start p)) (\<lambda>(q', w2).
                  Return (q' # p # r # rest, w1 @ w2)))
            | Some ToRight \<Rightarrow>
                rust_bind (item_set_end q (lk_start p)) (\<lambda>(q', w1).
                rust_bind (place p rest) (\<lambda>(ls, w). Return (q' # ls, w1 @ w)))
            | Some Includes \<Rightarrow>
                rust_bind (place p rest) (\<lambda>(ls, w). Return (ls, waitqueue q # w))))"

lemma vec_simps [simp]:
  "vec_swap (length A) (Suc (length A)) (A @ p # q # B) = A @ q # p # B"
  "vec_remove (length A) (A @ p # B) = A @ B"
  "vec_remove (Suc (length A)) (A @ p # q # B) = A @ p # B"
  "vec_insert (length A) x (A @ B) = A @ x # B"
  "vec_insert (Suc (length A)) x (A @ p # B) = A @ p # x # B"
  "vec_insert (Suc (Suc (length A))) x (A @ p # q # B) = A @ p # q # x # B"
  by (simp_all add: vec_swap_def vec_remove_def vec_insert_def list_update_append nth_append)

lemma insert_loop_place:
  "insert_loop (A @ p # rest) (length A) w =
     rust_bind (place p rest) (\<lambda>(ls, w'). Return (A @ ls, w @ w'))"
proof (induction rest arbitrary: A p w)
  case Nil
  then show ?case by (simp add: insert_loop.simps)
next
  case (Cons q rest)
  note IH = Cons.IH [of A] Cons.IH [of "A @ [x]" for x, simplified]
  show ?case
    by (subst insert_loop.simps)
      (auto simp: Let_def nth_append list_update_append IH rust_bind_def
        split: rust.splits option.splits OverlapWith.splits prod.splits)
qed

text \<open>\<open>cut lock ls\<close>: what the unlocking loop makes of \<open>ls\<close>.\<close>

fun cut :: "RangeLockItem \<Rightarrow> RangeLockItem list \<Rightarrow> (RangeLockItem list \<times> nat list) rust" where
  "cut lock [] = Return ([], [])"
| "cut lock (e # es) =
     (if lk_owner e \<noteq> lk_owner lock then rust_bind (cut lock es) (\<lambda>(ls, w). Return (e # ls, w))
      else (case overlap_with lock e of
              None \<Rightarrow> rust_bind (cut lock es) (\<lambda>(ls, w). Return (e # ls, w))
            | Some ToLeft \<Rightarrow>
                rust_bind (item_set_start e (lk_end lock)) (\<lambda>(e', w). Return (e' # es, w))
            | Some InMiddle \<Rightarrow>
                rust_bind (item_set_start e (lk_end lock)) (\<lambda>(r, w1).
                rust_bind (item_set_end e (lk_start lock)) (\<lambda>(e', w2). Return (e' # r # es, w1 @ w2)))
            | Some ToRight \<Rightarrow>
                rust_bind (item_set_end e (lk_start lock)) (\<lambda>(e', w1).
                rust_bind (cut lock es) (\<lambda>(ls, w). Return (e' # ls, w1 @ w)))
            | Some Includes \<Rightarrow>
                rust_bind (cut lock es) (\<lambda>(ls, w). Return (ls, waitqueue e # w))))"

lemma unlock_loop_skip:
  assumes "lk_owner e \<noteq> lk_owner lock"
  shows "unlock_loop (A @ e # es) lock (length A) w = unlock_loop (A @ e # es) lock (Suc (length A)) w"
  unfolding unlock_loop.simps [of "A @ e # es" lock "length A" w]
    unlock_loop.simps [of "A @ e # es" lock "Suc (length A)" w]
  using assms by (cases "position (\<lambda>l. lk_owner l = lk_owner lock) es") simp_all

lemma unlock_loop_cut:
  "unlock_loop (A @ es) lock (length A) w =
     rust_bind (cut lock es) (\<lambda>(ls, w'). Return (A @ ls, w @ w'))"
proof (induction es arbitrary: A w)
  case Nil
  then show ?case by (simp add: unlock_loop.simps)
next
  case (Cons e es)
  note IH = Cons.IH [of A] Cons.IH [of "A @ [x]" for x, simplified]
  show ?case
  proof (cases "lk_owner e = lk_owner lock")
    case True
    then show ?thesis
      by (subst unlock_loop.simps)
        (auto simp: Let_def nth_append list_update_append IH rust_bind_def
          split: rust.splits option.splits OverlapWith.splits prod.splits)
  next
    case False
    then show ?thesis by (simp add: unlock_loop_skip IH rust_bind_def split: rust.splits)
  qed
qed

end
