(* ===== verification/Range_Lock_Spec.thy ===== *)
theory Range_Lock_Spec
  imports Range_Lock
begin

text \<open>
  The meaning of the range lock list: for each owner a group of sorted, disjoint locks, of which
  no two adjacent ones have the same type. One lemma per case of the insertion and of the
  unlocking loop shows how the bytes held change and that no waiter is left on a queue that
  nobody will wake.
\<close>

section \<open>Locks of one owner\<close>

definition valid_lock :: "RangeLockItem \<Rightarrow> bool" where
  "valid_lock l \<longleftrightarrow> lk_start l < lk_end l"

definition covers :: "RangeLockItem \<Rightarrow> nat \<Rightarrow> bool" where
  "covers l x \<longleftrightarrow> lk_start l \<le> x \<and> x < lk_end l"

text \<open>\<open>l\<close> may stand before \<open>m\<close>: disjoint, and not even adjacent if the types agree.\<close>

definition before :: "RangeLockItem \<Rightarrow> RangeLockItem \<Rightarrow> bool" where
  "before l m \<longleftrightarrow> lk_end l \<le> lk_start m \<and> (lk_type l = lk_type m \<longrightarrow> lk_end l < lk_start m)"

definition group_ok :: "int \<Rightarrow> RangeLockItem list \<Rightarrow> bool" where
  "group_ok o' ls \<longleftrightarrow> sorted_wrt before ls \<and> (\<forall>l \<in> set ls. valid_lock l \<and> lk_owner l = o')"

definition has_type :: "RangeLockItem list \<Rightarrow> nat \<Rightarrow> RangeLockType \<Rightarrow> bool" where
  "has_type ls x t \<longleftrightarrow> (\<exists>l \<in> set ls. lk_type l = t \<and> covers l x)"

text \<open>The queue of \<open>l\<close> is still that of a lock that includes \<open>l\<close>.\<close>

definition kept_in :: "RangeLockItem list \<Rightarrow> RangeLockItem \<Rightarrow> bool" where
  "kept_in ls l \<longleftrightarrow> (\<exists>m \<in> set ls. waitqueue m = waitqueue l \<and> lk_owner m = lk_owner l
     \<and> lk_type m = lk_type l \<and> lk_start m \<le> lk_start l \<and> lk_end l \<le> lk_end m)"

lemma with_range [simp]:
  "lk_start (l\<lparr>lk_range := r\<rparr>) = fr_start r" "lk_end (l\<lparr>lk_range := r\<rparr>) = fr_end r"
  by (simp_all add: lk_start_def lk_end_def)

lemma merge_with_eq:
  "lk_start q \<le> lk_end p \<Longrightarrow> lk_start p \<le> lk_end q \<Longrightarrow>
   merge_with q p = Return (q\<lparr>lk_range := \<lparr>fr_start = min (lk_start q) (lk_start p),
                                        fr_end = max (lk_end q) (lk_end p)\<rparr>\<rparr>)"
  by (auto simp: merge_with_def fr_merge_def lk_start_def lk_end_def Let_def)

lemma item_set_start_eq:
  "lk_start l < n \<Longrightarrow> n < lk_end l \<Longrightarrow>
   item_set_start l n = Return (l\<lparr>lk_range := \<lparr>fr_start = n, fr_end = lk_end l\<rparr>\<rparr>, [waitqueue l])"
  by (simp add: item_set_start_def fr_set_start_def lk_start_def lk_end_def)

lemma item_set_end_eq:
  "lk_start l < n \<Longrightarrow> n < lk_end l \<Longrightarrow>
   item_set_end l n = Return (l\<lparr>lk_range := \<lparr>fr_start = lk_start l, fr_end = n\<rparr>\<rparr>, [waitqueue l])"
  by (simp add: item_set_end_def fr_set_end_def lk_start_def lk_end_def)

lemma overlap_with_eq:
  "overlap_with a b =
     (if lk_end b \<le> lk_start a \<or> lk_end a \<le> lk_start b then None
      else Some (if lk_start a \<le> lk_start b then if lk_end a < lk_end b then ToLeft else Includes
                 else if lk_end a < lk_end b then InMiddle else ToRight))"
  by (auto simp: overlap_with_def fr_overlap_with_def lk_start_def lk_end_def)

text \<open>What placing \<open>p\<close> in a group of its owner yields.\<close>

definition placed ::
    "RangeLockItem \<Rightarrow> RangeLockItem list \<Rightarrow> RangeLockItem list \<Rightarrow> nat list \<Rightarrow> bool" where
  "placed p G G' w \<longleftrightarrow> group_ok (lk_owner p) G' \<and> G' \<noteq> []
     \<and> (\<forall>q. before q p \<and> (\<forall>s \<in> set G. before q s) \<longrightarrow> (\<forall>r \<in> set G'. before q r))
     \<and> (\<forall>x t. has_type G' x t \<longleftrightarrow> (if covers p x then t = lk_type p else has_type G x t))
     \<and> (\<forall>l \<in> set (p # G). waitqueue l \<in> set w \<or> kept_in G' l)"

lemma group_ok_Cons:
  "group_ok u (l # ls) \<longleftrightarrow> valid_lock l \<and> lk_owner l = u \<and> (\<forall>m \<in> set ls. before l m) \<and> group_ok u ls"
  by (auto simp: group_ok_def)

lemma has_type_Cons: "has_type (l # ls) x t \<longleftrightarrow> lk_type l = t \<and> covers l x \<or> has_type ls x t"
  by (auto simp: has_type_def)

lemma kept_in_Cons:
  "kept_in (m # ls) l \<longleftrightarrow> waitqueue m = waitqueue l \<and> lk_owner m = lk_owner l
     \<and> lk_type m = lk_type l \<and> lk_start m \<le> lk_start l \<and> lk_end l \<le> lk_end m \<or> kept_in ls l"
  by (auto simp: kept_in_def)

lemma kept_in_self: "l \<in> set ls \<Longrightarrow> kept_in ls l"
  by (auto simp: kept_in_def)

lemma before_trans: "before l m \<Longrightarrow> valid_lock m \<Longrightarrow> before m n \<Longrightarrow> before l n"
  by (auto simp: before_def valid_lock_def)

lemma before_cases:
  "before p q \<or> before q p \<and> \<not> before p q
    \<or> lk_type q = lk_type p \<and> lk_start q \<le> lk_end p \<and> lk_start p \<le> lk_end q
    \<or> lk_type q \<noteq> lk_type p \<and> lk_start q < lk_end p \<and> lk_start p < lk_end q"
  by (cases "lk_type p = lk_type q") (auto simp: before_def)

lemma not_covers_after: "\<forall>m \<in> set G. b \<le> lk_start m \<Longrightarrow> x < b \<Longrightarrow> \<not> has_type G x t"
  by (fastforce simp: has_type_def covers_def)

lemma placedI:
  assumes "group_ok (lk_owner p) G'" "G' \<noteq> []"
    and "\<And>q r. before q p \<Longrightarrow> \<forall>s \<in> set G. before q s \<Longrightarrow> r \<in> set G' \<Longrightarrow> before q r"
    and "\<And>x t. has_type G' x t \<longleftrightarrow> (if covers p x then t = lk_type p else has_type G x t)"
    and "waitqueue p \<in> set w \<or> kept_in G' p" "\<And>l. l \<in> set G \<Longrightarrow> waitqueue l \<in> set w \<or> kept_in G' l"
  shows "placed p G G' w"
  unfolding placed_def
proof (intro conjI allI impI ballI)
  show "before q r" if "before q p \<and> (\<forall>s \<in> set G. before q s)" "r \<in> set G'" for q r
    using that assms(3) by blast
  show "waitqueue l \<in> set w \<or> kept_in G' l" if "l \<in> set (p # G)" for l
    using that assms(5,6) by auto
qed (fact assms)+

lemma placedD:
  assumes "placed p G G' w"
  shows "group_ok (lk_owner p) G'" "G' \<noteq> []"
    and "before q p \<Longrightarrow> \<forall>s \<in> set G. before q s \<Longrightarrow> r \<in> set G' \<Longrightarrow> before q r"
    and "has_type G' x t \<longleftrightarrow> (if covers p x then t = lk_type p else has_type G x t)"
    and "waitqueue p \<in> set w \<or> kept_in G' p" "l \<in> set G \<Longrightarrow> waitqueue l \<in> set w \<or> kept_in G' l"
proof -
  note * = assms [unfolded placed_def]
  from * show "group_ok (lk_owner p) G'" "G' \<noteq> []" by simp_all
  from * have "\<forall>q. before q p \<and> (\<forall>s \<in> set G. before q s) \<longrightarrow> (\<forall>r \<in> set G'. before q r)"
    by (elim conjE)
  then show "before q p \<Longrightarrow> \<forall>s \<in> set G. before q s \<Longrightarrow> r \<in> set G' \<Longrightarrow> before q r" by blast
  from * have "\<forall>x t. has_type G' x t \<longleftrightarrow> (if covers p x then t = lk_type p else has_type G x t)"
    by (elim conjE)
  then show "has_type G' x t \<longleftrightarrow> (if covers p x then t = lk_type p else has_type G x t)" by blast
  from * have "\<forall>l \<in> set (p # G). waitqueue l \<in> set w \<or> kept_in G' l" by (elim conjE)
  then show "waitqueue p \<in> set w \<or> kept_in G' p" "l \<in> set G \<Longrightarrow> waitqueue l \<in> set w \<or> kept_in G' l"
    by auto
qed

lemma has_type_later:
  "group_ok u (q # G) \<Longrightarrow> x < lk_end q \<Longrightarrow> \<not> has_type G x t"
  by (rule not_covers_after [of G "lk_end q"]) (auto simp: group_ok_Cons before_def)

lemma placed_front:
  assumes "valid_lock p" "group_ok (lk_owner p) G" "\<forall>s \<in> set G. before p s"
  shows "placed p G (p # G) []"
proof (rule placedI)
  show g: "group_ok (lk_owner p) (p # G)" using assms by (simp add: group_ok_Cons)
  show "has_type (p # G) x t \<longleftrightarrow> (if covers p x then t = lk_type p else has_type G x t)" for x t
    using has_type_later [OF g, of x t] by (auto simp: has_type_Cons covers_def)
qed (auto simp: kept_in_self)

lemma placed_pass:
  assumes pl: "placed p G ls w" and g: "group_ok (lk_owner p) (q # G)" and q: "before q p"
  shows "placed p (q # G) (q # ls) w"
proof (rule placedI)
  have "\<forall>r \<in> set ls. before q r" using placedD(3) [OF pl q] g by (simp add: group_ok_Cons)
  then show "group_ok (lk_owner p) (q # ls)" using placedD(1) [OF pl] g by (simp add: group_ok_Cons)
  show "before u r" if "before u p" "\<forall>s \<in> set (q # G). before u s" "r \<in> set (q # ls)" for u r
    using that placedD(3) [OF pl, of u r] by auto
  show "has_type (q # ls) x t \<longleftrightarrow> (if covers p x then t = lk_type p else has_type (q # G) x t)" for x t
    using placedD(4) [OF pl, of x t] q by (auto simp: has_type_Cons covers_def before_def)
  show "waitqueue p \<in> set w \<or> kept_in (q # ls) p" using placedD(5) [OF pl] by (auto simp: kept_in_Cons)
  show "waitqueue l \<in> set w \<or> kept_in (q # ls) l" if "l \<in> set (q # G)" for l
    using that placedD(6) [OF pl, of l] by (auto simp: kept_in_Cons)
qed simp

lemma placed_trim:
  assumes pl: "placed p G ls w" and g: "group_ok (lk_owner p) (q # G)" and ty: "lk_type q \<noteq> lk_type p"
    and pos: "lk_start q < lk_start p" "lk_start p < lk_end q" "lk_end q \<le> lk_end p"
    and q': "q' = q\<lparr>lk_range := \<lparr>fr_start = lk_start q, fr_end = lk_start p\<rparr>\<rparr>"
  shows "placed p (q # G) (q' # ls) (waitqueue q # w)"
proof (rule placedI)
  have b: "before q' p" "\<forall>s \<in> set G. before q' s" "valid_lock q'" "lk_owner q' = lk_owner p"
    using g ty pos q' by (auto simp: before_def group_ok_Cons valid_lock_def)
  then show "group_ok (lk_owner p) (q' # ls)"
    using placedD(1,3) [OF pl] by (simp add: group_ok_Cons)
  show "before u r" if "before u p" "\<forall>s \<in> set (q # G). before u s" "r \<in> set (q' # ls)" for u r
    using that placedD(3) [OF pl, of u r] q' by (auto simp: before_def)
  have "covers q' x \<longleftrightarrow> covers q x \<and> \<not> covers p x" for x using pos q' by (auto simp: covers_def)
  then show "has_type (q' # ls) x t \<longleftrightarrow> (if covers p x then t = lk_type p else has_type (q # G) x t)" for x t
    using placedD(4) [OF pl, of x t] q' by (auto simp: has_type_Cons)
  show "waitqueue p \<in> set (waitqueue q # w) \<or> kept_in (q' # ls) p"
    using placedD(5) [OF pl] by (auto simp: kept_in_Cons)
  show "waitqueue l \<in> set (waitqueue q # w) \<or> kept_in (q' # ls) l" if "l \<in> set (q # G)" for l
    using that placedD(6) [OF pl, of l] by (auto simp: kept_in_Cons)
qed simp

lemma placed_drop:
  assumes pl: "placed p G ls w" and pos: "lk_start p \<le> lk_start q" "lk_end q \<le> lk_end p"
  shows "placed p (q # G) ls (waitqueue q # w)"
proof (rule placedI)
  show "has_type ls x t \<longleftrightarrow> (if covers p x then t = lk_type p else has_type (q # G) x t)" for x t
    using placedD(4) [OF pl, of x t] pos by (auto simp: has_type_Cons covers_def)
  show "before u r" if "before u p" "\<forall>s \<in> set (q # G). before u s" "r \<in> set ls" for u r
    using that placedD(3) [OF pl, of u r] by auto
  show "waitqueue p \<in> set (waitqueue q # w) \<or> kept_in ls p" using placedD(5) [OF pl] by auto
  show "waitqueue l \<in> set (waitqueue q # w) \<or> kept_in ls l" if "l \<in> set (q # G)" for l
    using that placedD(6) [OF pl, of l] by auto
qed (use placedD(1,2) [OF pl] in auto)

lemma placed_merge:
  assumes pl: "placed q' G ls w" and g: "group_ok (lk_owner p) (q # G)" and ty: "lk_type q = lk_type p"
    and pos: "lk_start q \<le> lk_end p" "lk_start p \<le> lk_end q"
    and q': "q' = q\<lparr>lk_range := \<lparr>fr_start = min (lk_start q) (lk_start p), fr_end = max (lk_end q) (lk_end p)\<rparr>\<rparr>"
  shows "placed p (q # G) ls (waitqueue p # w)"
proof (rule placedI)
  have own: "lk_owner q' = lk_owner p" "lk_type q' = lk_type p" "waitqueue q' = waitqueue q"
    "lk_owner q = lk_owner p"
    using g ty q' by (simp_all add: group_ok_Cons)
  show "group_ok (lk_owner p) ls" using placedD(1) [OF pl] own by simp
  show "before u r" if "before u p" "\<forall>s \<in> set (q # G). before u s" "r \<in> set ls" for u r
  proof -
    have "before u q'" using that q' ty by (auto simp: before_def)
    with that placedD(3) [OF pl, of u r] show ?thesis by simp
  qed
  have "covers q' x \<longleftrightarrow> covers p x \<or> covers q x" for x using pos q' by (auto simp: covers_def)
  then show "has_type ls x t \<longleftrightarrow> (if covers p x then t = lk_type p else has_type (q # G) x t)" for x t
    using placedD(4) [OF pl, of x t] has_type_later [OF g, of x t] own ty
    by (auto simp: has_type_Cons covers_def)
  have "kept_in ls q' \<Longrightarrow> kept_in ls q"
    unfolding kept_in_def using q' by fastforce
  then show "waitqueue l \<in> set (waitqueue p # w) \<or> kept_in ls l" if "l \<in> set (q # G)" for l
    using that placedD(5,6) [OF pl] own by auto
qed (use placedD(2) [OF pl] in auto)

lemma placed_left:
  assumes p: "valid_lock p" and g: "group_ok (lk_owner p) (q # G)" and ty: "lk_type q \<noteq> lk_type p"
    and pos: "lk_start p \<le> lk_start q" "lk_start q < lk_end p" "lk_end p < lk_end q"
    and q': "q' = q\<lparr>lk_range := \<lparr>fr_start = lk_end p, fr_end = lk_end q\<rparr>\<rparr>"
  shows "placed p (q # G) (p # q' # G) [waitqueue q]"
proof (rule placedI)
  have "before p q'" "\<forall>s \<in> set G. before q' s" "\<forall>s \<in> set G. before p s" "valid_lock q'"
    using g ty pos q' by (auto simp: before_def group_ok_Cons valid_lock_def)
  then show "group_ok (lk_owner p) (p # q' # G)" using p g q' by (simp add: group_ok_Cons)
  show "has_type (p # q' # G) x t \<longleftrightarrow> (if covers p x then t = lk_type p else has_type (q # G) x t)" for x t
    using pos q' has_type_later [OF g, of x t] by (auto simp: has_type_Cons covers_def)
  show "before u r" if "before u p" "\<forall>s \<in> set (q # G). before u s" "r \<in> set (p # q' # G)" for u r
    using that q' pos by (auto simp: before_def)
qed (auto simp: kept_in_self)

lemma placed_middle:
  assumes p: "valid_lock p" and g: "group_ok (lk_owner p) (q # G)" and ty: "lk_type q \<noteq> lk_type p"
    and pos: "lk_start q < lk_start p" "lk_end p < lk_end q"
    and q': "q' = q\<lparr>lk_range := \<lparr>fr_start = lk_start q, fr_end = lk_start p\<rparr>\<rparr>"
    and r: "r = q\<lparr>lk_range := \<lparr>fr_start = lk_end p, fr_end = lk_end q\<rparr>\<rparr>"
  shows "placed p (q # G) (q' # p # r # G) [waitqueue q, waitqueue q]"
proof (rule placedI)
  have "before q' p" "before q' r" "before p r" "\<forall>s \<in> set G. before q' s \<and> before p s \<and> before r s"
    "valid_lock q'" "valid_lock r"
    using p g ty pos q' r by (auto simp: before_def group_ok_Cons valid_lock_def)
  then show "group_ok (lk_owner p) (q' # p # r # G)" using p g q' r by (simp add: group_ok_Cons)
  show "has_type (q' # p # r # G) x t \<longleftrightarrow> (if covers p x then t = lk_type p else has_type (q # G) x t)" for x t
    using p pos q' r has_type_later [OF g, of x t] by (auto simp: has_type_Cons covers_def valid_lock_def)
  show "before u v" if "before u p" "\<forall>s \<in> set (q # G). before u s" "v \<in> set (q' # p # r # G)" for u v
    using that p q' r pos by (auto simp: before_def valid_lock_def)
qed (auto simp: kept_in_self)

lemma place_spec:
  assumes "valid_lock p" "group_ok (lk_owner p) G"
  shows "\<exists>G' w. place p G = Return (G', w) \<and> placed p G G' w"
  using assms
proof (induction G arbitrary: p)
  case Nil
  then show ?case using placed_front [of p "[]"] by simp
next
  case (Cons q G)
  have G: "group_ok (lk_owner p) G" "valid_lock q" "lk_owner q = lk_owner p" "\<forall>s \<in> set G. before q s"
    using Cons.prems(2) by (auto simp: group_ok_Cons)
  obtain ls w where IH: "place p G = Return (ls, w)" "placed p G ls w"
    using Cons.IH [OF Cons.prems(1) G(1)] by blast
  let ?m = "q\<lparr>lk_range := \<lparr>fr_start = min (lk_start q) (lk_start p), fr_end = max (lk_end q) (lk_end p)\<rparr>\<rparr>"
  have "valid_lock ?m" "lk_owner ?m = lk_owner p" using G(2,3) by (auto simp: valid_lock_def)
  then obtain ms v where IHm: "place ?m G = Return (ms, v)" "placed ?m G ms v"
    using Cons.IH [of ?m] G(1) by auto
  consider (front) "before p q" | (pass) "before q p" "\<not> before p q"
    | (merge) "lk_type q = lk_type p" "lk_start q \<le> lk_end p" "lk_start p \<le> lk_end q"
    | (over) "lk_type q \<noteq> lk_type p" "lk_start q < lk_end p" "lk_start p < lk_end q"
    using before_cases [of p q] by blast
  then show ?case
  proof cases
    case front
    then have "\<forall>s \<in> set (q # G). before p s" using G(2,4) before_trans by auto
    from placed_front [OF Cons.prems this] front G(3) show ?thesis
      by (auto simp: before_def)
  next
    case pass
    from placed_pass [OF IH(2) Cons.prems(2) pass(1)] pass IH(1) G(2,3) Cons.prems(1) show ?thesis
      by (auto simp: before_def valid_lock_def)
  next
    case merge
    from placed_merge [OF IHm(2) Cons.prems(2) merge refl] merge IHm(1) G(3) show ?thesis
      by (auto simp: merge_with_eq)
  next
    case over
    note sub = item_set_start_eq item_set_end_eq overlap_with_eq
    consider "lk_start p \<le> lk_start q" "lk_end p < lk_end q" | "lk_start p \<le> lk_start q" "lk_end q \<le> lk_end p"
      | "lk_start q < lk_start p" "lk_end p < lk_end q" | "lk_start q < lk_start p" "lk_end q \<le> lk_end p"
      by linarith
    then show ?thesis
    proof cases
      case 1
      with placed_left [OF Cons.prems over(1) 1(1) over(2) 1(2) refl] over G(3) show ?thesis
        by (auto simp: sub)
    next
      case 2
      with placed_drop [OF IH(2) 2] over G(3) IH(1) show ?thesis by (auto simp: sub)
    next
      case 3
      with placed_middle [OF Cons.prems over(1) 3 refl refl] over G(3) Cons.prems(1) show ?thesis
        by (auto simp: sub valid_lock_def)
    next
      case 4
      with placed_trim [OF IH(2) Cons.prems(2) over(1) 4(1) over(3) 4(2) refl] over G(3) IH(1)
      show ?thesis by (auto simp: sub)
    qed
  qed
qed

definition cleared ::
    "RangeLockItem \<Rightarrow> RangeLockItem list \<Rightarrow> RangeLockItem list \<Rightarrow> nat list \<Rightarrow> bool" where
  "cleared p G G' w \<longleftrightarrow> group_ok (lk_owner p) G'
     \<and> (\<forall>q. (\<forall>s \<in> set G. before q s) \<longrightarrow> (\<forall>r \<in> set G'. before q r))
     \<and> (\<forall>x t. has_type G' x t \<longleftrightarrow> \<not> covers p x \<and> has_type G x t)
     \<and> (\<forall>l \<in> set G. waitqueue l \<in> set w \<or> kept_in G' l)"

lemma clearedI:
  assumes "group_ok (lk_owner p) G'"
    and "\<And>q r. \<forall>s \<in> set G. before q s \<Longrightarrow> r \<in> set G' \<Longrightarrow> before q r"
    and "\<And>x t. has_type G' x t \<longleftrightarrow> \<not> covers p x \<and> has_type G x t"
    and "\<And>l. l \<in> set G \<Longrightarrow> waitqueue l \<in> set w \<or> kept_in G' l"
  shows "cleared p G G' w"
  unfolding cleared_def using assms by blast

lemma clearedD:
  assumes "cleared p G G' w"
  shows "group_ok (lk_owner p) G'"
    and "\<forall>s \<in> set G. before q s \<Longrightarrow> r \<in> set G' \<Longrightarrow> before q r"
    and "has_type G' x t \<longleftrightarrow> \<not> covers p x \<and> has_type G x t"
    and "l \<in> set G \<Longrightarrow> waitqueue l \<in> set w \<or> kept_in G' l"
  using assms unfolding cleared_def by blast+

lemma cleared_pass:
  assumes cl: "cleared p G ls w" and g: "group_ok (lk_owner p) (q # G)"
    and pos: "lk_end q \<le> lk_start p \<or> lk_end p \<le> lk_start q"
  shows "cleared p (q # G) (q # ls) w"
proof (rule clearedI)
  show "group_ok (lk_owner p) (q # ls)"
    using clearedD(1,2) [OF cl] g by (simp add: group_ok_Cons)
  show "before u r" if "\<forall>s \<in> set (q # G). before u s" "r \<in> set (q # ls)" for u r
    using that clearedD(2) [OF cl, of u r] by auto
  show "has_type (q # ls) x t \<longleftrightarrow> \<not> covers p x \<and> has_type (q # G) x t" for x t
    using clearedD(3) [OF cl, of x t] pos by (auto simp: has_type_Cons covers_def)
  show "waitqueue l \<in> set w \<or> kept_in (q # ls) l" if "l \<in> set (q # G)" for l
    using that clearedD(4) [OF cl, of l] by (auto simp: kept_in_Cons)
qed

lemma cleared_trim:
  assumes cl: "cleared p G ls w" and g: "group_ok (lk_owner p) (q # G)"
    and pos: "lk_start q < lk_start p" "lk_start p < lk_end q" "lk_end q \<le> lk_end p"
    and q': "q' = q\<lparr>lk_range := \<lparr>fr_start = lk_start q, fr_end = lk_start p\<rparr>\<rparr>"
  shows "cleared p (q # G) (q' # ls) (waitqueue q # w)"
proof (rule clearedI)
  have "\<forall>s \<in> set G. before q' s" "valid_lock q'" "lk_owner q' = lk_owner p"
    using g pos q' by (auto simp: before_def group_ok_Cons valid_lock_def)
  then show "group_ok (lk_owner p) (q' # ls)"
    using clearedD(1,2) [OF cl] by (simp add: group_ok_Cons)
  show "before u r" if "\<forall>s \<in> set (q # G). before u s" "r \<in> set (q' # ls)" for u r
    using that clearedD(2) [OF cl, of u r] q' by (auto simp: before_def)
  show "has_type (q' # ls) x t \<longleftrightarrow> \<not> covers p x \<and> has_type (q # G) x t" for x t
    using clearedD(3) [OF cl, of x t] pos q' by (auto simp: has_type_Cons covers_def)
  show "waitqueue l \<in> set (waitqueue q # w) \<or> kept_in (q' # ls) l" if "l \<in> set (q # G)" for l
    using that clearedD(4) [OF cl, of l] by (auto simp: kept_in_Cons)
qed

lemma cleared_drop:
  assumes cl: "cleared p G ls w" and pos: "lk_start p \<le> lk_start q" "lk_end q \<le> lk_end p"
  shows "cleared p (q # G) ls (waitqueue q # w)"
proof (rule clearedI)
  show "has_type ls x t \<longleftrightarrow> \<not> covers p x \<and> has_type (q # G) x t" for x t
    using clearedD(3) [OF cl, of x t] pos by (auto simp: has_type_Cons covers_def)
  show "waitqueue l \<in> set (waitqueue q # w) \<or> kept_in ls l" if "l \<in> set (q # G)" for l
    using that clearedD(4) [OF cl, of l] by auto
qed (use clearedD(1,2) [OF cl] in auto)

lemma cleared_left:
  assumes g: "group_ok (lk_owner p) (q # G)"
    and pos: "lk_start p \<le> lk_start q" "lk_start q < lk_end p" "lk_end p < lk_end q"
    and q': "q' = q\<lparr>lk_range := \<lparr>fr_start = lk_end p, fr_end = lk_end q\<rparr>\<rparr>"
  shows "cleared p (q # G) (q' # G) [waitqueue q]"
proof (rule clearedI)
  have "\<forall>s \<in> set G. before q' s" "valid_lock q'"
    using g pos q' by (auto simp: before_def group_ok_Cons valid_lock_def)
  then show "group_ok (lk_owner p) (q' # G)" using g q' by (simp add: group_ok_Cons)
  show "has_type (q' # G) x t \<longleftrightarrow> \<not> covers p x \<and> has_type (q # G) x t" for x t
    using pos q' has_type_later [OF g, of x t] by (auto simp: has_type_Cons covers_def)
  show "before u r" if "\<forall>s \<in> set (q # G). before u s" "r \<in> set (q' # G)" for u r
    using that q' pos by (auto simp: before_def)
qed (auto simp: kept_in_self)

lemma cleared_middle:
  assumes p: "valid_lock p" and g: "group_ok (lk_owner p) (q # G)"
    and pos: "lk_start q < lk_start p" "lk_end p < lk_end q"
    and q': "q' = q\<lparr>lk_range := \<lparr>fr_start = lk_start q, fr_end = lk_start p\<rparr>\<rparr>"
    and r: "r = q\<lparr>lk_range := \<lparr>fr_start = lk_end p, fr_end = lk_end q\<rparr>\<rparr>"
  shows "cleared p (q # G) (q' # r # G) [waitqueue q, waitqueue q]"
proof (rule clearedI)
  have "before q' r" "\<forall>s \<in> set G. before q' s \<and> before r s" "valid_lock q'" "valid_lock r"
    using p g pos q' r by (auto simp: before_def group_ok_Cons valid_lock_def)
  then show "group_ok (lk_owner p) (q' # r # G)" using g q' r by (simp add: group_ok_Cons)
  show "has_type (q' # r # G) x t \<longleftrightarrow> \<not> covers p x \<and> has_type (q # G) x t" for x t
    using p pos q' r has_type_later [OF g, of x t] by (auto simp: has_type_Cons covers_def valid_lock_def)
  show "before u v" if "\<forall>s \<in> set (q # G). before u s" "v \<in> set (q' # r # G)" for u v
    using that p q' r pos by (auto simp: before_def valid_lock_def)
qed (auto simp: kept_in_self)

lemma cut_spec:
  assumes "valid_lock p" "group_ok (lk_owner p) G"
  shows "\<exists>G' w. cut p G = Return (G', w) \<and> cleared p G G' w"
  using assms
proof (induction G)
  case Nil
  then show ?case by (simp add: cleared_def has_type_def)
next
  case (Cons q G)
  have G: "group_ok (lk_owner p) G" "lk_owner q = lk_owner p"
    using Cons.prems(2) by (auto simp: group_ok_Cons)
  obtain ls w where IH: "cut p G = Return (ls, w)" "cleared p G ls w"
    using Cons.IH [OF Cons.prems(1) G(1)] by blast
  note sub = item_set_start_eq item_set_end_eq overlap_with_eq
  consider (pass) "lk_end q \<le> lk_start p \<or> lk_end p \<le> lk_start q"
    | (left) "lk_start p \<le> lk_start q" "lk_start q < lk_end p" "lk_end p < lk_end q"
    | (drop) "lk_start p \<le> lk_start q" "lk_start q < lk_end p" "lk_start p < lk_end q" "lk_end q \<le> lk_end p"
    | (middle) "lk_start q < lk_start p" "lk_end p < lk_end q"
    | (trim) "lk_start q < lk_start p" "lk_start p < lk_end q" "lk_end q \<le> lk_end p"
    by linarith
  then show ?case
  proof cases
    case pass
    with cleared_pass [OF IH(2) Cons.prems(2) pass] G(2) IH(1) show ?thesis by (auto simp: sub)
  next
    case left
    with cleared_left [OF Cons.prems(2) left refl] G(2) show ?thesis by (auto simp: sub)
  next
    case drop
    with cleared_drop [OF IH(2) drop(1,4)] G(2) IH(1) show ?thesis by (auto simp: sub)
  next
    case middle
    with cleared_middle [OF Cons.prems middle refl refl] G(2) Cons.prems(1) show ?thesis
      by (auto simp: sub valid_lock_def)
  next
    case trim
    with cleared_trim [OF IH(2) Cons.prems(2) trim refl] G(2) IH(1) show ?thesis by (auto simp: sub)
  qed
qed

section \<open>The whole list\<close>

text \<open>Equal entries are contiguous.\<close>

fun grouped :: "'a list \<Rightarrow> bool" where
  "grouped [] = True"
| "grouped (x # xs) \<longleftrightarrow> grouped xs \<and> (x \<in> set xs \<longrightarrow> hd xs = x)"

definition locks_of :: "int \<Rightarrow> RangeLockItem list \<Rightarrow> RangeLockItem list" where
  "locks_of u ls = filter (\<lambda>l. lk_owner l = u) ls"

definition rl_inv :: "RangeLockItem list \<Rightarrow> bool" where
  "rl_inv ls \<longleftrightarrow> grouped (map lk_owner ls) \<and> (\<forall>u. group_ok u (locks_of u ls))"

text \<open>\<open>held ls u x t\<close>: process \<open>u\<close> holds byte \<open>x\<close> with type \<open>t\<close>.\<close>

definition held :: "RangeLockItem list \<Rightarrow> int \<Rightarrow> nat \<Rightarrow> RangeLockType \<Rightarrow> bool" where
  "held ls u x t \<longleftrightarrow> (\<exists>l \<in> set ls. lk_owner l = u \<and> lk_type l = t \<and> covers l x)"

lemma held_locks_of: "held ls u x t \<longleftrightarrow> has_type (locks_of u ls) x t"
  by (auto simp: held_def has_type_def locks_of_def)

lemma locks_of_simps [simp]:
  "locks_of u (xs @ ys) = locks_of u xs @ locks_of u ys"
  "\<forall>l \<in> set xs. lk_owner l \<noteq> u \<Longrightarrow> locks_of u xs = []"
  "\<forall>l \<in> set xs. lk_owner l = u \<Longrightarrow> locks_of u xs = xs"
  by (auto simp: locks_of_def filter_empty_conv filter_id_conv)

lemma group_split:
  assumes "grouped (map lk_owner ls)"
  obtains A G B where "ls = A @ G @ B" "\<forall>l \<in> set A \<union> set B. lk_owner l \<noteq> u" "\<forall>l \<in> set G. lk_owner l = u"
    "G = [] \<Longrightarrow> B = []"
  using assms
proof (induction ls arbitrary: thesis)
  case (Cons l ls)
  then obtain A G B where ABG: "ls = A @ G @ B" "\<forall>l \<in> set A \<union> set B. lk_owner l \<noteq> u"
    "\<forall>l \<in> set G. lk_owner l = u" "G = [] \<Longrightarrow> B = []"
    by auto
  show ?case
  proof (cases "lk_owner l = u")
    case False
    with ABG show ?thesis by (intro Cons.prems(1) [of "l # A" G B]) auto
  next
    case own: True
    show ?thesis
    proof (cases "G = []")
      case True
      with own ABG show ?thesis by (intro Cons.prems(1) [of "[]" "[l]" A]) auto
    next
      case False
      then have "lk_owner l \<in> set (map lk_owner ls)" using own ABG by (cases G) auto
      then have "hd (map lk_owner ls) = u" using Cons.prems(2) own by simp
      then have "A = []" using ABG by (cases A) auto
      with own ABG show ?thesis by (intro Cons.prems(1) [of "[]" "l # G" B]) auto
    qed
  qed
qed simp

lemma grouped_replicate: "u \<notin> set ys \<Longrightarrow> grouped ys \<Longrightarrow> grouped (replicate n u @ ys)"
proof (induction n)
  case (Suc n)
  then show ?case by (cases n) auto
qed simp

lemma grouped_all:
  assumes "\<forall>x \<in> set xs. x = u" "u \<notin> set ys" "grouped ys"
  shows "grouped (xs @ ys)"
  using grouped_replicate [OF assms(2,3), of "length xs"] replicate_length_same [OF assms(1)] by simp

lemma grouped_append: "grouped (xs @ ys) \<Longrightarrow> grouped ys"
  by (induction xs) auto

lemma grouped_replace:
  assumes "grouped (A @ G @ B)" "u \<notin> set A" "u \<notin> set B" "\<forall>x \<in> set G. x = u" "\<forall>x \<in> set G'. x = u"
    "G = [] \<Longrightarrow> B = []"
  shows "grouped (A @ G' @ B)"
  using assms
proof (induction A)
  case Nil
  then show ?case using grouped_all [of G' u B] grouped_append [of G B] by simp
next
  case (Cons a A)
  show ?case
  proof (cases "A = []")
    case True
    have "a \<notin> set B"
    proof (cases "G = []")
      case False
      then have "hd (G @ B) = u" using Cons.prems(4) by simp
      with Cons.prems(1,2) True show ?thesis by auto
    qed (use Cons.prems(6) in simp)
    with Cons True show ?thesis by auto
  next
    case False
    then have "hd (A @ G' @ B) = hd (A @ G @ B)" by simp
    moreover have "a \<in> set (A @ G' @ B) \<Longrightarrow> a \<in> set (A @ G @ B)" using Cons.prems by auto
    ultimately show ?thesis using Cons by auto
  qed
qed

lemma rl_inv_replace:
  assumes "rl_inv (A @ G @ B)" "\<forall>l \<in> set A \<union> set B. lk_owner l \<noteq> u" "\<forall>l \<in> set G. lk_owner l = u"
    and "group_ok u G'" "G = [] \<Longrightarrow> B = []"
  shows "rl_inv (A @ G' @ B)"
proof -
  have G': "\<forall>l \<in> set G'. lk_owner l = u" using assms(4) by (simp add: group_ok_def)
  have "grouped (map lk_owner A @ map lk_owner G' @ map lk_owner B)"
  proof (rule grouped_replace)
    show "grouped (map lk_owner A @ map lk_owner G @ map lk_owner B)"
      using assms(1) by (simp add: rl_inv_def)
    show "u \<notin> set (map lk_owner A)" "u \<notin> set (map lk_owner B)" using assms(2) by auto
  qed (use assms(3,5) G' in auto)
  moreover have "group_ok v (locks_of v (A @ G' @ B))" for v
  proof (cases "v = u")
    case True
    then show ?thesis using assms(2,4) G' by simp
  next
    case False
    have "group_ok v (locks_of v (A @ G @ B))" using assms(1) by (simp add: rl_inv_def)
    moreover have "locks_of v G = []" "locks_of v G' = []"
      using False assms(3) G' by (auto simp: locks_of_def filter_empty_conv)
    ultimately show ?thesis by simp
  qed
  ultimately show ?thesis by (simp add: rl_inv_def)
qed

lemma place_append:
  assumes "\<forall>l \<in> set G. lk_owner l = lk_owner p" "\<forall>l \<in> set B. lk_owner l \<noteq> lk_owner p"
  shows "place p (G @ B) = rust_bind (place p G) (\<lambda>(ls, w). Return (ls @ B, w))"
  using assms
proof (induction G arbitrary: p)
  case Nil
  then show ?case by (cases B) auto
next
  case (Cons q G)
  have own: "lk_owner q = lk_owner p" "\<forall>l \<in> set G. lk_owner l = lk_owner p"
    using Cons.prems(1) by simp_all
  note IH = Cons.IH [OF own(2) Cons.prems(2)]
  note step = place.simps(2) [of p q] append_Cons own(1) IH case_prod_beta
  show ?case
  proof (cases "lk_type q = lk_type p")
    case True
    show ?thesis
    proof (cases "merge_with q p")
      case Panic
      with True show ?thesis by (cases "place p G") (simp_all add: step)
    next
      case (Return m)
      then have m: "lk_owner m = lk_owner p"
        using own(1) by (auto simp: merge_with_def split: prod.splits sum.splits)
      have "place m (G @ B) = rust_bind (place m G) (\<lambda>(ls, w). Return (ls @ B, w))"
        by (rule Cons.IH) (use own(2) Cons.prems(2) m in simp_all)
      with True Return show ?thesis
        by (cases "place p G"; cases "place m G") (simp_all add: step)
    qed
  next
    case False
    show ?thesis
    proof (cases "overlap_with p q")
      case None
      with False show ?thesis by (cases "place p G") (simp_all add: step)
    next
      case (Some ov)
      with False show ?thesis
        by (cases ov; cases "place p G"; cases "item_set_end q (lk_start p)"; cases "item_set_start q (lk_end p)")
          (simp_all add: step)
    qed
  qed
qed

lemma cut_append:
  assumes "\<forall>l \<in> set A. lk_owner l \<noteq> lk_owner p" "\<forall>l \<in> set B. lk_owner l \<noteq> lk_owner p"
  shows "cut p (A @ G @ B) = rust_bind (cut p G) (\<lambda>(ls, w). Return (A @ ls @ B, w))"
proof -
  have B: "cut p B = Return (B, [])" using assms(2) by (induction B) auto
  have "cut p (G @ B) = rust_bind (cut p G) (\<lambda>(ls, w). Return (ls @ B, w))"
    by (induction G) (auto simp: B rust_bind_def split: rust.splits option.splits OverlapWith.splits)
  with assms(1) show ?thesis by (induction A) (auto simp: rust_bind_def split: rust.splits)
qed

lemma insert_split:
  assumes "\<forall>l \<in> set A \<union> set B. lk_owner l \<noteq> lk_owner p" "\<forall>l \<in> set G. lk_owner l = lk_owner p" "G \<noteq> []"
  shows "insert_lock_into_list (A @ G @ B) p = rust_bind (place p G) (\<lambda>(ls, w). Return (A @ ls @ B, w))"
proof -
  obtain g G' where G: "G = g # G'" using assms(3) by (cases G) auto
  have g: "lk_owner g = lk_owner p" using assms(2) unfolding G by (rule bspec) simp
  have "\<forall>l \<in> set A. \<not> lk_owner l = lk_owner p" using assms(1) by blast
  with g have "position (\<lambda>l. lk_owner l = lk_owner p) (A @ G @ B) = Some (length A)"
    by (simp add: position_append G)
  then have "insert_lock_into_list (A @ G @ B) p = insert_loop (A @ p # (G @ B)) (length A) []"
    by (simp add: insert_lock_into_list_def)
  moreover have "place p (G @ B) = rust_bind (place p G) (\<lambda>(ls, w). Return (ls @ B, w))"
    by (rule place_append [OF assms(2)]) (use assms(1) in blast)
  ultimately show ?thesis
    by (cases "place p G") (simp_all add: insert_loop_place case_prod_beta)
qed

text \<open>The bytes held after a change of one owner's group.\<close>

lemma held_replace:
  assumes "\<forall>l \<in> set A \<union> set B. lk_owner l \<noteq> u" "\<forall>l \<in> set G. lk_owner l = u"
    "\<forall>l \<in> set G'. lk_owner l = u"
  shows "held (A @ G' @ B) v x t \<longleftrightarrow> (if v = u then has_type G' x t else held (A @ G @ B) v x t)"
    and "held (A @ G @ B) u x t \<longleftrightarrow> has_type G x t"
  using assms by (auto simp: held_def has_type_def)

lemma kept_in_append: "kept_in (xs @ ys) l \<longleftrightarrow> kept_in xs l \<or> kept_in ys l"
  by (auto simp: kept_in_def)

lemma insert_spec:
  assumes inv: "rl_inv ls" and p: "valid_lock p"
  shows "\<exists>ls' w. insert_lock_into_list ls p = Return (ls', w) \<and> rl_inv ls'
    \<and> (\<forall>v x t. held ls' v x t \<longleftrightarrow> (if v = lk_owner p \<and> covers p x then t = lk_type p else held ls v x t))
    \<and> (\<forall>l \<in> set ls. waitqueue l \<in> set w \<or> kept_in ls' l)"
proof -
  obtain A G B where ls: "ls = A @ G @ B" "\<forall>l \<in> set A \<union> set B. lk_owner l \<noteq> lk_owner p"
    "\<forall>l \<in> set G. lk_owner l = lk_owner p" "G = [] \<Longrightarrow> B = []"
    using group_split [of ls "lk_owner p"] inv by (auto simp: rl_inv_def)
  have "group_ok (lk_owner p) (locks_of (lk_owner p) ls)" using inv by (simp add: rl_inv_def)
  then have "group_ok (lk_owner p) G" using ls by simp
  then obtain G' w where pl: "place p G = Return (G', w)" "placed p G G' w"
    using place_spec [OF p] by blast
  have G': "\<forall>l \<in> set G'. lk_owner l = lk_owner p" using placedD(1) [OF pl(2)] by (simp add: group_ok_def)
  have "insert_lock_into_list ls p = Return (A @ G' @ B, w)"
  proof (cases "G = []")
    case False
    with insert_split [OF ls(2,3)] ls(1) pl(1) show ?thesis by simp
  next
    case True
    then have "position (\<lambda>l. lk_owner l = lk_owner p) ls = None" using ls by (simp add: position_None)
    with True ls(1,4) pl(1) show ?thesis by (simp add: insert_lock_into_list_def)
  qed
  moreover have "rl_inv (A @ G' @ B)"
    using rl_inv_replace [OF _ ls(2,3) placedD(1) [OF pl(2)] ls(4)] inv ls(1) by simp
  moreover have "held (A @ G' @ B) v x t \<longleftrightarrow> (if v = lk_owner p \<and> covers p x then t = lk_type p else held ls v x t)"
    for v x t
    using held_replace [OF ls(2,3) G'] placedD(4) [OF pl(2)] ls(1) by simp
  moreover have "waitqueue l \<in> set w \<or> kept_in (A @ G' @ B) l" if "l \<in> set ls" for l
    using that placedD(6) [OF pl(2), of l] ls(1) kept_in_self [of l A] kept_in_self [of l B]
    by (auto simp: kept_in_append)
  ultimately show ?thesis by blast
qed

lemma unlock_spec:
  assumes inv: "rl_inv ls" and p: "valid_lock p"
  shows "\<exists>ls' w. unlock ls p = Return (ls', w) \<and> rl_inv ls'
    \<and> (\<forall>v x t. held ls' v x t \<longleftrightarrow> \<not> (v = lk_owner p \<and> covers p x) \<and> held ls v x t)
    \<and> (\<forall>l \<in> set ls. waitqueue l \<in> set w \<or> kept_in ls' l)"
proof -
  obtain A G B where ls: "ls = A @ G @ B" "\<forall>l \<in> set A \<union> set B. lk_owner l \<noteq> lk_owner p"
    "\<forall>l \<in> set G. lk_owner l = lk_owner p" "G = [] \<Longrightarrow> B = []"
    using group_split [of ls "lk_owner p"] inv by (auto simp: rl_inv_def)
  have "group_ok (lk_owner p) (locks_of (lk_owner p) ls)" using inv by (simp add: rl_inv_def)
  then have "group_ok (lk_owner p) G" using ls by simp
  then obtain G' w where cl: "cut p G = Return (G', w)" "cleared p G G' w"
    using cut_spec [OF p] by blast
  have G': "\<forall>l \<in> set G'. lk_owner l = lk_owner p" using clearedD(1) [OF cl(2)] by (simp add: group_ok_def)
  have "unlock ls p = rust_bind (cut p ls) Return"
    using unlock_loop_cut [of "[]" ls p "[]"] by (simp add: unlock_def case_prod_beta)
  then have "unlock ls p = Return (A @ G' @ B, w)"
    using cut_append [of A p B G] ls(1,2) cl(1) by simp
  moreover have "rl_inv (A @ G' @ B)"
    using rl_inv_replace [OF _ ls(2,3) clearedD(1) [OF cl(2)] ls(4)] inv ls(1) by simp
  moreover have "held (A @ G' @ B) v x t \<longleftrightarrow> \<not> (v = lk_owner p \<and> covers p x) \<and> held ls v x t" for v x t
    using held_replace [OF ls(2,3) G'] clearedD(3) [OF cl(2)] ls(1) by auto
  moreover have "waitqueue l \<in> set w \<or> kept_in (A @ G' @ B) l" if "l \<in> set ls" for l
    using that clearedD(4) [OF cl(2), of l] ls(1) kept_in_self [of l A] kept_in_self [of l B]
    by (auto simp: kept_in_append)
  ultimately show ?thesis by blast
qed

section \<open>Properties\<close>

text \<open>The lists that calls of processes produce, each with a lock on a range that \<open>fr_new\<close> accepts.\<close>

inductive lock_reachable :: "RangeLockItem list \<Rightarrow> bool" where
  empty: "lock_reachable []"
| set: "lock_reachable ls \<Longrightarrow> fr_new s e = Inr r \<Longrightarrow>
    try_set_lock ls (item_new pid q t r) waker = Return (res, ls', enq, woken) \<Longrightarrow> lock_reachable ls'"
| unlock: "lock_reachable ls \<Longrightarrow> fr_new s e = Inr r \<Longrightarrow>
    unlock ls (item_new pid q t r) = Return (ls', woken) \<Longrightarrow> lock_reachable ls'"

lemma item_new_sel [simp]:
  "lk_owner (item_new pid q t r) = pid" "lk_type (item_new pid q t r) = t"
  "lk_start (item_new pid q t r) = fr_start r" "lk_end (item_new pid q t r) = fr_end r"
  "waitqueue (item_new pid q t r) = q"
  by (simp_all add: item_new_def lk_start_def lk_end_def)

lemma item_new_valid: "fr_new s e = Inr r \<Longrightarrow> valid_lock (item_new pid q t r)"
  by (auto simp: fr_new_def valid_lock_def split: if_splits)

lemma item_new_covers: "fr_new s e = Inr r \<Longrightarrow> covers (item_new pid q t r) x \<longleftrightarrow> s \<le> x \<and> x < e"
  by (auto simp: fr_new_def covers_def split: if_splits)

lemma try_set_lock_spec:
  assumes "rl_inv ls" "valid_lock p"
  shows "(\<exists>l \<in> set ls. conflict_with p l
      \<and> try_set_lock ls p waker = Return (Inl EAGAIN, ls, map_option (Pair (waitqueue l)) waker, []))
    \<or> (\<forall>l \<in> set ls. \<not> conflict_with p l)
      \<and> (\<exists>ls' w. try_set_lock ls p waker = Return (Inr (), ls', None, w) \<and> rl_inv ls'
        \<and> (\<forall>v x t. held ls' v x t \<longleftrightarrow> (if v = lk_owner p \<and> covers p x then t = lk_type p else held ls v x t))
        \<and> (\<forall>l \<in> set ls. waitqueue l \<in> set w \<or> kept_in ls' l))"
proof (cases "find (conflict_with p) ls")
  case None
  then have "\<forall>l \<in> set ls. \<not> conflict_with p l" by (auto simp: find_None_iff)
  moreover obtain ls' w where "insert_lock_into_list ls p = Return (ls', w)" "rl_inv ls'"
    "\<forall>v x t. held ls' v x t \<longleftrightarrow> (if v = lk_owner p \<and> covers p x then t = lk_type p else held ls v x t)"
    "\<forall>l \<in> set ls. waitqueue l \<in> set w \<or> kept_in ls' l"
    using insert_spec [OF assms] by blast
  moreover from this have "try_set_lock ls p waker = Return (Inr (), ls', None, w)"
    using None by (simp add: try_set_lock_def)
  ultimately show ?thesis by blast
next
  case (Some l)
  then have "l \<in> set ls" "conflict_with p l" by (auto simp: find_Some_iff)
  with Some show ?thesis by (auto simp: try_set_lock_def)
qed

lemma lock_reachable_inv: "lock_reachable ls \<Longrightarrow> rl_inv ls"
proof (induction rule: lock_reachable.induct)
  case empty
  then show ?case by (simp add: rl_inv_def group_ok_def locks_of_def)
next
  case (set ls s e r pid q t waker res ls' enq woken)
  have "\<exists>res ls' enq w. try_set_lock ls (item_new pid q t r) waker = Return (res, ls', enq, w) \<and> rl_inv ls'"
    using try_set_lock_spec [OF set.IH item_new_valid [OF set.hyps(2)], of pid q t waker] set.IH by blast
  with set.hyps(3) show ?case by auto
next
  case (unlock ls s e r pid q t ls' woken)
  have "\<exists>ls' w. unlock ls (item_new pid q t r) = Return (ls', w) \<and> rl_inv ls'"
    using unlock_spec [OF unlock.IH item_new_valid [OF unlock.hyps(2)], of pid q t] by blast
  with unlock.hyps(3) show ?case by auto
qed

text \<open>
  C7. Setting and clearing locks is exact, byte by byte. On every list of locks the kernel can
  reach, a request for bytes \<open>s\<close> to \<open>e\<close> either meets a conflicting lock, and then returns \<open>EAGAIN\<close>,
  changes nothing and enqueues the waker on the queue of a conflicting lock; or it makes exactly
  those bytes held by the process with the requested type and leaves every other byte as it was.
  Unlocking releases exactly those bytes of the process. Neither panics.
\<close>

theorem range_lock_exact:
  assumes "lock_reachable ls" "fr_new s e = Inr r"
  shows "((\<exists>l \<in> set ls. conflict_with (item_new pid q t r) l
        \<and> try_set_lock ls (item_new pid q t r) waker
          = Return (Inl EAGAIN, ls, map_option (Pair (waitqueue l)) waker, []))
      \<or> (\<forall>l \<in> set ls. \<not> conflict_with (item_new pid q t r) l)
        \<and> (\<exists>ls' w. try_set_lock ls (item_new pid q t r) waker = Return (Inr (), ls', None, w)
          \<and> (\<forall>v x u. held ls' v x u \<longleftrightarrow> (if v = pid \<and> s \<le> x \<and> x < e then u = t else held ls v x u))))
    \<and> (\<exists>ls' w. unlock ls (item_new pid q t r) = Return (ls', w)
        \<and> (\<forall>v x u. held ls' v x u \<longleftrightarrow> \<not> (v = pid \<and> s \<le> x \<and> x < e) \<and> held ls v x u))"
proof -
  have inv: "rl_inv ls" and p: "valid_lock (item_new pid q t r)"
    using lock_reachable_inv [OF assms(1)] item_new_valid [OF assms(2)] by simp_all
  obtain ls' w where u: "unlock ls (item_new pid q t r) = Return (ls', w)"
    "\<forall>v x u. held ls' v x u \<longleftrightarrow> \<not> (v = pid \<and> s \<le> x \<and> x < e) \<and> held ls v x u"
    using unlock_spec [OF inv p, unfolded item_new_covers [OF assms(2)] item_new_sel] by blast
  note set = try_set_lock_spec [OF inv p, of waker, unfolded item_new_covers [OF assms(2)] item_new_sel]
  show ?thesis
  proof (rule conjI)
    from set show "(\<exists>l \<in> set ls. conflict_with (item_new pid q t r) l
        \<and> try_set_lock ls (item_new pid q t r) waker
          = Return (Inl EAGAIN, ls, map_option (Pair (waitqueue l)) waker, []))
      \<or> (\<forall>l \<in> set ls. \<not> conflict_with (item_new pid q t r) l)
        \<and> (\<exists>ls' w. try_set_lock ls (item_new pid q t r) waker = Return (Inr (), ls', None, w)
          \<and> (\<forall>v x u. held ls' v x u \<longleftrightarrow> (if v = pid \<and> s \<le> x \<and> x < e then u = t else held ls v x u)))"
      by (elim disjE conjE exE) (rule disjI1, assumption, rule disjI2, intro conjI exI, assumption+)
    from u show "\<exists>ls' w. unlock ls (item_new pid q t r) = Return (ls', w)
        \<and> (\<forall>v x u. held ls' v x u \<longleftrightarrow> \<not> (v = pid \<and> s \<le> x \<and> x < e) \<and> held ls v x u)"
      by (intro exI conjI)
  qed
qed

definition sample_locks :: "RangeLockItem list" where
  "sample_locks = [item_new 1 10 ReadLock \<lparr>fr_start = 0, fr_end = 100\<rparr>]"

lemma sample_locks_reachable: "lock_reachable sample_locks"
  by (rule set [OF empty, of 0 100 "\<lparr>fr_start = 0, fr_end = 100\<rparr>" 1 10 ReadLock None "Inr ()" _ None "[]"])
    (code_simp, code_simp)

theorem range_lock_exact_witness:
  "\<exists>ls' w. unlock sample_locks (item_new 1 11 Unlock \<lparr>fr_start = 20, fr_end = 30\<rparr>) = Return (ls', w)
     \<and> held ls' 1 19 ReadLock \<and> \<not> held ls' 1 20 ReadLock"
proof -
  let ?p = "item_new 1 11 Unlock \<lparr>fr_start = 20, fr_end = 30\<rparr>"
  have "fr_new 20 30 = Inr \<lparr>fr_start = 20, fr_end = 30\<rparr>" by code_simp
  from range_lock_exact [OF sample_locks_reachable this, of 1 11 Unlock None, THEN conjunct2]
  obtain ls' w where r: "unlock sample_locks ?p = Return (ls', w)"
    "\<forall>v x u. held ls' v x u \<longleftrightarrow> \<not> (v = 1 \<and> 20 \<le> x \<and> x < 30) \<and> held sample_locks v x u"
    by blast
  have "held sample_locks 1 19 ReadLock" by (simp add: sample_locks_def held_def covers_def)
  then have "held ls' 1 19 ReadLock" "\<not> held ls' 1 20 ReadLock"
    using r(2) [THEN spec, THEN spec, THEN spec, of 1 19 ReadLock]
      r(2) [THEN spec, THEN spec, THEN spec, of 1 20 ReadLock] by simp_all
  with r(1) show ?thesis by blast
qed

definition exclusive :: "RangeLockItem list \<Rightarrow> bool" where
  "exclusive ls \<longleftrightarrow> (\<forall>u v x t. u \<noteq> v \<longrightarrow> held ls u x WriteLock \<longrightarrow> \<not> held ls v x t)"

lemma exclusiveD: "exclusive ls \<Longrightarrow> u \<noteq> v \<Longrightarrow> held ls u x WriteLock \<Longrightarrow> \<not> held ls v x t"
  unfolding exclusive_def by blast

lemma exclusive_mono:
  assumes "exclusive ls" "\<And>v x t. held ls' v x t \<Longrightarrow> held ls v x t"
  shows "exclusive ls'"
  unfolding exclusive_def using assms(2) exclusiveD [OF assms(1)] by blast

lemma exclusive_set:
  assumes ex: "exclusive ls" and nc: "\<forall>l \<in> set ls. \<not> conflict_with p l"
    and held: "\<And>v x t. held ls' v x t \<longleftrightarrow> (if v = lk_owner p \<and> covers p x then t = lk_type p else held ls v x t)"
  shows "exclusive ls'"
proof -
  have clash: "lk_type p \<noteq> WriteLock \<and> t \<noteq> WriteLock"
    if h: "held ls v x t" and v: "v \<noteq> lk_owner p" and c: "covers p x" for v x t
  proof -
    obtain l where l: "l \<in> set ls" "lk_owner l = v" "lk_type l = t" "covers l x"
      using h unfolding held_def by blast
    then have "overlap_with p l \<noteq> None" using c by (auto simp: overlap_with_eq covers_def)
    moreover have "\<not> conflict_with p l" using nc l(1) by blast
    ultimately show ?thesis using v l(2,3) by (auto simp: conflict_with_def)
  qed
  show ?thesis
    unfolding exclusive_def
  proof (intro allI impI)
    fix u v x t
    assume uv: "u \<noteq> v" and w: "held ls' u x WriteLock"
    show "\<not> held ls' v x t"
    proof
      assume "held ls' v x t"
      with w uv clash [of u x WriteLock] clash [of v x t] exclusiveD [OF ex uv] show False
        unfolding held by (auto split: if_splits)
    qed
  qed
qed

lemma lock_reachable_exclusive: "lock_reachable ls \<Longrightarrow> exclusive ls"
proof (induction rule: lock_reachable.induct)
  case empty
  then show ?case by (simp add: exclusive_def held_def)
next
  case (set ls s e r pid q t waker res ls' enq woken)
  let ?p = "item_new pid q t r"
  from try_set_lock_spec [OF lock_reachable_inv [OF set.hyps(1)] item_new_valid [OF set.hyps(2)], of pid q t waker]
  show ?case
  proof (elim disjE bexE conjE exE)
    fix l assume "try_set_lock ls ?p waker = Return (Inl EAGAIN, ls, map_option (Pair (waitqueue l)) waker, [])"
    then have "ls' = ls" using set.hyps(3) by simp
    with set.IH show ?thesis by (simp only:)
  next
    fix ls'' w
    assume *: "\<forall>l \<in> set ls. \<not> conflict_with ?p l" "try_set_lock ls ?p waker = Return (Inr (), ls'', None, w)"
      "\<forall>v x t. held ls'' v x t \<longleftrightarrow> (if v = lk_owner ?p \<and> covers ?p x then t = lk_type ?p else held ls v x t)"
    have "ls' = ls''" using set.hyps(3) *(2) by simp
    moreover have "exclusive ls''"
      by (rule exclusive_set [OF set.IH *(1)]) (rule *(3) [THEN spec, THEN spec, THEN spec])
    ultimately show ?thesis by (simp only:)
  qed
next
  case (unlock ls s e r pid q t ls' woken)
  from unlock_spec [OF lock_reachable_inv [OF unlock.hyps(1)] item_new_valid [OF unlock.hyps(2)], of pid q t]
  show ?case
  proof (elim exE conjE)
    fix ls'' w
    assume *: "unlock ls (item_new pid q t r) = Return (ls'', w)"
      "\<forall>v x u. held ls'' v x u \<longleftrightarrow> \<not> (v = lk_owner (item_new pid q t r) \<and> covers (item_new pid q t r) x)
         \<and> held ls v x u"
    have "ls' = ls''" using unlock.hyps(3) *(1) by simp
    moreover have "exclusive ls''" by (rule exclusive_mono [OF unlock.IH]) (use *(2) in blast)
    ultimately show ?thesis by (simp only:)
  qed
qed

text \<open>
  C8. Locks exclude each other. However processes interleave requests and releases, no byte is
  ever write-locked by one process while another process holds any lock on it.
\<close>

theorem range_lock_exclusive:
  assumes "lock_reachable ls" "u \<noteq> v" "held ls u x WriteLock"
  shows "\<not> held ls v x t"
  by (rule exclusiveD [OF lock_reachable_exclusive [OF assms(1)] assms(2,3)])

definition sample_write :: "RangeLockItem list" where
  "sample_write = [item_new 1 10 ReadLock \<lparr>fr_start = 0, fr_end = 100\<rparr>,
     item_new 2 11 WriteLock \<lparr>fr_start = 100, fr_end = 120\<rparr>]"

lemma sample_write_reachable: "lock_reachable sample_write"
  by (rule set [OF sample_locks_reachable, of 100 120 "\<lparr>fr_start = 100, fr_end = 120\<rparr>" 2 11 WriteLock
        None "Inr ()" _ None "[]"])
    (code_simp, code_simp)

theorem range_lock_exclusive_witness: "\<not> held sample_write 1 100 ReadLock"
proof -
  have "held sample_write 2 100 WriteLock" by (simp add: sample_write_def held_def covers_def)
  with range_lock_exclusive [OF sample_write_reachable, of 2 1 100 ReadLock] show ?thesis by simp
qed

text \<open>
  C28. No waiter is stranded. After a lock is set or cleared, each lock of the old list, on whose
  queue processes may be waiting, has either had its queue woken, or its queue belongs to a lock
  of the same process and type in the new list that covers all its bytes.
\<close>

theorem range_lock_waiters:
  assumes "lock_reachable ls" "fr_new s e = Inr r" "l \<in> set ls"
  shows "(\<exists>res ls' enq woken. try_set_lock ls (item_new pid q t r) waker = Return (res, ls', enq, woken)
      \<and> (waitqueue l \<in> set woken \<or> (\<exists>m \<in> set ls'. waitqueue m = waitqueue l \<and> lk_owner m = lk_owner l
          \<and> lk_type m = lk_type l \<and> lk_start m \<le> lk_start l \<and> lk_end l \<le> lk_end m)))
    \<and> (\<exists>ls' woken. unlock ls (item_new pid q t r) = Return (ls', woken)
      \<and> (waitqueue l \<in> set woken \<or> (\<exists>m \<in> set ls'. waitqueue m = waitqueue l \<and> lk_owner m = lk_owner l
          \<and> lk_type m = lk_type l \<and> lk_start m \<le> lk_start l \<and> lk_end l \<le> lk_end m)))"
proof -
  have inv: "rl_inv ls" and p: "valid_lock (item_new pid q t r)"
    using lock_reachable_inv [OF assms(1)] item_new_valid [OF assms(2)] by simp_all
  have "kept_in ls l" using assms(3) by (rule kept_in_self)
  then have "\<exists>res ls' enq woken. try_set_lock ls (item_new pid q t r) waker = Return (res, ls', enq, woken)
      \<and> (waitqueue l \<in> set woken \<or> kept_in ls' l)"
    using try_set_lock_spec [OF inv p, of waker] assms(3) by blast
  moreover have "\<exists>ls' woken. unlock ls (item_new pid q t r) = Return (ls', woken)
      \<and> (waitqueue l \<in> set woken \<or> kept_in ls' l)"
    using unlock_spec [OF inv p] assms(3) by blast
  ultimately show ?thesis unfolding kept_in_def by blast
qed

theorem range_lock_waiters_witness:
  "\<exists>ls' woken. unlock sample_locks (item_new 1 11 Unlock \<lparr>fr_start = 0, fr_end = 100\<rparr>) = Return (ls', woken)
     \<and> ls' = [] \<and> 10 \<in> set woken"
proof -
  let ?l = "item_new 1 10 ReadLock \<lparr>fr_start = 0, fr_end = 100\<rparr>"
  have "fr_new 0 100 = Inr \<lparr>fr_start = 0, fr_end = 100\<rparr>" "?l \<in> set sample_locks"
    by (simp_all add: fr_new_def sample_locks_def)
  from range_lock_waiters [OF sample_locks_reachable this, of 1 11 Unlock None, THEN conjunct2]
  obtain ls' woken where r: "unlock sample_locks (item_new 1 11 Unlock \<lparr>fr_start = 0, fr_end = 100\<rparr>)
      = Return (ls', woken)" "10 \<in> set woken \<or> (\<exists>m \<in> set ls'. True)"
    by auto
  have "unlock sample_locks (item_new 1 11 Unlock \<lparr>fr_start = 0, fr_end = 100\<rparr>) = Return ([], [10])"
    by code_simp
  with r show ?thesis by simp
qed

end
