(* ===== verification/Device_Id.thy ===== *)
theory Device_Id
  imports Kei_Prelude
begin

text \<open>
  Device identifiers: \<^verbatim>\<open>kernel/libs/device-id/src/lib.rs\<close>. A device identifier packs a 12-bit major
  and a 20-bit minor number into 32 bits; for user space it is encoded in 64 bits the way glibc
  does. The ranged integers assert their range when built with \<open>new\<close> and check it with
  \<open>try_from\<close>.
\<close>

unbundle bit_operations_syntax

type_synonym DeviceId = u32

definition MAX_MAJOR_ID :: u16 where "MAX_MAJOR_ID = 0x0fff"
definition MAX_MINOR_ID :: u32 where "MAX_MINOR_ID = 0x000fffff"

definition major_id_new :: "u16 \<Rightarrow> u16 rust" where
  "major_id_new v = (if v \<le> MAX_MAJOR_ID then Return v else Panic)"

definition minor_id_new :: "u32 \<Rightarrow> u32 rust" where
  "minor_id_new v = (if v \<le> MAX_MINOR_ID then Return v else Panic)"

definition major_id_try_from :: "u16 \<Rightarrow> u16 option" where
  "major_id_try_from v = (if v \<le> MAX_MAJOR_ID then Some v else None)"

definition minor_id_try_from :: "u32 \<Rightarrow> u32 option" where
  "minor_id_try_from v = (if v \<le> MAX_MINOR_ID then Some v else None)"

definition device_id_new :: "u16 \<Rightarrow> u32 \<Rightarrow> DeviceId" where
  "device_id_new maj mnr = push_bit 20 (ucast maj) OR mnr"

definition device_id_null :: DeviceId where
  "device_id_null = 0"

definition major :: "DeviceId \<Rightarrow> u16 rust" where
  "major d = major_id_new (ucast (drop_bit 20 d))"

definition minor :: "DeviceId \<Rightarrow> u32 rust" where
  "minor d = minor_id_new (d AND 0xfffff)"

definition is_null :: "DeviceId \<Rightarrow> bool" where
  "is_null d \<longleftrightarrow> d = 0"

definition is_anonymous :: "DeviceId \<Rightarrow> bool rust" where
  "is_anonymous d =
     rust_bind (major d) (\<lambda>ma.
       if ma = 0 then rust_bind (minor d) (\<lambda>mi. Return (mi \<ge> 1)) else Return False)"

definition decode_device_numbers :: "u64 \<Rightarrow> u32 \<times> u32" where
  "decode_device_numbers raw =
     (ucast ((drop_bit 32 raw AND 0xfffff000) OR (drop_bit 8 raw AND 0x00000fff)),
      ucast ((drop_bit 12 raw AND 0xffffff00) OR (raw AND 0x000000ff)))"

definition encode_device_numbers :: "u32 \<Rightarrow> u32 \<Rightarrow> u64" where
  "encode_device_numbers maj mnr =
     (let maj64 = ucast maj :: u64; mnr64 = ucast mnr :: u64 in
      push_bit 32 (maj64 AND 0xfffff000) OR push_bit 8 (maj64 AND 0x00000fff)
      OR push_bit 12 (mnr64 AND 0xffffff00) OR (mnr64 AND 0x000000ff))"

definition from_encoded_u64 :: "u64 \<Rightarrow> DeviceId option" where
  "from_encoded_u64 raw =
     (case decode_device_numbers raw of (ma, mi) \<Rightarrow>
        (case major_id_try_from (ucast ma) of
           None \<Rightarrow> None
         | Some ma' \<Rightarrow>
             (case minor_id_try_from mi of
                None \<Rightarrow> None
              | Some mi' \<Rightarrow> Some (device_id_new ma' mi'))))"

definition as_encoded_u64 :: "DeviceId \<Rightarrow> u64 rust" where
  "as_encoded_u64 d =
     rust_bind (major d) (\<lambda>ma. rust_bind (minor d) (\<lambda>mi.
       Return (encode_device_numbers (ucast ma) mi)))"

lemma device_masks:
  "(0xfff :: 'a::len word) = mask 12" "(0xff :: 'a word) = mask 8" "(0xfffff :: 'a word) = mask 20"
  "(0xfffff000 :: u64) = push_bit 12 (mask 20)" "(0xffffff00 :: u64) = push_bit 8 (mask 24)"
  by (simp_all add: mask_eq_exp_minus_1 push_bit_eq_mult)

lemma decode_encode: "decode_device_numbers (encode_device_numbers maj mnr) = (maj, mnr)"
  by (auto simp: decode_device_numbers_def encode_device_numbers_def Let_def device_masks bit_simps
      intro!: bit_word_eqI)

lemma le_mask: "x AND mask n = x \<Longrightarrow> x \<le> mask n" for x :: "'a::len word"
  by (metis word_and_le1)

lemma major_eq: "major d = Return (ucast (drop_bit 20 d))"
proof -
  have "(ucast (drop_bit 20 d) :: u16) AND mask 12 = ucast (drop_bit 20 d)"
    by (rule bit_word_eqI) (auto simp: bit_simps dest: bit_imp_le_length)
  then show ?thesis
    using le_mask by (simp add: major_def major_id_new_def MAX_MAJOR_ID_def device_masks)
qed

lemma minor_eq: "minor d = Return (d AND mask 20)"
  by (simp add: minor_def minor_id_new_def MAX_MINOR_ID_def device_masks word_and_le1)

lemma device_id_parts: "device_id_new (ucast (drop_bit 20 d)) (d AND mask 20) = d"
  unfolding device_id_new_def by (rule bit_word_eqI) (auto simp: bit_simps)

lemma from_encoded_eq:
  assumes "(ucast ma :: u16) \<le> MAX_MAJOR_ID" "mi \<le> MAX_MINOR_ID"
  shows "from_encoded_u64 (encode_device_numbers ma mi) = Some (device_id_new (ucast ma) mi)"
  using assms by (simp add: from_encoded_u64_def decode_encode major_id_try_from_def minor_id_try_from_def)

text \<open>
  Device numbers survive their encoding. Decoding what \<open>encode_device_numbers\<close> produced gives
  back any pair of 32-bit numbers; and every device identifier can be encoded, without a panic,
  and is found again from its encoding.
\<close>

lemma device_id_round_trip:
  "decode_device_numbers (encode_device_numbers maj mnr) = (maj, mnr)
   \<and> (\<exists>raw. as_encoded_u64 d = Return raw \<and> from_encoded_u64 raw = Some d)"
proof -
  let ?ma = "ucast (drop_bit 20 d) :: u16" and ?mi = "d AND mask 20"
  have enc: "as_encoded_u64 d = Return (encode_device_numbers (ucast ?ma) ?mi)"
    by (simp add: as_encoded_u64_def major_eq minor_eq)
  have "?ma \<le> MAX_MAJOR_ID" "?mi \<le> MAX_MINOR_ID"
    using major_eq [of d] minor_eq [of d]
    by (auto simp: major_def minor_def major_id_new_def minor_id_new_def device_masks split: if_splits)
  moreover have "(ucast (ucast ?ma :: u32) :: u16) = ?ma"
    by (rule bit_word_eqI) (auto simp: bit_simps)
  ultimately have "from_encoded_u64 (encode_device_numbers (ucast ?ma) ?mi) = Some (device_id_new ?ma ?mi)"
    using from_encoded_eq [of "ucast ?ma" ?mi] by simp
  with enc device_id_parts [of d] decode_encode [of maj mnr] show ?thesis by simp
qed

text \<open>
  The range check on the major number is incomplete. Whatever the upper sixteen bits \<open>k\<close> of
  a 32-bit major number are, \<open>from_encoded_u64\<close> accepts it if its lower sixteen bits are in
  range, and returns the device with only the lower bits as its major number. So numbers outside
  the valid range are not always refused, and different encodings denote one device.
\<close>

lemma from_encoded_drops_major_bits:
  assumes "ma \<le> MAX_MAJOR_ID" "mi \<le> MAX_MINOR_ID"
  shows "from_encoded_u64 (encode_device_numbers (push_bit 16 k OR ucast ma) mi) = Some (device_id_new ma mi)"
proof -
  have "(ucast (push_bit 16 k OR ucast ma :: u32) :: u16) = ma"
    by (rule bit_word_eqI) (auto simp: bit_simps)
  with from_encoded_eq [of "push_bit 16 k OR ucast ma" mi] assms show ?thesis by simp
qed

lemma from_encoded_drops_major_bits_witness:
  "from_encoded_u64 (encode_device_numbers 0x10001 3) = Some (device_id_new 1 3)"
  using from_encoded_drops_major_bits [of 1 3 1] by (simp add: MAX_MAJOR_ID_def MAX_MINOR_ID_def)

end
