(* ===== verification/Range_Alloc.thy ===== *)
theory Range_Alloc
  imports Kei_Prelude
begin

text \<open>
  The range allocator of \<^verbatim>\<open>packages/ostd/src/util/range_alloc.rs\<close>, which hands out kernel virtual
  address ranges. The free list is a \<open>BTreeMap\<close> from start addresses to blocks: here the list of
  its entries in key order, with the map's operations on it. Addresses are natural numbers;
  the only additions and subtractions stay between the bounds of a block, which the invariant
  keeps ordered, so none overflows.

  The free list is shown to be a canonical representation of the set of free addresses:
  sorted, disjoint, non-empty blocks of which no two touch.
\<close>

section \<open>Ordered maps\<close>

fun bt_insert :: "nat \<Rightarrow> 'v \<Rightarrow> (nat \<times> 'v) list \<Rightarrow> (nat \<times> 'v) list" where
  "bt_insert k v [] = [(k, v)]"
| "bt_insert k v ((k', v') # xs) =
     (if k < k' then (k, v) # (k', v') # xs
      else if k = k' then (k, v) # xs
      else (k', v') # bt_insert k v xs)"

definition bt_remove :: "nat \<Rightarrow> (nat \<times> 'v) list \<Rightarrow> (nat \<times> 'v) list" where
  "bt_remove k xs = filter (\<lambda>(k', v). k' \<noteq> k) xs"

text \<open>The effect of writing through \<open>get_mut(&k)\<close>.\<close>

definition bt_update :: "nat \<Rightarrow> ('v \<Rightarrow> 'v) \<Rightarrow> (nat \<times> 'v) list \<Rightarrow> (nat \<times> 'v) list" where
  "bt_update k f xs = map (\<lambda>(k', v). (k', if k' = k then f v else v)) xs"

text \<open>
  \<open>upper_bound_mut(Excluded(&k)).peek_prev()\<close>: the entry with the greatest key below \<open>k\<close>, and
  \<open>lower_bound_mut(Excluded(&k)).peek_next()\<close>: the entry with the least key above \<open>k\<close>.
\<close>

definition bt_prev :: "nat \<Rightarrow> (nat \<times> 'v) list \<Rightarrow> (nat \<times> 'v) option" where
  "bt_prev k xs = (let ys = filter (\<lambda>(k', v). k' < k) xs in if ys = [] then None else Some (last ys))"

definition bt_next :: "nat \<Rightarrow> (nat \<times> 'v) list \<Rightarrow> (nat \<times> 'v) option" where
  "bt_next k xs = find (\<lambda>(k', v). k < k') xs"

section \<open>The allocator\<close>

record FreeRange =
  block_start :: nat
  block_end :: nat

type_synonym freelist = "(nat \<times> FreeRange) list"

record RangeAllocator =
  fullrange :: "nat \<times> nat"
  free_blocks :: "freelist option"

datatype RangeAllocError = RangeAllocError

definition ra_new :: "nat \<times> nat \<Rightarrow> RangeAllocator" where
  "ra_new r = \<lparr>fullrange = r, free_blocks = None\<rparr>"

definition get_freelist_guard :: "RangeAllocator \<Rightarrow> freelist" where
  "get_freelist_guard ra =
     (case free_blocks ra of
        None \<Rightarrow> bt_insert (fst (fullrange ra))
                 \<lparr>block_start = fst (fullrange ra), block_end = snd (fullrange ra)\<rparr> []
      | Some fl \<Rightarrow> fl)"

text \<open>The part of \<open>alloc_specific\<close> that takes \<open>s..e\<close> out of the block \<open>v\<close> found at key \<open>k\<close>.\<close>

definition take_specific :: "freelist \<Rightarrow> nat \<Rightarrow> FreeRange \<Rightarrow> nat \<Rightarrow> nat \<Rightarrow> freelist" where
  "take_specific fl k v s e =
     (let left_length = s - block_start v; right_length = block_end v - e;
          fl1 = (if left_length = 0 then bt_remove k fl
                 else bt_update k (\<lambda>v. v\<lparr>block_end := s\<rparr>) fl)
      in if right_length \<noteq> 0
         then bt_insert e \<lparr>block_start = e, block_end = e + right_length\<rparr> fl1 else fl1)"

definition ra_alloc_specific ::
    "RangeAllocator \<Rightarrow> nat \<times> nat \<Rightarrow> (RangeAllocError + unit) \<times> RangeAllocator" where
  "ra_alloc_specific ra = (\<lambda>(s, e).
     if \<not> s < e then (Inl RangeAllocError, ra)
     else let fl = get_freelist_guard ra in
       case find (\<lambda>(k, v). block_end v \<ge> e \<and> block_start v \<le> s) fl of
         None \<Rightarrow> (Inl RangeAllocError, ra\<lparr>free_blocks := Some fl\<rparr>)
       | Some (k, v) \<Rightarrow> (Inr (), ra\<lparr>free_blocks := Some (take_specific fl k v s e)\<rparr>))"

definition ra_alloc :: "RangeAllocator \<Rightarrow> nat \<Rightarrow> (RangeAllocError + nat \<times> nat) \<times> RangeAllocator" where
  "ra_alloc ra n =
     (let fl = get_freelist_guard ra in
      case find (\<lambda>(k, v). block_end v - block_start v \<ge> n) fl of
        None \<Rightarrow> (Inl RangeAllocError, ra\<lparr>free_blocks := Some fl\<rparr>)
      | Some (k, v) \<Rightarrow>
          let fl1 = (if block_end v - n = block_start v then bt_remove k fl
                     else bt_update k (\<lambda>v. v\<lparr>block_end := block_end v - n\<rparr>) fl)
          in (Inr (block_end v - n, block_end v), ra\<lparr>free_blocks := Some fl1\<rparr>))"

definition free_list :: "freelist \<Rightarrow> nat \<times> nat \<Rightarrow> freelist" where
  "free_list fl = (\<lambda>(s, e).
     let (s1, fl1) =
           (case bt_prev s fl of
              Some (k, v) \<Rightarrow> if block_end v = s then (block_start v, bt_remove k fl) else (s, fl)
            | None \<Rightarrow> (s, fl));
         fl2 = bt_insert s1 \<lparr>block_start = s1, block_end = e\<rparr> fl1
     in case bt_next s1 fl2 of
          Some (k, v) \<Rightarrow>
            if e = block_start v
            then bt_update s1 (\<lambda>w. w\<lparr>block_end := block_end v\<rparr>) (bt_remove k fl2)
            else fl2
        | None \<Rightarrow> fl2)"

definition ra_free :: "RangeAllocator \<Rightarrow> nat \<times> nat \<Rightarrow> RangeAllocator rust" where
  "ra_free ra r =
     (case free_blocks ra of
        None \<Rightarrow> Panic
      | Some fl \<Rightarrow> Return (ra\<lparr>free_blocks := Some (free_list fl r)\<rparr>))"

section \<open>Invariant\<close>

text \<open>Blocks keyed by their start, not empty, and with a gap before each next one.\<close>

fun fl_inv :: "nat \<Rightarrow> freelist \<Rightarrow> bool" where
  "fl_inv lo [] = True"
| "fl_inv lo ((k, v) # fl) \<longleftrightarrow>
     k = block_start v \<and> lo \<le> k \<and> k < block_end v \<and> fl_inv (block_end v + 1) fl"

definition free_addrs :: "freelist \<Rightarrow> nat set" where
  "free_addrs fl = (\<Union>(k, v) \<in> set fl. {block_start v..<block_end v})"

lemma free_addrs_simps [simp]:
  "free_addrs [] = {}" "free_addrs ((k, v) # fl) = {block_start v..<block_end v} \<union> free_addrs fl"
  "free_addrs (xs @ ys) = free_addrs xs \<union> free_addrs ys"
  by (auto simp: free_addrs_def)

lemma fl_inv_lower: "fl_inv lo fl \<Longrightarrow> (k, v) \<in> set fl \<Longrightarrow> lo \<le> k \<and> k = block_start v \<and> k < block_end v"
  by (induction lo fl rule: fl_inv.induct) force+

lemma fl_inv_addrs: "fl_inv lo fl \<Longrightarrow> free_addrs fl \<subseteq> {lo..}"
  by (induction lo fl rule: fl_inv.induct) force+

lemma fl_inv_mono: "fl_inv lo fl \<Longrightarrow> lo' \<le> lo \<Longrightarrow> fl_inv lo' fl"
  by (cases fl) auto

lemma fl_inv_append:
  "fl_inv lo (xs @ (k, v) # ys) \<longleftrightarrow>
     fl_inv lo xs \<and> (\<forall>(k', v') \<in> set xs. block_end v' < k) \<and> lo \<le> k \<and> k = block_start v
     \<and> k < block_end v \<and> fl_inv (block_end v + 1) ys"
proof (induction lo xs rule: fl_inv.induct)
  case (2 lo k' v' fl)
  then show ?case by auto
qed auto

lemma find_split:
  "find P xs = Some x \<Longrightarrow> \<exists>A B. xs = A @ x # B \<and> P x \<and> (\<forall>y \<in> set A. \<not> P y)"
proof (induction xs)
  case (Cons y ys)
  show ?case
  proof (cases "P y")
    case True
    with Cons.prems show ?thesis by (intro exI [of _ "[]"] exI [of _ ys]) simp
  next
    case False
    with Cons obtain A B where "ys = A @ x # B" "P x" "\<forall>y \<in> set A. \<not> P y" by auto
    with False show ?thesis by (intro exI [of _ "y # A"] exI [of _ B]) simp
  qed
qed simp

lemma bt_insert_between:
  "\<forall>(k', v') \<in> set A. k' < k \<Longrightarrow> \<forall>(k', v') \<in> set B. k < k' \<Longrightarrow> bt_insert k v (A @ B) = A @ (k, v) # B"
proof (induction A)
  case Nil
  then show ?case by (cases B) auto
qed auto

text \<open>The operations at an entry of a well-formed list.\<close>

lemma fl_inv_keys:
  assumes "fl_inv lo (A @ (k, v) # B)"
  shows "\<forall>(k', v') \<in> set A. k' < k \<and> block_end v' < k" "\<forall>(k', v') \<in> set B. block_end v < k'" "k < block_end v"
proof -
  note inv = assms [unfolded fl_inv_append]
  then show "k < block_end v" by blast
  have "k' < k \<and> block_end v' < k" if "(k', v') \<in> set A" for k' v'
    using inv that fl_inv_lower [of lo A k' v'] by force
  then show "\<forall>(k', v') \<in> set A. k' < k \<and> block_end v' < k" by blast
  have "block_end v < k'" if "(k', v') \<in> set B" for k' v'
    using inv that fl_inv_lower [of "block_end v + 1" B k' v'] by simp
  then show "\<forall>(k', v') \<in> set B. block_end v < k'" by blast
qed

lemma bt_at:
  assumes "fl_inv lo (A @ (k, v) # B)"
  shows "bt_remove k (A @ (k, v) # B) = A @ B" "bt_update k f (A @ (k, v) # B) = A @ (k, f v) # B"
proof -
  have "\<forall>(k', v') \<in> set A. k' \<noteq> k" "\<forall>(k', v') \<in> set B. k' \<noteq> k"
    using fl_inv_keys [OF assms] by fastforce+
  then show "bt_remove k (A @ (k, v) # B) = A @ B" "bt_update k f (A @ (k, v) # B) = A @ (k, f v) # B"
    by (auto simp: bt_remove_def bt_update_def filter_id_conv intro!: map_idI)
qed

lemma fl_inv_join: "fl_inv lo A \<Longrightarrow> \<forall>(k, v) \<in> set A. block_end v < m \<Longrightarrow> fl_inv m B \<Longrightarrow> lo \<le> m \<Longrightarrow> fl_inv lo (A @ B)"
  by (induction lo A rule: fl_inv.induct) (auto intro: fl_inv_mono)

lemma addrs_before: "\<forall>(k', v') \<in> set A. block_end v' < k \<Longrightarrow> free_addrs A \<subseteq> {..<k}"
  by (fastforce simp: free_addrs_def)

lemma block_gap:
  assumes "fl_inv lo (A @ (k, v) # B)"
  shows "free_addrs A \<subseteq> {..<k}" "free_addrs B \<subseteq> {block_end v <..}"
proof -
  show "free_addrs A \<subseteq> {..<k}"
    by (rule addrs_before) (use fl_inv_keys(1) [OF assms] in blast)
  have "fl_inv (block_end v + 1) B" using assms by (simp add: fl_inv_append)
  then show "free_addrs B \<subseteq> {block_end v <..}" using fl_inv_addrs by fastforce
qed

lemma range_in_block:
  assumes "fl_inv lo fl" "s < e" "{s..<e} \<subseteq> free_addrs fl"
  shows "\<exists>(k, v) \<in> set fl. block_start v \<le> s \<and> e \<le> block_end v"
proof -
  have "s \<in> free_addrs fl" using assms(2,3) by auto
  then obtain k v where kv: "(k, v) \<in> set fl" "block_start v \<le> s" "s < block_end v"
    by (auto simp: free_addrs_def)
  then obtain A B where fl: "fl = A @ (k, v) # B" by (meson split_list)
  have "block_end v \<notin> free_addrs fl"
    using block_gap [of lo A k v B] assms(1) fl_inv_keys(3) [of lo A k v B] unfolding fl by auto
  then have "e \<le> block_end v" using assms(3) kv(2,3) by (meson atLeastLessThan_iff less_imp_le not_le subsetD)
  with kv show ?thesis by blast
qed

text \<open>Taking \<open>s..e\<close> out of a block that contains it.\<close>

definition carve :: "nat \<Rightarrow> nat \<Rightarrow> nat \<times> FreeRange \<Rightarrow> freelist" where
  "carve s e = (\<lambda>(k, v).
     (if s = block_start v then [] else [(k, v\<lparr>block_end := s\<rparr>)])
     @ (if e = block_end v then [] else [(e, \<lparr>block_start = e, block_end = block_end v\<rparr>)]))"

lemma carve_spec:
  assumes inv: "fl_inv lo (A @ (k, v) # B)" and se: "block_start v \<le> s" "s < e" "e \<le> block_end v"
  shows "fl_inv lo (A @ carve s e (k, v) @ B)"
    "free_addrs (A @ carve s e (k, v) @ B) = free_addrs (A @ (k, v) # B) - {s..<e}"
proof -
  note keys = fl_inv_keys [OF inv] and i = inv [unfolded fl_inv_append]
  have A: "fl_inv lo A" "\<forall>(k', v') \<in> set A. block_end v' < k" "lo \<le> k" and B: "fl_inv (block_end v + 1) B"
    and k: "k = block_start v"
    using i by auto
  have "fl_inv k (carve s e (k, v))" "\<forall>(k', v') \<in> set (carve s e (k, v)). block_end v' < block_end v + 1"
    using se k by (auto simp: carve_def)
  then have "fl_inv k (carve s e (k, v) @ B)"
    using fl_inv_join [of k "carve s e (k, v)" "block_end v + 1" B] B k se by auto
  then show "fl_inv lo (A @ carve s e (k, v) @ B)"
    using fl_inv_join [of lo A k] A by blast
  have "free_addrs (carve s e (k, v)) = {block_start v..<block_end v} - {s..<e}"
    using se by (auto simp: carve_def)
  then show "free_addrs (A @ carve s e (k, v) @ B) = free_addrs (A @ (k, v) # B) - {s..<e}"
    using block_gap [OF inv] se k by (auto simp: subset_iff)
qed

lemma take_specific_carve:
  assumes inv: "fl_inv lo (A @ (k, v) # B)" and se: "block_start v \<le> s" "s < e" "e \<le> block_end v"
  shows "take_specific (A @ (k, v) # B) k v s e = A @ carve s e (k, v) @ B"
proof -
  note keys = fl_inv_keys [OF inv]
  have k: "k < e" using inv se by (simp add: fl_inv_append)
  have A: "\<forall>(k', v') \<in> set A. k' < e" using keys(1) k by fastforce
  have B: "\<forall>(k', v') \<in> set B. e < k'" using keys(2) se by fastforce
  have "bt_insert e x (A @ B) = A @ (e, x) # B" for x using bt_insert_between [OF A B] .
  moreover have "bt_insert e x (A @ (k, w) # B) = A @ (k, w) # (e, x) # B" for x w
    using bt_insert_between [of "A @ [(k, w)]" e B x] A B k by auto
  ultimately show ?thesis
    using se unfolding take_specific_def Let_def bt_at [OF inv] by (auto simp: carve_def)
qed

definition ra_inv :: "RangeAllocator \<Rightarrow> bool" where
  "ra_inv ra \<longleftrightarrow> fst (fullrange ra) < snd (fullrange ra)
     \<and> fl_inv (fst (fullrange ra)) (get_freelist_guard ra)
     \<and> free_addrs (get_freelist_guard ra) \<subseteq> {fst (fullrange ra)..<snd (fullrange ra)}"

definition ra_addrs :: "RangeAllocator \<Rightarrow> nat set" where
  "ra_addrs ra = free_addrs (get_freelist_guard ra)"

lemma guard_update [simp]: "get_freelist_guard (ra\<lparr>free_blocks := Some fl\<rparr>) = fl"
  by (simp add: get_freelist_guard_def)

lemma ra_new_inv: "s < e \<Longrightarrow> ra_inv (ra_new (s, e)) \<and> ra_addrs (ra_new (s, e)) = {s..<e}"
  by (simp add: ra_inv_def ra_addrs_def ra_new_def get_freelist_guard_def)

lemma ra_alloc_specific_spec:
  assumes inv: "ra_inv ra" and se: "s < e"
  shows "if {s..<e} \<subseteq> ra_addrs ra
    then \<exists>ra'. ra_alloc_specific ra (s, e) = (Inr (), ra') \<and> ra_inv ra' \<and> free_blocks ra' \<noteq> None
      \<and> fullrange ra' = fullrange ra \<and> ra_addrs ra' = ra_addrs ra - {s..<e}
    else \<exists>ra'. ra_alloc_specific ra (s, e) = (Inl RangeAllocError, ra') \<and> ra_inv ra'
      \<and> ra_addrs ra' = ra_addrs ra"
proof -
  let ?fl = "get_freelist_guard ra" and ?lo = "fst (fullrange ra)"
  let ?P = "\<lambda>(k, v). e \<le> block_end v \<and> block_start v \<le> s"
  have fl: "fl_inv ?lo ?fl" using inv by (simp add: ra_inv_def)
  show ?thesis
  proof (cases "find ?P ?fl")
    case None
    then have "\<not> {s..<e} \<subseteq> ra_addrs ra"
      using range_in_block [OF fl se] by (fastforce simp: ra_addrs_def find_None_iff)
    with None se inv show ?thesis
      by (simp add: ra_alloc_specific_def Let_def ra_inv_def ra_addrs_def)
  next
    case (Some kv)
    then obtain A k v B where kv: "kv = (k, v)" "?fl = A @ (k, v) # B" "e \<le> block_end v" "block_start v \<le> s"
      using find_split [OF Some] by (cases kv) auto
    have inv': "fl_inv ?lo (A @ (k, v) # B)" using fl kv(2) by simp
    note carved = carve_spec [OF inv' kv(4) se kv(3)]
    have "ra_alloc_specific ra (s, e) = (Inr (), ra\<lparr>free_blocks := Some (A @ carve s e (k, v) @ B)\<rparr>)"
      using Some se kv(1) take_specific_carve [OF inv' kv(4) se kv(3)]
      by (simp add: ra_alloc_specific_def kv(2))
    moreover have "{s..<e} \<subseteq> ra_addrs ra" using kv by (auto simp: ra_addrs_def)
    moreover have "ra_inv (ra\<lparr>free_blocks := Some (A @ carve s e (k, v) @ B)\<rparr>)"
      "ra_addrs (ra\<lparr>free_blocks := Some (A @ carve s e (k, v) @ B)\<rparr>) = ra_addrs ra - {s..<e}"
      using inv carved kv(2) by (auto simp: ra_inv_def ra_addrs_def)
    ultimately show ?thesis by simp
  qed
qed

lemma ra_alloc_spec:
  assumes inv: "ra_inv ra" and n: "0 < n"
  shows "if \<exists>s. {s..<s + n} \<subseteq> ra_addrs ra
    then \<exists>s ra'. ra_alloc ra n = (Inr (s, s + n), ra') \<and> {s..<s + n} \<subseteq> ra_addrs ra \<and> ra_inv ra'
      \<and> free_blocks ra' \<noteq> None \<and> fullrange ra' = fullrange ra \<and> ra_addrs ra' = ra_addrs ra - {s..<s + n}
    else \<exists>ra'. ra_alloc ra n = (Inl RangeAllocError, ra') \<and> ra_inv ra' \<and> ra_addrs ra' = ra_addrs ra"
proof -
  let ?fl = "get_freelist_guard ra" and ?lo = "fst (fullrange ra)"
  let ?P = "\<lambda>(k, v). n \<le> block_end v - block_start v"
  have fl: "fl_inv ?lo ?fl" using inv by (simp add: ra_inv_def)
  show ?thesis
  proof (cases "find ?P ?fl")
    case None
    have "\<not> {s..<s + n} \<subseteq> ra_addrs ra" for s
    proof
      assume "{s..<s + n} \<subseteq> ra_addrs ra"
      then obtain k v where "(k, v) \<in> set ?fl" "block_start v \<le> s" "s + n \<le> block_end v"
        using range_in_block [OF fl, of s "s + n"] n by (auto simp: ra_addrs_def)
      with None show False by (fastforce simp: find_None_iff)
    qed
    with None inv show ?thesis by (simp add: ra_alloc_def Let_def ra_inv_def ra_addrs_def)
  next
    case (Some kv)
    then obtain A k v B where kv: "kv = (k, v)" "?fl = A @ (k, v) # B" "n \<le> block_end v - block_start v"
      using find_split [OF Some] by (cases kv) auto
    let ?s = "block_end v - n"
    have inv': "fl_inv ?lo (A @ (k, v) # B)" using fl kv(2) by simp
    have se: "block_start v \<le> ?s" "?s < block_end v" "?s + n = block_end v"
      using kv(3) n fl_inv_keys(3) [OF inv'] inv' by (auto simp: fl_inv_append)
    note carved = carve_spec [OF inv' se(1,2) le_refl]
    have "(if ?s = block_start v then bt_remove k ?fl else bt_update k (\<lambda>v. v\<lparr>block_end := block_end v - n\<rparr>) ?fl)
        = A @ carve ?s (block_end v) (k, v) @ B"
      unfolding kv(2) by (simp add: bt_at [OF inv'] carve_def)
    then have "ra_alloc ra n = (Inr (?s, ?s + n), ra\<lparr>free_blocks := Some (A @ carve ?s (block_end v) (k, v) @ B)\<rparr>)"
      using Some kv(1) se(3) by (simp add: ra_alloc_def Let_def)
    moreover have sub: "{?s..<?s + n} \<subseteq> ra_addrs ra" using kv(2) se by (auto simp: ra_addrs_def)
    moreover have "ra_inv (ra\<lparr>free_blocks := Some (A @ carve ?s (block_end v) (k, v) @ B)\<rparr>)"
      "ra_addrs (ra\<lparr>free_blocks := Some (A @ carve ?s (block_end v) (k, v) @ B)\<rparr>) = ra_addrs ra - {?s..<?s + n}"
      using inv carved kv(2) se(3) by (auto simp: ra_inv_def ra_addrs_def)
    ultimately show ?thesis by (auto intro!: exI [of _ ?s])
  qed
qed

lemma bt_at_key:
  assumes "\<forall>(k', v') \<in> set A \<union> set B. k' \<noteq> k"
  shows "bt_remove k (A @ (k, v) # B) = A @ B" "bt_update k f (A @ (k, v) # B) = A @ (k, f v) # B"
proof -
  have "filter (\<lambda>(k', v). k' \<noteq> k) xs = xs" "map (\<lambda>(k', v). (k', if k' = k then f v else v)) xs = xs"
    if "set xs \<subseteq> set A \<union> set B" for xs
    using assms that by (fastforce simp: filter_id_conv intro!: map_idI)+
  then show "bt_remove k (A @ (k, v) # B) = A @ B" "bt_update k f (A @ (k, v) # B) = A @ (k, f v) # B"
    by (simp_all add: bt_remove_def bt_update_def)
qed

lemma bt_prev_split:
  assumes "\<forall>(k, v) \<in> set A. k < s" "\<forall>(k, v) \<in> set B. s \<le> k"
  shows "bt_prev s (A @ B) = (if A = [] then None else Some (last A))"
proof -
  have "filter (\<lambda>(k, v). k < s) A = A" "filter (\<lambda>(k, v). k < s) B = []"
    using assms by (auto simp: filter_id_conv filter_empty_conv)
  then show ?thesis by (simp add: bt_prev_def Let_def)
qed

lemma bt_next_split:
  assumes "\<forall>(k, v) \<in> set A. k < s" "\<forall>(k, v) \<in> set B. s < k"
  shows "bt_next s (A @ (s, x) # B) = (case B of [] \<Rightarrow> None | b # _ \<Rightarrow> Some b)"
proof -
  have "find (\<lambda>(k, v). s < k) (A @ (s, x) # B) = find (\<lambda>(k, v). s < k) B"
    using assms(1) by (induction A) auto
  then show ?thesis using assms(2) by (auto simp: bt_next_def split: list.splits)
qed

lemma free_split:
  assumes "fl_inv lo fl" "s < e" "{s..<e} \<inter> free_addrs fl = {}"
  obtains A B where "fl = A @ B" "\<forall>(k, v) \<in> set A. k < s \<and> block_end v \<le> s" "\<forall>(k, v) \<in> set B. e \<le> k"
  using assms
proof (induction lo fl arbitrary: thesis rule: fl_inv.induct)
  case (2 lo k v fl)
  have kv: "k = block_start v" "k < block_end v" "fl_inv (block_end v + 1) fl" using "2.prems"(2) by auto
  have disj: "{s..<e} \<inter> {k..<block_end v} = {}" "{s..<e} \<inter> free_addrs fl = {}"
    using "2.prems"(4) unfolding free_addrs_simps kv(1) by blast+
  show ?case
  proof (cases "k < s")
    case True
    have "block_end v \<le> s"
    proof (rule ccontr)
      assume "\<not> block_end v \<le> s"
      then have "s \<in> {s..<e} \<inter> {k..<block_end v}" using True "2.prems"(3) by simp
      with disj(1) show False by blast
    qed
    moreover obtain A B where "fl = A @ B" "\<forall>(k, v) \<in> set A. k < s \<and> block_end v \<le> s" "\<forall>(k, v) \<in> set B. e \<le> k"
      using "2.IH" [OF _ kv(3) "2.prems"(3) disj(2)] by blast
    ultimately show ?thesis using True by (intro "2.prems"(1) [of "(k, v) # A" B]) auto
  next
    case False
    have "e \<le> k"
    proof (rule ccontr)
      assume "\<not> e \<le> k"
      then have "k \<in> {s..<e} \<inter> {k..<block_end v}" using False kv(2) by simp
      with disj(1) show False by blast
    qed
    moreover have "\<forall>(k', v') \<in> set fl. k < k'" using fl_inv_lower [OF kv(3)] kv(2) by fastforce
    ultimately show ?thesis by (intro "2.prems"(1) [of "[]" "(k, v) # fl"]) auto
  qed
qed simp

text \<open>The left part of a released range: what is before it and where the merged block starts.\<close>

definition left_merge :: "freelist \<Rightarrow> nat \<Rightarrow> freelist \<times> nat" where
  "left_merge A s =
     (if A \<noteq> [] \<and> block_end (snd (last A)) = s then (butlast A, block_start (snd (last A))) else (A, s))"

definition right_merge :: "freelist \<Rightarrow> nat \<Rightarrow> freelist \<times> nat" where
  "right_merge B e = (case B of (k, v) # B' \<Rightarrow> if e = k then (B', block_end v) else (B, e) | [] \<Rightarrow> (B, e))"

lemma left_merge_spec:
  assumes inv: "fl_inv lo A" and A: "\<forall>(k, v) \<in> set A. k < s \<and> block_end v \<le> s" and lo: "lo \<le> s"
    and lm: "left_merge A s = (A0, s1)"
  shows "fl_inv lo A0 \<and> (\<forall>(k, v) \<in> set A0. k < s1 \<and> block_end v < s1) \<and> lo \<le> s1 \<and> s1 \<le> s
    \<and> free_addrs A0 \<union> {s1..<s} = free_addrs A"
proof (cases "A = []")
  case True
  then show ?thesis using lm lo by (simp add: left_merge_def)
next
  case False
  then obtain A' k v where Akv: "A = A' @ [(k, v)]" by (metis append_butlast_last_id surj_pair)
  have i: "fl_inv lo A'" "\<forall>(k', v') \<in> set A'. block_end v' < k" "lo \<le> k" "k = block_start v" "k < block_end v"
    using inv by (auto simp: Akv fl_inv_append)
  have ends: "k' < k \<and> block_end v' < k" if "(k', v') \<in> set A'" for k' v'
    using fl_inv_lower [OF i(1) that] i(2) that by fastforce
  show ?thesis
  proof (cases "block_end v = s")
    case True
    then have "A0 = A'" "s1 = k" using lm i(4) by (auto simp: left_merge_def Akv)
    moreover have "k < s" using True i(5) by simp
    ultimately show ?thesis using i ends True by (auto simp: Akv)
  next
    case False
    then have "A0 = A" "s1 = s" using lm by (auto simp: left_merge_def Akv)
    moreover have "k < s \<and> block_end v < s" using A False by (auto simp: Akv)
    moreover have "k' < s \<and> block_end v' < s" if "(k', v') \<in> set A'" for k' v'
      using ends [OF that] \<open>k < s \<and> block_end v < s\<close> by linarith
    ultimately show ?thesis using inv lo by (auto simp: Akv)
  qed
qed

lemma right_merge_spec:
  assumes inv: "fl_inv m B" and B: "\<forall>(k, v) \<in> set B. e \<le> k" and rm: "right_merge B e = (B0, e1)"
  shows "fl_inv (e1 + 1) B0 \<and> e \<le> e1 \<and> free_addrs B0 \<union> {e..<e1} = free_addrs B"
proof (cases B)
  case (Cons kv B')
  obtain k v where kv: "kv = (k, v)" by fastforce
  have i: "k = block_start v" "k < block_end v" "fl_inv (block_end v + 1) B'" "e \<le> k"
    using inv B by (auto simp: Cons kv)
  show ?thesis
  proof (cases "e = k")
    case True
    then have "B0 = B'" "e1 = block_end v" using rm by (auto simp: right_merge_def Cons kv)
    then show ?thesis using i True by (auto simp: Cons kv)
  next
    case False
    then have "B0 = B" "e1 = e" using rm by (auto simp: right_merge_def Cons kv)
    then show ?thesis using i False by (auto simp: Cons kv)
  qed
qed (use rm in \<open>simp add: right_merge_def\<close>)

lemma free_list_eq:
  assumes inv: "fl_inv lo (A @ B)" and se: "s < e" and A: "\<forall>(k, v) \<in> set A. k < s \<and> block_end v \<le> s"
    and B: "\<forall>(k, v) \<in> set B. e \<le> k" and lm: "left_merge A s = (A0, s1)" and rm: "right_merge B e = (B0, e1)"
    and A0: "\<forall>(k, v) \<in> set A0. k < s1" "s1 \<le> s"
  shows "free_list (A @ B) (s, e) = A0 @ (s1, \<lparr>block_start = s1, block_end = e1\<rparr>) # B0"
proof -
  have B1: "\<forall>(k, v) \<in> set B. s1 < k" "\<forall>(k, v) \<in> set B. s \<le> k" using B A0(2) se by fastforce+
  have A1: "\<forall>(k, v) \<in> set A. k < s" using A by blast
  have left: "(case bt_prev s (A @ B) of
      Some (k, v) \<Rightarrow> if block_end v = s then (block_start v, bt_remove k (A @ B)) else (s, A @ B)
    | None \<Rightarrow> (s, A @ B)) = (s1, A0 @ B)"
  proof (cases "A = []")
    case True
    then show ?thesis using lm bt_prev_split [OF A1 B1(2)] by (simp add: left_merge_def)
  next
    case False
    then obtain A' k v where Akv: "A = A' @ [(k, v)]" by (metis append_butlast_last_id surj_pair)
    have "fl_inv lo (A' @ (k, v) # B)" using inv by (simp add: Akv)
    then have "bt_remove k (A @ B) = A' @ B" by (simp add: Akv bt_at)
    then show ?thesis using lm bt_prev_split [OF A1 B1(2)] by (auto simp: left_merge_def Akv)
  qed
  have ins: "bt_insert s1 x (A0 @ B) = A0 @ (s1, x) # B" for x by (rule bt_insert_between [OF A0(1) B1(1)])
  let ?x = "\<lparr>block_start = s1, block_end = e\<rparr>"
  have right: "(case bt_next s1 (A0 @ (s1, ?x) # B) of
      Some (k, v) \<Rightarrow> if e = block_start v
        then bt_update s1 (\<lambda>w. w\<lparr>block_end := block_end v\<rparr>) (bt_remove k (A0 @ (s1, ?x) # B))
        else A0 @ (s1, ?x) # B
    | None \<Rightarrow> A0 @ (s1, ?x) # B) = A0 @ (s1, \<lparr>block_start = s1, block_end = e1\<rparr>) # B0"
  proof (cases B)
    case Nil
    then show ?thesis using rm bt_next_split [OF A0(1) B1(1)] by (auto simp: right_merge_def)
  next
    case (Cons kv B')
    obtain k v where kv: "kv = (k, v)" by fastforce
    have "fl_inv lo (A @ (k, v) # B')" using inv by (simp add: Cons kv)
    then have i: "k = block_start v" "\<forall>(k', v') \<in> set B'. k < k'"
      using fl_inv_keys [of lo A k v B'] by (fastforce simp: fl_inv_append)+
    have k: "s1 < k" "\<forall>(k', v') \<in> set B'. s1 < k'" using B1(1) by (auto simp: Cons kv)
    have "bt_remove k ((A0 @ [(s1, ?x)]) @ (k, v) # B') = (A0 @ [(s1, ?x)]) @ B'"
      by (rule bt_at_key) (use A0(1) k i(2) in fastforce)
    moreover have "bt_update s1 f (A0 @ (s1, ?x) # B') = A0 @ (s1, f ?x) # B'" for f
      by (rule bt_at_key) (use A0(1) k(2) in fastforce)
    ultimately show ?thesis
      using rm bt_next_split [OF A0(1) B1(1)] i(1) by (auto simp: right_merge_def Cons kv)
  qed
  show ?thesis unfolding free_list_def prod.case left Let_def ins right ..
qed

lemma free_list_spec:
  assumes inv: "fl_inv lo fl" and se: "lo \<le> s" "s < e" "{s..<e} \<inter> free_addrs fl = {}"
  shows "fl_inv lo (free_list fl (s, e)) \<and> free_addrs (free_list fl (s, e)) = free_addrs fl \<union> {s..<e}"
proof -
  obtain A B where fl: "fl = A @ B" "\<forall>(k, v) \<in> set A. k < s \<and> block_end v \<le> s" "\<forall>(k, v) \<in> set B. e \<le> k"
    using free_split [OF inv se(2,3)] by blast
  obtain A0 s1 B0 e1 where lm: "left_merge A s = (A0, s1)" and rm: "right_merge B e = (B0, e1)"
    by fastforce
  have iA: "fl_inv lo A" using inv unfolding fl(1) by (induction lo A rule: fl_inv.induct) auto
  have iB: "\<exists>m. fl_inv m B" using inv unfolding fl(1) by (induction lo A rule: fl_inv.induct) auto
  note L = left_merge_spec [OF iA fl(2) se(1) lm]
  have R: "fl_inv (e1 + 1) B0 \<and> e \<le> e1 \<and> free_addrs B0 \<union> {e..<e1} = free_addrs B"
    using iB right_merge_spec [OF _ fl(3) rm] by blast
  have A0: "\<forall>(k, v) \<in> set A0. k < s1" "\<forall>(k, v) \<in> set A0. block_end v < s1" "s1 \<le> s" using L by blast+
  have eq: "free_list fl (s, e) = A0 @ (s1, \<lparr>block_start = s1, block_end = e1\<rparr>) # B0"
    unfolding fl(1) by (rule free_list_eq [OF inv [unfolded fl(1)] se(2) fl(2,3) lm rm A0(1,3)])
  have "{s1..<e1} = {s1..<s} \<union> {s..<e} \<union> {e..<e1}" using A0(3) R se(2) by auto
  then have "free_addrs A0 \<union> ({s1..<e1} \<union> free_addrs B0) = free_addrs A \<union> free_addrs B \<union> {s..<e}"
    using L R by blast
  then have "free_addrs (free_list fl (s, e)) = free_addrs fl \<union> {s..<e}"
    by (simp add: eq) (simp add: fl(1))
  moreover have "fl_inv lo (free_list fl (s, e))"
    using L R A0(2) se(2) unfolding eq by (auto simp: fl_inv_append)
  ultimately show ?thesis by simp
qed

lemma ra_free_spec:
  assumes inv: "ra_inv ra" and init: "free_blocks ra \<noteq> None"
    and r: "s < e" "{s..<e} \<subseteq> {fst (fullrange ra)..<snd (fullrange ra)}" "{s..<e} \<inter> ra_addrs ra = {}"
  shows "\<exists>ra'. ra_free ra (s, e) = Return ra' \<and> ra_inv ra' \<and> fullrange ra' = fullrange ra
    \<and> ra_addrs ra' = ra_addrs ra \<union> {s..<e}"
proof -
  obtain fl where fl: "free_blocks ra = Some fl" "get_freelist_guard ra = fl"
    using init by (auto simp: get_freelist_guard_def)
  have "fst (fullrange ra) \<le> s" using r(1,2) by (auto simp: subset_iff)
  with free_list_spec [of "fst (fullrange ra)" fl s e] inv r fl show ?thesis
    by (auto simp: ra_free_def ra_inv_def ra_addrs_def)
qed

text \<open>The free list is determined by the set of free addresses.\<close>

lemma free_list_canonical:
  assumes "fl_inv lo xs" "fl_inv lo' ys" "free_addrs xs = free_addrs ys"
  shows "xs = ys"
  using assms
proof (induction lo xs arbitrary: lo' ys rule: fl_inv.induct)
  case (1 lo)
  then show ?case by (cases ys) auto
next
  case (2 lo k v fl)
  have v: "k = block_start v" "k < block_end v" "fl_inv (block_end v + 1) fl" using "2.prems"(1) by auto
  have "ys \<noteq> []" using "2.prems"(3) v by auto
  then obtain k' w ys' where ys: "ys = (k', w) # ys'" by (cases ys) auto
  have w: "k' = block_start w" "k' < block_end w" "fl_inv (block_end w + 1) ys'" using "2.prems"(2) by (auto simp: ys)
  have gap: "free_addrs fl \<subseteq> {block_end v <..}" "free_addrs ys' \<subseteq> {block_end w <..}"
    using fl_inv_addrs [OF v(3)] fl_inv_addrs [OF w(3)] by auto
  have same: "x \<in> {k..<block_end v} \<union> free_addrs fl \<longleftrightarrow> x \<in> {k'..<block_end w} \<union> free_addrs ys'" for x
    using "2.prems"(3) v(1) w(1) by (auto simp: ys)
  have kk: "k = k'" using same [of k] same [of k'] gap v(2) w(2)
    by (auto simp: subset_iff) (metis less_trans less_asym)
  moreover have "block_end v = block_end w"
    using same [of "block_end v"] same [of "block_end w"] gap v(2) w(2) kk
    by (cases "block_end v" "block_end w" rule: linorder_cases) (auto simp: subset_iff)
  ultimately have "v = w" using v(1) w(1) by simp
  moreover have "free_addrs fl = free_addrs ys'"
    using same gap kk \<open>v = w\<close> by (auto simp: subset_iff) (metis atLeastLessThan_iff less_asym Un_iff)+
  ultimately show ?case using "2.IH" [OF v(3) w(3)] kk ys by simp
qed

section \<open>Properties\<close>

text \<open>
  C9. Allocation is exact. On a well-formed allocator, \<open>alloc(n)\<close> with positive \<open>n\<close> fails if and
  only if no \<open>n\<close> consecutive addresses are free, and \<open>alloc_specific\<close> on a non-empty range fails if
  and only if some address of it is taken. A success takes exactly the returned, or requested,
  addresses out of the free ones, and the free list stays sorted, disjoint and merged.
\<close>

theorem range_alloc_exact:
  assumes "ra_inv ra" "0 < n" "s < e"
  shows "(if \<exists>t. {t..<t + n} \<subseteq> ra_addrs ra
      then \<exists>t ra'. ra_alloc ra n = (Inr (t, t + n), ra') \<and> {t..<t + n} \<subseteq> ra_addrs ra \<and> ra_inv ra'
        \<and> ra_addrs ra' = ra_addrs ra - {t..<t + n}
      else \<exists>ra'. ra_alloc ra n = (Inl RangeAllocError, ra') \<and> ra_inv ra' \<and> ra_addrs ra' = ra_addrs ra)
    \<and> (if {s..<e} \<subseteq> ra_addrs ra
      then \<exists>ra'. ra_alloc_specific ra (s, e) = (Inr (), ra') \<and> ra_inv ra'
        \<and> ra_addrs ra' = ra_addrs ra - {s..<e}
      else \<exists>ra'. ra_alloc_specific ra (s, e) = (Inl RangeAllocError, ra') \<and> ra_inv ra'
        \<and> ra_addrs ra' = ra_addrs ra)"
proof (rule conjI, goal_cases)
  case 1
  show ?case using ra_alloc_spec [OF assms(1,2)] by (auto split: if_splits)
next
  case 2
  show ?case using ra_alloc_specific_spec [OF assms(1,3)] by (auto split: if_splits)
qed

theorem range_alloc_exact_witness:
  "\<exists>t ra'. ra_alloc (ra_new (0, 100)) 30 = (Inr (t, t + 30), ra') \<and> ra_addrs ra' = {0..<100} - {t..<t + 30}"
proof -
  have ra: "ra_inv (ra_new (0, 100))" "ra_addrs (ra_new (0, 100)) = {0..<100}" using ra_new_inv [of 0 100] by simp_all
  have "{0..<0 + 30} \<subseteq> {0..<100::nat}" by auto
  then show ?thesis
    using range_alloc_exact [OF ra(1), of 30 0 1] unfolding ra(2) by (auto split: if_splits)
qed

text \<open>
  The positive size matters.  \<open>alloc_specific\<close> rejects an empty range, \<open>alloc\<close> accepts the size
  zero, and releasing an empty range that starts where a free block starts overwrites that block:
  its addresses are lost to the allocator.
\<close>

lemma free_empty_range_loses_block:
  "s < e \<Longrightarrow> free_list [(s, \<lparr>block_start = s, block_end = e\<rparr>)] (s, s) = [(s, \<lparr>block_start = s, block_end = s\<rparr>)]"
  by (simp add: free_list_def bt_prev_def bt_next_def Let_def)

text \<open>
  C12. Releasing undoes allocating, completely. After a successful \<open>alloc\<close> of a positive size, \<open>free\<close>
  of the returned range does not panic and restores the very free list there was before: blocks
  split by the allocation are merged again, so no fragmentation remains.
\<close>

theorem range_alloc_free_round_trip:
  assumes "ra_inv ra" "0 < n" "ra_alloc ra n = (Inr r, ra')"
  shows "ra_free ra' r = Return (ra\<lparr>free_blocks := Some (get_freelist_guard ra)\<rparr>)"
proof -
  have ex: "\<exists>t. {t..<t + n} \<subseteq> ra_addrs ra" using ra_alloc_spec [OF assms(1,2)] assms(3) by (auto split: if_splits)
  then obtain t where t: "r = (t, t + n)" "{t..<t + n} \<subseteq> ra_addrs ra" "ra_inv ra'" "free_blocks ra' \<noteq> None"
    "fullrange ra' = fullrange ra" "ra_addrs ra' = ra_addrs ra - {t..<t + n}"
    using ra_alloc_spec [OF assms(1,2)] assms(3) by auto
  have sub: "{t..<t + n} \<subseteq> {fst (fullrange ra')..<snd (fullrange ra')}"
    using t(2) assms(1) unfolding ra_inv_def ra_addrs_def t(5) by blast
  have "{t..<t + n} \<inter> ra_addrs ra' = {}" using t(6) by blast
  then obtain ra'' where f: "ra_free ra' r = Return ra''" "ra_inv ra''" "fullrange ra'' = fullrange ra"
    "ra_addrs ra'' = ra_addrs ra"
    using ra_free_spec [OF t(3,4) _ sub] t assms(2) by auto
  obtain fl where fl: "ra'' = ra'\<lparr>free_blocks := Some fl\<rparr>"
    using f(1) by (auto simp: ra_free_def split: option.splits)
  have "fl = get_freelist_guard ra"
    using f(2,4) assms(1) fl by (intro free_list_canonical) (auto simp: ra_inv_def ra_addrs_def)
  with f(1,3) fl show ?thesis by simp
qed

theorem range_alloc_free_round_trip_witness:
  "ra_free (snd (ra_alloc (ra_new (0, 100)) 30)) (70, 100)
     = Return (ra_new (0, 100)\<lparr>free_blocks := Some [(0, \<lparr>block_start = 0, block_end = 100\<rparr>)]\<rparr>)"
proof -
  have "ra_inv (ra_new (0, 100))" using ra_new_inv [of 0 100] by simp
  moreover have "ra_alloc (ra_new (0, 100)) 30 = (Inr (70, 100), snd (ra_alloc (ra_new (0, 100)) 30))"
    by (simp add: ra_alloc_def ra_new_def get_freelist_guard_def Let_def)
  ultimately show ?thesis
    using range_alloc_free_round_trip [of "ra_new (0, 100)" 30 "(70, 100)"]
    by (simp add: ra_new_def get_freelist_guard_def)
qed

end
