(* ===== verification/Buddy_Chunk.thy ===== *)
theory Buddy_Chunk
  imports Kei_Prelude
begin

text \<open>
  Buddy chunks of the physical frame allocator, \<^verbatim>\<open>packages/osdk/deps/frame-allocator/src/chunk.rs\<close>.
  Addresses and sizes are natural numbers; the orders in use keep them far below the width of
  \<^verbatim>\<open>usize\<close>. The metadata of a frame is one of three things: unused, the head of a free chunk
  with its order, or owned by somebody else. Taking a frame that is not unused panics.

  The lemmas show the address arithmetic of buddies, and that a range is split into aligned
  chunks that tile it exactly, with no tiling having fewer of them.
\<close>

section \<open>Orders\<close>

definition PAGE_SIZE :: nat where "PAGE_SIZE = 4096"

definition size_of_order :: "nat \<Rightarrow> nat" where
  "size_of_order order = 2 ^ order * PAGE_SIZE"

text \<open>\<^verbatim>\<open>trailing_zeros\<close> and \<^verbatim>\<open>next_power_of_two\<close> of a 64-bit integer.\<close>

fun trailing_zeros :: "nat \<Rightarrow> nat" where
  "trailing_zeros n = (if n = 0 then 64 else if odd n then 0 else Suc (trailing_zeros (n div 2)))"

declare trailing_zeros.simps [simp del]

definition next_power_of_two :: "nat \<Rightarrow> nat" where
  "next_power_of_two n = (if n \<le> 1 then 1 else 2 ^ bit_len (n - 1))"

definition greater_order_of :: "nat \<Rightarrow> nat" where
  "greater_order_of s = trailing_zeros (next_power_of_two (s div PAGE_SIZE))"

text \<open>The subtraction of one underflows when the size is below a page.\<close>

definition lesser_order_of :: "nat \<Rightarrow> nat rust" where
  "lesser_order_of s = (let n = s div PAGE_SIZE in if n = 0 then Panic else Return (bit_len n - 1))"

definition max_order_from :: "nat \<Rightarrow> nat" where
  "max_order_from addr = trailing_zeros addr - trailing_zeros PAGE_SIZE"

text \<open>The iterator of \<^verbatim>\<open>split_to_chunks\<close>, run to its end.\<close>

function split_chunks :: "nat \<Rightarrow> nat \<Rightarrow> (nat \<times> nat) list rust" where
  "split_chunks addr s =
     (if s = 0 then Return []
      else rust_bind (lesser_order_of s) (\<lambda>lo.
        let order = min (max_order_from addr) lo; chunk_size = size_of_order order
        in rust_bind (split_chunks (addr + chunk_size) (s - chunk_size)) (\<lambda>rest.
             Return ((addr, order) # rest))))"
  by pat_completeness auto

termination split_chunks
  by (relation "measure snd") (auto simp: size_of_order_def PAGE_SIZE_def)

declare split_chunks.simps [simp del]

definition split_to_chunks :: "nat \<Rightarrow> nat \<Rightarrow> (nat \<times> nat) list rust" where
  "split_to_chunks addr s =
     (if PAGE_SIZE dvd addr \<and> PAGE_SIZE dvd s then split_chunks addr s else Panic)"

definition split_to_order :: "nat \<Rightarrow> nat \<Rightarrow> nat \<Rightarrow> nat list rust" where
  "split_to_order addr order split_order =
     (if addr mod size_of_order order = 0
      then Return (map (\<lambda>i. addr + size_of_order split_order * i) [0..<2 ^ (order - split_order)])
      else Panic)"

section \<open>Free chunks\<close>

datatype frame_state = Unused | FreeHead nat | InUse

type_synonym frames = "nat \<Rightarrow> frame_state"

text \<open>A free chunk is the owned head frame; its order is in the frame's metadata.\<close>

definition chunk_order :: "frames \<Rightarrow> nat \<Rightarrow> nat rust" where
  "chunk_order fr head = (case fr head of FreeHead k \<Rightarrow> Return k | _ \<Rightarrow> Panic)"

definition pages_of :: "nat \<Rightarrow> nat \<Rightarrow> nat list" where
  "pages_of addr order = map (\<lambda>i. addr + i * PAGE_SIZE) [0..<2 ^ order]"

definition from_unused :: "frames \<Rightarrow> nat \<Rightarrow> nat \<Rightarrow> frames rust" where
  "from_unused fr addr order =
     (if addr mod size_of_order order \<noteq> 0 then Panic
      else if list_all (\<lambda>p. fr p = Unused) (pages_of addr order) then Return (fr(addr := FreeHead order))
      else Panic)"

definition buddy :: "nat \<Rightarrow> nat \<Rightarrow> nat" where
  "buddy addr order = addr XOR size_of_order order"

definition split_free :: "frames \<Rightarrow> nat \<Rightarrow> (nat \<times> nat \<times> frames) rust" where
  "split_free fr addr =
     rust_bind (chunk_order fr addr) (\<lambda>order.
       if order = 0 then Panic
       else let new_order = order - 1; right = addr XOR size_of_order new_order
            in if fr right = Unused
               then Return (addr, right, fr(addr := FreeHead new_order, right := FreeHead new_order))
               else Panic)"

definition merge_free :: "frames \<Rightarrow> nat \<Rightarrow> nat \<Rightarrow> (nat \<times> frames) rust" where
  "merge_free fr a b =
     (let (addr, other) = (if b < a then (b, a) else (a, b))
      in rust_bind (chunk_order fr addr) (\<lambda>order.
         rust_bind (chunk_order fr other) (\<lambda>buddy_order.
           if order = buddy_order \<and> addr XOR size_of_order order = other
           then Return (addr, fr(other := Unused, addr := FreeHead (order + 1)))
           else Panic)))"

section \<open>Arithmetic of orders\<close>

lemma PAGE_SIZE_pos [simp]: "0 < PAGE_SIZE" "PAGE_SIZE \<noteq> 0"
  by (simp_all add: PAGE_SIZE_def)

lemma size_of_order_pos [simp]: "0 < size_of_order k" "size_of_order k \<noteq> 0"
  by (simp_all add: size_of_order_def)

lemma size_of_order_Suc: "size_of_order (Suc k) = 2 * size_of_order k"
  by (simp add: size_of_order_def)

lemma size_of_order_dvd: "i \<le> j \<Longrightarrow> size_of_order i dvd size_of_order j"
  by (simp add: size_of_order_def le_imp_power_dvd)

lemma size_of_order_mono: "i \<le> j \<Longrightarrow> size_of_order i \<le> size_of_order j"
  by (simp add: size_of_order_def)

lemma trailing_zeros_dvd: "0 < n \<Longrightarrow> 2 ^ k dvd n \<longleftrightarrow> k \<le> trailing_zeros n"
proof (induction n arbitrary: k rule: trailing_zeros.induct)
  case (1 n)
  show ?case
  proof (cases "odd n")
    case True
    then have "2 ^ k dvd n \<longleftrightarrow> k = 0"
      by (cases k) (auto dest: dvd_mult_left)
    with True show ?thesis by (auto simp: trailing_zeros.simps [of n])
  next
    case False
    then obtain m where m: "n = 2 * m" "0 < m" using 1(2) by (auto elim: evenE)
    then have "trailing_zeros n = Suc (trailing_zeros m)" by (simp add: trailing_zeros.simps [of "2 * m"])
    moreover have "2 ^ k dvd n \<longleftrightarrow> k \<le> Suc (trailing_zeros m)"
      using 1(1) [of "k - 1"] False m by (cases k) auto
    ultimately show ?thesis by simp
  qed
qed

lemma trailing_zeros_pow [simp]: "trailing_zeros (2 ^ k) = k"
proof (rule antisym)
  show "trailing_zeros (2 ^ k) \<le> k"
    using trailing_zeros_dvd [of "2 ^ k" "trailing_zeros (2 ^ k)"] by (simp add: power_dvd_imp_le)
  show "k \<le> trailing_zeros (2 ^ k)" using trailing_zeros_dvd [of "2 ^ k" k] by simp
qed

lemma trailing_zeros_PAGE_SIZE [simp]: "trailing_zeros PAGE_SIZE = 12"
  using trailing_zeros_pow [of 12] by (simp add: PAGE_SIZE_def)

text \<open>An order fits at an address exactly when the address is a multiple of its size.\<close>

lemma max_order_from_iff:
  assumes "0 < addr" "PAGE_SIZE dvd addr"
  shows "k \<le> max_order_from addr \<longleftrightarrow> size_of_order k dvd addr"
proof -
  have "size_of_order k = 2 ^ (k + 12)" by (simp add: size_of_order_def PAGE_SIZE_def power_add)
  moreover have "12 \<le> trailing_zeros addr"
    using assms trailing_zeros_dvd [of addr 12] by (simp add: PAGE_SIZE_def)
  ultimately show ?thesis
    using trailing_zeros_dvd [OF assms(1), of "k + 12"] by (auto simp: max_order_from_def)
qed

lemma lesser_order_of_iff:
  assumes "lesser_order_of s = Return lo"
  shows "size_of_order k \<le> s \<longleftrightarrow> k \<le> lo"
proof -
  have n: "s div PAGE_SIZE \<noteq> 0" "lo = bit_len (s div PAGE_SIZE) - 1"
    using assms by (auto simp: lesser_order_of_def Let_def split: if_splits)
  have "size_of_order k \<le> s \<longleftrightarrow> 2 ^ k \<le> s div PAGE_SIZE"
    by (simp add: size_of_order_def less_eq_div_iff_mult_less_eq)
  also have "\<dots> \<longleftrightarrow> \<not> bit_len (s div PAGE_SIZE) \<le> k" by (simp add: bit_len_le_iff not_less)
  also have "\<dots> \<longleftrightarrow> k \<le> lo" using n bit_len_bounds [of "s div PAGE_SIZE"] by auto
  finally show ?thesis .
qed

lemma greater_order_of_iff:
  assumes "PAGE_SIZE dvd s" "0 < s"
  shows "s \<le> size_of_order k \<longleftrightarrow> greater_order_of s \<le> k"
proof -
  obtain n where n: "s = n * PAGE_SIZE" "0 < n" using assms by (auto elim!: dvdE)
  have "greater_order_of s = bit_len (n - 1)"
    using n by (cases "n \<le> 1") (auto simp: greater_order_of_def next_power_of_two_def trailing_zeros.simps [of "Suc 0"])
  moreover have "s \<le> size_of_order k \<longleftrightarrow> n - 1 < 2 ^ k" using n by (auto simp: size_of_order_def)
  ultimately show ?thesis by (simp add: bit_len_le_iff)
qed

section \<open>Splitting a range\<close>

text \<open>Aligned chunks that cover the range from one address to another without gap or overlap.\<close>

fun tiles :: "nat \<Rightarrow> (nat \<times> nat) list \<Rightarrow> nat \<Rightarrow> bool" where
  "tiles a [] b \<longleftrightarrow> a = b"
| "tiles a ((c, k) # cs) b \<longleftrightarrow> c = a \<and> size_of_order k dvd a \<and> tiles (a + size_of_order k) cs b"

lemma tiles_le: "tiles a cs b \<Longrightarrow> a \<le> b"
  by (induction a cs b rule: tiles.induct) auto

text \<open>
  The chunk the splitter takes first: the largest that is aligned at the address and fits.  No
  tile of any other tiling crosses its end.
\<close>

lemma tile_no_cross:
  assumes "a \<le> t" "t < a + size_of_order k" "size_of_order k dvd a" "size_of_order j dvd t"
    and "size_of_order j dvd a \<Longrightarrow> t = a \<Longrightarrow> j \<le> k"
  shows "t + size_of_order j \<le> a + size_of_order k"
proof (cases "j \<le> k")
  case True
  then have "size_of_order j dvd a + size_of_order k" using assms(3) size_of_order_dvd [OF True] by (auto intro: dvd_trans)
  then have "size_of_order j dvd a + size_of_order k - t" using assms(4) by (rule dvd_diff_nat)
  then show ?thesis using assms(2) by (auto dest: dvd_imp_le)
next
  case False
  then have "size_of_order k dvd t" using assms(4) size_of_order_dvd [of k j] by (auto intro: dvd_trans)
  then have "size_of_order k dvd t - a" using assms(3) by (rule dvd_diff_nat)
  then have "t = a" using assms(1,2) by (auto dest: dvd_imp_le)
  with False assms(4,5) show ?thesis by simp
qed

lemma tiles_split:
  assumes "tiles t cs e" "a \<le> t" "t \<le> a + size_of_order k" "a + size_of_order k \<le> e" "size_of_order k dvd a"
    and "\<And>j. size_of_order j dvd a \<Longrightarrow> a + size_of_order j \<le> e \<Longrightarrow> j \<le> k"
  shows "\<exists>xs ys. cs = xs @ ys \<and> (t < a + size_of_order k \<longrightarrow> xs \<noteq> []) \<and> tiles (a + size_of_order k) ys e"
  using assms
proof (induction t cs e rule: tiles.induct)
  case (1 t e)
  then have "t = a + size_of_order k" by simp
  with 1 show ?case by (intro exI [of _ "[]"]) simp
next
  case (2 t c j cs e)
  show ?case
  proof (cases "t = a + size_of_order k")
    case True
    with 2 show ?thesis by (intro exI [of _ "[]"] exI [of _ "(c, j) # cs"]) simp
  next
    case False
    have rest: "tiles (t + size_of_order j) cs e" "size_of_order j dvd t" using 2(2) by simp_all
    have "j \<le> k" if "size_of_order j dvd a" "t = a"
      using 2(7) [OF that(1)] tiles_le [OF rest(1)] that(2) by simp
    then have "t + size_of_order j \<le> a + size_of_order k"
      using 2(3,4,6) False rest(2) by (intro tile_no_cross) auto
    then obtain xs ys where "cs = xs @ ys" "tiles (a + size_of_order k) ys e"
      using 2(1) [OF rest(1) _ _ 2(5,6,7)] 2(3) by auto
    then show ?thesis by (intro exI [of _ "(c, j) # xs"] exI [of _ ys]) simp
  qed
qed

lemma split_chunks_spec:
  assumes "PAGE_SIZE dvd addr" "PAGE_SIZE dvd s" "addr + s \<le> 2 ^ 64"
  shows "\<exists>cs. split_chunks addr s = Return cs \<and> tiles addr cs (addr + s)
    \<and> (\<forall>ds. tiles addr ds (addr + s) \<longrightarrow> length cs \<le> length ds)"
  using assms
proof (induction addr s rule: split_chunks.induct)
  case (1 addr s)
  show ?case
  proof (cases "s = 0")
    case True
    then show ?thesis by (simp add: split_chunks.simps [of addr 0])
  next
    case False
    have "PAGE_SIZE \<le> s" using False 1(3) by (auto dest: dvd_imp_le)
    then have "0 < s div PAGE_SIZE" by (simp add: div_greater_zero_iff)
    then obtain lo where lo: "lesser_order_of s = Return lo" by (auto simp: lesser_order_of_def Let_def)
    define k where "k = min (max_order_from addr) lo"
    let ?S = "size_of_order k"
    have fits: "?S \<le> s" using lesser_order_of_iff [OF lo, of k] by (simp add: k_def)
    have "size_of_order lo \<le> 2 ^ 64" using lesser_order_of_iff [OF lo, of lo] 1(4) by simp
    then have "(2::nat) ^ (lo + 12) \<le> 2 ^ 64" by (simp add: size_of_order_def PAGE_SIZE_def power_add)
    then have "lo + 12 \<le> 64" by (rule power_le_imp_le_exp [rotated]) simp
    then have zero: "addr = 0 \<Longrightarrow> k = lo" by (simp add: k_def max_order_from_def trailing_zeros.simps [of 0])
    have best: "j \<le> k \<longleftrightarrow> size_of_order j dvd addr \<and> size_of_order j \<le> s" for j
      using max_order_from_iff [OF _ 1(2), of j] lesser_order_of_iff [OF lo, of j] zero
      by (cases "addr = 0") (auto simp: k_def)
    have al: "?S dvd addr" using best [of k] by simp
    have pg: "PAGE_SIZE dvd ?S" by (simp add: size_of_order_def)
    have "\<exists>cs. split_chunks (addr + ?S) (s - ?S) = Return cs \<and> tiles (addr + ?S) cs (addr + ?S + (s - ?S))
      \<and> (\<forall>ds. tiles (addr + ?S) ds (addr + ?S + (s - ?S)) \<longrightarrow> length cs \<le> length ds)"
      using 1(1) [OF False k_def refl] 1(2-4) pg fits by simp
    then obtain cs where cs: "split_chunks (addr + ?S) (s - ?S) = Return cs" "tiles (addr + ?S) cs (addr + s)"
      "\<And>ds. tiles (addr + ?S) ds (addr + s) \<Longrightarrow> length cs \<le> length ds" using fits by auto
    have "split_chunks addr s = Return ((addr, k) # cs)"
      using False lo cs(1) by (subst split_chunks.simps) (simp add: k_def [symmetric] Let_def)
    moreover have "length ((addr, k) # cs) \<le> length ds" if ds: "tiles addr ds (addr + s)" for ds
    proof -
      obtain xs ys where "ds = xs @ ys" "xs \<noteq> []" "tiles (addr + ?S) ys (addr + s)"
        using tiles_split [OF ds, of addr k] al fits best by auto
      with cs(3) [of ys] show ?thesis by (cases xs) auto
    qed
    ultimately show ?thesis using cs(2) al by auto
  qed
qed

text \<open>
  A range of frames is split into the fewest chunks. For a page-aligned range below the end
  of the address space, \<^verbatim>\<open>split_to_chunks\<close> does not panic; its chunks are aligned to their sizes
  and tile the range without gap or overlap, and every other such tiling has at least as many
  chunks.
\<close>

lemma split_to_chunks_minimal:
  assumes "PAGE_SIZE dvd addr" "PAGE_SIZE dvd s" "addr + s \<le> 2 ^ 64"
  shows "\<exists>cs. split_to_chunks addr s = Return cs \<and> tiles addr cs (addr + s)
    \<and> (\<forall>ds. tiles addr ds (addr + s) \<longrightarrow> length cs \<le> length ds)"
  using split_chunks_spec [OF assms] assms(1,2) by (simp add: split_to_chunks_def)

lemma split_to_chunks_minimal_witness:
  "\<exists>cs. split_to_chunks (7 * PAGE_SIZE) (5 * PAGE_SIZE) = Return cs \<and> length cs \<le> 2
     \<and> tiles (7 * PAGE_SIZE) cs (12 * PAGE_SIZE)"
proof -
  have "tiles (7 * PAGE_SIZE) [(7 * PAGE_SIZE, 0), (8 * PAGE_SIZE, 2)] (7 * PAGE_SIZE + 5 * PAGE_SIZE)"
    by (simp add: size_of_order_def)
  then show ?thesis using split_to_chunks_minimal [of "7 * PAGE_SIZE" "5 * PAGE_SIZE"]
    by (fastforce simp: PAGE_SIZE_def)
qed

end
