(* ===== verification/Buddy_Set.thy ===== *)
theory Buddy_Set
  imports Buddy_Chunk
begin

text \<open>
  A set of free buddy chunks, \<^verbatim>\<open>packages/osdk/deps/frame-allocator/src/set.rs\<close>: one list of chunk
  heads per order and the sum of the sizes. The constant parameter \<^verbatim>\<open>MAX_ORDER\<close> is a field. The
  debug assertions are kept as panics.

  The invariant says that the listed chunks are aligned, disjoint and coalesced, and that the
  frames' metadata agrees with the lists. Against it, insertion adds exactly the chunk's
  addresses and allocation removes exactly one aligned block, failing only when the free memory
  contains none.
\<close>

section \<open>Operations\<close>

record BuddySet =
  max_order :: nat
  total_size :: nat
  lists :: "nat \<Rightarrow> nat list"

definition new_empty :: "nat \<Rightarrow> BuddySet" where
  "new_empty m = \<lparr>max_order = m, total_size = 0, lists = (\<lambda>_. [])\<rparr>"

text \<open>The loop of \<^verbatim>\<open>insert_chunk\<close> over the orders, with the chunk at hand.\<close>

function coalesce ::
    "nat \<Rightarrow> frames \<Rightarrow> (nat \<Rightarrow> nat list) \<Rightarrow> nat \<Rightarrow> nat \<Rightarrow> (frames \<times> (nat \<Rightarrow> nat list) \<times> nat) rust" where
  "coalesce m fr ls addr i =
     (if i + 1 \<ge> m then Return (fr, ls, addr)
      else rust_bind (chunk_order fr addr) (\<lambda>k.
        let buddy_addr = buddy addr k
        in if buddy_addr \<in> set (ls i)
           then rust_bind (merge_free fr addr buddy_addr) (\<lambda>(addr1, fr1).
                  coalesce m fr1 (ls(i := remove1 buddy_addr (ls i))) addr1 (i + 1))
           else Return (fr, ls, addr)))"
  by pat_completeness auto

termination coalesce
  by (relation "measure (\<lambda>(m, fr, ls, addr, i). m - i)") auto

declare coalesce.simps [simp del]

definition insert_chunk :: "frames \<Rightarrow> BuddySet \<Rightarrow> nat \<Rightarrow> nat \<Rightarrow> (frames \<times> BuddySet) rust" where
  "insert_chunk fr bs addr order =
     (if order \<ge> max_order bs then Panic
      else rust_bind (from_unused fr addr order) (\<lambda>fr1.
           rust_bind (coalesce (max_order bs) fr1 (lists bs) addr order) (\<lambda>(fr2, ls, addr2).
           rust_bind (chunk_order fr2 addr2) (\<lambda>k.
             if k \<ge> max_order bs then Panic
             else Return (fr2, bs\<lparr>lists := ls(k := addr2 # ls k),
                total_size := total_size bs + size_of_order order\<rparr>)))))"

text \<open>The loop of \<^verbatim>\<open>alloc_chunk\<close> that splits from order \<open>i\<close> down to the requested one.\<close>

fun split_down ::
    "frames \<Rightarrow> (nat \<Rightarrow> nat list) \<Rightarrow> nat \<Rightarrow> nat \<Rightarrow> nat \<Rightarrow> (frames \<times> (nat \<Rightarrow> nat list) \<times> nat) rust" where
  "split_down fr ls addr order i =
     (if i \<le> order then Return (fr, ls, addr)
      else rust_bind (split_free fr addr) (\<lambda>(left, right, fr1).
           rust_bind (chunk_order fr1 right) (\<lambda>k.
             if k \<noteq> i - 1 then Panic
             else split_down fr1 (ls(i - 1 := right # ls (i - 1))) left order (i - 1))))"

declare split_down.simps [simp del]

definition alloc_chunk :: "frames \<Rightarrow> BuddySet \<Rightarrow> nat \<Rightarrow> (nat option \<times> frames \<times> BuddySet) rust" where
  "alloc_chunk fr bs order =
     (case find (\<lambda>i. lists bs i \<noteq> []) [order..<max_order bs] of
        None \<Rightarrow> Return (None, fr, bs)
      | Some non_empty \<Rightarrow>
          let head = hd (lists bs non_empty);
              ls = (lists bs)(non_empty := tl (lists bs non_empty))
          in rust_bind (chunk_order fr head) (\<lambda>k.
             if k \<noteq> non_empty then Panic
             else rust_bind (split_down fr ls head order non_empty) (\<lambda>(fr1, ls1, addr).
               if total_size bs < size_of_order order then Panic
               else Return (Some addr, fr1(addr := Unused),
                 bs\<lparr>lists := ls1, total_size := total_size bs - size_of_order order\<rparr>))))"

section \<open>Regions\<close>

definition region :: "nat \<Rightarrow> nat \<Rightarrow> nat set" where
  "region a i = {a..<a + size_of_order i}"

definition chunks :: "(nat \<Rightarrow> nat list) \<Rightarrow> (nat \<times> nat) set" where
  "chunks ls = {(a, i). a \<in> set (ls i)}"

definition free_in :: "(nat \<Rightarrow> nat list) \<Rightarrow> nat set" where
  "free_in ls = (\<Union>(a, i) \<in> chunks ls. region a i)"

lemma region_self [simp]: "a \<in> region a i"
  by (simp add: region_def)

lemma in_chunks [simp]: "(a, i) \<in> chunks ls \<longleftrightarrow> a \<in> set (ls i)"
  by (simp add: chunks_def)

lemma in_free_in: "x \<in> free_in ls \<longleftrightarrow> (\<exists>a i. a \<in> set (ls i) \<and> x \<in> region a i)"
  unfolding free_in_def chunks_def by blast

lemma region_subset_free: "a \<in> set (ls i) \<Longrightarrow> region a i \<subseteq> free_in ls"
  unfolding free_in_def chunks_def by blast

lemma chunks_push: "chunks (ls(i := a # ls i)) = insert (a, i) (chunks ls)"
  by (auto simp: chunks_def split: if_splits)

lemma chunks_remove: "distinct (ls i) \<Longrightarrow> chunks (ls(i := remove1 b (ls i))) = chunks ls - {(b, i)}"
  by (auto simp: chunks_def split: if_splits)

lemma free_in_push: "free_in (ls(i := a # ls i)) = region a i \<union> free_in ls"
  by (simp add: free_in_def chunks_push)

text \<open>The buddy of an aligned chunk is the other half of the chunk of the next order.\<close>

lemma xor_pow2: "m * 2 ^ k XOR 2 ^ k = (if even m then (m + 1) * 2 ^ k else (m - 1) * 2 ^ k)" for m k :: nat
proof -
  have "m * 2 ^ k XOR 2 ^ k = push_bit k (m XOR 1)"
    by (simp add: push_bit_xor push_bit_eq_mult [symmetric] push_bit_of_1 mult.commute)
  also have "m XOR 1 = (if even m then m + 1 else m - 1)" by (simp add: xor_Suc_0_eq)
  finally show ?thesis by (simp add: push_bit_eq_mult)
qed

lemma buddy_cases:
  assumes "size_of_order i dvd a"
  obtains (left) "buddy a i = a + size_of_order i" "size_of_order (Suc i) dvd a"
  | (right) "a = buddy a i + size_of_order i" "size_of_order (Suc i) dvd buddy a i"
proof -
  obtain m where m: "a = m * size_of_order i" using assms by (auto elim!: dvdE)
  have S: "size_of_order i = 2 ^ (i + 12)" by (simp add: size_of_order_def PAGE_SIZE_def power_add)
  have b: "buddy a i = (if even m then (m + 1) * size_of_order i else (m - 1) * size_of_order i)"
    unfolding buddy_def m S by (rule xor_pow2)
  show thesis
  proof (cases "even m")
    case True
    with b m show thesis by (intro left) (auto simp: size_of_order_Suc elim!: evenE)
  next
    case False
    then obtain k where "m = 2 * k + 1" by (auto elim: oddE)
    with b m show thesis by (intro right) (auto simp: size_of_order_Suc)
  qed
qed

lemma buddy_dvd: "size_of_order i dvd a \<Longrightarrow> size_of_order i dvd buddy a i"
  by (rule buddy_cases) (auto simp: size_of_order_Suc dest: dvd_mult_left dvd_mult_right)

lemma buddy_buddy: "size_of_order i dvd a \<Longrightarrow> buddy (buddy a i) i = a"
  by (simp add: buddy_def xor.assoc)

lemma buddy_region:
  assumes "size_of_order i dvd a"
  shows "region (min a (buddy a i)) (Suc i) = region a i \<union> region (buddy a i) i"
    and "region a i \<inter> region (buddy a i) i = {}"
    and "size_of_order (Suc i) dvd min a (buddy a i)"
    and "min a (buddy a i) XOR size_of_order i = max a (buddy a i)"
    and "a \<noteq> buddy a i"
proof -
  have "region (min a (buddy a i)) (Suc i) = region a i \<union> region (buddy a i) i
    \<and> region a i \<inter> region (buddy a i) i = {} \<and> size_of_order (Suc i) dvd min a (buddy a i)
    \<and> min a (buddy a i) XOR size_of_order i = max a (buddy a i) \<and> a \<noteq> buddy a i"
    using assms
  proof (cases rule: buddy_cases)
    case left
    then show ?thesis by (auto simp: region_def size_of_order_Suc buddy_def min_def max_def)
  next
    case right
    then have "buddy a i < a" by (metis less_add_same_cancel1 size_of_order_pos(1))
    moreover have "buddy a i XOR size_of_order i = a" using buddy_buddy [OF assms] by (simp add: buddy_def)
    ultimately show ?thesis using right
      by (auto simp: region_def size_of_order_Suc min_def max_def)
  qed
  then show "region (min a (buddy a i)) (Suc i) = region a i \<union> region (buddy a i) i"
    "region a i \<inter> region (buddy a i) i = {}" "size_of_order (Suc i) dvd min a (buddy a i)"
    "min a (buddy a i) XOR size_of_order i = max a (buddy a i)" "a \<noteq> buddy a i" by blast+
qed

lemma xor_right_half:
  assumes "size_of_order (Suc i) dvd a"
  shows "a XOR size_of_order i = a + size_of_order i"
proof -
  have i: "size_of_order i dvd a" using assms by (auto simp: size_of_order_Suc dest: dvd_mult_right)
  then show ?thesis
  proof (cases rule: buddy_cases)
    case right
    have "2 * size_of_order i dvd (buddy a i + size_of_order i) - buddy a i"
      using assms right by (intro dvd_diff_nat) (simp_all add: size_of_order_Suc)
    then show ?thesis by (auto dest!: dvd_imp_le)
  qed (simp add: buddy_def)
qed

section \<open>The invariant\<close>

text \<open>The pages of a chunk, by their addresses.\<close>

definition head_ok :: "frames \<Rightarrow> nat \<Rightarrow> nat \<Rightarrow> bool" where
  "head_ok fr a i \<longleftrightarrow> size_of_order i dvd a \<and> fr a = FreeHead i
     \<and> (\<forall>p \<in> region a i. PAGE_SIZE dvd p \<and> p \<noteq> a \<longrightarrow> fr p = Unused)"

definition lists_ok :: "frames \<Rightarrow> nat \<Rightarrow> (nat \<Rightarrow> nat list) \<Rightarrow> bool" where
  "lists_ok fr m ls \<longleftrightarrow>
     (\<forall>a i. a \<in> set (ls i) \<longrightarrow> i < m \<and> head_ok fr a i)
     \<and> (\<forall>i. distinct (ls i))
     \<and> (\<forall>a i b j. a \<in> set (ls i) \<longrightarrow> b \<in> set (ls j) \<longrightarrow> (a, i) \<noteq> (b, j) \<longrightarrow> region a i \<inter> region b j = {})
     \<and> (\<forall>a i. a \<in> set (ls i) \<longrightarrow> Suc i < m \<longrightarrow> buddy a i \<notin> set (ls i))"

text \<open>A free chunk in hand, beside the listed ones.\<close>

definition loose :: "frames \<Rightarrow> nat \<Rightarrow> (nat \<Rightarrow> nat list) \<Rightarrow> nat \<Rightarrow> nat \<Rightarrow> bool" where
  "loose fr m ls a i \<longleftrightarrow> lists_ok fr m ls \<and> i < m \<and> head_ok fr a i \<and> region a i \<inter> free_in ls = {}"

lemma lists_okD:
  assumes "lists_ok fr m ls"
  shows "\<And>a i. a \<in> set (ls i) \<Longrightarrow> i < m" "\<And>a i. a \<in> set (ls i) \<Longrightarrow> head_ok fr a i" "\<And>i. distinct (ls i)"
    "\<And>a i b j. a \<in> set (ls i) \<Longrightarrow> b \<in> set (ls j) \<Longrightarrow> (a, i) \<noteq> (b, j) \<Longrightarrow> region a i \<inter> region b j = {}"
    "\<And>a i. a \<in> set (ls i) \<Longrightarrow> Suc i < m \<Longrightarrow> buddy a i \<notin> set (ls i)"
proof -
  show "\<And>a i. a \<in> set (ls i) \<Longrightarrow> i < m" "\<And>a i. a \<in> set (ls i) \<Longrightarrow> head_ok fr a i" "\<And>i. distinct (ls i)"
    "\<And>a i. a \<in> set (ls i) \<Longrightarrow> Suc i < m \<Longrightarrow> buddy a i \<notin> set (ls i)"
    using assms by (simp_all add: lists_ok_def)
  show "region a i \<inter> region b j = {}" if "a \<in> set (ls i)" "b \<in> set (ls j)" "(a, i) \<noteq> (b, j)" for a i b j
    using assms that unfolding lists_ok_def by blast
qed

lemma lists_okI:
  assumes "\<And>a i. a \<in> set (ls i) \<Longrightarrow> i < m" "\<And>a i. a \<in> set (ls i) \<Longrightarrow> head_ok fr a i" "\<And>i. distinct (ls i)"
    "\<And>a i b j. a \<in> set (ls i) \<Longrightarrow> b \<in> set (ls j) \<Longrightarrow> (a, i) \<noteq> (b, j) \<Longrightarrow> region a i \<inter> region b j = {}"
    "\<And>a i. a \<in> set (ls i) \<Longrightarrow> Suc i < m \<Longrightarrow> buddy a i \<notin> set (ls i)"
  shows "lists_ok fr m ls"
  using assms by (simp add: lists_ok_def)

lemma lists_ok_frame:
  assumes "lists_ok fr m ls" "\<And>p. p \<in> free_in ls \<Longrightarrow> fr' p = fr p"
  shows "lists_ok fr' m ls"
proof (rule lists_okI)
  fix a i assume a: "a \<in> set (ls i)"
  have "fr' p = fr p" if "p \<in> region a i" for p using that region_subset_free [of a ls i, OF a] assms(2) by blast
  then show "head_ok fr' a i" using lists_okD(2) [OF assms(1) a] by (simp add: head_ok_def)
qed (use lists_okD [OF assms(1)] in \<open>blast+\<close>)

text \<open>A loose chunk whose buddy is not listed can be listed.\<close>

lemma loose_push:
  assumes "loose fr m ls a i" "Suc i < m \<Longrightarrow> buddy a i \<notin> set (ls i)"
  shows "lists_ok fr m (ls(i := a # ls i))"
proof (rule lists_okI)
  have ok: "lists_ok fr m ls" and i: "i < m" and h: "head_ok fr a i" and d: "region a i \<inter> free_in ls = {}"
    using assms(1) by (simp_all add: loose_def)
  have mem: "b \<in> set ((ls(i := a # ls i)) j) \<longleftrightarrow> (b, j) = (a, i) \<or> b \<in> set (ls j)" for b j by auto
  have new: "a \<notin> set (ls i)" using d region_subset_free [of a ls i] region_self [of a i] by blast
  have apart: "region a i \<inter> region b j = {}" if "b \<in> set (ls j)" for b j
    using d region_subset_free [of b ls j, OF that] by blast
  show "j < m" "head_ok fr b j" if "b \<in> set ((ls(i := a # ls i)) j)" for b j
    using that i h lists_okD(1,2) [OF ok] unfolding mem by auto
  show "distinct ((ls(i := a # ls i)) j)" for j using new lists_okD(3) [OF ok] by simp
  show "region b j \<inter> region c k = {}"
    if "b \<in> set ((ls(i := a # ls i)) j)" "c \<in> set ((ls(i := a # ls i)) k)" "(b, j) \<noteq> (c, k)" for b j c k
    using that apart lists_okD(4) [OF ok] unfolding mem by blast
  show "buddy b j \<notin> set ((ls(i := a # ls i)) j)" if b: "b \<in> set ((ls(i := a # ls i)) j)" and j: "Suc j < m" for b j
  proof
    assume m: "buddy b j \<in> set ((ls(i := a # ls i)) j)"
    have al: "size_of_order j dvd b" using b h lists_okD(2) [OF ok] unfolding mem by (auto simp: head_ok_def)
    from b m consider "(b, j) = (a, i)" "(buddy b j, j) = (a, i)" | "(b, j) = (a, i)" "buddy b j \<in> set (ls j)"
      | "b \<in> set (ls j)" "(buddy b j, j) = (a, i)" | "b \<in> set (ls j)" "buddy b j \<in> set (ls j)" unfolding mem by blast
    then show False
    proof cases
      case 1
      then show False using buddy_region(5) [OF al] by simp
    next
      case 2
      then show False using assms(2) j by simp
    next
      case 3
      then have "buddy a i = b" using buddy_buddy [OF al] by auto
      with 3 assms(2) j show False by simp
    next
      case 4
      then show False using lists_okD(5) [OF ok] j by blast
    qed
  qed
qed

text \<open>Removing a listed chunk leaves it loose.\<close>

lemma remove_loose:
  assumes "lists_ok fr m ls" "a \<in> set (ls i)"
  shows "loose fr m (ls(i := remove1 a (ls i))) a i" "free_in ls = region a i \<union> free_in (ls(i := remove1 a (ls i)))"
proof -
  let ?ls = "ls(i := remove1 a (ls i))"
  have dist: "distinct (ls i)" using lists_okD(3) [OF assms(1)] .
  have mem: "b \<in> set (?ls j) \<longleftrightarrow> b \<in> set (ls j) \<and> (b, j) \<noteq> (a, i)" for b j using dist by auto
  have ok: "lists_ok fr m ?ls"
  proof (rule lists_okI)
    show "j < m" "head_ok fr b j" if "b \<in> set (?ls j)" for b j using that lists_okD(1,2) [OF assms(1)] unfolding mem by blast+
    show "distinct (?ls j)" for j using lists_okD(3) [OF assms(1)] by simp
    show "region b j \<inter> region c k = {}" if "b \<in> set (?ls j)" "c \<in> set (?ls k)" "(b, j) \<noteq> (c, k)" for b j c k
      using that lists_okD(4) [OF assms(1)] unfolding mem by blast
    show "buddy b j \<notin> set (?ls j)" if "b \<in> set (?ls j)" "Suc j < m" for b j
      using that lists_okD(5) [OF assms(1)] unfolding mem by blast
  qed
  have "region a i \<inter> region b j = {}" if "b \<in> set (?ls j)" for b j
    using that lists_okD(4) [OF assms(1,2)] unfolding mem by blast
  then have "region a i \<inter> free_in ?ls = {}" unfolding free_in_def chunks_def by blast
  with ok show "loose fr m ?ls a i" using lists_okD(1,2) [OF assms(1,2)] by (simp add: loose_def)
  show "free_in ls = region a i \<union> free_in ?ls"
    unfolding free_in_def chunks_remove [of ls i a, OF dist] using assms(2) by force
qed

text \<open>The sum of the sizes of the listed chunks.\<close>

definition weight :: "nat \<Rightarrow> (nat \<Rightarrow> nat list) \<Rightarrow> nat" where
  "weight m ls = (\<Sum>j<m. length (ls j) * size_of_order j)"

lemma weight_push: "i < m \<Longrightarrow> weight m (ls(i := a # ls i)) = weight m ls + size_of_order i"
  by (simp add: weight_def sum.remove [of "{..<m}" i])

lemma weight_remove:
  assumes "i < m" "a \<in> set (ls i)"
  shows "weight m ls = weight m (ls(i := remove1 a (ls i))) + size_of_order i"
proof -
  have "length (ls i) = Suc (length (remove1 a (ls i)))"
    using assms(2) length_pos_if_in_set [OF assms(2)] by (simp add: length_remove1)
  then show ?thesis using assms(1) by (simp add: weight_def sum.remove [of "{..<m}" i])
qed

section \<open>Insertion\<close>

text \<open>Merging a loose chunk with its listed buddy gives a loose chunk of the next order.\<close>

lemma merge_step:
  assumes "loose fr m ls a i" "Suc i < m" "buddy a i \<in> set (ls i)"
  obtains a' fr' where "merge_free fr a (buddy a i) = Return (a', fr')"
    "loose fr' m (ls(i := remove1 (buddy a i) (ls i))) a' (Suc i)"
    "region a' (Suc i) = region a i \<union> region (buddy a i) i"
    "\<forall>p. p \<notin> region a' (Suc i) \<longrightarrow> fr' p = fr p"
proof -
  let ?b = "buddy a i" and ?ls = "ls(i := remove1 (buddy a i) (ls i))"
  define l where "l = min a ?b"
  define h where "h = max a ?b"
  have ok: "lists_ok fr m ls" and ha: "head_ok fr a i" and d: "region a i \<inter> free_in ls = {}"
    using assms(1) by (simp_all add: loose_def)
  have al: "size_of_order i dvd a" using ha by (simp add: head_ok_def)
  note R = buddy_region [OF al]
  have hb: "head_ok fr ?b i" using lists_okD(2) [OF ok assms(3)] .
  have loose_b: "loose fr m ?ls ?b i" and fr: "free_in ls = region ?b i \<union> free_in ?ls"
    using remove_loose [OF ok assms(3)] by blast+
  let ?fr = "fr(h := Unused, l := FreeHead (Suc i))"
  have lh: "l \<noteq> h" "{l, h} = {a, ?b}" using R(5) by (auto simp: l_def h_def min_def max_def)
  then have heads: "fr l = FreeHead i" "fr h = FreeHead i" using ha hb by (auto simp: head_ok_def doubleton_eq_iff)
  have xor: "l XOR size_of_order i = h" using R(4) by (simp add: l_def h_def)
  have m: "merge_free fr a ?b = Return (l, ?fr)"
  proof -
    have "(if ?b < a then (?b, a) else (a, ?b)) = (l, h)" by (simp add: l_def h_def min_def max_def)
    then show ?thesis using heads xor lh(1) unfolding merge_free_def by (simp add: chunk_order_def)
  qed
  have reg: "region l (Suc i) = region a i \<union> region ?b i" using R(1) by (simp add: l_def)
  have unused: "fr p = Unused" if "p \<in> region l (Suc i)" "PAGE_SIZE dvd p" "p \<noteq> a" "p \<noteq> ?b" for p
  proof (cases "p \<in> region a i")
    case True
    then show ?thesis using ha that by (simp add: head_ok_def)
  next
    case False
    then have "p \<in> region ?b i" using that(1) unfolding reg by blast
    then show ?thesis using hb that by (simp add: head_ok_def)
  qed
  have "?fr p = Unused" if "p \<in> region l (Suc i)" "PAGE_SIZE dvd p" "p \<noteq> l" for p
  proof (cases "p = h")
    case False
    then have "p \<noteq> a" "p \<noteq> ?b" using that(3) lh(2) by blast+
    with unused [OF that(1,2)] False that(3) show ?thesis by simp
  qed (use lh in simp)
  then have head: "head_ok ?fr l (Suc i)" using R(3) by (simp add: head_ok_def l_def)
  have "l \<in> {a, ?b}" "h \<in> {a, ?b}" using lh(2) by blast+
  then have sub: "l \<in> region l (Suc i)" "h \<in> region l (Suc i)" unfolding reg by auto
  have "region ?b i \<inter> free_in ?ls = {}" using loose_b unfolding loose_def by blast
  then have dis: "region l (Suc i) \<inter> free_in ?ls = {}" using d fr unfolding reg by blast
  have "lists_ok ?fr m ?ls"
  proof (rule lists_ok_frame)
    show "lists_ok fr m ?ls" using loose_b unfolding loose_def by blast
    show "?fr p = fr p" if "p \<in> free_in ?ls" for p
    proof -
      have "p \<noteq> l" "p \<noteq> h" using that sub dis by blast+
      then show ?thesis by simp
    qed
  qed
  then have "loose ?fr m ?ls l (Suc i)" using assms(2) head dis unfolding loose_def by blast
  moreover have "\<forall>p. p \<notin> region l (Suc i) \<longrightarrow> ?fr p = fr p" using sub by (metis fun_upd_apply)
  ultimately show thesis using m reg by (intro that)
qed

text \<open>What holds of a chunk and lists that came from a chunk and lists by merging.\<close>

definition merged ::
    "frames \<Rightarrow> nat \<Rightarrow> (nat \<Rightarrow> nat list) \<Rightarrow> nat \<Rightarrow> nat \<Rightarrow> frames \<Rightarrow> (nat \<Rightarrow> nat list) \<Rightarrow> nat \<Rightarrow> nat \<Rightarrow> bool" where
  "merged fr m ls a i fr' ls' a' k \<longleftrightarrow> loose fr' m ls' a' k
     \<and> region a' k \<union> free_in ls' = region a i \<union> free_in ls
     \<and> (\<forall>p. p \<notin> region a i \<union> free_in ls \<longrightarrow> fr' p = fr p)
     \<and> weight m ls' + size_of_order k = weight m ls + size_of_order i"

lemma merged_trans:
  "merged fr m ls a i fr1 ls1 a1 i1 \<Longrightarrow> merged fr1 m ls1 a1 i1 fr2 ls2 a2 i2 \<Longrightarrow> merged fr m ls a i fr2 ls2 a2 i2"
  unfolding merged_def by (elim conjE, intro conjI, assumption) (simp_all only: refl, simp_all)

lemma merged_step:
  assumes "loose fr m ls a i" "Suc i < m" "buddy a i \<in> set (ls i)"
  obtains a' fr' where "merge_free fr a (buddy a i) = Return (a', fr')"
    "merged fr m ls a i fr' (ls(i := remove1 (buddy a i) (ls i))) a' (Suc i)"
proof -
  let ?ls = "ls(i := remove1 (buddy a i) (ls i))"
  obtain a1 fr1 where s: "merge_free fr a (buddy a i) = Return (a1, fr1)" "loose fr1 m ?ls a1 (Suc i)"
    "region a1 (Suc i) = region a i \<union> region (buddy a i) i" "\<forall>p. p \<notin> region a1 (Suc i) \<longrightarrow> fr1 p = fr p"
    using assms by (rule merge_step)
  have ok: "lists_ok fr m ls" using assms(1) by (simp add: loose_def)
  have fr: "free_in ls = region (buddy a i) i \<union> free_in ?ls" using remove_loose(2) [OF ok assms(3)] .
  have "weight m ls = weight m ?ls + size_of_order i" using assms(2,3) by (intro weight_remove) auto
  then have "merged fr m ls a i fr1 ?ls a1 (Suc i)"
    unfolding merged_def fr s(3) using s(2,4) by (auto simp: s(3) size_of_order_Suc)
  with s(1) show thesis by (rule that)
qed

lemma coalesce_spec:
  assumes "loose fr m ls a i"
  shows "\<exists>fr' ls' a' k. coalesce m fr ls a i = Return (fr', ls', a') \<and> merged fr m ls a i fr' ls' a' k
    \<and> (Suc k < m \<longrightarrow> buddy a' k \<notin> set (ls' k))"
  using assms
proof (induction "m - i" arbitrary: fr ls a i rule: less_induct)
  case less
  note 1 = less
  have ord: "chunk_order fr a = Return i" using 1(2) by (simp add: loose_def head_ok_def chunk_order_def)
  show ?case
  proof (cases "Suc i < m \<and> buddy a i \<in> set (ls i)")
    case False
    then have "coalesce m fr ls a i = Return (fr, ls, a)"
      by (subst coalesce.simps) (auto simp: ord Let_def)
    moreover have "merged fr m ls a i fr ls a i" using 1(2) by (simp add: merged_def)
    ultimately show ?thesis using False by blast
  next
    case True
    let ?b = "buddy a i" and ?ls = "ls(i := remove1 (buddy a i) (ls i))"
    obtain a1 fr1 where s: "merge_free fr a ?b = Return (a1, fr1)" "merged fr m ls a i fr1 ?ls a1 (Suc i)"
      using merged_step [OF 1(2)] True by blast
    have eq: "coalesce m fr ls a i = coalesce m fr1 ?ls a1 (Suc i)"
      using True by (subst coalesce.simps) (simp add: ord Let_def s(1))
    have "m - Suc i < m - i" "loose fr1 m ?ls a1 (Suc i)" using True s(2) by (auto simp: merged_def)
    then obtain fr' ls' a' k where r: "coalesce m fr1 ?ls a1 (Suc i) = Return (fr', ls', a')"
      "merged fr1 m ?ls a1 (Suc i) fr' ls' a' k" "Suc k < m \<longrightarrow> buddy a' k \<notin> set (ls' k)"
      using 1(1) [of "Suc i" fr1 ?ls a1] by blast
    show ?thesis using eq r(1,3) merged_trans [OF s(2) r(2)] by auto
  qed
qed

lemma set_pages_of:
  assumes "size_of_order i dvd a"
  shows "set (pages_of a i) = {p \<in> region a i. PAGE_SIZE dvd p}"
proof -
  have "PAGE_SIZE dvd a" using assms by (auto simp: size_of_order_def dest: dvd_mult_right)
  then obtain n where a: "a = n * PAGE_SIZE" by (auto elim: dvdE)
  have "p \<in> set (pages_of a i)" if "p \<in> region a i" "PAGE_SIZE dvd p" for p
  proof -
    obtain q where q: "p = q * PAGE_SIZE" using \<open>PAGE_SIZE dvd p\<close> by (auto elim: dvdE)
    have "n * PAGE_SIZE \<le> q * PAGE_SIZE" "q * PAGE_SIZE < (n + 2 ^ i) * PAGE_SIZE"
      using that(1) by (simp_all add: region_def a q size_of_order_def add_mult_distrib)
    then have "n \<le> q" "q - n < 2 ^ i" by (simp_all add: less_diff_conv2)
    then show ?thesis unfolding pages_of_def a q by (auto intro!: image_eqI [of _ _ "q - n"] simp: add_mult_distrib [symmetric])
  qed
  moreover have "p \<in> region a i \<and> PAGE_SIZE dvd p" if "p \<in> set (pages_of a i)" for p
    using that by (auto simp: pages_of_def region_def size_of_order_def a)
  ultimately show ?thesis by blast
qed

definition set_ok :: "frames \<Rightarrow> BuddySet \<Rightarrow> bool" where
  "set_ok fr bs \<longleftrightarrow> lists_ok fr (max_order bs) (lists bs) \<and> total_size bs = weight (max_order bs) (lists bs)"

definition avail :: "BuddySet \<Rightarrow> nat set" where
  "avail bs = free_in (lists bs)"

text \<open>Frames of a block that nobody uses.\<close>

definition idle :: "frames \<Rightarrow> nat \<Rightarrow> nat \<Rightarrow> bool" where
  "idle fr a i \<longleftrightarrow> size_of_order i dvd a \<and> (\<forall>p \<in> region a i. PAGE_SIZE dvd p \<longrightarrow> fr p = Unused)"

lemma set_ok_frame: "set_ok fr bs \<Longrightarrow> (\<And>p. p \<in> avail bs \<Longrightarrow> fr' p = fr p) \<Longrightarrow> set_ok fr' bs"
  unfolding set_ok_def avail_def using lists_ok_frame by blast

lemma insert_chunk_spec:
  assumes "set_ok fr bs" "order < max_order bs" "idle fr addr order" "region addr order \<inter> avail bs = {}"
  obtains fr' bs' where "insert_chunk fr bs addr order = Return (fr', bs')" "set_ok fr' bs'"
    "avail bs' = region addr order \<union> avail bs" "max_order bs' = max_order bs"
    "total_size bs' = total_size bs + size_of_order order"
    "\<forall>p. p \<notin> region addr order \<union> avail bs \<longrightarrow> fr' p = fr p"
proof -
  let ?m = "max_order bs" and ?fr = "fr(addr := FreeHead order)"
  have al: "size_of_order order dvd addr" and un: "\<And>p. p \<in> region addr order \<Longrightarrow> PAGE_SIZE dvd p \<Longrightarrow> fr p = Unused"
    using assms(3) by (simp_all add: idle_def)
  have fu: "from_unused fr addr order = Return ?fr"
    using al un by (simp add: from_unused_def list_all_iff set_pages_of [OF al])
  have "addr \<notin> avail bs" using assms(4) region_self [of addr order] by blast
  then have "set_ok ?fr bs" by (intro set_ok_frame [OF assms(1)]) auto
  then have "lists_ok ?fr ?m (lists bs)" by (simp add: set_ok_def)
  moreover have "head_ok ?fr addr order" using al un by (simp add: head_ok_def)
  ultimately have "loose ?fr ?m (lists bs) addr order"
    using assms(2,4) by (simp add: loose_def avail_def)
  then obtain fr2 ls a k where c: "coalesce ?m ?fr (lists bs) addr order = Return (fr2, ls, a)"
    "merged ?fr ?m (lists bs) addr order fr2 ls a k" "Suc k < ?m \<longrightarrow> buddy a k \<notin> set (ls k)"
    using coalesce_spec by blast
  have l: "loose fr2 ?m ls a k" and free: "region a k \<union> free_in ls = region addr order \<union> avail bs"
    and fr: "\<forall>p. p \<notin> region addr order \<union> avail bs \<longrightarrow> fr2 p = ?fr p"
    and w: "weight ?m ls + size_of_order k = weight ?m (lists bs) + size_of_order order"
    using c(2) unfolding merged_def avail_def by blast+
  have k: "chunk_order fr2 a = Return k" "k < ?m" using l by (simp_all add: loose_def head_ok_def chunk_order_def)
  let ?bs = "bs\<lparr>lists := ls(k := a # ls k), total_size := total_size bs + size_of_order order\<rparr>"
  have "insert_chunk fr bs addr order = Return (fr2, ?bs)"
    using assms(2) k by (simp add: insert_chunk_def fu c(1))
  moreover have "set_ok fr2 ?bs"
    using loose_push [OF l] c(3) weight_push [OF k(2), of ls a] w assms(1) by (simp add: set_ok_def)
  moreover have "avail ?bs = region addr order \<union> avail bs" using free by (simp add: avail_def free_in_push)
  moreover have "\<forall>p. p \<notin> region addr order \<union> avail bs \<longrightarrow> fr2 p = fr p"
    using fr region_self [of addr order] by (metis UnI1 fun_upd_apply)
  ultimately show thesis by (intro that [of fr2 ?bs]) simp_all
qed

section \<open>Allocation\<close>

lemma split_step:
  assumes "loose fr m ls a (Suc j)"
  obtains fr' where "split_free fr a = Return (a, a + size_of_order j, fr')" "chunk_order fr' (a + size_of_order j) = Return j"
    "loose fr' m (ls(j := (a + size_of_order j) # ls j)) a j"
    "\<forall>p. p \<notin> region a (Suc j) \<longrightarrow> fr' p = fr p"
proof -
  let ?r = "a + size_of_order j" and ?fr = "fr(a := FreeHead j, a + size_of_order j := FreeHead j)"
  have ok: "lists_ok fr m ls" and j: "Suc j < m" and h: "head_ok fr a (Suc j)" and d: "region a (Suc j) \<inter> free_in ls = {}"
    using assms by (simp_all add: loose_def)
  have al: "size_of_order (Suc j) dvd a" using h by (simp add: head_ok_def)
  then have al': "size_of_order j dvd a" "size_of_order j dvd ?r" by (auto simp: size_of_order_Suc dest: dvd_mult_right)
  have xor: "a XOR size_of_order j = ?r" using al by (rule xor_right_half)
  have reg: "region a (Suc j) = region a j \<union> region ?r j" "region a j \<inter> region ?r j = {}"
    by (auto simp: region_def size_of_order_Suc)
  have pg: "PAGE_SIZE dvd ?r" using al'(2) by (auto simp: size_of_order_def dest: dvd_mult_right)
  have un: "fr p = Unused" if "p \<in> region a (Suc j)" "PAGE_SIZE dvd p" "p \<noteq> a" for p
    using h that by (simp add: head_ok_def)
  have r: "?r \<in> region a (Suc j)" "?r \<noteq> a" using reg(1) by auto
  have split: "split_free fr a = Return (a, ?r, ?fr)"
    using un [OF r(1) pg r(2)] h by (simp add: split_free_def chunk_order_def head_ok_def xor Let_def)
  have un': "?fr p = Unused" if "p \<in> region a j \<union> region ?r j" "PAGE_SIZE dvd p" "p \<noteq> a" "p \<noteq> ?r" for p
    using un [of p] that unfolding reg(1) by simp
  have out: "a \<notin> region ?r j" "?r \<notin> region a j" using reg(2) region_self [of a j] region_self [of ?r j] by blast+
  have "?fr a = FreeHead j" "?fr ?r = FreeHead j" using r(2) by simp_all
  moreover have "\<forall>p \<in> region a j. PAGE_SIZE dvd p \<and> p \<noteq> a \<longrightarrow> ?fr p = Unused"
    using out(2) by (intro ballI impI un') auto
  moreover have "\<forall>p \<in> region ?r j. PAGE_SIZE dvd p \<and> p \<noteq> ?r \<longrightarrow> ?fr p = Unused"
    using out(1) by (intro ballI impI un') auto
  ultimately have heads: "head_ok ?fr a j" "head_ok ?fr ?r j" using al' unfolding head_ok_def by blast+
  have ok': "lists_ok ?fr m ls"
  proof (rule lists_ok_frame [OF ok])
    fix p assume "p \<in> free_in ls"
    then have "p \<noteq> a" "p \<noteq> ?r" using d r(1) region_self [of a "Suc j"] by blast+
    then show "?fr p = fr p" by simp
  qed
  have disj: "region a j \<inter> free_in ls = {}" "region ?r j \<inter> free_in ls = {}" using d unfolding reg(1) by blast+
  have "loose ?fr m ls ?r j" using j heads(2) ok' disj(2) by (simp add: loose_def)
  moreover have b: "buddy ?r j = a" using buddy_buddy [OF al'(1)] xor by (simp add: buddy_def)
  have "a \<notin> set (ls j)" using disj(1) region_subset_free [of a ls j] region_self [of a j] by blast
  then have "buddy ?r j \<notin> set (ls j)" unfolding b .
  ultimately have "lists_ok ?fr m (ls(j := ?r # ls j))" by (rule loose_push)
  moreover have "region a j \<inter> free_in (ls(j := ?r # ls j)) = {}" using disj reg(2) unfolding free_in_push by blast
  ultimately have l: "loose ?fr m (ls(j := ?r # ls j)) a j" using j heads(1) by (simp add: loose_def)
  have same: "?fr p = fr p" if "p \<notin> region a (Suc j)" for p
  proof -
    have "p \<noteq> a" "p \<noteq> ?r" using that r(1) region_self [of a "Suc j"] by blast+
    then show ?thesis by simp
  qed
  have "chunk_order ?fr ?r = Return j" by (simp add: chunk_order_def)
  then show thesis using l same by (intro that [OF split] allI impI)
qed

lemma split_down_spec:
  assumes "loose fr m ls a i" "order \<le> i"
  shows "\<exists>fr' ls'. split_down fr ls a order i = Return (fr', ls', a) \<and> loose fr' m ls' a order
    \<and> region a order \<union> free_in ls' = region a i \<union> free_in ls
    \<and> (\<forall>p. p \<notin> region a i \<longrightarrow> fr' p = fr p)
    \<and> weight m ls' + size_of_order order = weight m ls + size_of_order i"
  using assms
proof (induction i arbitrary: fr ls)
  case 0
  then show ?case by (simp add: split_down.simps)
next
  case (Suc j)
  show ?case
  proof (cases "order = Suc j")
    case True
    with Suc.prems show ?thesis by (simp add: split_down.simps)
  next
    case False
    let ?r = "a + size_of_order j" and ?ls = "ls(j := (a + size_of_order j) # ls j)"
    obtain fr1 where s: "split_free fr a = Return (a, ?r, fr1)" "chunk_order fr1 ?r = Return j"
      "loose fr1 m ?ls a j" "\<forall>p. p \<notin> region a (Suc j) \<longrightarrow> fr1 p = fr p"
      using Suc.prems(1) by (rule split_step)
    have "order \<le> j" using Suc.prems(2) False by simp
    then obtain fr' ls' where r: "split_down fr1 ?ls a order j = Return (fr', ls', a)" "loose fr' m ls' a order"
      "region a order \<union> free_in ls' = region a j \<union> free_in ?ls" "\<forall>p. p \<notin> region a j \<longrightarrow> fr' p = fr1 p"
      "weight m ls' + size_of_order order = weight m ?ls + size_of_order j"
      using Suc.IH [OF s(3)] by blast
    have "split_down fr ls a order (Suc j) = Return (fr', ls', a)"
      using \<open>order \<le> j\<close> s(1,2) r(1) by (subst split_down.simps) simp
    moreover have reg: "region a (Suc j) = region a j \<union> region ?r j" by (auto simp: region_def size_of_order_Suc)
    then have "region a order \<union> free_in ls' = region a (Suc j) \<union> free_in ls"
      unfolding r(3) free_in_push by blast
    moreover have "\<forall>p. p \<notin> region a (Suc j) \<longrightarrow> fr' p = fr p" using r(4) s(4) unfolding reg by simp
    moreover have "j < m" using s(3) by (simp add: loose_def)
    then have "weight m ls' + size_of_order order = weight m ls + size_of_order (Suc j)"
      using r(5) weight_push [of j m ls ?r] by (simp add: size_of_order_Suc)
    ultimately show ?thesis using r(2) by blast
  qed
qed

lemma find_first:
  "find P [i..<m] = None \<longleftrightarrow> (\<forall>k. i \<le> k \<longrightarrow> k < m \<longrightarrow> \<not> P k)"
  "find P [i..<m] = Some n \<Longrightarrow> i \<le> n \<and> n < m \<and> P n"
  by (auto simp: find_None_iff find_Some_iff)

lemma alloc_chunk_empty:
  "(\<forall>k. order \<le> k \<longrightarrow> k < max_order bs \<longrightarrow> lists bs k = []) \<Longrightarrow> alloc_chunk fr bs order = Return (None, fr, bs)"
  by (simp add: alloc_chunk_def iffD2 [OF find_first(1)])

lemma alloc_chunk_spec:
  assumes "set_ok fr bs" "\<not> (\<forall>k. order \<le> k \<longrightarrow> k < max_order bs \<longrightarrow> lists bs k = [])"
  obtains a fr' bs' where "alloc_chunk fr bs order = Return (Some a, fr', bs')" "set_ok fr' bs'"
    "idle fr' a order" "avail bs = region a order \<union> avail bs'" "region a order \<inter> avail bs' = {}"
    "max_order bs' = max_order bs" "total_size bs = total_size bs' + size_of_order order"
    "\<forall>p. p \<notin> avail bs \<longrightarrow> fr' p = fr p"
proof -
  let ?m = "max_order bs"
  obtain n where n: "find (\<lambda>i. lists bs i \<noteq> []) [order..<?m] = Some n"
    using assms(2) find_first(1) [of "\<lambda>i. lists bs i \<noteq> []" order ?m] by fastforce
  then have ne: "order \<le> n" "n < ?m" "lists bs n \<noteq> []" using find_first(2) by blast+
  define h where "h = hd (lists bs n)"
  have h: "h \<in> set (lists bs n)" and tl: "tl (lists bs n) = remove1 h (lists bs n)"
    using ne(3) by (cases "lists bs n"; simp add: h_def)+
  let ?ls = "(lists bs)(n := remove1 h (lists bs n))"
  have ok: "lists_ok fr ?m (lists bs)" and tot: "total_size bs = weight ?m (lists bs)" using assms(1) by (simp_all add: set_ok_def)
  have l: "loose fr ?m ?ls h n" and free: "avail bs = region h n \<union> free_in ?ls"
    using remove_loose [of fr ?m "lists bs" h n, OF ok h] by (simp_all add: avail_def)
  obtain fr1 ls1 where s: "split_down fr ?ls h order n = Return (fr1, ls1, h)" "loose fr1 ?m ls1 h order"
    "region h order \<union> free_in ls1 = region h n \<union> free_in ?ls" "\<forall>p. p \<notin> region h n \<longrightarrow> fr1 p = fr p"
    "weight ?m ls1 + size_of_order order = weight ?m ?ls + size_of_order n"
    using split_down_spec [OF l ne(1)] by blast
  have w: "total_size bs = weight ?m ls1 + size_of_order order"
    using s(5) weight_remove [of n ?m h "lists bs", OF ne(2) h] tot by simp
  have co: "chunk_order fr h = Return n" using l by (simp add: loose_def head_ok_def chunk_order_def)
  have l1: "lists_ok fr1 ?m ls1" "head_ok fr1 h order" "region h order \<inter> free_in ls1 = {}" using s(2) by (simp_all add: loose_def)
  let ?bs = "bs\<lparr>lists := ls1, total_size := total_size bs - size_of_order order\<rparr>" and ?fr = "fr1(h := Unused)"
  have alloc: "alloc_chunk fr bs order = Return (Some h, ?fr, ?bs)"
    using w by (simp add: alloc_chunk_def n Let_def h_def [symmetric] tl co s(1))
  have "h \<notin> free_in ls1" using l1(3) region_self [of h order] by blast
  then have "lists_ok ?fr ?m ls1" by (intro lists_ok_frame [OF l1(1)]) auto
  then have "set_ok ?fr ?bs" using w by (simp add: set_ok_def)
  moreover have "idle ?fr h order" using l1(2) by (simp add: idle_def head_ok_def)
  moreover have "avail bs = region h order \<union> avail ?bs" using free s(3) by (simp add: avail_def)
  moreover have "\<forall>p. p \<notin> avail bs \<longrightarrow> ?fr p = fr p" using s(4) region_self [of h n] unfolding free by auto
  ultimately show thesis using that [OF alloc] l1(3) w by (simp add: avail_def)
qed

text \<open>
  A coalesced set that covers an aligned block has a chunk at least as large: of two adjacent
  listed halves, one would be the buddy of the other.
\<close>

lemma aligned_same:
  assumes "size_of_order i dvd a" "size_of_order i dvd b" "x \<in> region a i" "x \<in> region b i"
  shows "a = b"
proof -
  have "c = x div size_of_order i * size_of_order i" if "size_of_order i dvd c" "x \<in> region c i" for c
  proof -
    obtain q where q: "c = q * size_of_order i" using \<open>size_of_order i dvd c\<close> by (auto elim!: dvdE)
    have "x div size_of_order i = q"
      by (rule div_nat_eqI) (use that(2) in \<open>simp_all add: region_def q mult.commute\<close>)
    then show ?thesis by (simp add: q)
  qed
  then show ?thesis using assms by metis
qed

lemma covered_block:
  assumes "lists_ok fr m ls" "k < m" "size_of_order k dvd a" "region a k \<subseteq> free_in ls"
  shows "\<exists>b i. k \<le> i \<and> b \<in> set (ls i) \<and> region a k \<inter> region b i \<noteq> {}"
  using assms(2-4)
proof (induction k arbitrary: a)
  case 0
  then have "a \<in> free_in ls" using region_self [of a 0] by blast
  then show ?case using region_self [of a 0] unfolding in_free_in by blast
next
  case (Suc k)
  let ?r = "a + size_of_order k"
  have reg: "region a (Suc k) = region a k \<union> region ?r k" by (auto simp: region_def size_of_order_Suc)
  have al: "size_of_order k dvd a" "size_of_order k dvd ?r"
    using Suc.prems(2) by (auto simp: size_of_order_Suc dest: dvd_mult_right)
  obtain b i where b: "k \<le> i" "b \<in> set (ls i)" "region a k \<inter> region b i \<noteq> {}"
    using Suc.IH [of a] Suc.prems al(1) unfolding reg by auto
  obtain c j where c: "k \<le> j" "c \<in> set (ls j)" "region ?r k \<inter> region c j \<noteq> {}"
    using Suc.IH [of ?r] Suc.prems al(2) unfolding reg by auto
  show ?case
  proof (cases "i = k \<and> j = k")
    case True
    have "size_of_order k dvd b" "size_of_order k dvd c"
      using lists_okD(2) [OF assms(1) b(2)] lists_okD(2) [OF assms(1) c(2)] True by (simp_all add: head_ok_def)
    then have "b = a" "c = ?r" using b(3) c(3) al True by (auto intro: aligned_same)
    moreover have "buddy a k = ?r" using xor_right_half [OF Suc.prems(2)] by (simp add: buddy_def)
    ultimately show ?thesis using lists_okD(5) [OF assms(1) b(2)] c(2) True Suc.prems(1) by simp
  next
    case False
    then have "Suc k \<le> i \<or> Suc k \<le> j" using b(1) c(1) by auto
    then show ?thesis using b(2,3) c(2,3) unfolding reg by blast
  qed
qed

lemma alloc_chunk_complete:
  assumes "set_ok fr bs" "order < max_order bs" "\<forall>k. order \<le> k \<longrightarrow> k < max_order bs \<longrightarrow> lists bs k = []"
    "size_of_order order dvd a"
  shows "\<not> region a order \<subseteq> avail bs"
proof
  have ok: "lists_ok fr (max_order bs) (lists bs)" using assms(1) by (simp add: set_ok_def)
  assume "region a order \<subseteq> avail bs"
  then obtain b i where b: "order \<le> i" "b \<in> set (lists bs i)"
    using covered_block [OF ok assms(2,4)] by (auto simp: avail_def)
  then have "i < max_order bs" using lists_okD(1) [OF ok] by blast
  then show False using assms(3) b by auto
qed

lemma set_ok_new_empty [simp]: "set_ok fr (new_empty m)" "avail (new_empty m) = {}"
  "max_order (new_empty m) = m"
  by (simp_all add: set_ok_def lists_ok_def weight_def avail_def free_in_def chunks_def new_empty_def)

text \<open>
  C18. Insertion of a buddy chunk. Into a well-formed set of free chunks, inserting an aligned
  block of unused frames that the set does not cover already returns without a panic, however far
  the block merges with its buddies: the covered addresses grow by exactly that block, the total
  grows by its size, the set is well-formed again (aligned, disjoint, coalesced, and agreeing with
  the frames' metadata), and no frame outside the set and the block is touched.
\<close>

theorem buddy_insert_exact:
  assumes "set_ok fr bs" "order < max_order bs" "idle fr addr order" "region addr order \<inter> avail bs = {}"
  shows "\<exists>fr' bs'. insert_chunk fr bs addr order = Return (fr', bs') \<and> set_ok fr' bs'
    \<and> avail bs' = avail bs \<union> region addr order \<and> total_size bs' = total_size bs + size_of_order order
    \<and> (\<forall>p. p \<notin> avail bs \<union> region addr order \<longrightarrow> fr' p = fr p)"
  by (rule insert_chunk_spec [OF assms]) (auto simp: Un_commute)

text \<open>A set of order below 3 that holds the page at 12288; the page at 8192 is its buddy.\<close>

definition page_fr :: frames where
  "page_fr = (\<lambda>_. Unused)(12288 := FreeHead 0)"

definition page_set :: BuddySet where
  "page_set = \<lparr>max_order = 3, total_size = 4096, lists = (\<lambda>_. [])(0 := [12288])\<rparr>"

lemma page_insert: "insert_chunk (\<lambda>_. Unused) (new_empty 3) 12288 0 = Return (page_fr, page_set)"
  by (simp add: insert_chunk_def from_unused_def new_empty_def coalesce.simps chunk_order_def page_fr_def page_set_def
      size_of_order_def PAGE_SIZE_def pages_of_def)

lemma page_set_ok: "set_ok page_fr page_set" "avail page_set = {12288..<16384}"
proof -
  have "idle (\<lambda>_. Unused) 12288 0" by (simp add: idle_def size_of_order_def PAGE_SIZE_def)
  then obtain fr' bs' where "insert_chunk (\<lambda>_. Unused) (new_empty 3) 12288 0 = Return (fr', bs')" "set_ok fr' bs'"
    "avail bs' = region 12288 0 \<union> avail (new_empty 3)"
    by (rule insert_chunk_spec [rotated 2, of _ _ _ "new_empty 3"]) simp_all
  then show "set_ok page_fr page_set" "avail page_set = {12288..<16384}"
    by (simp_all add: page_insert region_def size_of_order_def PAGE_SIZE_def)
qed

lemma page_merge:
  "insert_chunk page_fr page_set 8192 0 =
     Return ((\<lambda>_. Unused)(12288 := Unused, 8192 := FreeHead 1), page_set\<lparr>lists := (\<lambda>_. [])(0 := [], 1 := [8192]), total_size := 8192\<rparr>)"
proof -
  let ?fr = "page_fr(8192 := FreeHead 0)" and ?fr' = "(\<lambda>_. Unused)(12288 := Unused, 8192 := FreeHead (Suc 0))"
  have m: "merge_free ?fr 8192 12288 = Return (8192, ?fr')"
    by (simp add: merge_free_def chunk_order_def page_fr_def Let_def buddy_def size_of_order_def PAGE_SIZE_def fun_eq_iff)
  have 1: "coalesce 3 ?fr' ((\<lambda>_. [])(0 := [])) 8192 (Suc 0) = Return (?fr', (\<lambda>_. [])(0 := []), 8192)"
    by (subst coalesce.simps) (simp add: chunk_order_def)
  have "coalesce 3 ?fr (lists page_set) 8192 0 = Return (?fr', (\<lambda>_. [])(0 := []), 8192)"
    by (subst coalesce.simps) (simp add: chunk_order_def page_set_def buddy_def size_of_order_def PAGE_SIZE_def m 1)
  then show ?thesis
    by (simp add: insert_chunk_def from_unused_def chunk_order_def page_set_def pages_of_def size_of_order_def PAGE_SIZE_def
        page_fr_def fun_eq_iff)
qed

theorem buddy_insert_exact_witness:
  "set_ok page_fr page_set \<and> (\<exists>fr' bs'. insert_chunk page_fr page_set 8192 0 = Return (fr', bs')
     \<and> total_size bs' = 8192 \<and> lists bs' 1 = [8192] \<and> avail bs' = {8192..<16384})"
proof -
  have "idle page_fr 8192 0" "region 8192 0 \<inter> avail page_set = {}" "0 < max_order page_set"
    unfolding page_set_ok(2) by (simp_all add: idle_def region_def size_of_order_def PAGE_SIZE_def page_fr_def page_set_def)
  then obtain fr' bs' where r: "insert_chunk page_fr page_set 8192 0 = Return (fr', bs')"
    "avail bs' = avail page_set \<union> region 8192 0" "total_size bs' = total_size page_set + size_of_order 0"
    using buddy_insert_exact [of page_fr page_set 0 8192] page_set_ok(1) by blast
  have "lists bs' 1 = [8192]" using r(1) unfolding page_merge by auto
  moreover have "avail bs' = {8192..<16384}" using r(2) unfolding page_set_ok(2)
    using ivl_disj_un_two(3) [of 8192 "12288::nat" 16384] by (simp add: region_def size_of_order_def PAGE_SIZE_def Un_commute)
  moreover have "total_size bs' = 8192" using r(3) by (simp add: page_set_def size_of_order_def PAGE_SIZE_def)
  ultimately show ?thesis using r(1) page_set_ok(1) by blast
qed



end
