(* ===== verification/Frame_Pools.thy ===== *)
theory Frame_Pools
  imports Buddy_Set
begin

text \<open>
  The pools of the physical frame allocator: \<^verbatim>\<open>pools/mod.rs\<close> and \<^verbatim>\<open>pools/balancing.rs\<close> of
  \<^verbatim>\<open>packages/osdk/deps/frame-allocator/src\<close>. One buddy set is global and locked on demand, one
  belongs to each CPU. The number of CPUs, which the platform reports, is a parameter. An
  operation runs with interrupts disabled on one CPU and holds the global lock from its first use
  to its end; before that it touches its own CPU's pool only. Each operation is therefore one
  atomic step, and the snapshot of the global size it may read is arbitrary.

  The invariant says that all pools are well-formed and disjoint. The lemmas show that every
  operation keeps it and that the free memory grows and shrinks by exactly the given ranges.
\<close>

section \<open>State\<close>

definition MAX_BUDDY_ORDER :: nat where "MAX_BUDDY_ORDER = 32"

definition MAX_LOCAL_BUDDY_ORDER :: nat where "MAX_LOCAL_BUDDY_ORDER = 18"

record Pools =
  meta :: frames
  global_pool :: BuddySet
  global_pool_size :: nat
  local_pools :: "nat \<Rightarrow> BuddySet"
  guard_held :: bool

text \<open>\<^verbatim>\<open>OnDemandGlobalLock\<close>: \<^verbatim>\<open>new\<close>, \<^verbatim>\<open>get\<close>, \<^verbatim>\<open>get_global_size\<close> and \<^verbatim>\<open>drop\<close>.\<close>

definition guard_new :: "Pools \<Rightarrow> Pools" where
  "guard_new ps = ps\<lparr>guard_held := False\<rparr>"

definition guard_get :: "Pools \<Rightarrow> Pools" where
  "guard_get ps = ps\<lparr>guard_held := True\<rparr>"

definition get_global_size :: "Pools \<Rightarrow> nat" where
  "get_global_size ps = (if guard_held ps then total_size (global_pool ps) else global_pool_size ps)"

definition guard_drop :: "Pools \<Rightarrow> Pools" where
  "guard_drop ps = (if guard_held ps
     then ps\<lparr>global_pool_size := total_size (global_pool ps), guard_held := False\<rparr> else ps)"

text \<open>Calls of \<^verbatim>\<open>insert_chunk\<close> and \<^verbatim>\<open>alloc_chunk\<close> on the pools.\<close>

definition global_insert :: "Pools \<Rightarrow> nat \<times> nat \<Rightarrow> Pools rust" where
  "global_insert ps = (\<lambda>(addr, order).
     rust_bind (insert_chunk (meta ps) (global_pool ps) addr order) (\<lambda>(fr, bs).
       Return ((guard_get ps)\<lparr>meta := fr, global_pool := bs\<rparr>)))"

definition local_insert :: "nat \<Rightarrow> Pools \<Rightarrow> nat \<times> nat \<Rightarrow> Pools rust" where
  "local_insert cpu ps = (\<lambda>(addr, order).
     rust_bind (insert_chunk (meta ps) (local_pools ps cpu) addr order) (\<lambda>(fr, bs).
       Return (ps\<lparr>meta := fr, local_pools := (local_pools ps)(cpu := bs)\<rparr>)))"

definition global_alloc :: "Pools \<Rightarrow> nat \<Rightarrow> (nat option \<times> Pools) rust" where
  "global_alloc ps order =
     rust_bind (alloc_chunk (meta ps) (global_pool ps) order) (\<lambda>(r, fr, bs).
       Return (r, (guard_get ps)\<lparr>meta := fr, global_pool := bs\<rparr>))"

definition local_alloc :: "nat \<Rightarrow> Pools \<Rightarrow> nat \<Rightarrow> (nat option \<times> Pools) rust" where
  "local_alloc cpu ps order =
     rust_bind (alloc_chunk (meta ps) (local_pools ps cpu) order) (\<lambda>(r, fr, bs).
       Return (r, ps\<lparr>meta := fr, local_pools := (local_pools ps)(cpu := bs)\<rparr>))"

section \<open>Balancing\<close>

definition cache_expected_size :: "nat \<Rightarrow> nat \<Rightarrow> nat" where
  "cache_expected_size num_cpus global_size = global_size div num_cpus div 2"

definition cache_minimal_size :: "nat \<Rightarrow> nat \<Rightarrow> nat" where
  "cache_minimal_size num_cpus global_size = cache_expected_size num_cpus global_size div 8"

definition cache_maximal_size :: "nat \<Rightarrow> nat \<Rightarrow> nat" where
  "cache_maximal_size num_cpus global_size = cache_expected_size num_cpus global_size * 2"

fun for_each :: "('s \<Rightarrow> 'a \<Rightarrow> 's rust) \<Rightarrow> 'a list \<Rightarrow> 's \<Rightarrow> 's rust" where
  "for_each f [] s = Return s"
| "for_each f (x # xs) s = rust_bind (f s x) (for_each f xs)"

definition put_chunk :: "frames \<times> BuddySet \<Rightarrow> nat \<times> nat \<Rightarrow> (frames \<times> BuddySet) rust" where
  "put_chunk s c = insert_chunk (fst s) (snd s) (fst c) (snd c)"

fun balance_to :: "frames \<Rightarrow> BuddySet \<Rightarrow> BuddySet \<Rightarrow> nat \<Rightarrow> (frames \<times> BuddySet \<times> BuddySet) rust" where
  "balance_to fr a b order =
     rust_bind (alloc_chunk fr a order) (\<lambda>(allocated_from_a, fr1, a1).
       case allocated_from_a of
         Some addr \<Rightarrow>
           if order \<ge> max_order b
           then let inserted_order = max_order b - 1
                in rust_bind (split_to_order addr order inserted_order) (\<lambda>addrs.
                   rust_bind (for_each put_chunk (map (\<lambda>addr. (addr, inserted_order)) addrs) (fr1, b)) (\<lambda>(fr2, b1).
                     Return (fr2, a1, b1)))
           else rust_bind (insert_chunk fr1 b addr order) (\<lambda>(fr2, b1). Return (fr2, a1, b1))
       | None \<Rightarrow>
           if order > 1
           then rust_bind (balance_to fr1 a1 b (order - 1)) (\<lambda>(fr2, a2, b2). balance_to fr2 a2 b2 (order - 1))
           else Return (fr1, a1, b))"

declare balance_to.simps [simp del]

definition balance :: "nat \<Rightarrow> nat \<Rightarrow> Pools \<Rightarrow> Pools rust" where
  "balance num_cpus cpu ps =
     (let global_size = get_global_size ps;
          minimal_local_size = cache_minimal_size num_cpus global_size;
          expected_local_size = cache_expected_size num_cpus global_size;
          maximal_local_size = cache_maximal_size num_cpus global_size;
          local_size = total_size (local_pools ps cpu)
      in if local_size \<ge> maximal_local_size then
           (if local_size = 0 then Return ps
            else rust_bind (lesser_order_of (local_size - expected_local_size)) (\<lambda>lesser_order.
                 rust_bind (balance_to (meta ps) (local_pools ps cpu) (global_pool ps) lesser_order) (\<lambda>(fr, l, g).
                   Return ((guard_get ps)\<lparr>meta := fr, local_pools := (local_pools ps)(cpu := l), global_pool := g\<rparr>))))
         else if local_size < minimal_local_size then
           (if global_size = 0 then Return ps
            else rust_bind (lesser_order_of (expected_local_size - local_size)) (\<lambda>lesser_order.
                 rust_bind (balance_to (meta ps) (global_pool ps) (local_pools ps cpu) lesser_order) (\<lambda>(fr, g, l).
                   Return ((guard_get ps)\<lparr>meta := fr, local_pools := (local_pools ps)(cpu := l), global_pool := g\<rparr>))))
         else Return ps)"

section \<open>Allocation and deallocation\<close>

definition dealloc_segment :: "nat \<Rightarrow> Pools \<Rightarrow> nat \<times> nat \<Rightarrow> Pools rust" where
  "dealloc_segment cpu ps = (\<lambda>(addr, s).
     rust_bind (split_to_chunks addr s) (\<lambda>cs.
       for_each (\<lambda>ps c. if snd c \<ge> MAX_LOCAL_BUDDY_ORDER then global_insert ps c else local_insert cpu ps c) cs ps))"

definition do_dealloc :: "nat \<Rightarrow> Pools \<Rightarrow> (nat \<times> nat) list \<Rightarrow> Pools rust" where
  "do_dealloc cpu ps segments = for_each (dealloc_segment cpu) segments ps"

text \<open>\<^verbatim>\<open>alloc\<close> up to the call of \<^verbatim>\<open>balance\<close>: take a chunk and give back what it exceeds the layout by.\<close>

definition alloc_order :: "nat \<Rightarrow> nat \<Rightarrow> nat" where
  "alloc_order len align = max (greater_order_of len) (greater_order_of align)"

definition take_chunk :: "nat \<Rightarrow> Pools \<Rightarrow> nat \<Rightarrow> (nat option \<times> Pools) rust" where
  "take_chunk cpu ps order =
     rust_bind (if order < MAX_LOCAL_BUDDY_ORDER then local_alloc cpu ps order else Return (None, ps)) (\<lambda>(r, ps).
       if r = None then global_alloc ps order else Return (r, ps))"

definition alloc_take :: "nat \<Rightarrow> Pools \<Rightarrow> nat \<Rightarrow> nat \<Rightarrow> (nat option \<times> Pools) rust" where
  "alloc_take cpu ps len align =
     (let order = alloc_order len align; allocated_size = size_of_order order
      in rust_bind (take_chunk cpu ps order) (\<lambda>(r, ps).
           case r of
             Some chunk_addr \<Rightarrow>
               if allocated_size > len
               then rust_bind (do_dealloc cpu ps [(chunk_addr + len, allocated_size - len)]) (\<lambda>ps. Return (r, ps))
               else Return (r, ps)
           | None \<Rightarrow> Return (r, ps)))"

definition pools_alloc :: "nat \<Rightarrow> nat \<Rightarrow> Pools \<Rightarrow> nat \<Rightarrow> nat \<Rightarrow> (nat option \<times> Pools) rust" where
  "pools_alloc num_cpus cpu ps len align =
     rust_bind (alloc_take cpu (guard_new ps) len align) (\<lambda>(r, ps).
     rust_bind (balance num_cpus cpu ps) (\<lambda>ps. Return (r, guard_drop ps)))"

definition pools_dealloc :: "nat \<Rightarrow> nat \<Rightarrow> Pools \<Rightarrow> (nat \<times> nat) list \<Rightarrow> Pools rust" where
  "pools_dealloc num_cpus cpu ps segments =
     rust_bind (do_dealloc cpu (guard_new ps) segments) (\<lambda>ps.
     rust_bind (balance num_cpus cpu ps) (\<lambda>ps. Return (guard_drop ps)))"

definition add_free_memory :: "Pools \<Rightarrow> nat \<Rightarrow> nat \<Rightarrow> Pools rust" where
  "add_free_memory ps addr len =
     rust_bind (split_to_chunks addr len) (\<lambda>cs.
     rust_bind (for_each global_insert cs (guard_new ps)) (\<lambda>ps. Return (guard_drop ps)))"

section \<open>All pools together\<close>

text \<open>Pools are indexed by \<open>None\<close> for the global one and \<open>Some cpu\<close> for the local ones.\<close>

definition pool :: "Pools \<Rightarrow> nat option \<Rightarrow> BuddySet" where
  "pool ps w = (case w of None \<Rightarrow> global_pool ps | Some cpu \<Rightarrow> local_pools ps cpu)"

definition cap :: "nat option \<Rightarrow> nat" where
  "cap w = (case w of None \<Rightarrow> MAX_BUDDY_ORDER | Some _ \<Rightarrow> MAX_LOCAL_BUDDY_ORDER)"

definition all_free :: "(nat option \<Rightarrow> BuddySet) \<Rightarrow> nat set" where
  "all_free P = (\<Union>w. avail (P w))"

definition all_ok :: "frames \<Rightarrow> (nat option \<Rightarrow> BuddySet) \<Rightarrow> bool" where
  "all_ok fr P \<longleftrightarrow> (\<forall>w. set_ok fr (P w) \<and> max_order (P w) = cap w)
     \<and> (\<forall>w v. w \<noteq> v \<longrightarrow> avail (P w) \<inter> avail (P v) = {})"

abbreviation pools_ok :: "Pools \<Rightarrow> bool" where
  "pools_ok ps \<equiv> all_ok (meta ps) (pool ps)"

abbreviation free_mem :: "Pools \<Rightarrow> nat set" where
  "free_mem ps \<equiv> all_free (pool ps)"

lemma pool_simps [simp]:
  "pool ps None = global_pool ps" "pool ps (Some cpu) = local_pools ps cpu"
  "pool (ps\<lparr>meta := fr\<rparr>) = pool ps" "pool (ps\<lparr>guard_held := g\<rparr>) = pool ps"
  "pool (ps\<lparr>global_pool_size := n\<rparr>) = pool ps"
  "pool (ps\<lparr>global_pool := bs\<rparr>) = (pool ps)(None := bs)"
  "local_pools ps = L \<Longrightarrow> pool (ps\<lparr>local_pools := L(cpu := bs)\<rparr>) = (pool ps)(Some cpu := bs)"
  by (auto simp: pool_def fun_eq_iff split: option.splits)

lemma pool_guard [simp]:
  "pool (guard_new ps) = pool ps" "pool (guard_get ps) = pool ps" "pool (guard_drop ps) = pool ps"
  "global_pool (guard_new ps) = global_pool ps" "global_pool (guard_get ps) = global_pool ps"
  "local_pools (guard_new ps) = local_pools ps" "local_pools (guard_get ps) = local_pools ps"
  "guard_get (guard_new ps) = guard_get ps"
  "meta (guard_new ps) = meta ps" "meta (guard_get ps) = meta ps" "meta (guard_drop ps) = meta ps"
  by (simp_all add: guard_new_def guard_get_def guard_drop_def)

lemma cap_pos [simp]: "0 < cap w" "cap None = 32" "cap (Some cpu) = 18"
  by (simp_all add: cap_def MAX_BUDDY_ORDER_def MAX_LOCAL_BUDDY_ORDER_def split: option.split)

lemma all_okD:
  assumes "all_ok fr P"
  shows "set_ok fr (P w)" "max_order (P w) = cap w" "w \<noteq> v \<Longrightarrow> avail (P w) \<inter> avail (P v) = {}"
  using assms by (simp_all add: all_ok_def)

lemma avail_all_free: "avail (P w) \<subseteq> all_free P"
  unfolding all_free_def by blast

text \<open>Replacing one pool.\<close>

lemma all_free_upd: "all_free (P(w := bs)) = avail bs \<union> (\<Union>v \<in> - {w}. avail (P v))"
  unfolding all_free_def by (auto split: if_splits)

lemma all_ok_upd:
  assumes "all_ok fr P" "set_ok fr' bs" "max_order bs = cap w"
    and "avail bs \<subseteq> avail (P w) \<union> R" "R \<inter> all_free P \<subseteq> avail (P w)"
    and "\<And>p. p \<notin> avail (P w) \<union> R \<Longrightarrow> fr' p = fr p"
  shows "all_ok fr' (P(w := bs))"
proof -
  have apart: "(avail (P w) \<union> R) \<inter> avail (P v) = {}" if "v \<noteq> w" for v
    using that all_okD(3) [OF assms(1), of v w] assms(5) avail_all_free [of P v] by blast
  have "set_ok fr' (P v)" if "v \<noteq> w" for v
    by (rule set_ok_frame [OF all_okD(1) [OF assms(1)]]) (use apart [OF that] assms(6) in blast)
  moreover have "avail bs \<inter> avail (P v) = {}" if "v \<noteq> w" for v using apart [OF that] assms(4) by blast
  ultimately show ?thesis using assms(2,3) all_okD [OF assms(1)] unfolding all_ok_def by (auto simp: Int_commute)
qed

text \<open>Every address is of one pool, and the totals count the addresses.\<close>

definition added :: "nat set \<Rightarrow> frames \<Rightarrow> (nat option \<Rightarrow> BuddySet) \<Rightarrow> frames \<Rightarrow> (nat option \<Rightarrow> BuddySet) \<Rightarrow> bool" where
  "added R fr P fr' P' \<longleftrightarrow> all_ok fr' P' \<and> all_free P' = all_free P \<union> R
     \<and> (\<forall>p. p \<notin> all_free P \<union> R \<longrightarrow> fr' p = fr p)"

lemma added_trans:
  "added R fr P fr1 P1 \<Longrightarrow> added S fr1 P1 fr2 P2 \<Longrightarrow> added (R \<union> S) fr P fr2 P2"
  unfolding added_def by (elim conjE) (simp add: Un_assoc)

lemma all_ok_insert:
  assumes "all_ok fr P" "order < cap w" "idle fr a order" "region a order \<inter> all_free P = {}"
  obtains fr' bs where "insert_chunk fr (P w) a order = Return (fr', bs)"
    "added (region a order) fr P fr' (P(w := bs))" "avail bs = region a order \<union> avail (P w)"
proof -
  have "set_ok fr (P w)" "order < max_order (P w)" "region a order \<inter> avail (P w) = {}"
    using all_okD [OF assms(1)] assms(2,4) avail_all_free [of P w] by auto
  then obtain fr' bs where i: "insert_chunk fr (P w) a order = Return (fr', bs)" "set_ok fr' bs"
    "avail bs = region a order \<union> avail (P w)" "max_order bs = max_order (P w)"
    "\<forall>p. p \<notin> region a order \<union> avail (P w) \<longrightarrow> fr' p = fr p"
    using insert_chunk_spec [of fr "P w" order a] assms(3) by metis
  have "all_ok fr' (P(w := bs))"
    using i(5) assms(4) all_okD(2) [OF assms(1)]
    by (intro all_ok_upd [OF assms(1) i(2), where R = "region a order"]) (auto simp: i(3,4))
  moreover have "all_free (P(w := bs)) = all_free P \<union> region a order"
    using all_free_upd [of P w "P w"] by (auto simp: all_free_upd i(3))
  moreover have "\<forall>p. p \<notin> all_free P \<union> region a order \<longrightarrow> fr' p = fr p" using i(5) avail_all_free [of P w] by blast
  ultimately show thesis using that [OF i(1)] i(3) by (simp add: added_def)
qed

lemma all_ok_alloc:
  assumes "all_ok fr P"
  obtains (none) "alloc_chunk fr (P w) order = Return (None, fr, P w)"
      "order < cap w \<longrightarrow> (\<forall>a. size_of_order order dvd a \<longrightarrow> \<not> region a order \<subseteq> avail (P w))"
  | (some) a fr' bs where "alloc_chunk fr (P w) order = Return (Some a, fr', bs)" "order < cap w"
      "all_ok fr' (P(w := bs))" "idle fr' a order" "all_free P = all_free (P(w := bs)) \<union> region a order"
      "region a order \<inter> all_free (P(w := bs)) = {}" "\<forall>p. p \<notin> all_free P \<longrightarrow> fr' p = fr p"
      "avail (P w) = region a order \<union> avail bs"
proof (cases "\<forall>k. order \<le> k \<longrightarrow> k < max_order (P w) \<longrightarrow> lists (P w) k = []")
  case True
  show thesis
  proof (rule none)
    show "alloc_chunk fr (P w) order = Return (None, fr, P w)" using True by (rule alloc_chunk_empty)
    show "order < cap w \<longrightarrow> (\<forall>a. size_of_order order dvd a \<longrightarrow> \<not> region a order \<subseteq> avail (P w))"
      using alloc_chunk_complete [OF all_okD(1) [OF assms(1)] _ True] all_okD(2) [OF assms] by auto
  qed
next
  case False
  then have o: "order < cap w" using all_okD(2) [OF assms, of w] by auto
  obtain a fr' bs where s: "alloc_chunk fr (P w) order = Return (Some a, fr', bs)" "set_ok fr' bs"
    "idle fr' a order" "avail (P w) = region a order \<union> avail bs" "region a order \<inter> avail bs = {}"
    "max_order bs = max_order (P w)" "\<forall>p. p \<notin> avail (P w) \<longrightarrow> fr' p = fr p"
    using alloc_chunk_spec [OF all_okD(1) [OF assms] False] by metis
  have ok: "all_ok fr' (P(w := bs))"
    using s(4,7) all_okD(2) [OF assms]
    by (intro all_ok_upd [OF assms s(2), where R = "{}"]) (auto simp: s(6))
  have f: "all_free P = all_free (P(w := bs)) \<union> region a order"
    using all_free_upd [of P w "P w"] s(4) by (auto simp: all_free_upd)
  have "region a order \<inter> avail (P v) = {}" if "v \<noteq> w" for v
    using all_okD(3) [OF assms that] s(4) by blast
  then have d: "region a order \<inter> all_free (P(w := bs)) = {}" using s(5) unfolding all_free_upd by blast
  have "\<forall>p. p \<notin> all_free P \<longrightarrow> fr' p = fr p" using s(7) avail_all_free [of P w] by blast
  then show thesis by (rule some [OF s(1) o ok s(3) f d _ s(4)])
qed

text \<open>When one pool has taken a range in, the range is its own.\<close>

lemma added_avail:
  assumes "all_ok fr P" "added R fr P fr' (P(v := b))" "R \<inter> all_free P = {}"
  shows "avail b = avail (P v) \<union> R"
proof -
  have ok: "all_ok fr' (P(v := b))" and f: "all_free (P(v := b)) = all_free P \<union> R"
    using assms(2) by (simp_all add: added_def)
  define U where "U = (\<Union>u \<in> - {v}. avail (P u))"
  have "avail b \<inter> avail (P u) = {}" if "u \<noteq> v" for u
    using all_okD(3) [OF ok, of v u] that by auto
  then have "avail b \<inter> U = {}" unfolding U_def by auto
  moreover have "(avail (P v) \<union> R) \<inter> avail (P u) = {}" if "u \<noteq> v" for u
    using all_okD(3) [OF assms(1), of v u] that assms(3) avail_all_free [of P u] by blast
  then have "(avail (P v) \<union> R) \<inter> U = {}" unfolding U_def by auto
  moreover have "avail b \<union> U = avail (P v) \<union> U \<union> R"
    using f all_free_upd [of P v "P v"] by (simp add: all_free_upd U_def)
  ultimately show ?thesis by blast
qed

section \<open>Sums of chunks\<close>

lemma tiles_equal:
  "size_of_order k dvd a \<Longrightarrow> tiles a (map (\<lambda>i. (a + size_of_order k * i, k)) [0..<n]) (a + size_of_order k * n)"
proof (induction n arbitrary: a)
  case (Suc n)
  have "map (\<lambda>i. (a + size_of_order k * i, k)) [0..<Suc n]
      = (a, k) # map (\<lambda>i. (a + size_of_order k + size_of_order k * i, k)) [0..<n]"
    by (simp add: upt_conv_Cons map_Suc_upt [symmetric] add.assoc del: upt_Suc)
  then show ?case using Suc.IH [of "a + size_of_order k"] Suc.prems by (simp add: add.assoc del: upt_Suc)
qed simp

lemma tiles_order: "tiles a cs b \<Longrightarrow> c \<in> set cs \<Longrightarrow> a + size_of_order (snd c) \<le> b"
proof (induction a cs b rule: tiles.induct)
  case (2 a c' k cs b)
  have "a + size_of_order k \<le> b" using 2(2) tiles_le [of "a + size_of_order k" cs b] by simp
  then show ?case using 2 by (cases "c = (c', k)") auto
qed simp

definition unused :: "frames \<Rightarrow> nat set \<Rightarrow> bool" where
  "unused fr R \<longleftrightarrow> (\<forall>p \<in> R. PAGE_SIZE dvd p \<longrightarrow> fr p = Unused)"

lemma idle_unused: "idle fr a k \<longleftrightarrow> size_of_order k dvd a \<and> unused fr (region a k)"
  by (simp add: idle_def unused_def)

text \<open>
  Anything that takes one idle chunk in takes in a whole range that chunks tile. The loops over
  \<^verbatim>\<open>split_to_chunks\<close> and \<^verbatim>\<open>split_to_order\<close> all have this shape.
\<close>

locale chunk_sink =
  fixes frs :: "'s \<Rightarrow> frames" and pls :: "'s \<Rightarrow> nat option \<Rightarrow> BuddySet"
    and put :: "'s \<Rightarrow> nat \<times> nat \<Rightarrow> 's rust" and fits :: "nat \<Rightarrow> bool"
  assumes put_one: "\<And>s a k. all_ok (frs s) (pls s) \<Longrightarrow> fits k \<Longrightarrow> idle (frs s) a k \<Longrightarrow> region a k \<inter> all_free (pls s) = {}
      \<Longrightarrow> \<exists>s'. put s (a, k) = Return s' \<and> added (region a k) (frs s) (pls s) (frs s') (pls s')"
begin

lemma put_tiles:
  assumes "tiles a cs b" "all_ok (frs s) (pls s)" "{a..<b} \<inter> all_free (pls s) = {}" "unused (frs s) {a..<b}"
    and "\<forall>c \<in> set cs. fits (snd c)"
  shows "\<exists>s'. for_each put cs s = Return s' \<and> added {a..<b} (frs s) (pls s) (frs s') (pls s')"
  using assms
proof (induction cs arbitrary: a s)
  case Nil
  then show ?case by (simp add: added_def)
next
  case (Cons c cs)
  obtain k where c: "c = (a, k)" and al: "size_of_order k dvd a" and t: "tiles (a + size_of_order k) cs b"
    using Cons.prems(1) by (cases c) auto
  let ?b = "a + size_of_order k"
  have sp: "{a..<b} = region a k \<union> {?b..<b}" "region a k \<inter> {?b..<b} = {}"
    using tiles_le [OF t] by (auto simp: region_def)
  have i: "fits k" "idle (frs s) a k" "region a k \<inter> all_free (pls s) = {}"
    using Cons.prems(3-5) al unfolding sp(1) by (auto simp: c idle_unused unused_def)
  obtain s1 where s1: "put s (a, k) = Return s1" "added (region a k) (frs s) (pls s) (frs s1) (pls s1)"
    using put_one [OF Cons.prems(2) i] by blast
  have ok1: "all_ok (frs s1) (pls s1)" and f1: "all_free (pls s1) = all_free (pls s) \<union> region a k"
    and fr1: "\<forall>p. p \<notin> all_free (pls s) \<union> region a k \<longrightarrow> frs s1 p = frs s p"
    using s1(2) by (simp_all add: added_def)
  have d1: "{?b..<b} \<inter> all_free (pls s1) = {}" using Cons.prems(3) sp unfolding f1 by blast
  then have "frs s1 p = frs s p" if "p \<in> {?b..<b}" for p using that fr1 unfolding f1 by blast
  then have "unused (frs s1) {?b..<b}" using Cons.prems(4) unfolding sp(1) by (simp add: unused_def)
  then obtain s' where "for_each put cs s1 = Return s'" "added {?b..<b} (frs s1) (pls s1) (frs s') (pls s')"
    using Cons.IH [OF t ok1 d1] Cons.prems(5) by auto
  then show ?case using added_trans [OF s1(2)] by (simp add: c s1(1) sp(1))
qed

end

interpretation one_set: chunk_sink fst "\<lambda>s. P(v := snd s)" put_chunk "\<lambda>k. k < cap v" for P v
proof
  fix s :: "frames \<times> BuddySet" and a k
  let ?P = "P(v := snd s)"
  assume "all_ok (fst s) ?P" "k < cap v" "idle (fst s) a k" "region a k \<inter> all_free ?P = {}"
  then obtain fr' bs where "insert_chunk (fst s) (?P v) a k = Return (fr', bs)"
    "added (region a k) (fst s) ?P fr' (?P(v := bs))"
    by (rule all_ok_insert [where w = v]) blast
  then show "\<exists>s'. put_chunk s (a, k) = Return s' \<and> added (region a k) (fst s) ?P (fst s') (P(v := snd s'))"
    by (simp add: put_chunk_def)
qed

lemma global_insert_added:
  assumes "pools_ok ps" "k < MAX_BUDDY_ORDER" "idle (meta ps) a k" "region a k \<inter> free_mem ps = {}"
  shows "\<exists>ps'. global_insert ps (a, k) = Return ps' \<and> added (region a k) (meta ps) (pool ps) (meta ps') (pool ps')"
proof -
  obtain fr' bs where "insert_chunk (meta ps) (global_pool ps) a k = Return (fr', bs)"
    "added (region a k) (meta ps) (pool ps) fr' ((pool ps)(None := bs))"
    using assms(2) by - (rule all_ok_insert [OF assms(1) _ assms(3,4), of None], simp_all add: MAX_BUDDY_ORDER_def)
  then show ?thesis by (simp add: global_insert_def)
qed

lemma local_insert_added:
  assumes "pools_ok ps" "k < MAX_LOCAL_BUDDY_ORDER" "idle (meta ps) a k" "region a k \<inter> free_mem ps = {}"
  shows "\<exists>ps'. local_insert cpu ps (a, k) = Return ps' \<and> added (region a k) (meta ps) (pool ps) (meta ps') (pool ps')"
proof -
  obtain fr' bs where "insert_chunk (meta ps) (local_pools ps cpu) a k = Return (fr', bs)"
    "added (region a k) (meta ps) (pool ps) fr' ((pool ps)(Some cpu := bs))"
    using assms(2) by - (rule all_ok_insert [OF assms(1) _ assms(3,4), of "Some cpu"], simp_all add: MAX_LOCAL_BUDDY_ORDER_def)
  then show ?thesis by (simp add: local_insert_def)
qed

interpretation global_set: chunk_sink meta pool global_insert "\<lambda>k. k < MAX_BUDDY_ORDER"
  by unfold_locales (rule global_insert_added)

interpretation both_sets: chunk_sink meta pool
  "\<lambda>ps c. if snd c \<ge> MAX_LOCAL_BUDDY_ORDER then global_insert ps c else local_insert cpu ps c" "\<lambda>k. k < MAX_BUDDY_ORDER" for cpu
  by unfold_locales (use global_insert_added local_insert_added [of _ _ _ cpu] in \<open>simp add: not_le\<close>)

section \<open>Balancing keeps the free memory\<close>

lemma finite_avail:
  assumes "set_ok fr bs"
  shows "finite (avail bs)"
proof -
  have "chunks (lists bs) \<subseteq> (\<Union>i < max_order bs. (\<lambda>a. (a, i)) ` set (lists bs i))"
    using assms lists_okD(1) [of fr "max_order bs" "lists bs"] unfolding set_ok_def chunks_def by auto
  then have "finite (chunks (lists bs))" by (rule finite_subset) simp
  then show ?thesis by (auto simp: avail_def free_in_def region_def)
qed

lemma total_size_card:
  assumes "set_ok fr bs"
  shows "total_size bs = card (avail bs)"
proof -
  let ?I = "SIGMA i : {..<max_order bs}. set (lists bs i)"
  have ok: "lists_ok fr (max_order bs) (lists bs)" using assms by (simp add: set_ok_def)
  have "avail bs = (\<Union>(i, a) \<in> ?I. region a i)"
    using lists_okD(1) [OF ok] unfolding avail_def free_in_def chunks_def by auto
  also have "card \<dots> = (\<Sum>(i, a) \<in> ?I. card (region a i))"
  proof (subst card_UN_disjoint)
    show "\<forall>x \<in> ?I. \<forall>y \<in> ?I. x \<noteq> y \<longrightarrow> (case x of (i, a) \<Rightarrow> region a i) \<inter> (case y of (i, a) \<Rightarrow> region a i) = {}"
    proof (intro ballI impI)
      fix x y assume "x \<in> ?I" "y \<in> ?I" "x \<noteq> y"
      then show "(case x of (i, a) \<Rightarrow> region a i) \<inter> (case y of (i, a) \<Rightarrow> region a i) = {}"
        using lists_okD(4) [OF ok, of "snd x" "fst x" "snd y" "fst y"] by (auto simp: split_beta prod_eq_iff)
    qed
  qed (auto simp: region_def intro!: sum.cong)
  also have "\<dots> = (\<Sum>i < max_order bs. \<Sum>a \<in> set (lists bs i). size_of_order i)"
    by (subst sum.Sigma) (auto simp: region_def)
  also have "\<dots> = weight (max_order bs) (lists bs)"
    using lists_okD(3) [OF ok] by (simp add: weight_def distinct_card)
  finally show ?thesis using assms by (simp add: set_ok_def)
qed

lemma total_size_page: "set_ok fr bs \<Longrightarrow> PAGE_SIZE dvd total_size bs"
  by (auto simp: set_ok_def weight_def size_of_order_def intro!: dvd_sum)

text \<open>Taking a block from one pool and adding it to another.\<close>

lemma moved_added:
  assumes "all_free P = all_free P1 \<union> R" "\<forall>p. p \<notin> all_free P \<longrightarrow> fr1 p = fr p" "added R fr1 P1 fr2 P2"
  shows "added {} fr P fr2 P2"
  using assms unfolding added_def by auto

definition moved :: "frames \<Rightarrow> (nat option \<Rightarrow> BuddySet) \<Rightarrow> nat option \<Rightarrow> nat option \<Rightarrow> nat \<Rightarrow> frames \<Rightarrow> BuddySet \<Rightarrow> BuddySet \<Rightarrow> bool" where
  "moved fr P w v n fr' a b \<longleftrightarrow> added {} fr P fr' (P(w := a, v := b))
     \<and> avail (P v) \<subseteq> avail b \<and> avail a \<union> avail b = avail (P w) \<union> avail (P v)
     \<and> card (avail b) \<le> card (avail (P v)) + n"

lemma moved_trans:
  assumes "moved fr P w v n fr1 a1 b1" "moved fr1 (P(w := a1, v := b1)) w v m fr2 a2 b2" "w \<noteq> v"
  shows "moved fr P w v (n + m) fr2 a2 b2"
proof -
  have "P(w := a1, v := b1, w := a2, v := b2) = P(w := a2, v := b2)" using assms(3) by (auto simp: fun_eq_iff)
  then show ?thesis using assms added_trans [of "{}" fr P fr1 "P(w := a1, v := b1)" "{}" fr2 "P(w := a2, v := b2)"]
    unfolding moved_def by auto
qed

lemma split_to_order_tiles:
  assumes "size_of_order order dvd addr" "k \<le> order"
  obtains addrs where "split_to_order addr order k = Return addrs"
    "tiles addr (map (\<lambda>a. (a, k)) addrs) (addr + size_of_order order)"
proof
  show "split_to_order addr order k = Return (map (\<lambda>i. addr + size_of_order k * i) [0..<2 ^ (order - k)])"
    using assms(1) by (auto simp: split_to_order_def)
  have "size_of_order k dvd addr" using size_of_order_dvd [OF assms(2)] assms(1) by (rule dvd_trans)
  moreover have "size_of_order k * 2 ^ (order - k) = size_of_order order"
    using assms(2) by (simp add: size_of_order_def power_add [symmetric])
  ultimately show "tiles addr (map (\<lambda>a. (a, k)) (map (\<lambda>i. addr + size_of_order k * i) [0..<2 ^ (order - k)])) (addr + size_of_order order)"
    using tiles_equal [of k addr "2 ^ (order - k)"] by (simp add: comp_def)
qed

lemma balance_some:
  assumes "all_ok fr P" "w \<noteq> v" "alloc_chunk fr (P w) order = Return (Some addr, fr1, a)"
    "all_ok fr1 (P(w := a))" "idle fr1 addr order" "region addr order \<inter> all_free (P(w := a)) = {}"
    "all_free P = all_free (P(w := a)) \<union> region addr order" "\<forall>p. p \<notin> all_free P \<longrightarrow> fr1 p = fr p"
    "avail (P w) = region addr order \<union> avail a"
  shows "\<exists>fr' b. balance_to fr (P w) (P v) order = Return (fr', a, b) \<and> moved fr P w v (size_of_order order) fr' a b"
proof -
  let ?P = "P(w := a)"
  have v: "?P v = P v" and P: "?P(v := P v) = ?P" using assms(2) by auto
  have m: "max_order (P v) = cap v" using all_okD(2) [OF assms(1)] .
  have "\<exists>fr' b. balance_to fr (P w) (P v) order = Return (fr', a, b) \<and> added (region addr order) fr1 ?P fr' (?P(v := b))"
  proof (cases "order \<ge> cap v")
    case True
    let ?k = "cap v - 1"
    have k: "?k \<le> order" "?k < cap v" using True cap_pos(1) [of v] by simp_all
    have "size_of_order order dvd addr" using assms(5) by (simp add: idle_def)
    then obtain addrs where s: "split_to_order addr order ?k = Return addrs"
      "tiles addr (map (\<lambda>a. (a, ?k)) addrs) (addr + size_of_order order)"
      using k(1) by (rule split_to_order_tiles)
    have "\<exists>s'. for_each put_chunk (map (\<lambda>a. (a, ?k)) addrs) (fr1, P v) = Return s'
        \<and> added {addr..<addr + size_of_order order} fr1 ?P (fst s') (?P(v := snd s'))"
      using one_set.put_tiles [OF s(2), where s = "(fr1, P v)" and P = "P(w := a)" and v = v] assms(4-6) k(2)
      unfolding P by (simp add: P region_def idle_unused)
    then show ?thesis using True s(1) by (subst balance_to.simps) (auto simp: assms(3) m region_def Let_def)
  next
    case False
    then obtain fr' b where "insert_chunk fr1 (?P v) addr order = Return (fr', b)"
      "added (region addr order) fr1 ?P fr' (?P(v := b))"
      using assms(4-6) by - (rule all_ok_insert [of fr1 ?P order v addr], simp_all)
    then show ?thesis using False unfolding v by (subst balance_to.simps) (simp add: assms(3) m)
  qed
  then obtain fr' b where b: "balance_to fr (P w) (P v) order = Return (fr', a, b)"
    "added (region addr order) fr1 ?P fr' (?P(v := b))" by blast
  have av: "avail b = avail (P v) \<union> region addr order" using added_avail [OF assms(4) b(2) assms(6)] unfolding v .
  have "card (avail b) \<le> card (avail (P v)) + size_of_order order"
    unfolding av using card_Un_le [of "avail (P v)" "region addr order"] by (simp add: region_def)
  then show ?thesis using b(1) moved_added [OF assms(7,8) b(2)] assms(9) av unfolding moved_def by blast
qed

lemma balance_to_spec:
  assumes "all_ok fr P" "w \<noteq> v"
  shows "\<exists>fr' a b. balance_to fr (P w) (P v) order = Return (fr', a, b) \<and> moved fr P w v (size_of_order order) fr' a b"
  using assms
proof (induction order arbitrary: fr P rule: less_induct)
  case (less order)
  from less.prems(1) show ?case
  proof (cases rule: all_ok_alloc [of fr P w order])
    case (some addr fr1 a)
    then show ?thesis using balance_some [OF less.prems some(1,3,4,6,5,7,8)] by blast
  next
    case none
    have none': "P(w := P w, v := P v) = P" by simp
    show ?thesis
    proof (cases "order > 1")
      case False
      then have "balance_to fr (P w) (P v) order = Return (fr, P w, P v)"
        by (subst balance_to.simps) (simp add: none(1))
      moreover have "moved fr P w v (size_of_order order) fr (P w) (P v)"
        using less.prems(1) unfolding moved_def none' added_def by simp
      ultimately show ?thesis by blast
    next
      case True
      have lt: "order - 1 < order" using True by simp
      obtain fr1 a1 b1 where 1: "balance_to fr (P w) (P v) (order - 1) = Return (fr1, a1, b1)"
        "moved fr P w v (size_of_order (order - 1)) fr1 a1 b1"
        using less.IH [OF lt less.prems] by blast
      let ?P = "P(w := a1, v := b1)"
      have ok1: "all_ok fr1 ?P" using 1(2) by (simp add: moved_def added_def)
      obtain fr2 a2 b2 where 2: "balance_to fr1 (?P w) (?P v) (order - 1) = Return (fr2, a2, b2)"
        "moved fr1 ?P w v (size_of_order (order - 1)) fr2 a2 b2"
        using less.IH [OF lt ok1 less.prems(2)] by blast
      have "balance_to fr (P w) (P v) order = Return (fr2, a2, b2)"
        using True 1(1) 2(1) less.prems(2) by (subst balance_to.simps) (simp add: none(1))
      moreover have "size_of_order (order - 1) + size_of_order (order - 1) = size_of_order order"
        using True size_of_order_Suc [of "order - 1"] by simp
      then have "moved fr P w v (size_of_order order) fr2 a2 b2" using moved_trans [OF 1(2) 2(2) less.prems(2)] by simp
      ultimately show ?thesis by blast
    qed
  qed
qed

lemma moved_sizes:
  assumes "all_ok fr P" "w \<noteq> v" "moved fr P w v n fr' a b"
  shows "total_size a + total_size b = total_size (P w) + total_size (P v)"
    "total_size (P v) \<le> total_size b" "total_size b \<le> total_size (P v) + n"
proof -
  have ok: "all_ok fr' (P(w := a, v := b))" using assms(3) by (simp add: moved_def added_def)
  have set: "set_ok fr' a" "set_ok fr' b" "avail a \<inter> avail b = {}"
    using all_okD(1) [OF ok, of w] all_okD(1) [OF ok, of v] all_okD(3) [OF ok, of w v] assms(2) by simp_all
  have old: "set_ok fr (P w)" "set_ok fr (P v)" "avail (P w) \<inter> avail (P v) = {}"
    using all_okD [OF assms(1)] assms(2) by blast+
  note card = total_size_card [OF set(1)] total_size_card [OF set(2)] total_size_card [OF old(1)] total_size_card [OF old(2)]
  note fin = finite_avail [OF set(1)] finite_avail [OF set(2)] finite_avail [OF old(1)] finite_avail [OF old(2)]
  have u: "avail a \<union> avail b = avail (P w) \<union> avail (P v)" and sub: "avail (P v) \<subseteq> avail b"
    and le: "card (avail b) \<le> card (avail (P v)) + n" using assms(3) by (simp_all add: moved_def)
  show "total_size a + total_size b = total_size (P w) + total_size (P v)"
    unfolding card using card_Un_disjoint [OF fin(1,2) set(3)] card_Un_disjoint [OF fin(3,4) old(3)] u by simp
  show "total_size (P v) \<le> total_size b" unfolding card using fin(2) sub by (rule card_mono)
  show "total_size b \<le> total_size (P v) + n" unfolding card by (rule le)
qed

lemma lesser_order_of_cases:
  obtains "s < PAGE_SIZE" "lesser_order_of s = Panic"
  | lo where "PAGE_SIZE \<le> s" "lesser_order_of s = Return lo" "size_of_order lo \<le> s"
proof (cases "s < PAGE_SIZE")
  case True
  then show thesis by (intro that(1)) (simp_all add: lesser_order_of_def)
next
  case False
  then have "s div PAGE_SIZE \<noteq> 0" by (simp add: div_eq_0_iff)
  then obtain lo where lo: "lesser_order_of s = Return lo" by (simp add: lesser_order_of_def Let_def)
  then show thesis using False lesser_order_of_iff [OF lo, of lo] by (intro that(2) [of lo]) simp_all
qed

text \<open>
  The sizes at which the amount to move is below one page, for which \<^verbatim>\<open>lesser_order_of\<close> has no
  answer: the local pool has one page, or none, and the global pool is small.
\<close>

definition low_memory :: "nat \<Rightarrow> nat \<Rightarrow> Pools \<Rightarrow> bool" where
  "low_memory num_cpus cpu ps \<longleftrightarrow>
     (let e = cache_expected_size num_cpus (get_global_size ps); l = total_size (local_pools ps cpu)
      in (l = PAGE_SIZE \<and> 0 < e \<and> 2 * e \<le> PAGE_SIZE) \<or> (l = 0 \<and> 8 \<le> e \<and> e < PAGE_SIZE))"

definition toward :: "nat \<Rightarrow> nat \<Rightarrow> nat \<Rightarrow> bool" where
  "toward e l l' \<longleftrightarrow> (if 2 * e \<le> l then e \<le> l' \<and> l' \<le> l else if l < e div 8 then l \<le> l' \<and> l' \<le> e else l' = l)"

lemma page_multiple_small:
  assumes "PAGE_SIZE dvd l" "0 < l" "2 * e \<le> l"
  shows "l - e < PAGE_SIZE \<longleftrightarrow> l = PAGE_SIZE \<and> 0 < e"
proof
  assume "l - e < PAGE_SIZE"
  then have "l < 2 * PAGE_SIZE" using assms(3) by simp
  moreover obtain k where k: "l = PAGE_SIZE * k" using assms(1) by blast
  ultimately have "k < 2" "0 < k" using assms(2) by (simp_all add: mult.commute [of 2])
  then have "k = 1" by simp
  then have "l = PAGE_SIZE" using k by simp
  then show "l = PAGE_SIZE \<and> 0 < e" using \<open>l - e < PAGE_SIZE\<close> by (cases e) auto
qed (use assms in auto)

lemma page_multiple_refill:
  assumes "PAGE_SIZE dvd l" "l < e div 8"
  shows "e - l < PAGE_SIZE \<longleftrightarrow> l = 0 \<and> e < PAGE_SIZE"
proof
  assume a: "e - l < PAGE_SIZE"
  have "8 * l < e" using assms(2) by linarith
  then have "7 * l < PAGE_SIZE" using a by simp
  then have "l = 0" using assms(1) by (auto elim!: dvdE)
  then show "l = 0 \<and> e < PAGE_SIZE" using a by simp
qed simp

definition balanced :: "nat \<Rightarrow> Pools \<Rightarrow> Pools \<Rightarrow> bool" where
  "balanced cpu ps ps' \<longleftrightarrow> pools_ok ps' \<and> free_mem ps' = free_mem ps
     \<and> (\<forall>p. p \<notin> free_mem ps \<longrightarrow> meta ps' p = meta ps p)
     \<and> (\<forall>c. c \<noteq> cpu \<longrightarrow> local_pools ps' c = local_pools ps c)"

lemma moved_balanced:
  assumes "moved (meta ps) (pool ps) w v n fr a b" "pool ps' = (pool ps)(w := a, v := b)" "meta ps' = fr" "{w, v} = {None, Some cpu}"
  shows "balanced cpu ps ps'"
proof -
  have "local_pools ps' c = local_pools ps c" if "c \<noteq> cpu" for c
  proof -
    have "Some c \<noteq> w" "Some c \<noteq> v" using assms(4) that by (auto simp: doubleton_eq_iff)
    then show ?thesis using fun_cong [OF assms(2), of "Some c"] by simp
  qed
  then show ?thesis using assms(1-3) by (simp add: balanced_def moved_def added_def)
qed

lemma balance_shrink:
  assumes ok: "pools_ok ps" and e: "e = cache_expected_size num_cpus (get_global_size ps)"
    and l: "l = total_size (local_pools ps cpu)" "2 * e \<le> l" "l \<noteq> 0" "PAGE_SIZE dvd l"
  shows "if low_memory num_cpus cpu ps then balance num_cpus cpu ps = Panic
    else \<exists>ps'. balance num_cpus cpu ps = Return ps' \<and> balanced cpu ps ps' \<and> toward e l (total_size (local_pools ps' cpu))"
proof -
  have low: "low_memory num_cpus cpu ps \<longleftrightarrow> l - e < PAGE_SIZE"
    using page_multiple_small [OF l(4) _ l(2)] l(2,3) by (auto simp: low_memory_def Let_def e l(1))
  have b: "balance num_cpus cpu ps = rust_bind (lesser_order_of (l - e)) (\<lambda>lo.
      rust_bind (balance_to (meta ps) (local_pools ps cpu) (global_pool ps) lo) (\<lambda>(fr, l, g).
        Return ((guard_get ps)\<lparr>meta := fr, local_pools := (local_pools ps)(cpu := l), global_pool := g\<rparr>)))"
    using l(2,3) by (simp add: balance_def Let_def cache_maximal_size_def e l(1) mult.commute)
  show ?thesis
  proof (cases rule: lesser_order_of_cases [of "l - e"])
    case 1
    then show ?thesis using low b by simp
  next
    case (2 lo)
    obtain fr l' g where m: "balance_to (meta ps) (local_pools ps cpu) (global_pool ps) lo = Return (fr, l', g)"
      "moved (meta ps) (pool ps) (Some cpu) None (size_of_order lo) fr l' g"
      using balance_to_spec [OF ok, of "Some cpu" None lo] by auto
    let ?ps = "(guard_get ps)\<lparr>meta := fr, local_pools := (local_pools ps)(cpu := l'), global_pool := g\<rparr>"
    have "balance num_cpus cpu ps = Return ?ps" using b 2(2) m(1) by simp
    moreover have "balanced cpu ps ?ps" using m(2) by (rule moved_balanced) auto
    moreover have "toward e l (total_size l')"
      using moved_sizes [OF ok _ m(2)] 2(3) l(1,2) by (simp add: toward_def)
    ultimately show ?thesis using low 2(1) by simp
  qed
qed

lemma balance_grow:
  assumes ok: "pools_ok ps" and e: "e = cache_expected_size num_cpus (get_global_size ps)"
    and l: "l = total_size (local_pools ps cpu)" "l < e div 8" "PAGE_SIZE dvd l"
  shows "if low_memory num_cpus cpu ps then balance num_cpus cpu ps = Panic
    else \<exists>ps'. balance num_cpus cpu ps = Return ps' \<and> balanced cpu ps ps' \<and> toward e l (total_size (local_pools ps' cpu))"
proof -
  have le: "\<not> 2 * e \<le> l" "0 < e" using l(2) by linarith+
  have g: "get_global_size ps \<noteq> 0" using e le(2) by (auto simp: cache_expected_size_def intro: ccontr)
  have low: "low_memory num_cpus cpu ps \<longleftrightarrow> e - l < PAGE_SIZE"
    using page_multiple_refill [OF l(3,2)] le l(2) by (auto simp: low_memory_def Let_def e l(1))
  have b: "balance num_cpus cpu ps = rust_bind (lesser_order_of (e - l)) (\<lambda>lo.
      rust_bind (balance_to (meta ps) (global_pool ps) (local_pools ps cpu) lo) (\<lambda>(fr, g, l).
        Return ((guard_get ps)\<lparr>meta := fr, local_pools := (local_pools ps)(cpu := l), global_pool := g\<rparr>)))"
    using l(2) le g by (simp add: balance_def Let_def cache_minimal_size_def cache_maximal_size_def e l(1) mult.commute)
  show ?thesis
  proof (cases rule: lesser_order_of_cases [of "e - l"])
    case 1
    then show ?thesis using low b by simp
  next
    case (2 lo)
    obtain fr l' g where m: "balance_to (meta ps) (global_pool ps) (local_pools ps cpu) lo = Return (fr, g, l')"
      "moved (meta ps) (pool ps) None (Some cpu) (size_of_order lo) fr g l'"
      using balance_to_spec [OF ok, of None "Some cpu" lo] by auto
    let ?ps = "(guard_get ps)\<lparr>meta := fr, local_pools := (local_pools ps)(cpu := l'), global_pool := g\<rparr>"
    have "balance num_cpus cpu ps = Return ?ps" using b 2(2) m(1) by simp
    moreover have "balanced cpu ps ?ps" using m(2) by (rule moved_balanced) (auto simp: fun_upd_twist)
    moreover have "toward e l (total_size l')"
      using moved_sizes [OF ok _ m(2)] 2(3) l(1,2) le by (simp add: toward_def)
    ultimately show ?thesis using low 2(1) by simp
  qed
qed

lemma balance_spec:
  assumes "pools_ok ps" "e = cache_expected_size num_cpus (get_global_size ps)"
  shows "if low_memory num_cpus cpu ps then balance num_cpus cpu ps = Panic
    else \<exists>ps'. balance num_cpus cpu ps = Return ps' \<and> balanced cpu ps ps'
      \<and> toward e (total_size (local_pools ps cpu)) (total_size (local_pools ps' cpu))"
proof -
  let ?l = "total_size (local_pools ps cpu)"
  have page: "PAGE_SIZE dvd ?l" using total_size_page [OF all_okD(1) [OF assms(1), of "Some cpu"]] by simp
  consider (shrink) "2 * e \<le> ?l" "?l \<noteq> 0" | (grow) "?l < e div 8"
    | (keep) "2 * e \<le> ?l \<longrightarrow> ?l = 0" "\<not> ?l < e div 8" by linarith
  then show ?thesis
  proof cases
    case keep
    moreover have "balanced cpu ps ps" using assms(1) by (simp add: balanced_def)
    ultimately show ?thesis
      by (auto simp: balance_def Let_def cache_minimal_size_def cache_maximal_size_def low_memory_def toward_def assms(2))
  qed (use balance_shrink [OF assms refl _ _ page] balance_grow [OF assms refl _ page] in blast)+
qed

section \<open>Allocation and deallocation on the pools\<close>

lemma split_to_chunks_tiles:
  assumes "PAGE_SIZE dvd addr" "PAGE_SIZE dvd s" "addr + s \<le> 2 ^ 64" "s < size_of_order MAX_BUDDY_ORDER"
  obtains cs where "split_to_chunks addr s = Return cs" "tiles addr cs (addr + s)" "\<forall>c \<in> set cs. snd c < MAX_BUDDY_ORDER"
proof -
  obtain cs where cs: "split_to_chunks addr s = Return cs" "tiles addr cs (addr + s)"
    using split_chunks_spec [OF assms(1-3)] assms(1,2) by (auto simp: split_to_chunks_def)
  have "snd c < MAX_BUDDY_ORDER" if "c \<in> set cs" for c
    using tiles_order [OF cs(2) that] assms(4) size_of_order_mono [of MAX_BUDDY_ORDER "snd c"] by linarith
  then show thesis using that [OF cs] by blast
qed

text \<open>A segment that can be given back: page-aligned, unused, and not free already.\<close>

definition segment_ok :: "Pools \<Rightarrow> nat \<times> nat \<Rightarrow> bool" where
  "segment_ok ps = (\<lambda>(addr, s). PAGE_SIZE dvd addr \<and> PAGE_SIZE dvd s \<and> addr + s \<le> 2 ^ 64 \<and> s < size_of_order MAX_BUDDY_ORDER
     \<and> {addr..<addr + s} \<inter> free_mem ps = {} \<and> unused (meta ps) {addr..<addr + s})"

lemma dealloc_segment_spec:
  assumes "pools_ok ps" "segment_ok ps (addr, s)"
  obtains ps' where "dealloc_segment cpu ps (addr, s) = Return ps'"
    "added {addr..<addr + s} (meta ps) (pool ps) (meta ps') (pool ps')"
proof -
  obtain cs where cs: "split_to_chunks addr s = Return cs" "tiles addr cs (addr + s)" "\<forall>c \<in> set cs. snd c < MAX_BUDDY_ORDER"
    using assms(2) split_to_chunks_tiles [of addr s] by (auto simp: segment_ok_def)
  have "{addr..<addr + s} \<inter> free_mem ps = {}" "unused (meta ps) {addr..<addr + s}"
    using assms(2) by (simp_all add: segment_ok_def)
  then show thesis using both_sets.put_tiles [OF cs(2) assms(1) _ _ cs(3), of cpu] cs(1) that
    by (auto simp: dealloc_segment_def)
qed

definition seg :: "nat \<times> nat \<Rightarrow> nat set" where
  "seg = (\<lambda>(addr, s). {addr..<addr + s})"

definition span :: "(nat \<times> nat) list \<Rightarrow> nat set" where
  "span segs = (\<Union>x \<in> set segs. seg x)"

lemma span_simps [simp]:
  "span [] = {}" "span (x # xs) = seg x \<union> span xs" "span (xs @ ys) = span xs \<union> span ys" "span (rev xs) = span xs"
  by (simp_all add: span_def)

lemma seg_span: "x \<in> set xs \<Longrightarrow> seg x \<subseteq> span xs"
  by (auto simp: span_def)

definition segments_ok :: "Pools \<Rightarrow> (nat \<times> nat) list \<Rightarrow> bool" where
  "segments_ok ps segs \<longleftrightarrow> (\<forall>x \<in> set segs. segment_ok ps x) \<and> sorted_wrt (\<lambda>x y. seg x \<inter> seg y = {}) segs"

lemma segment_ok_added:
  assumes "segment_ok ps x" "added R (meta ps) (pool ps) (meta ps') (pool ps')" "seg x \<inter> R = {}"
  shows "segment_ok ps' x"
proof -
  obtain a s where x: "x = (a, s)" by (cases x)
  have d: "seg x \<inter> free_mem ps = {}" and u: "unused (meta ps) (seg x)"
    using assms(1) by (simp_all add: segment_ok_def seg_def x)
  have "seg x \<inter> free_mem ps' = {}" using assms(2,3) d unfolding added_def by blast
  moreover have "meta ps' p = meta ps p" if "p \<in> seg x" for p
    using assms(2,3) d that unfolding added_def by blast
  then have "unused (meta ps') (seg x)" using u by (simp add: unused_def)
  ultimately show ?thesis using assms(1) by (simp add: segment_ok_def seg_def x)
qed

lemma do_dealloc_spec:
  assumes "pools_ok ps" "segments_ok ps segs"
  shows "\<exists>ps'. do_dealloc cpu ps segs = Return ps' \<and> added (span segs) (meta ps) (pool ps) (meta ps') (pool ps')"
  using assms
proof (induction segs arbitrary: ps)
  case Nil
  then show ?case by (simp add: do_dealloc_def added_def)
next
  case (Cons x segs)
  obtain a s where x: "x = (a, s)" by (cases x)
  have "segment_ok ps (a, s)" using Cons.prems(2) by (simp add: segments_ok_def x)
  with Cons.prems(1) obtain ps1 where 1: "dealloc_segment cpu ps (a, s) = Return ps1"
    "added {a..<a + s} (meta ps) (pool ps) (meta ps1) (pool ps1)" by (rule dealloc_segment_spec)
  have "segment_ok ps1 y" if "y \<in> set segs" for y
    using Cons.prems(2) that by (intro segment_ok_added [OF _ 1(2)]) (auto simp: segments_ok_def seg_def x)
  then have "segments_ok ps1 segs" using Cons.prems(2) by (simp add: segments_ok_def)
  moreover have "pools_ok ps1" using 1(2) by (simp add: added_def)
  ultimately obtain ps2 where "do_dealloc cpu ps1 segs = Return ps2"
    "added (span segs) (meta ps1) (pool ps1) (meta ps2) (pool ps2)" using Cons.IH by blast
  then show ?case using added_trans [OF 1(2)] 1(1) by (simp add: do_dealloc_def x seg_def)
qed

text \<open>Memory that an operation has taken out of the pools.\<close>

definition taken :: "nat set \<Rightarrow> Pools \<Rightarrow> Pools \<Rightarrow> bool" where
  "taken R ps ps' \<longleftrightarrow> pools_ok ps' \<and> R \<subseteq> free_mem ps \<and> free_mem ps' = free_mem ps - R
     \<and> unused (meta ps') R \<and> (\<forall>p. p \<notin> free_mem ps \<longrightarrow> meta ps' p = meta ps p)"

definition block_in :: "BuddySet \<Rightarrow> nat \<Rightarrow> bool" where
  "block_in bs order \<longleftrightarrow> order < max_order bs \<and> (\<exists>a. size_of_order order dvd a \<and> region a order \<subseteq> avail bs)"

lemma alloc_taken:
  assumes "pools_ok ps"
  obtains (none) "alloc_chunk (meta ps) (pool ps w) order = Return (None, meta ps, pool ps w)" "\<not> block_in (pool ps w) order"
  | (some) a fr bs where "alloc_chunk (meta ps) (pool ps w) order = Return (Some a, fr, bs)" "order < MAX_BUDDY_ORDER"
      "size_of_order order dvd a" "\<forall>ps'. meta ps' = fr \<longrightarrow> pool ps' = (pool ps)(w := bs) \<longrightarrow> taken (region a order) ps ps'"
proof (cases rule: all_ok_alloc [OF assms, of w order])
  case 1
  then show thesis using none all_okD(2) [OF assms, of w] by (auto simp: block_in_def)
next
  case (2 a fr bs)
  have "cap w \<le> MAX_BUDDY_ORDER" by (simp add: cap_def MAX_BUDDY_ORDER_def MAX_LOCAL_BUDDY_ORDER_def split: option.split)
  moreover have "free_mem ps - region a order = all_free ((pool ps)(w := bs))" using 2(5,6) by blast
  ultimately show thesis using 2 by (intro some) (auto simp: idle_unused taken_def)
qed

lemma local_alloc_taken:
  assumes "pools_ok ps"
  obtains (none) "local_alloc cpu ps order = Return (None, ps)" "\<not> block_in (local_pools ps cpu) order"
  | (some) a ps' where "local_alloc cpu ps order = Return (Some a, ps')" "order < MAX_BUDDY_ORDER"
      "size_of_order order dvd a" "taken (region a order) ps ps'"
  by (cases rule: alloc_taken [OF assms, of "Some cpu" order]) (auto simp: local_alloc_def intro: that)

lemma global_alloc_taken:
  assumes "pools_ok ps"
  obtains (none) "global_alloc ps order = Return (None, guard_get ps)" "\<not> block_in (global_pool ps) order"
  | (some) a ps' where "global_alloc ps order = Return (Some a, ps')" "order < MAX_BUDDY_ORDER"
      "size_of_order order dvd a" "taken (region a order) ps ps'"
proof (cases rule: alloc_taken [OF assms, of None order])
  case 1
  moreover have "(guard_get ps)\<lparr>meta := meta ps, global_pool := global_pool ps\<rparr> = guard_get ps" by (simp add: guard_get_def)
  ultimately show thesis by (intro none) (simp_all add: global_alloc_def)
next
  case (2 a fr bs)
  have "taken (region a order) ps ((guard_get ps)\<lparr>meta := fr, global_pool := bs\<rparr>)"
    using 2(4) [rule_format] by simp
  with 2(1-3) show thesis by (intro some) (simp_all add: global_alloc_def)
qed

text \<open>Giving back the part of a chunk that exceeds the layout.\<close>

lemma give_back_tail:
  assumes "taken (region a order) ps ps1" "order < MAX_BUDDY_ORDER" "size_of_order order dvd a" "PAGE_SIZE dvd len"
    "len < size_of_order order" "free_mem ps \<subseteq> {..<2 ^ 64}"
  obtains ps2 where "do_dealloc cpu ps1 [(a + len, size_of_order order - len)] = Return ps2" "taken {a..<a + len} ps ps2"
proof -
  let ?S = "size_of_order order"
  have ok: "pools_ok ps1" and sub: "region a order \<subseteq> free_mem ps" and f: "free_mem ps1 = free_mem ps - region a order"
    and un: "unused (meta ps1) (region a order)" and same: "\<forall>p. p \<notin> free_mem ps \<longrightarrow> meta ps1 p = meta ps p"
    using assms(1) by (simp_all add: taken_def)
  have pg: "PAGE_SIZE dvd ?S" by (simp add: size_of_order_def)
  then have "PAGE_SIZE dvd a" "PAGE_SIZE dvd ?S - len" using assms(3,4) by (auto intro: dvd_trans dvd_diff_nat)
  moreover have "a + ?S - 1 \<in> region a order" using size_of_order_pos(1) [of order] unfolding region_def atLeastLessThan_iff by linarith
  then have "a + ?S - 1 \<in> free_mem ps" using sub by blast
  then have "a + ?S \<le> 2 ^ 64" using assms(6) by auto
  moreover have "?S - len < size_of_order MAX_BUDDY_ORDER"
  proof (rule less_imp_diff_less)
    show "?S < size_of_order MAX_BUDDY_ORDER" using assms(2) by (simp add: size_of_order_def power_strict_increasing)
  qed
  moreover have cut: "region a order = {a..<a + len} \<union> {a + len..<a + ?S}" using assms(5) by (auto simp: region_def)
  ultimately have "segment_ok ps1 (a + len, ?S - len)"
    using assms(4,5) f un unfolding cut by (auto simp: segment_ok_def unused_def)
  then obtain ps2 where d: "do_dealloc cpu ps1 [(a + len, ?S - len)] = Return ps2"
    "added {a + len..<a + ?S} (meta ps1) (pool ps1) (meta ps2) (pool ps2)"
    using do_dealloc_spec [OF ok, of "[(a + len, ?S - len)]" cpu] assms(5) by (auto simp: segments_ok_def seg_def)
  have "free_mem ps2 = free_mem ps - {a..<a + len}" "pools_ok ps2"
    using d(2) f sub unfolding added_def cut by auto
  moreover have same2: "meta ps2 p = meta ps1 p" if "p \<notin> free_mem ps \<or> p \<in> {a..<a + len}" for p
    using d(2) that f sub unfolding added_def cut by auto
  then have "unused (meta ps2) {a..<a + len}" using un unfolding cut by (auto simp: unused_def)
  ultimately have "taken {a..<a + len} ps ps2" using same same2 sub by (auto simp: taken_def cut)
  then show thesis using that d(1) by blast
qed

lemma size_of_order_pow: "size_of_order k = 2 ^ (k + 12)"
  by (simp add: size_of_order_def PAGE_SIZE_def power_add)

lemma greater_order_of_align:
  assumes "size_of_order (alloc_order len (2 ^ k)) dvd a"
  shows "2 ^ k dvd a"
proof -
  let ?g = "greater_order_of (2 ^ k)"
  have "k \<le> ?g + 12"
  proof (cases "12 \<le> k")
    case True
    then have "PAGE_SIZE dvd 2 ^ k" using le_imp_power_dvd [of 12 k "2 :: nat"] by (simp add: PAGE_SIZE_def)
    then have "2 ^ k \<le> size_of_order ?g" using greater_order_of_iff [of "2 ^ k" ?g] by simp
    then show ?thesis by (simp add: size_of_order_pow)
  qed simp
  also have "\<dots> \<le> alloc_order len (2 ^ k) + 12" by (simp add: alloc_order_def)
  finally have "2 ^ k dvd size_of_order (alloc_order len (2 ^ k))" unfolding size_of_order_pow by (rule le_imp_power_dvd)
  then show ?thesis using assms by (rule dvd_trans)
qed

lemma taken_pools_ok: "taken R ps ps' \<Longrightarrow> pools_ok ps'"
  by (simp add: taken_def)

lemma take_chunk_spec:
  assumes "pools_ok ps"
  obtains (none) ps' where "take_chunk cpu ps order = Return (None, ps')" "pool ps' = pool ps" "meta ps' = meta ps"
      "\<not> block_in (local_pools ps cpu) order" "\<not> block_in (global_pool ps) order"
  | (some) a ps' where "take_chunk cpu ps order = Return (Some a, ps')" "order < MAX_BUDDY_ORDER"
      "size_of_order order dvd a" "taken (region a order) ps ps'"
proof -
  have loc: "\<not> block_in (local_pools ps cpu) order" if "\<not> order < MAX_LOCAL_BUDDY_ORDER"
    using that all_okD(2) [OF assms, of "Some cpu"] by (simp add: block_in_def MAX_LOCAL_BUDDY_ORDER_def)
  have fallback: thesis if f: "take_chunk cpu ps order = global_alloc ps order" "\<not> block_in (local_pools ps cpu) order"
  proof (cases rule: global_alloc_taken [OF assms, of order])
    case 1
    then show thesis using none [of "guard_get ps"] f by simp
  next
    case (2 a ps')
    then show thesis using some [of a ps'] f(1) by simp
  qed
  show thesis
  proof (cases rule: local_alloc_taken [OF assms, of cpu order])
    case 1
    then show thesis using fallback by (simp add: take_chunk_def)
  next
    case (2 a ps')
    then show thesis using some [of a ps'] fallback loc
      by (cases "order < MAX_LOCAL_BUDDY_ORDER") (simp_all add: take_chunk_def)
  qed
qed

lemma alloc_take_spec:
  assumes "pools_ok ps" "free_mem ps \<subseteq> {..<2 ^ 64}" "PAGE_SIZE dvd len" "0 < len"
  obtains (none) ps' where "alloc_take cpu ps len (2 ^ k) = Return (None, ps')" "pool ps' = pool ps" "meta ps' = meta ps"
      "\<not> block_in (local_pools ps cpu) (alloc_order len (2 ^ k))" "\<not> block_in (global_pool ps) (alloc_order len (2 ^ k))"
  | (some) a ps' where "alloc_take cpu ps len (2 ^ k) = Return (Some a, ps')" "2 ^ k dvd a \<and> PAGE_SIZE dvd a" "taken {a..<a + len} ps ps'"
proof (cases rule: take_chunk_spec [OF assms(1), of cpu "alloc_order len (2 ^ k)"])
  case (1 ps')
  then show thesis using none [of ps'] by (simp add: alloc_take_def)
next
  case (2 a ps1)
  let ?S = "size_of_order (alloc_order len (2 ^ k))"
  have al: "2 ^ k dvd a \<and> PAGE_SIZE dvd a"
    using greater_order_of_align [OF 2(3)] 2(3) by (auto simp: size_of_order_def dest: dvd_mult_right)
  show thesis
  proof (cases "len < ?S")
    case True
    obtain ps2 where "do_dealloc cpu ps1 [(a + len, ?S - len)] = Return ps2" "taken {a..<a + len} ps ps2"
      using 2(4,2,3) assms(3) True assms(2) by (rule give_back_tail)
    then show thesis using some [of a ps2] al True 2(1) by (simp add: alloc_take_def)
  next
    case False
    moreover have "len \<le> ?S"
      using greater_order_of_iff [OF assms(3,4), of "alloc_order len (2 ^ k)"] by (simp add: alloc_order_def)
    ultimately show thesis using some [of a ps1] al 2(1,4) by (simp add: alloc_take_def region_def)
  qed
qed

lemma add_free_memory_spec:
  assumes "pools_ok ps" "segment_ok ps (addr, len)"
  obtains ps' where "add_free_memory ps addr len = Return ps'"
    "added {addr..<addr + len} (meta ps) (pool ps) (meta ps') (pool ps')"
proof -
  obtain cs where cs: "split_to_chunks addr len = Return cs" "tiles addr cs (addr + len)" "\<forall>c \<in> set cs. snd c < MAX_BUDDY_ORDER"
    using assms(2) split_to_chunks_tiles [of addr len] by (auto simp: segment_ok_def)
  have "{addr..<addr + len} \<inter> free_mem (guard_new ps) = {}" "unused (meta (guard_new ps)) {addr..<addr + len}"
    "pools_ok (guard_new ps)" using assms by (simp_all add: segment_ok_def)
  then obtain ps1 where "for_each global_insert cs (guard_new ps) = Return ps1"
    "added {addr..<addr + len} (meta ps) (pool ps) (meta ps1) (pool ps1)"
    using global_set.put_tiles [OF cs(2) _ _ _ cs(3), of "guard_new ps"] by auto
  then show thesis using that [of "guard_drop ps1"] cs(1) by (simp add: add_free_memory_def)
qed

lemma balanced_taken: "taken R ps ps1 \<Longrightarrow> balanced cpu ps1 ps2 \<Longrightarrow> taken R ps ps2"
  unfolding taken_def balanced_def unused_def by auto

lemma balanced_added:
  "added R (meta ps) (pool ps) (meta ps1) (pool ps1) \<Longrightarrow> balanced cpu ps1 ps2 \<Longrightarrow> added R (meta ps) (pool ps) (meta ps2) (pool ps2)"
  unfolding added_def balanced_def by auto

lemma taken_guard [simp]: "taken R (guard_new ps) ps' = taken R ps ps'" "taken R ps (guard_drop ps') = taken R ps ps'"
  by (simp_all add: taken_def)


text \<open>The state before any memory is added.\<close>

definition boot_pools :: Pools where
  "boot_pools = \<lparr>meta = (\<lambda>_. Unused), global_pool = new_empty MAX_BUDDY_ORDER, global_pool_size = 0,
     local_pools = (\<lambda>_. new_empty MAX_LOCAL_BUDDY_ORDER), guard_held = False\<rparr>"

lemma boot_pools_ok [simp]: "pools_ok boot_pools" "free_mem boot_pools = {}"
proof -
  have p: "pool boot_pools w = new_empty (cap w)" for w by (simp add: boot_pools_def pool_def cap_def split: option.split)
  show "pools_ok boot_pools" "free_mem boot_pools = {}" by (simp_all add: all_ok_def all_free_def p)
qed


lemma pools_alloc_spec:
  assumes "pools_ok ps" "free_mem ps \<subseteq> {..<2 ^ 64}" "PAGE_SIZE dvd len" "0 < len"
  shows "\<exists>r ps1. alloc_take cpu (guard_new ps) len (2 ^ k) = Return (r, ps1)
    \<and> (r = None \<longrightarrow> \<not> block_in (local_pools ps cpu) (alloc_order len (2 ^ k)) \<and> \<not> block_in (global_pool ps) (alloc_order len (2 ^ k)))
    \<and> (\<forall>a. r = Some a \<longrightarrow> 2 ^ k dvd a \<and> PAGE_SIZE dvd a)
    \<and> (if low_memory num_cpus cpu ps1 then pools_alloc num_cpus cpu ps len (2 ^ k) = Panic
       else \<exists>ps'. pools_alloc num_cpus cpu ps len (2 ^ k) = Return (r, ps')
         \<and> taken (case r of None \<Rightarrow> {} | Some a \<Rightarrow> {a..<a + len}) ps ps')"
proof -
  have ok: "pools_ok (guard_new ps)" "free_mem (guard_new ps) \<subseteq> {..<2 ^ 64}" using assms(1,2) by simp_all
  have "\<exists>r ps1. alloc_take cpu (guard_new ps) len (2 ^ k) = Return (r, ps1)
    \<and> (r = None \<longrightarrow> \<not> block_in (local_pools ps cpu) (alloc_order len (2 ^ k)) \<and> \<not> block_in (global_pool ps) (alloc_order len (2 ^ k)))
    \<and> (\<forall>a. r = Some a \<longrightarrow> 2 ^ k dvd a \<and> PAGE_SIZE dvd a) \<and> taken (case r of None \<Rightarrow> {} | Some a \<Rightarrow> {a..<a + len}) ps ps1"
  proof (cases rule: alloc_take_spec [OF ok assms(3,4), of cpu k])
    case (1 ps1)
    then show ?thesis using assms(1) by (simp add: taken_def unused_def)
  next
    case (2 a ps1)
    then show ?thesis by simp
  qed
  then obtain r ps1 where r: "alloc_take cpu (guard_new ps) len (2 ^ k) = Return (r, ps1)"
    "r = None \<longrightarrow> \<not> block_in (local_pools ps cpu) (alloc_order len (2 ^ k)) \<and> \<not> block_in (global_pool ps) (alloc_order len (2 ^ k))"
    "\<forall>a. r = Some a \<longrightarrow> 2 ^ k dvd a \<and> PAGE_SIZE dvd a" "taken (case r of None \<Rightarrow> {} | Some a \<Rightarrow> {a..<a + len}) ps ps1" by blast
  show ?thesis
  proof (intro exI conjI)
    show "if low_memory num_cpus cpu ps1 then pools_alloc num_cpus cpu ps len (2 ^ k) = Panic
       else \<exists>ps'. pools_alloc num_cpus cpu ps len (2 ^ k) = Return (r, ps')
         \<and> taken (case r of None \<Rightarrow> {} | Some a \<Rightarrow> {a..<a + len}) ps ps'"
      using balance_spec [OF taken_pools_ok [OF r(4)] refl, of num_cpus cpu] balanced_taken [OF r(4)]
      by (auto simp: pools_alloc_def r(1) split: if_splits)
  qed (use r in blast)+
qed


text \<open>One chunk added after boot.\<close>

definition one_chunk :: "nat \<Rightarrow> nat \<Rightarrow> Pools" where
  "one_chunk a k = boot_pools\<lparr>meta := (\<lambda>_. Unused)(a := FreeHead k), global_pool_size := size_of_order k,
     global_pool := \<lparr>max_order = 32, total_size = size_of_order k, lists = (\<lambda>_. [])(k := [a])\<rparr>\<rparr>"

abbreviation two_pages :: Pools where
  "two_pages \<equiv> one_chunk 8192 (Suc 0)"

lemma split_one:
  assumes "size_of_order k dvd a" "a + size_of_order k \<le> 2 ^ 64"
  shows "split_to_chunks a (size_of_order k) = Return [(a, k)]"
proof -
  have P: "PAGE_SIZE dvd size_of_order k" by (simp add: size_of_order_def)
  then have "PAGE_SIZE dvd a" using assms(1) by (rule dvd_trans)
  with P assms(2) obtain cs where cs: "split_chunks a (size_of_order k) = Return cs" "tiles a cs (a + size_of_order k)"
    "\<forall>ds. tiles a ds (a + size_of_order k) \<longrightarrow> length cs \<le> length ds"
    using split_chunks_spec [of a "size_of_order k"] by blast
  have "length cs \<le> length [(a, k)]" using cs(3) [rule_format, of "[(a, k)]"] assms(1) by simp
  moreover have "cs \<noteq> []" using cs(2) by (intro notI) simp
  ultimately obtain c j where c: "cs = [(c, j)]" by (cases cs) auto
  then have "c = a" "size_of_order j = size_of_order k" using cs(2) by simp_all
  then have "cs = [(a, k)]" using c by (simp add: size_of_order_pow)
  then show ?thesis using cs(1) P \<open>PAGE_SIZE dvd a\<close> by (simp add: split_to_chunks_def)
qed

lemma boot_pools_meta: "meta boot_pools = (\<lambda>_. Unused)"
  by (simp add: boot_pools_def)

lemma dealloc_one:
  assumes "size_of_order k dvd a" "a + size_of_order k \<le> 2 ^ 64" "k < MAX_LOCAL_BUDDY_ORDER"
    "do_dealloc cpu ps [(a, size_of_order k)] = Return ps'"
  shows "get_global_size ps' = get_global_size ps"
  using assms(3,4) split_one [OF assms(1,2)]
  by (auto simp: do_dealloc_def dealloc_segment_def local_insert_def get_global_size_def)

lemma insert_one:
  assumes "size_of_order k dvd a" "k < m"
  shows "insert_chunk (\<lambda>_. Unused) (new_empty m) a k = Return ((\<lambda>_. Unused)(a := FreeHead k),
    \<lparr>max_order = m, total_size = size_of_order k, lists = (\<lambda>_. [])(k := [a])\<rparr>)"
proof -
  have "from_unused (\<lambda>_. Unused) a k = Return ((\<lambda>_. Unused)(a := FreeHead k))"
    using assms(1) by (auto simp: from_unused_def list_all_iff)
  moreover have "coalesce m ((\<lambda>_. Unused)(a := FreeHead k)) (\<lambda>_. []) a k = Return ((\<lambda>_. Unused)(a := FreeHead k), \<lambda>_. [], a)"
    by (subst coalesce.simps) (simp add: chunk_order_def)
  ultimately show ?thesis using assms(2) by (simp add: insert_chunk_def new_empty_def chunk_order_def)
qed

lemma one_chunk_add:
  assumes "size_of_order k dvd a" "a + size_of_order k \<le> 2 ^ 64" "k < 32"
  shows "add_free_memory boot_pools a (size_of_order k) = Return (one_chunk a k)"
  using insert_one [OF assms(1,3)] split_one [OF assms(1,2)]
  by (simp add: add_free_memory_def global_insert_def boot_pools_def one_chunk_def guard_new_def guard_get_def guard_drop_def MAX_BUDDY_ORDER_def)

lemma one_chunk_ok:
  assumes "size_of_order k dvd a" "a + size_of_order k \<le> 2 ^ 64" "k < 32"
  shows "pools_ok (one_chunk a k)" "free_mem (one_chunk a k) = region a k"
proof -
  have P: "PAGE_SIZE dvd size_of_order k" by (simp add: size_of_order_def)
  have "k < MAX_BUDDY_ORDER" using assms(3) by (simp add: MAX_BUDDY_ORDER_def)
  then have "size_of_order k < size_of_order MAX_BUDDY_ORDER" by (simp add: size_of_order_def power_strict_increasing)
  then have "segment_ok boot_pools (a, size_of_order k)"
    using P assms(2) dvd_trans [OF P assms(1)] by (simp add: segment_ok_def unused_def boot_pools_meta)
  with boot_pools_ok(1) obtain ps' where "add_free_memory boot_pools a (size_of_order k) = Return ps'"
    "added {a..<a + size_of_order k} (meta boot_pools) (pool boot_pools) (meta ps') (pool ps')" by (rule add_free_memory_spec)
  then show "pools_ok (one_chunk a k)" "free_mem (one_chunk a k) = region a k"
    by (simp_all add: one_chunk_add [OF assms] added_def region_def)
qed

lemma two_pages_ok: "pools_ok two_pages" "free_mem two_pages = {8192..<16384}"
  "add_free_memory boot_pools 8192 8192 = Return two_pages"
  using one_chunk_ok [of 1 8192] one_chunk_add [of 1 8192] by (simp_all add: size_of_order_def PAGE_SIZE_def region_def)

text \<open>What a request for one page and a request for both pages take.\<close>

lemma find_upt_first: "i \<le> n \<Longrightarrow> n < m \<Longrightarrow> P n \<Longrightarrow> (\<forall>j. i \<le> j \<longrightarrow> j < n \<longrightarrow> \<not> P j) \<Longrightarrow> find P [i..<m] = Some n"
  by (auto simp: find_Some_iff intro!: exI [of _ "n - i"])

lemma local_empty: "local_alloc cpu (guard_new (one_chunk a k)) order = Return (None, guard_new (one_chunk a k))"
proof -
  have "alloc_chunk (meta (one_chunk a k)) (local_pools (one_chunk a k) cpu) order = Return (None, meta (one_chunk a k), local_pools (one_chunk a k) cpu)"
    by (rule alloc_chunk_empty) (simp add: one_chunk_def boot_pools_def new_empty_def)
  then show ?thesis by (simp add: local_alloc_def)
qed

lemma one_chunk_take:
  assumes "alloc_chunk (meta (one_chunk b k)) (global_pool (one_chunk b k)) order = Return (Some a, fr, bs)" "order < 18"
  shows "take_chunk cpu (guard_new (one_chunk b k)) order = Return (Some a, (guard_get (one_chunk b k))\<lparr>meta := fr, global_pool := bs\<rparr>)"
  using assms by (simp add: take_chunk_def MAX_LOCAL_BUDDY_ORDER_def local_empty global_alloc_def)

lemma one_chunk_lists:
  "order \<le> k \<Longrightarrow> k < 32 \<Longrightarrow> find (\<lambda>i. lists (global_pool (one_chunk a k)) i \<noteq> []) [order..<32] = Some k"
  by (rule find_upt_first) (simp_all add: one_chunk_def)

lemma one_chunk_whole:
  assumes "k < 32"
  shows "alloc_chunk (meta (one_chunk a k)) (global_pool (one_chunk a k)) k =
    Return (Some a, \<lambda>_. Unused, \<lparr>max_order = 32, total_size = 0, lists = (\<lambda>_. [])\<rparr>)"
  using one_chunk_lists [OF order_refl assms, of a]
  by (simp add: alloc_chunk_def one_chunk_def chunk_order_def Let_def split_down.simps fun_upd_idem)

lemma two_pages_first:
  "alloc_take 0 (guard_new two_pages) 4096 4096 = Return (Some 8192,
     (guard_get two_pages)\<lparr>meta := (\<lambda>_. Unused)(8192 := FreeHead 0, 12288 := FreeHead 0, 8192 := Unused),
       global_pool := \<lparr>max_order = 32, total_size = 4096, lists = (\<lambda>_. [])(1 := [], 0 := [12288])\<rparr>\<rparr>)"
proof -
  let ?g = "global_pool two_pages" and ?fr = "(\<lambda>_. Unused)(8192 := FreeHead 0, 12288 := FreeHead 0)"
  have s: "split_free (meta two_pages) 8192 = Return (8192, 12288, ?fr)"
    by (simp add: split_free_def chunk_order_def one_chunk_def size_of_order_def PAGE_SIZE_def Let_def fun_eq_iff)
  have "split_down (meta two_pages) ((\<lambda>_. [])(1 := [])) 8192 0 1 = Return (?fr, (\<lambda>_. [])(1 := [], 0 := [12288]), 8192)"
    by (subst split_down.simps) (simp add: s [simplified] chunk_order_def split_down.simps [of _ _ _ 0 0])
  then have "alloc_chunk (meta two_pages) ?g 0 =
      Return (Some 8192, ?fr(8192 := Unused), \<lparr>max_order = 32, total_size = 4096, lists = (\<lambda>_. [])(1 := [], 0 := [12288])\<rparr>)"
    using one_chunk_lists [of 0 1 8192]
    by (simp add: alloc_chunk_def one_chunk_def chunk_order_def size_of_order_def PAGE_SIZE_def Let_def)
  moreover have "alloc_order 4096 4096 = 0"
    using trailing_zeros_pow [of 0] by (simp add: alloc_order_def greater_order_of_def next_power_of_two_def PAGE_SIZE_def)
  ultimately show ?thesis by (simp add: alloc_take_def one_chunk_take size_of_order_def PAGE_SIZE_def)
qed

lemma two_pages_both:
  "alloc_take 0 (guard_new two_pages) 8192 4096 = Return (Some 8192,
     (guard_get two_pages)\<lparr>meta := \<lambda>_. Unused, global_pool := \<lparr>max_order = 32, total_size = 0, lists = (\<lambda>_. [])\<rparr>\<rparr>)"
proof -
  have "alloc_order 8192 4096 = Suc 0"
    using trailing_zeros_pow [of 0] trailing_zeros_pow [of 1]
    by (simp add: alloc_order_def greater_order_of_def next_power_of_two_def PAGE_SIZE_def bit_len.simps)
  then show ?thesis
    using one_chunk_take [OF one_chunk_whole [of "Suc 0" 8192], of 0] by (simp add: alloc_take_def size_of_order_def PAGE_SIZE_def)
qed



lemma pools_dealloc_spec:
  assumes "pools_ok ps" "segments_ok ps segs"
  shows "\<exists>ps1. do_dealloc cpu (guard_new ps) segs = Return ps1
    \<and> (if low_memory num_cpus cpu ps1 then pools_dealloc num_cpus cpu ps segs = Panic
       else \<exists>ps'. pools_dealloc num_cpus cpu ps segs = Return ps'
         \<and> added (span segs) (meta ps) (pool ps) (meta ps') (pool ps'))"
proof -
  have "segments_ok (guard_new ps) segs" using assms(2) by (simp add: segments_ok_def segment_ok_def)
  then obtain ps1 where d: "do_dealloc cpu (guard_new ps) segs = Return ps1"
    "added (span segs) (meta ps) (pool ps) (meta ps1) (pool ps1)"
    using do_dealloc_spec [of "guard_new ps" segs cpu] assms(1) by auto
  have "pools_ok ps1" using d(2) by (simp add: added_def)
  then show ?thesis using balance_spec [OF _ refl, of ps1 num_cpus cpu] balanced_added [OF d(2)] d(1)
    by (auto simp: pools_dealloc_def split: if_splits)
qed

text \<open>
  Deallocation to the pools. Given page-aligned, unused segments that are disjoint from each
  other and from the free memory, the part before balancing always returns and the free memory
  grows by exactly these segments. The whole operation panics exactly when the state to balance is
  a low-memory one.
\<close>

lemma pools_dealloc_exact:
  assumes "pools_ok ps" "segments_ok ps segs"
  shows "\<exists>ps1. do_dealloc cpu (guard_new ps) segs = Return ps1
    \<and> (if low_memory num_cpus cpu ps1 then pools_dealloc num_cpus cpu ps segs = Panic
       else \<exists>ps'. pools_dealloc num_cpus cpu ps segs = Return ps'
         \<and> added (span segs) (meta ps) (pool ps) (meta ps') (pool ps'))"
  using assms by (rule pools_dealloc_spec)

lemma pools_dealloc_exact_witness:
  "segments_ok boot_pools [(8192, 8192)]
     \<and> (\<exists>ps'. pools_dealloc 1 0 boot_pools [(8192, 8192)] = Return ps' \<and> pools_ok ps' \<and> free_mem ps' = {8192..<16384})"
proof -
  have s: "segments_ok boot_pools [(8192, 8192)]"
    by (simp add: segments_ok_def segment_ok_def PAGE_SIZE_def size_of_order_def MAX_BUDDY_ORDER_def unused_def boot_pools_meta)
  obtain ps1 where d: "do_dealloc 0 (guard_new boot_pools) [(8192, 8192)] = Return ps1"
    "if low_memory 1 0 ps1 then pools_dealloc 1 0 boot_pools [(8192, 8192)] = Panic
     else \<exists>ps'. pools_dealloc 1 0 boot_pools [(8192, 8192)] = Return ps'
       \<and> added (span [(8192, 8192)]) (meta boot_pools) (pool boot_pools) (meta ps') (pool ps')"
    using pools_dealloc_exact [OF boot_pools_ok(1) s, of 0 1] by blast
  have "get_global_size ps1 = 0" using d(1) dealloc_one [of 1 8192 0 "guard_new boot_pools" ps1]
    by (simp add: size_of_order_def PAGE_SIZE_def MAX_LOCAL_BUDDY_ORDER_def get_global_size_def guard_new_def boot_pools_def)
  then have "\<not> low_memory 1 0 ps1" by (simp add: low_memory_def cache_expected_size_def Let_def)
  then show ?thesis using d(2) s by (auto simp: added_def seg_def)
qed

text \<open>
  The recursion of \<^verbatim>\<open>balance_to\<close> stops above order zero, so memory that is fragmented into single
  pages is never moved, whatever the order asked for.
\<close>

lemma balance_to_single_pages:
  assumes "\<forall>i. 1 \<le> i \<longrightarrow> i < max_order a \<longrightarrow> lists a i = []" "1 \<le> order"
  shows "balance_to fr a b order = Return (fr, a, b)"
  using assms(2)
proof (induction order rule: less_induct)
  case (less order)
  have "alloc_chunk fr a order = Return (None, fr, a)" using assms(1) less.prems by (intro alloc_chunk_empty) auto
  then show ?case using less.IH [of "order - 1"] by (subst balance_to.simps) auto
qed

end
