(* ===== verification/Frame_Cache.thy ===== *)
theory Frame_Cache
  imports Frame_Pools "HOL-Library.Word"
begin

text \<open>
  The front of the physical frame allocator: the per-CPU caches of small segments, \<^verbatim>\<open>cache.rs\<close>,
  the counter of free bytes, \<^verbatim>\<open>smp_counter.rs\<close>, and the allocator itself, \<^verbatim>\<open>lib.rs\<close>, all of
  \<^verbatim>\<open>packages/osdk/deps/frame-allocator/src\<close>. The constant parameters of a cache array are
  fields. The counters are machine words and wrap.

  The lemmas show that pools and caches always partition the free memory, that no frame is handed
  out twice, that the counters add up to the free bytes, and where an alignment that was asked
  for is lost.
\<close>

section \<open>Cache arrays\<close>

record CacheArray =
  nr_cont_frames :: nat
  capacity :: nat
  inner :: "nat option list"
  filled :: nat

definition array_new :: "nat \<Rightarrow> nat \<Rightarrow> CacheArray" where
  "array_new nr count = \<lparr>nr_cont_frames = nr, capacity = count, inner = replicate count None, filled = 0\<rparr>"

definition segment_size :: "CacheArray \<Rightarrow> nat" where
  "segment_size ca = nr_cont_frames ca * PAGE_SIZE"

definition push_front :: "CacheArray \<Rightarrow> nat \<Rightarrow> CacheArray option rust" where
  "push_front ca frame =
     (if filled ca = capacity ca then Return None
      else if filled ca < length (inner ca)
      then Return (Some (ca\<lparr>inner := (inner ca)[filled ca := Some frame], filled := filled ca + 1\<rparr>))
      else Panic)"

definition pop_front :: "CacheArray \<Rightarrow> (nat option \<times> CacheArray) rust" where
  "pop_front ca =
     (if filled ca = 0 then Return (None, ca)
      else if filled ca - 1 < length (inner ca)
      then case inner ca ! (filled ca - 1) of
             None \<Rightarrow> Panic
           | Some frame \<Rightarrow> Return (Some frame, ca\<lparr>inner := (inner ca)[filled ca - 1 := None], filled := filled ca - 1\<rparr>)
      else Panic)"

definition push_segment :: "nat \<Rightarrow> CacheArray \<Rightarrow> nat \<Rightarrow> CacheArray rust" where
  "push_segment allocated ca i =
     rust_bind (push_front ca (allocated + i * segment_size ca)) (\<lambda>r. Return (case r of None \<Rightarrow> ca | Some ca' \<Rightarrow> ca'))"

definition array_alloc :: "nat \<Rightarrow> nat \<Rightarrow> CacheArray \<Rightarrow> Pools \<Rightarrow> (nat option \<times> CacheArray \<times> Pools) rust" where
  "array_alloc num_cpus cpu ca ps =
     rust_bind (pop_front ca) (\<lambda>(frame, ca).
       case frame of
         Some f \<Rightarrow> Return (Some f, ca, ps)
       | None \<Rightarrow>
           let nr_to_alloc = capacity ca * 2 div 3
           in rust_bind (pools_alloc num_cpus cpu ps (nr_to_alloc * segment_size ca) PAGE_SIZE) (\<lambda>(r, ps).
                case r of
                  None \<Rightarrow> Return (None, ca, ps)
                | Some allocated \<Rightarrow>
                    rust_bind (for_each (push_segment allocated) [1..<nr_to_alloc] ca) (\<lambda>ca. Return (Some allocated, ca, ps))))"

fun pop_segments :: "nat \<Rightarrow> CacheArray \<Rightarrow> ((nat \<times> nat) list \<times> CacheArray) rust" where
  "pop_segments 0 ca = Return ([], ca)"
| "pop_segments (Suc n) ca =
     rust_bind (pop_front ca) (\<lambda>(frame, ca).
       case frame of
         None \<Rightarrow> Panic
       | Some f \<Rightarrow> rust_bind (pop_segments n ca) (\<lambda>(segs, ca). Return ((f, segment_size ca) # segs, ca)))"

definition array_dealloc :: "nat \<Rightarrow> nat \<Rightarrow> CacheArray \<Rightarrow> Pools \<Rightarrow> nat \<Rightarrow> (CacheArray \<times> Pools) rust" where
  "array_dealloc num_cpus cpu ca ps addr =
     rust_bind (push_front ca addr) (\<lambda>r.
       case r of
         Some ca' \<Rightarrow> Return (ca', ps)
       | None \<Rightarrow>
           let nr_to_dealloc = capacity ca * 2 div 3 + 1
           in rust_bind (pop_segments (nr_to_dealloc - 1) ca) (\<lambda>(segs, ca').
              rust_bind (pools_dealloc num_cpus cpu ps ((addr, segment_size ca) # segs)) (\<lambda>ps'. Return (ca', ps'))))"

section \<open>Caches of all sizes\<close>

record CacheOfSizes =
  cache1 :: CacheArray
  cache2 :: CacheArray
  cache3 :: CacheArray
  cache4 :: CacheArray

definition cache_new :: CacheOfSizes where
  "cache_new = \<lparr>cache1 = array_new 1 12, cache2 = array_new 2 6, cache3 = array_new 3 6, cache4 = array_new 4 6\<rparr>"

definition cache_alloc ::
    "nat \<Rightarrow> nat \<Rightarrow> CacheOfSizes \<Rightarrow> Pools \<Rightarrow> nat \<Rightarrow> nat \<Rightarrow> (nat option \<times> CacheOfSizes \<times> Pools) rust" where
  "cache_alloc num_cpus cpu cs ps len align =
     (let nr_frames = len div PAGE_SIZE;
          direct = rust_bind (pools_alloc num_cpus cpu ps len align) (\<lambda>(r, ps). Return (r, cs, ps));
          via = (\<lambda>ca put. rust_bind (array_alloc num_cpus cpu ca ps) (\<lambda>(r, ca, ps). Return (r, put ca, ps)))
      in if align > len then direct
         else if nr_frames = 1 then via (cache1 cs) (\<lambda>ca. cs\<lparr>cache1 := ca\<rparr>)
         else if nr_frames = 2 then via (cache2 cs) (\<lambda>ca. cs\<lparr>cache2 := ca\<rparr>)
         else if nr_frames = 3 then via (cache3 cs) (\<lambda>ca. cs\<lparr>cache3 := ca\<rparr>)
         else if nr_frames = 4 then via (cache4 cs) (\<lambda>ca. cs\<lparr>cache4 := ca\<rparr>)
         else direct)"

definition cache_dealloc ::
    "nat \<Rightarrow> nat \<Rightarrow> CacheOfSizes \<Rightarrow> Pools \<Rightarrow> nat \<Rightarrow> nat \<Rightarrow> (CacheOfSizes \<times> Pools) rust" where
  "cache_dealloc num_cpus cpu cs ps addr len =
     (let nr_frames = len div PAGE_SIZE;
          direct = rust_bind (pools_dealloc num_cpus cpu ps [(addr, len)]) (\<lambda>ps. Return (cs, ps));
          via = (\<lambda>ca put. rust_bind (array_dealloc num_cpus cpu ca ps addr) (\<lambda>(ca, ps). Return (put ca, ps)))
      in if nr_frames > 4 then direct
         else if nr_frames = 1 then via (cache1 cs) (\<lambda>ca. cs\<lparr>cache1 := ca\<rparr>)
         else if nr_frames = 2 then via (cache2 cs) (\<lambda>ca. cs\<lparr>cache2 := ca\<rparr>)
         else if nr_frames = 3 then via (cache3 cs) (\<lambda>ca. cs\<lparr>cache3 := ca\<rparr>)
         else if nr_frames = 4 then via (cache4 cs) (\<lambda>ca. cs\<lparr>cache4 := ca\<rparr>)
         else direct)"

section \<open>Counter and allocator\<close>

text \<open>One wrapping signed counter per CPU; reading sums them over all CPUs.\<close>

type_synonym smp_counter = "nat \<Rightarrow> 64 word"

definition counter_add :: "smp_counter \<Rightarrow> nat \<Rightarrow> nat \<Rightarrow> smp_counter" where
  "counter_add ct cpu a = ct(cpu := ct cpu + word_of_nat a)"

definition counter_sub :: "smp_counter \<Rightarrow> nat \<Rightarrow> nat \<Rightarrow> smp_counter" where
  "counter_sub ct cpu a = ct(cpu := ct cpu - word_of_nat a)"

definition counter_get :: "nat \<Rightarrow> smp_counter \<Rightarrow> nat" where
  "counter_get num_cpus ct =
     (let total = fold (\<lambda>cpu total. total + ct cpu) [0..<num_cpus] 0
      in if sint total < 0 then 0 else unat total)"

record FrameAlloc =
  pools :: Pools
  caches :: "nat \<Rightarrow> CacheOfSizes"
  total_free_size :: smp_counter

definition frame_alloc :: "nat \<Rightarrow> nat \<Rightarrow> FrameAlloc \<Rightarrow> nat \<Rightarrow> nat \<Rightarrow> (nat option \<times> FrameAlloc) rust" where
  "frame_alloc num_cpus cpu st len align =
     rust_bind (cache_alloc num_cpus cpu (caches st cpu) (pools st) len align) (\<lambda>(res, cs, ps).
       let st = st\<lparr>caches := (caches st)(cpu := cs), pools := ps\<rparr>
       in Return (res, if res \<noteq> None then st\<lparr>total_free_size := counter_sub (total_free_size st) cpu len\<rparr> else st))"

definition frame_dealloc :: "nat \<Rightarrow> nat \<Rightarrow> FrameAlloc \<Rightarrow> nat \<Rightarrow> nat \<Rightarrow> FrameAlloc rust" where
  "frame_dealloc num_cpus cpu st addr len =
     (let st = st\<lparr>total_free_size := counter_add (total_free_size st) cpu len\<rparr>
      in rust_bind (cache_dealloc num_cpus cpu (caches st cpu) (pools st) addr len) (\<lambda>(cs, ps).
           Return (st\<lparr>caches := (caches st)(cpu := cs), pools := ps\<rparr>)))"

definition frame_add_free_memory :: "nat \<Rightarrow> FrameAlloc \<Rightarrow> nat \<Rightarrow> nat \<Rightarrow> FrameAlloc rust" where
  "frame_add_free_memory cpu st addr len =
     (let st = st\<lparr>total_free_size := counter_add (total_free_size st) cpu len\<rparr>
      in rust_bind (add_free_memory (pools st) addr len) (\<lambda>ps. Return (st\<lparr>pools := ps\<rparr>)))"

section \<open>A cache array is a stack\<close>

definition holds :: "CacheArray \<Rightarrow> nat list \<Rightarrow> bool" where
  "holds ca xs \<longleftrightarrow> inner ca = map Some xs @ replicate (capacity ca - length xs) None
     \<and> filled ca = length xs \<and> length xs \<le> capacity ca"

text \<open>What an operation on an array does not change.\<close>

definition same_array :: "CacheArray \<Rightarrow> CacheArray \<Rightarrow> bool" where
  "same_array ca ca' \<longleftrightarrow> nr_cont_frames ca' = nr_cont_frames ca \<and> capacity ca' = capacity ca"

lemma same_array_size: "same_array ca ca' \<Longrightarrow> segment_size ca' = segment_size ca"
  by (simp add: same_array_def segment_size_def)

lemma same_array_trans: "same_array ca ca1 \<Longrightarrow> same_array ca1 ca2 \<Longrightarrow> same_array ca ca2"
  by (simp add: same_array_def)

lemma push_front_full: "holds ca xs \<Longrightarrow> length xs = capacity ca \<Longrightarrow> push_front ca x = Return None"
  by (simp add: push_front_def holds_def)

lemma push_front_room:
  assumes "holds ca xs" "length xs < capacity ca"
  obtains ca' where "push_front ca x = Return (Some ca')" "holds ca' (xs @ [x])" "same_array ca ca'"
proof -
  obtain n where n: "capacity ca - length xs = Suc n" using assms(2) by (cases "capacity ca - length xs") auto
  then have m: "capacity ca - Suc (length xs) = n" by simp
  show thesis using assms n m
    by (intro that [of "ca\<lparr>inner := (inner ca)[filled ca := Some x], filled := filled ca + 1\<rparr>"])
       (auto simp: push_front_def holds_def same_array_def list_update_append)
qed

lemma pop_front_empty: "holds ca [] \<Longrightarrow> pop_front ca = Return (None, ca)"
  by (simp add: pop_front_def holds_def)

lemma pop_front_some:
  assumes "holds ca (xs @ [x])"
  obtains ca' where "pop_front ca = Return (Some x, ca')" "holds ca' xs" "same_array ca ca'"
proof -
  obtain n where n: "capacity ca - length xs = Suc n" using assms by (cases "capacity ca - length xs") (auto simp: holds_def)
  then have m: "capacity ca - Suc (length xs) = n" by simp
  show thesis using assms n m
    by (intro that [of "ca\<lparr>inner := (inner ca)[filled ca - 1 := None], filled := filled ca - 1\<rparr>"])
       (auto simp: pop_front_def holds_def same_array_def list_update_append nth_append)
qed

lemma push_segments:
  assumes "holds ca xs" "length xs + length is \<le> capacity ca"
  shows "\<exists>ca'. for_each (push_segment a) is ca = Return ca' \<and> holds ca' (xs @ map (\<lambda>i. a + i * segment_size ca) is) \<and> same_array ca ca'"
  using assms
proof (induction "is" arbitrary: ca xs)
  case Nil
  then show ?case by (simp add: same_array_def)
next
  case (Cons i "is")
  have "length xs < capacity ca" using Cons.prems(2) by simp
  with Cons.prems(1) obtain ca1 where 1: "push_front ca (a + i * segment_size ca) = Return (Some ca1)"
    "holds ca1 (xs @ [a + i * segment_size ca])" "same_array ca ca1" by (rule push_front_room)
  have "length (xs @ [a + i * segment_size ca]) + length is \<le> capacity ca1" using Cons.prems(2) 1(3) by (simp add: same_array_def)
  then obtain ca' where "for_each (push_segment a) is ca1 = Return ca'"
    "holds ca' ((xs @ [a + i * segment_size ca]) @ map (\<lambda>i. a + i * segment_size ca1) is)" "same_array ca1 ca'"
    using Cons.IH [OF 1(2)] by blast
  moreover have "push_segment a ca i = Return ca1" by (simp add: push_segment_def 1(1))
  ultimately show ?case using same_array_trans [OF 1(3)] by (simp add: same_array_size [OF 1(3)])
qed

lemma pop_segments_spec:
  assumes "holds ca (xs @ ys)"
  shows "\<exists>ca'. pop_segments (length ys) ca = Return (map (\<lambda>f. (f, segment_size ca)) (rev ys), ca') \<and> holds ca' xs \<and> same_array ca ca'"
  using assms
proof (induction ys arbitrary: ca rule: rev_induct)
  case Nil
  then show ?case by (simp add: same_array_def)
next
  case (snoc y ys)
  have "holds ca ((xs @ ys) @ [y])" using snoc.prems by simp
  then obtain ca1 where 1: "pop_front ca = Return (Some y, ca1)" "holds ca1 (xs @ ys)" "same_array ca ca1"
    by (rule pop_front_some)
  obtain ca' where 2: "pop_segments (length ys) ca1 = Return (map (\<lambda>f. (f, segment_size ca1)) (rev ys), ca')" "holds ca' xs" "same_array ca1 ca'"
    using snoc.IH [OF 1(2)] by blast
  then show ?case using 1 same_array_trans [OF 1(3) 2(3)] same_array_size [OF 1(3)] same_array_size [OF 2(3)] by simp
qed

section \<open>Pools and caches together\<close>

type_synonym 'i slots = "'i \<Rightarrow> (nat \<times> nat) list"

definition parts_ok :: "Pools \<Rightarrow> 'i slots \<Rightarrow> bool" where
  "parts_ok ps S \<longleftrightarrow> pools_ok ps \<and> (\<forall>i. segments_ok ps (S i)) \<and> (\<forall>i j. i \<noteq> j \<longrightarrow> span (S i) \<inter> span (S j) = {})"

definition all_mem :: "Pools \<Rightarrow> 'i slots \<Rightarrow> nat set" where
  "all_mem ps S = free_mem ps \<union> (\<Union>i. span (S i))"

definition handed :: "nat set \<Rightarrow> Pools \<Rightarrow> 'i slots \<Rightarrow> Pools \<Rightarrow> 'i slots \<Rightarrow> bool" where
  "handed R ps S ps' S' \<longleftrightarrow> parts_ok ps' S' \<and> R \<subseteq> all_mem ps S \<and> all_mem ps' S' = all_mem ps S - R
     \<and> unused (meta ps') R \<and> (\<forall>p. p \<notin> all_mem ps S \<longrightarrow> meta ps' p = meta ps p)"

definition returned :: "nat set \<Rightarrow> Pools \<Rightarrow> 'i slots \<Rightarrow> Pools \<Rightarrow> 'i slots \<Rightarrow> bool" where
  "returned R ps S ps' S' \<longleftrightarrow> parts_ok ps' S' \<and> all_mem ps' S' = all_mem ps S \<union> R
     \<and> (\<forall>p. p \<notin> all_mem ps S \<union> R \<longrightarrow> meta ps' p = meta ps p)"

lemma parts_okD:
  assumes "parts_ok ps S"
  shows "pools_ok ps" "segments_ok ps (S i)" "i \<noteq> j \<Longrightarrow> span (S i) \<inter> span (S j) = {}" "span (S i) \<inter> free_mem ps = {}"
proof -
  show "pools_ok ps" "segments_ok ps (S i)" "i \<noteq> j \<Longrightarrow> span (S i) \<inter> span (S j) = {}"
    using assms by (simp_all add: parts_ok_def)
  then show "span (S i) \<inter> free_mem ps = {}" by (auto simp: segments_ok_def segment_ok_def seg_def span_def)
qed

lemma span_all_mem: "span (S i) \<subseteq> all_mem ps S"
  unfolding all_mem_def by blast

lemma all_mem_upd: "all_mem ps (S(i := xs)) = free_mem ps \<union> span xs \<union> (\<Union>j \<in> - {i}. span (S j))"
  unfolding all_mem_def by (auto split: if_splits)

lemma segments_ok_unused: "segments_ok ps xs \<Longrightarrow> unused (meta ps) (span xs)"
  by (fastforce simp: segments_ok_def segment_ok_def seg_def unused_def span_def)

lemma segments_ok_append:
  "segments_ok ps (xs @ ys) \<longleftrightarrow> segments_ok ps xs \<and> segments_ok ps ys \<and> span xs \<inter> span ys = {}"
  by (auto simp: segments_ok_def sorted_wrt_append span_def)

lemma segments_ok_rev: "segments_ok ps (rev xs) \<longleftrightarrow> segments_ok ps xs"
  by (simp add: segments_ok_def sorted_wrt_rev Int_commute)

text \<open>Taking segments out of a slot and putting segments into one.\<close>

lemma parts_drop:
  assumes "parts_ok ps S" "S i = xs @ ys"
  shows "parts_ok ps (S(i := xs))" "all_mem ps S = all_mem ps (S(i := xs)) \<union> span ys"
    "all_mem ps (S(i := xs)) \<inter> span ys = {}" "segments_ok ps ys"
proof -
  have ok: "segments_ok ps xs" "segments_ok ps ys" "span xs \<inter> span ys = {}"
    using parts_okD(2) [OF assms(1), of i] by (simp_all add: assms(2) segments_ok_append)
  have sub: "span (S i) = span xs \<union> span ys" by (simp add: assms(2))
  have apart: "span (S j) \<inter> span (S i) = {}" if "j \<noteq> i" for j using parts_okD(3) [OF assms(1) that] .
  have "span xs \<inter> span (S j) = {}" if "j \<noteq> i" for j using apart [OF that] unfolding sub by blast
  then show "parts_ok ps (S(i := xs))"
    using assms(1) ok(1) unfolding parts_ok_def by (simp add: Int_commute)
  show "all_mem ps S = all_mem ps (S(i := xs)) \<union> span ys"
    using all_mem_upd [of ps S i "S i"] by (auto simp: all_mem_upd sub)
  show "all_mem ps (S(i := xs)) \<inter> span ys = {}"
    using apart ok(3) parts_okD(4) [OF assms(1), of i] unfolding all_mem_upd sub by blast
  show "segments_ok ps ys" by (rule ok(2))
qed

lemma parts_put:
  assumes "parts_ok ps S" "segments_ok ps ys" "span ys \<inter> all_mem ps S = {}"
  shows "parts_ok ps (S(i := S i @ ys))" "all_mem ps (S(i := S i @ ys)) = all_mem ps S \<union> span ys"
proof -
  have apart: "span ys \<inter> span (S j) = {}" for j using assms(3) span_all_mem [of S j ps] by blast
  then have "segments_ok ps (S i @ ys)"
    using parts_okD(2) [OF assms(1)] assms(2) by (auto simp: segments_ok_append Int_commute)
  then show "parts_ok ps (S(i := S i @ ys))"
    using assms(1) apart unfolding parts_ok_def by (simp add: Int_Un_distrib Int_Un_distrib2 Int_commute)
  show "all_mem ps (S(i := S i @ ys)) = all_mem ps S \<union> span ys"
    using all_mem_upd [of ps S i "S i"] by (auto simp: all_mem_upd)
qed

text \<open>The pools change under the caches.\<close>

lemma parts_taken:
  assumes "parts_ok ps S" "taken R ps ps'"
  shows "handed R ps S ps' S"
proof -
  have t: "pools_ok ps'" "R \<subseteq> free_mem ps" "free_mem ps' = free_mem ps - R" "unused (meta ps') R"
    "\<forall>p. p \<notin> free_mem ps \<longrightarrow> meta ps' p = meta ps p" using assms(2) by (simp_all add: taken_def)
  have "segment_ok ps' x" if "segment_ok ps x" for x
  proof -
    obtain a s where x: "x = (a, s)" by (cases x)
    have d: "{a..<a + s} \<inter> free_mem ps = {}" and u: "unused (meta ps) {a..<a + s}" using that by (simp_all add: segment_ok_def x)
    have "meta ps' p = meta ps p" if "p \<in> {a..<a + s}" for p using d t(5) that by blast
    then have "unused (meta ps') {a..<a + s}" using u by (simp add: unused_def)
    then show ?thesis using that d t(3) by (auto simp: segment_ok_def x)
  qed
  then have "segments_ok ps' (S i)" for i using parts_okD(2) [OF assms(1), of i] by (auto simp: segments_ok_def)
  then have "parts_ok ps' S" using assms(1) t(1) by (simp add: parts_ok_def)
  moreover have "R \<inter> span (S i) = {}" for i using parts_okD(4) [OF assms(1), of i] t(2) by blast
  then have "all_mem ps' S = all_mem ps S - R" unfolding all_mem_def t(3) by blast
  moreover have "R \<subseteq> all_mem ps S" using t(2) by (auto simp: all_mem_def)
  moreover have "\<forall>p. p \<notin> all_mem ps S \<longrightarrow> meta ps' p = meta ps p" using t(5) by (auto simp: all_mem_def)
  ultimately show ?thesis using t(4) by (simp add: handed_def)
qed

lemma parts_added:
  assumes "parts_ok ps S" "added R (meta ps) (pool ps) (meta ps') (pool ps')" "\<And>i. R \<inter> span (S i) = {}"
  shows "returned R ps S ps' S"
proof -
  have "segment_ok ps' x" if "x \<in> set (S i)" for x i
    using parts_okD(2) [OF assms(1), of i] assms(3) [of i] that
    by (intro segment_ok_added [OF _ assms(2)]) (auto simp: segments_ok_def span_def)
  then have "segments_ok ps' (S i)" for i using parts_okD(2) [OF assms(1), of i] by (auto simp: segments_ok_def)
  then have "parts_ok ps' S" using assms(1,2) by (simp add: parts_ok_def added_def)
  then show ?thesis using assms(2) unfolding returned_def added_def all_mem_def by blast
qed

section \<open>Effect of the operations on a cache array\<close>

definition segs_of :: "nat \<Rightarrow> nat list \<Rightarrow> (nat \<times> nat) list" where
  "segs_of k xs = map (\<lambda>f. (f, k * PAGE_SIZE)) xs"

lemma pools_alloc_returns:
  assumes "pools_ok ps" "free_mem ps \<subseteq> {..<2 ^ 64}" "PAGE_SIZE dvd len" "0 < len" "pools_alloc num_cpus cpu ps len (2 ^ k) = Return (r, ps')"
  shows "taken (case r of None \<Rightarrow> {} | Some a \<Rightarrow> {a..<a + len}) ps ps'" "\<forall>a. r = Some a \<longrightarrow> 2 ^ k dvd a \<and> PAGE_SIZE dvd a"
  using pools_alloc_spec [OF assms(1-4), of cpu k num_cpus] assms(5) by (auto split: if_splits)

lemma pools_dealloc_returns:
  assumes "pools_ok ps" "segments_ok ps segs" "pools_dealloc num_cpus cpu ps segs = Return ps'"
  shows "added (span segs) (meta ps) (pool ps) (meta ps') (pool ps')"
  using pools_dealloc_spec [OF assms(1,2), of cpu num_cpus] assms(3) by (auto split: if_splits)

text \<open>Cutting a block into equal segments.\<close>

lemma segs_of_cut:
  assumes "0 < n" "k * PAGE_SIZE = s"
  shows "span (segs_of k (map (\<lambda>i. a + i * s) [1..<n])) = {a + s..<a + n * s}"
    "sorted_wrt (\<lambda>x y. seg x \<inter> seg y = {}) (segs_of k (map (\<lambda>i. a + i * s) [1..<n]))"
proof -
  have seg: "seg (a + i * s, s) = {a + i * s..<a + Suc i * s}" for i by (auto simp: seg_def)
  have "{a + s..<a + n * s} = (\<Union>i \<in> {1..<n}. {a + i * s..<a + Suc i * s})" using assms(1)
  proof (induction n rule: nat_induct_non_zero)
    case (Suc n)
    have "{a + s..<a + Suc n * s} = {a + s..<a + n * s} \<union> {a + n * s..<a + Suc n * s}"
      using Suc(1) by (subst ivl_disj_un_two(3)) auto
    moreover have "{1..<Suc n} = insert n {1..<n}" using Suc(1) by auto
    ultimately show ?case using Suc(2) by auto
  qed simp
  then show "span (segs_of k (map (\<lambda>i. a + i * s) [1..<n])) = {a + s..<a + n * s}"
    by (simp add: span_def segs_of_def assms(2) seg)
  have "{a + i * s..<a + Suc i * s} \<inter> {a + j * s..<a + Suc j * s} = {}" if "i < j" for i j
  proof -
    have "Suc i * s \<le> j * s" using that by (intro mult_right_mono) simp_all
    then show ?thesis by auto
  qed
  then show "sorted_wrt (\<lambda>x y. seg x \<inter> seg y = {}) (segs_of k (map (\<lambda>i. a + i * s) [1..<n]))"
    by (simp add: segs_of_def assms(2) seg sorted_wrt_map sorted_wrt_upt [THEN sorted_wrt_mono_rel [rotated]])
qed

lemma small_segment: "k \<le> 4 \<Longrightarrow> k * PAGE_SIZE < size_of_order MAX_BUDDY_ORDER"
  by (simp add: size_of_order_def MAX_BUDDY_ORDER_def)

lemma cut_segments_ok:
  assumes "taken {a..<a + n * s} ps ps'" "free_mem ps \<subseteq> {..<2 ^ 64}" "PAGE_SIZE dvd a" "0 < n" "k * PAGE_SIZE = s" "1 \<le> k" "k \<le> 4"
  shows "segments_ok ps' (segs_of k (map (\<lambda>i. a + i * s) [1..<n]))"
proof -
  have t: "{a..<a + n * s} \<subseteq> free_mem ps" "free_mem ps' = free_mem ps - {a..<a + n * s}" "unused (meta ps') {a..<a + n * s}"
    using assms(1) by (simp_all add: taken_def)
  have s: "0 < s" using assms(5,6) by auto
  then have "0 < n * s" using assms(4) by simp
  then have "a + n * s - 1 \<in> {a..<a + n * s}" unfolding atLeastLessThan_iff by linarith
  then have top: "a + n * s \<le> 2 ^ 64" using t(1) assms(2) by fastforce
  have "segment_ok ps' (a + i * s, s)" if "i < n" for i
  proof -
    have "Suc i * s \<le> n * s" using that by (intro mult_right_mono) simp_all
    then have sub: "{a + i * s..<a + i * s + s} \<subseteq> {a..<a + n * s}" and "a + i * s + s \<le> 2 ^ 64" using top by auto
    moreover have "PAGE_SIZE dvd a + i * s" "PAGE_SIZE dvd s" using assms(3,5) by auto
    moreover have "unused (meta ps') {a + i * s..<a + i * s + s}" using t(3) sub unfolding unused_def by blast
    ultimately show ?thesis using t(2) small_segment [OF assms(7)] assms(5) unfolding segment_ok_def by auto
  qed
  then show ?thesis using segs_of_cut(2) [OF assms(4,5)] by (auto simp: segments_ok_def segs_of_def assms(5))
qed

lemma parts_refill:
  assumes "parts_ok ps S" "S i = []" "taken {a..<a + n * s} ps ps'" "free_mem ps \<subseteq> {..<2 ^ 64}" "PAGE_SIZE dvd a" "0 < n"
    "k * PAGE_SIZE = s" "1 \<le> k" "k \<le> 4"
  shows "handed {a..<a + s} ps S ps' (S(i := segs_of k (map (\<lambda>i. a + i * s) [1..<n])))"
proof -
  let ?ys = "segs_of k (map (\<lambda>i. a + i * s) [1..<n])" and ?R = "{a..<a + n * s}"
  have h: "parts_ok ps' S" "?R \<subseteq> all_mem ps S" "all_mem ps' S = all_mem ps S - ?R" "unused (meta ps') ?R"
    "\<forall>p. p \<notin> all_mem ps S \<longrightarrow> meta ps' p = meta ps p"
    using parts_taken [OF assms(1,3)] by (simp_all add: handed_def)
  have "a + s \<le> a + n * s" using assms(6) by simp
  then have R: "?R = {a..<a + s} \<union> span ?ys" "{a..<a + s} \<inter> span ?ys = {}"
    unfolding segs_of_cut(1) [OF assms(6,7)] by (intro ivl_disj_un_two(3) [symmetric]) auto
  have "span ?ys \<inter> all_mem ps' S = {}" using h(3) R(1) by blast
  then have p: "parts_ok ps' (S(i := S i @ ?ys))" "all_mem ps' (S(i := S i @ ?ys)) = all_mem ps' S \<union> span ?ys"
    using parts_put [OF h(1) cut_segments_ok [OF assms(3-9)]] by blast+
  have "all_mem ps' (S(i := ?ys)) = all_mem ps S - {a..<a + s}" using p(2) h(2,3) R unfolding assms(2) by auto
  moreover have "unused (meta ps') {a..<a + s}" using h(4) R(1) by (simp add: unused_def)
  ultimately show ?thesis using p(1) h(2,5) R(1) unfolding assms(2) by (simp add: handed_def)
qed

lemma array_alloc_spec:
  assumes "parts_ok ps S" "all_mem ps S \<subseteq> {..<2 ^ 64}" "holds ca xs" "nr_cont_frames ca = k" "S i = segs_of k xs"
    "1 \<le> k" "k \<le> 4" "6 \<le> capacity ca" "array_alloc num_cpus cpu ca ps = Return (r, ca', ps')"
  shows "\<exists>xs'. holds ca' xs' \<and> same_array ca ca' \<and> (\<forall>a. r = Some a \<longrightarrow> PAGE_SIZE dvd a)
    \<and> handed (case r of None \<Rightarrow> {} | Some a \<Rightarrow> {a..<a + k * PAGE_SIZE}) ps S ps' (S(i := segs_of k xs'))"
proof (cases xs rule: rev_cases)
  case (snoc zs z)
  obtain ca1 where c: "pop_front ca = Return (Some z, ca1)" "holds ca1 zs" "same_array ca ca1"
    using assms(3) unfolding snoc by (rule pop_front_some)
  have r: "r = Some z" "ca' = ca1" "ps' = ps" using assms(9) by (simp_all add: array_alloc_def c(1))
  have S: "S i = segs_of k zs @ [(z, k * PAGE_SIZE)]" using assms(5) by (simp add: snoc segs_of_def)
  note d = parts_drop [OF assms(1) S]
  have "PAGE_SIZE dvd z" using d(4) by (simp add: segments_ok_def segment_ok_def)
  moreover have "handed {z..<z + k * PAGE_SIZE} ps S ps (S(i := segs_of k zs))"
    using d(1-3) segments_ok_unused [OF d(4)] by (auto simp: handed_def seg_def)
  ultimately show ?thesis using c(2,3) by (auto simp: r)
next
  case Nil
  let ?n = "capacity ca * 2 div 3" and ?s = "k * PAGE_SIZE"
  have p: "pop_front ca = Return (None, ca)" using assms(3) unfolding Nil by (rule pop_front_empty)
  have sz: "segment_size ca = ?s" by (simp add: segment_size_def assms(4))
  have P: "PAGE_SIZE = 2 ^ 12" by (simp add: PAGE_SIZE_def)
  have f: "free_mem ps \<subseteq> {..<2 ^ 64}" using assms(2) by (auto simp: all_mem_def)
  have n: "0 < ?n" "0 < ?n * ?s" using assms(6,8) by simp_all
  obtain ps1 where pa: "pools_alloc num_cpus cpu ps (?n * ?s) (2 ^ 12) = Return (r, ps1)"
    and rest: "(case r of None \<Rightarrow> Return (None, ca, ps1)
      | Some a \<Rightarrow> rust_bind (for_each (push_segment a) [1..<?n] ca) (\<lambda>ca. Return (Some a, ca, ps1))) = Return (r, ca', ps')"
    using assms(9) by (auto simp: array_alloc_def p sz P Let_def split: option.splits)
  have "PAGE_SIZE dvd ?n * ?s" by simp
  note t = pools_alloc_returns [OF parts_okD(1) [OF assms(1)] f this n(2) pa]
  show ?thesis
  proof (cases r)
    case None
    have "S(i := segs_of k []) = S" using assms(5) by (auto simp: Nil)
    then show ?thesis using parts_taken [OF assms(1)] t(1) rest assms(3)
      by (intro exI [of _ "[]"]) (simp add: None Nil same_array_def)
  next
    case (Some a)
    have "length ([] :: nat list) + length [1..<?n] \<le> capacity ca" by simp
    then obtain ca1 where "for_each (push_segment a) [1..<?n] ca = Return ca1" "holds ca1 (map (\<lambda>i. a + i * ?s) [1..<?n])" "same_array ca ca1"
      using push_segments [of ca "[]" "[1..<?n]" a] assms(3) by (auto simp: Nil sz)
    moreover have "handed {a..<a + ?s} ps S ps1 (S(i := segs_of k (map (\<lambda>i. a + i * ?s) [1..<?n])))"
      using t f n(1) assms(6,7) by (intro parts_refill [OF assms(1)]) (simp_all add: Some assms(5) Nil segs_of_def P)
    ultimately show ?thesis using rest t(2) by (auto simp: Some P)
  qed
qed

lemma array_dealloc_spec:
  assumes "parts_ok ps S" "holds ca xs" "nr_cont_frames ca = k" "S i = segs_of k xs"
    "segment_ok ps (addr, k * PAGE_SIZE)" "{addr..<addr + k * PAGE_SIZE} \<inter> all_mem ps S = {}"
    "array_dealloc num_cpus cpu ca ps addr = Return (ca', ps')"
  shows "\<exists>xs'. holds ca' xs' \<and> same_array ca ca' \<and> returned {addr..<addr + k * PAGE_SIZE} ps S ps' (S(i := segs_of k xs'))"
proof (cases "length xs = capacity ca")
  case False
  let ?x = "(addr, k * PAGE_SIZE)"
  have "length xs < capacity ca" using assms(2) False by (simp add: holds_def)
  with assms(2) obtain ca1 where c: "push_front ca addr = Return (Some ca1)" "holds ca1 (xs @ [addr])" "same_array ca ca1"
    by (rule push_front_room)
  have r: "ca' = ca1" "ps' = ps" using assms(7) by (simp_all add: array_dealloc_def c(1))
  have "segments_ok ps [?x]" "span [?x] \<inter> all_mem ps S = {}" using assms(5,6) by (simp_all add: segments_ok_def seg_def)
  then have "parts_ok ps (S(i := S i @ [?x]))" "all_mem ps (S(i := S i @ [?x])) = all_mem ps S \<union> span [?x]"
    by (rule parts_put [OF assms(1)])+
  then show ?thesis using c(2,3) by (intro exI [of _ "xs @ [addr]"]) (simp add: r assms(4) segs_of_def returned_def seg_def)
next
  case True
  let ?n = "capacity ca * 2 div 3" and ?x = "(addr, k * PAGE_SIZE)"
  define zs ys where "zs = take (capacity ca - ?n) xs" and "ys = drop (capacity ca - ?n) xs"
  have xs: "xs = zs @ ys" and n: "length ys = ?n" using True by (simp_all add: zs_def ys_def)
  have sz: "segment_size ca = k * PAGE_SIZE" by (simp add: segment_size_def assms(3))
  have "holds ca (zs @ ys)" using assms(2) by (simp add: xs)
  then obtain ca1 where c: "pop_segments ?n ca = Return (rev (segs_of k ys), ca1)" "holds ca1 zs" "same_array ca ca1"
    using pop_segments_spec [of ca zs ys] by (auto simp: n sz segs_of_def rev_map)
  have r: "ca' = ca1" "pools_dealloc num_cpus cpu ps (?x # rev (segs_of k ys)) = Return ps'"
    using assms(7) by (auto simp: array_dealloc_def push_front_full [OF assms(2) True] c(1) sz)
  have S: "S i = segs_of k zs @ segs_of k ys" by (simp add: assms(4) xs segs_of_def)
  note d = parts_drop [OF assms(1) S]
  let ?S = "S(i := segs_of k zs)" and ?R = "span (?x # rev (segs_of k ys))"
  have R: "?R = {addr..<addr + k * PAGE_SIZE} \<union> span (segs_of k ys)" by (simp add: seg_def)
  have "segments_ok ps ([?x] @ rev (segs_of k ys))"
    using assms(5,6) d(2,4) unfolding segments_ok_append segments_ok_rev by (auto simp: segments_ok_def seg_def)
  then have "added ?R (meta ps) (pool ps) (meta ps') (pool ps')"
    using pools_dealloc_returns [OF parts_okD(1) [OF assms(1)] _ r(2)] by simp
  moreover have "?R \<inter> all_mem ps ?S = {}" unfolding R using assms(6) d(2,3) by blast
  then have "?R \<inter> span (?S j) = {}" for j using span_all_mem [of ?S j ps] by blast
  ultimately have "returned ?R ps ?S ps' ?S" by (rule parts_added [OF d(1)])
  then have "returned {addr..<addr + k * PAGE_SIZE} ps S ps' ?S"
    using d(2) unfolding returned_def R by auto
  then show ?thesis using c(2,3) by (auto simp: r(1))
qed

section \<open>The allocator\<close>

definition arr :: "CacheOfSizes \<Rightarrow> nat \<Rightarrow> CacheArray" where
  "arr cs k = (if k = 1 then cache1 cs else if k = 2 then cache2 cs else if k = 3 then cache3 cs else cache4 cs)"

definition set_arr :: "CacheOfSizes \<Rightarrow> nat \<Rightarrow> CacheArray \<Rightarrow> CacheOfSizes" where
  "set_arr cs k ca = (if k = 1 then cs\<lparr>cache1 := ca\<rparr> else if k = 2 then cs\<lparr>cache2 := ca\<rparr>
     else if k = 3 then cs\<lparr>cache3 := ca\<rparr> else cs\<lparr>cache4 := ca\<rparr>)"

lemma arr_set_arr: "k \<in> {1..4} \<Longrightarrow> j \<in> {1..4} \<Longrightarrow> arr (set_arr cs k ca) j = (if j = k then ca else arr cs j)"
  by (auto simp: arr_def set_arr_def)

lemma small_count: "n \<in> {1..4} \<longleftrightarrow> n = 1 \<or> n = 2 \<or> n = 3 \<or> n = (4 :: nat)"
  by auto

lemma cache_alloc_arr:
  "cache_alloc num_cpus cpu cs ps len align =
     (if align \<le> len \<and> len div PAGE_SIZE \<in> {1..4}
      then rust_bind (array_alloc num_cpus cpu (arr cs (len div PAGE_SIZE)) ps) (\<lambda>(r, ca, ps).
             Return (r, set_arr cs (len div PAGE_SIZE) ca, ps))
      else rust_bind (pools_alloc num_cpus cpu ps len align) (\<lambda>(r, ps). Return (r, cs, ps)))"
  by (simp add: cache_alloc_def arr_def set_arr_def Let_def small_count not_less)

lemma cache_dealloc_arr:
  "cache_dealloc num_cpus cpu cs ps addr len =
     (if len div PAGE_SIZE \<in> {1..4}
      then rust_bind (array_dealloc num_cpus cpu (arr cs (len div PAGE_SIZE)) ps addr) (\<lambda>(ca, ps).
             Return (set_arr cs (len div PAGE_SIZE) ca, ps))
      else rust_bind (pools_dealloc num_cpus cpu ps [(addr, len)]) (\<lambda>ps. Return (cs, ps)))"
  by (simp add: cache_dealloc_def arr_def set_arr_def Let_def small_count)

definition stack :: "CacheArray \<Rightarrow> nat list" where
  "stack ca = map the (take (filled ca) (inner ca))"

lemma holds_stack: "holds ca xs \<Longrightarrow> stack ca = xs"
  by (simp add: holds_def stack_def comp_def)

definition cache_ok :: "CacheOfSizes \<Rightarrow> bool" where
  "cache_ok cs \<longleftrightarrow> (\<forall>k \<in> {1..4}. holds (arr cs k) (stack (arr cs k)) \<and> nr_cont_frames (arr cs k) = k
     \<and> capacity (arr cs k) = (if k = 1 then 12 else 6))"

definition cached :: "FrameAlloc \<Rightarrow> (nat \<times> nat) slots" where
  "cached st = (\<lambda>(cpu, k). if k \<in> {1..4} then segs_of k (stack (arr (caches st cpu) k)) else [])"

definition alloc_ok :: "FrameAlloc \<Rightarrow> bool" where
  "alloc_ok st \<longleftrightarrow> parts_ok (pools st) (cached st) \<and> (\<forall>cpu. cache_ok (caches st cpu))"

abbreviation free_of :: "FrameAlloc \<Rightarrow> nat set" where
  "free_of st \<equiv> all_mem (pools st) (cached st)"

lemma cached_cong:
  assumes "caches st' = caches st"
  shows "cached st' = cached st"
  unfolding cached_def assms ..

text \<open>Replacing one array of one CPU's cache.\<close>

lemma cached_upd:
  assumes "k \<in> {1..4}" "holds ca' xs" "caches st' = (caches st)(cpu := set_arr (caches st cpu) k ca')"
  shows "cached st' = (cached st)((cpu, k) := segs_of k xs)"
  using assms arr_set_arr [OF assms(1)] holds_stack [OF assms(2)] by (auto simp: cached_def fun_eq_iff)

lemma cache_ok_upd:
  assumes "cache_ok cs" "k \<in> {1..4}" "holds ca' xs" "same_array (arr cs k) ca'"
  shows "cache_ok (set_arr cs k ca')"
  using assms arr_set_arr [OF assms(2)] holds_stack [OF assms(3)] by (auto simp: cache_ok_def same_array_def)

lemma frame_alloc_spec:
  assumes "alloc_ok st" "free_of st \<subseteq> {..<2 ^ 64}" "PAGE_SIZE dvd len" "0 < len"
    "frame_alloc num_cpus cpu st len (2 ^ j) = Return (r, st')"
  shows "alloc_ok st' \<and> handed (case r of None \<Rightarrow> {} | Some a \<Rightarrow> {a..<a + len}) (pools st) (cached st) (pools st') (cached st')
    \<and> (\<forall>a. r = Some a \<longrightarrow> PAGE_SIZE dvd a)
    \<and> total_free_size st' = (if r = None then total_free_size st else counter_sub (total_free_size st) cpu len)"
proof -
  let ?k = "len div PAGE_SIZE"
  have len: "?k * PAGE_SIZE = len" using assms(3) by simp
  have parts: "parts_ok (pools st) (cached st)" and cok: "cache_ok (caches st cpu)" using assms(1) by (simp_all add: alloc_ok_def)
  obtain cs ps where c: "cache_alloc num_cpus cpu (caches st cpu) (pools st) len (2 ^ j) = Return (r, cs, ps)"
    and st': "pools st' = ps" "caches st' = (caches st)(cpu := cs)"
      "total_free_size st' = (if r = None then total_free_size st else counter_sub (total_free_size st) cpu len)"
    using assms(5) by (auto simp: frame_alloc_def Let_def)
  show ?thesis
  proof (cases "2 ^ j \<le> len \<and> ?k \<in> {1..4}")
    case True
    let ?ca = "arr (caches st cpu) ?k"
    obtain ca' where a: "array_alloc num_cpus cpu ?ca (pools st) = Return (r, ca', ps)" "cs = set_arr (caches st cpu) ?k ca'"
      using c True by (auto simp: cache_alloc_arr)
    have "holds ?ca (stack ?ca)" "nr_cont_frames ?ca = ?k" "6 \<le> capacity ?ca" "cached st (cpu, ?k) = segs_of ?k (stack ?ca)"
      using cok True by (auto simp: cache_ok_def cached_def)
    then obtain xs' where x: "holds ca' xs'" "same_array ?ca ca'" "\<forall>a. r = Some a \<longrightarrow> PAGE_SIZE dvd a"
      "handed (case r of None \<Rightarrow> {} | Some a \<Rightarrow> {a..<a + len}) (pools st) (cached st) ps ((cached st)((cpu, ?k) := segs_of ?k xs'))"
      using array_alloc_spec [OF parts assms(2) _ _ _ _ _ _ a(1), of "stack ?ca" ?k "(cpu, ?k)"] True unfolding len by auto
    have "cached st' = (cached st)((cpu, ?k) := segs_of ?k xs')" using True x(1) st'(2) by (intro cached_upd) (auto simp: a(2))
    moreover have "cache_ok cs" unfolding a(2) using cok True x(1,2) by (intro cache_ok_upd) auto
    ultimately show ?thesis using x(3,4) st' assms(1) by (simp add: alloc_ok_def handed_def)
  next
    case False
    then obtain p: "pools_alloc num_cpus cpu (pools st) len (2 ^ j) = Return (r, ps)" and cs: "cs = caches st cpu"
      using c by (auto simp: cache_alloc_arr split: if_splits)
    have "caches st' = caches st" using st'(2) cs by simp
    then have same: "caches st' = caches st" "cached st' = cached st" using cached_cong [of st' st] by simp_all
    have "free_mem (pools st) \<subseteq> {..<2 ^ 64}" using assms(2) by (auto simp: all_mem_def)
    note t = pools_alloc_returns [OF parts_okD(1) [OF parts] this assms(3,4) p]
    show ?thesis using parts_taken [OF parts t(1)] t(2) st' assms(1) by (simp add: same alloc_ok_def handed_def)
  qed
qed

lemma frame_dealloc_spec:
  assumes "alloc_ok st" "segment_ok (pools st) (addr, len)" "{addr..<addr + len} \<inter> free_of st = {}"
    "frame_dealloc num_cpus cpu st addr len = Return st'"
  shows "alloc_ok st' \<and> returned {addr..<addr + len} (pools st) (cached st) (pools st') (cached st')
    \<and> total_free_size st' = counter_add (total_free_size st) cpu len"
proof -
  let ?k = "len div PAGE_SIZE"
  have len: "?k * PAGE_SIZE = len" using assms(2) by (simp add: segment_ok_def)
  have parts: "parts_ok (pools st) (cached st)" and cok: "cache_ok (caches st cpu)" using assms(1) by (simp_all add: alloc_ok_def)
  obtain cs ps where c: "cache_dealloc num_cpus cpu (caches st cpu) (pools st) addr len = Return (cs, ps)"
    and st': "pools st' = ps" "caches st' = (caches st)(cpu := cs)" "total_free_size st' = counter_add (total_free_size st) cpu len"
    using assms(4) by (auto simp: frame_dealloc_def Let_def)
  show ?thesis
  proof (cases "?k \<in> {1..4}")
    case True
    let ?ca = "arr (caches st cpu) ?k"
    obtain ca' where a: "array_dealloc num_cpus cpu ?ca (pools st) addr = Return (ca', ps)" "cs = set_arr (caches st cpu) ?k ca'"
      using c True by (auto simp: cache_dealloc_arr)
    have "holds ?ca (stack ?ca)" "nr_cont_frames ?ca = ?k" "cached st (cpu, ?k) = segs_of ?k (stack ?ca)"
      using cok True by (auto simp: cache_ok_def cached_def)
    then obtain xs' where x: "holds ca' xs'" "same_array ?ca ca'"
      "returned {addr..<addr + len} (pools st) (cached st) ps ((cached st)((cpu, ?k) := segs_of ?k xs'))"
      using array_dealloc_spec [OF parts _ _ _ _ _ a(1), of "stack ?ca" ?k "(cpu, ?k)"] assms(2,3) unfolding len by auto
    have "cached st' = (cached st)((cpu, ?k) := segs_of ?k xs')" using True x(1) st'(2) by (intro cached_upd) (auto simp: a(2))
    moreover have "cache_ok cs" unfolding a(2) using cok True x(1,2) by (intro cache_ok_upd) auto
    ultimately show ?thesis using x(3) st' assms(1) by (simp add: alloc_ok_def returned_def)
  next
    case False
    then obtain p: "pools_dealloc num_cpus cpu (pools st) [(addr, len)] = Return ps" and cs: "cs = caches st cpu"
      using c by (auto simp: cache_dealloc_arr split: if_splits)
    have "caches st' = caches st" using st'(2) cs by simp
    then have same: "caches st' = caches st" "cached st' = cached st" using cached_cong [of st' st] by simp_all
    have "segments_ok (pools st) [(addr, len)]" using assms(2) by (simp add: segments_ok_def)
    then have "added {addr..<addr + len} (meta (pools st)) (pool (pools st)) (meta ps) (pool ps)"
      using pools_dealloc_returns [OF parts_okD(1) [OF parts] _ p] by (simp add: seg_def)
    moreover have "{addr..<addr + len} \<inter> span (cached st i) = {}" for i
      using assms(3) span_all_mem [of "cached st" i "pools st"] by blast
    ultimately have "returned {addr..<addr + len} (pools st) (cached st) ps (cached st)" by (rule parts_added [OF parts])
    then show ?thesis using st' assms(1) by (simp add: same alloc_ok_def returned_def)
  qed
qed

lemma frame_add_free_memory_spec:
  assumes "alloc_ok st" "segment_ok (pools st) (addr, len)" "{addr..<addr + len} \<inter> free_of st = {}"
  shows "\<exists>st'. frame_add_free_memory cpu st addr len = Return st' \<and> alloc_ok st'
    \<and> returned {addr..<addr + len} (pools st) (cached st) (pools st') (cached st')
    \<and> total_free_size st' = counter_add (total_free_size st) cpu len"
proof -
  have parts: "parts_ok (pools st) (cached st)" using assms(1) by (simp add: alloc_ok_def)
  obtain ps' where a: "add_free_memory (pools st) addr len = Return ps'"
    "added {addr..<addr + len} (meta (pools st)) (pool (pools st)) (meta ps') (pool ps')"
    using parts_okD(1) [OF parts] assms(2) by (rule add_free_memory_spec)
  let ?st = "st\<lparr>total_free_size := counter_add (total_free_size st) cpu len, pools := ps'\<rparr>"
  have same: "cached ?st = cached st" by (rule cached_cong) simp
  have "{addr..<addr + len} \<inter> span (cached st i) = {}" for i
    using assms(3) span_all_mem [of "cached st" i "pools st"] by blast
  with a(2) have r: "returned {addr..<addr + len} (pools st) (cached st) ps' (cached st)" by (rule parts_added [OF parts])
  then have "alloc_ok ?st" using assms(1) unfolding alloc_ok_def same by (simp add: returned_def)
  then show ?thesis using r a(1) unfolding frame_add_free_memory_def Let_def
    by (intro exI [of _ ?st]) (simp add: same)
qed

section \<open>The counter\<close>

definition counter_sum :: "nat \<Rightarrow> smp_counter \<Rightarrow> 64 word" where
  "counter_sum num_cpus ct = (\<Sum>cpu<num_cpus. ct cpu)"

lemma counter_sum_upd: "cpu < n \<Longrightarrow> counter_sum n (ct(cpu := ct cpu + d)) = counter_sum n ct + d"
  by (simp add: counter_sum_def sum.remove [of "{..<n}" cpu] add.commute add.left_commute)

lemma counter_sum_add: "cpu < n \<Longrightarrow> counter_sum n (counter_add ct cpu a) = counter_sum n ct + word_of_nat a"
  by (simp add: counter_add_def counter_sum_upd)

lemma counter_sum_sub: "cpu < n \<Longrightarrow> counter_sum n (counter_sub ct cpu a) = counter_sum n ct - word_of_nat a"
  using counter_sum_upd [of cpu n ct "- word_of_nat a"] by (simp add: counter_sub_def)

lemma counter_get_sum:
  assumes "counter_sum n ct = word_of_nat m" "m < 2 ^ 63"
  shows "counter_get n ct = m"
proof -
  have f: "fold (\<lambda>cpu total. total + ct cpu) [0..<k] s = s + counter_sum k ct" for k s
    by (induction k) (simp_all add: counter_sum_def add.assoc)
  have "unat (counter_sum n ct) = m" using assms by (simp add: unat_of_nat take_bit_nat_eq_self)
  moreover from this have "uint (counter_sum n ct) = int m" by (simp add: uint_nat)
  then have "sint (counter_sum n ct) = int m" using assms(2) by (simp add: sint_uint signed_take_bit_int_eq_self)
  ultimately show ?thesis unfolding counter_get_def f by simp
qed

section \<open>All histories\<close>

text \<open>
  Everything that can happen to the allocator and the ranges it has handed out: memory is added
  at boot, ranges are requested and given back on any CPU, and in between their owners use the
  frames' metadata and may split a range. Memory lies below 8 TiB, the largest block of the global
  pool. A range is given back when its frames are unused again.
\<close>

definition PHYS_LIMIT :: nat where "PHYS_LIMIT = 2 ^ 43"

definition owned_mem :: "(nat \<times> nat) set \<Rightarrow> nat set" where
  "owned_mem W = (\<Union>x \<in> W. seg x)"

definition boot_alloc :: FrameAlloc where
  "boot_alloc = \<lparr>pools = boot_pools, caches = (\<lambda>_. cache_new), total_free_size = (\<lambda>_. 0)\<rparr>"

inductive frames_reachable :: "nat \<Rightarrow> FrameAlloc \<Rightarrow> (nat \<times> nat) set \<Rightarrow> bool" for num_cpus where
  boot: "frames_reachable num_cpus boot_alloc {}"
| add: "frames_reachable num_cpus st W \<Longrightarrow> cpu < num_cpus \<Longrightarrow> PAGE_SIZE dvd addr \<Longrightarrow> PAGE_SIZE dvd len
    \<Longrightarrow> addr + len \<le> PHYS_LIMIT \<Longrightarrow> seg (addr, len) \<inter> (free_of st \<union> owned_mem W) = {} \<Longrightarrow> unused (meta (pools st)) (seg (addr, len))
    \<Longrightarrow> frame_add_free_memory cpu st addr len = Return st' \<Longrightarrow> frames_reachable num_cpus st' W"
| alloc: "frames_reachable num_cpus st W \<Longrightarrow> cpu < num_cpus \<Longrightarrow> PAGE_SIZE dvd len \<Longrightarrow> 0 < len
    \<Longrightarrow> frame_alloc num_cpus cpu st len (2 ^ j) = Return (Some a, st') \<Longrightarrow> frames_reachable num_cpus st' (insert (a, len) W)"
| fail: "frames_reachable num_cpus st W \<Longrightarrow> cpu < num_cpus \<Longrightarrow> PAGE_SIZE dvd len \<Longrightarrow> 0 < len
    \<Longrightarrow> frame_alloc num_cpus cpu st len (2 ^ j) = Return (None, st') \<Longrightarrow> frames_reachable num_cpus st' W"
| use: "frames_reachable num_cpus st W \<Longrightarrow> (\<forall>p. p \<notin> owned_mem W \<longrightarrow> fr p = meta (pools st) p)
    \<Longrightarrow> frames_reachable num_cpus (st\<lparr>pools := (pools st)\<lparr>meta := fr\<rparr>\<rparr>) W"
| split: "frames_reachable num_cpus st W \<Longrightarrow> (addr, len) \<in> W \<Longrightarrow> n < len \<Longrightarrow> PAGE_SIZE dvd n
    \<Longrightarrow> frames_reachable num_cpus st (insert (addr, n) (insert (addr + n, len - n) (W - {(addr, len)})))"
| dealloc: "frames_reachable num_cpus st W \<Longrightarrow> cpu < num_cpus \<Longrightarrow> (addr, len) \<in> W \<Longrightarrow> unused (meta (pools st)) (seg (addr, len))
    \<Longrightarrow> frame_dealloc num_cpus cpu st addr len = Return st' \<Longrightarrow> frames_reachable num_cpus st' (W - {(addr, len)})"

definition owned_ok :: "(nat \<times> nat) set \<Rightarrow> bool" where
  "owned_ok W \<longleftrightarrow> (\<forall>(a, n) \<in> W. PAGE_SIZE dvd a \<and> PAGE_SIZE dvd n \<and> a + n \<le> PHYS_LIMIT)
     \<and> (\<forall>x \<in> W. \<forall>y \<in> W. x \<noteq> y \<longrightarrow> seg x \<inter> seg y = {})"

definition history_ok :: "nat \<Rightarrow> FrameAlloc \<Rightarrow> (nat \<times> nat) set \<Rightarrow> bool" where
  "history_ok num_cpus st W \<longleftrightarrow> alloc_ok st \<and> free_of st \<subseteq> {..<PHYS_LIMIT} \<and> owned_ok W
     \<and> owned_mem W \<inter> free_of st = {} \<and> counter_sum num_cpus (total_free_size st) = word_of_nat (card (free_of st))"

lemma limit_segment: "n \<le> PHYS_LIMIT \<Longrightarrow> n < size_of_order MAX_BUDDY_ORDER \<and> n \<le> 2 ^ 64"
  by (simp add: PHYS_LIMIT_def size_of_order_def MAX_BUDDY_ORDER_def PAGE_SIZE_def)

lemma limit_segment_ok:
  assumes "PAGE_SIZE dvd a" "PAGE_SIZE dvd n" "a + n \<le> PHYS_LIMIT" "seg (a, n) \<inter> free_of st = {}" "unused (meta (pools st)) (seg (a, n))"
  shows "segment_ok (pools st) (a, n)" "{a..<a + n} \<inter> free_of st = {}"
proof -
  have "n \<le> PHYS_LIMIT" using assms(3) by simp
  then show "segment_ok (pools st) (a, n)" "{a..<a + n} \<inter> free_of st = {}"
    using assms limit_segment [of n] limit_segment [of "a + n"] by (auto simp: segment_ok_def seg_def all_mem_def)
qed

text \<open>The free bytes after a range has come in or gone out.\<close>

lemma card_returned:
  assumes "finite A" "{a..<a + n} \<inter> A = {}"
  shows "word_of_nat (card (A \<union> {a..<a + n})) = word_of_nat (card A) + (word_of_nat n :: 64 word)"
  using assms by (simp add: card_Un_disjoint Int_commute)

lemma card_handed:
  assumes "finite A" "{a..<a + n} \<subseteq> A"
  shows "word_of_nat (card (A - {a..<a + n})) = word_of_nat (card A) - (word_of_nat n :: 64 word)"
proof -
  have "card (A - {a..<a + n}) + n = card A"
    using assms card_mono [OF assms] by (simp add: card_Diff_subset)
  then show ?thesis by (metis add_diff_cancel_right' of_nat_add)
qed

lemma finite_limit: "A \<subseteq> {..<PHYS_LIMIT} \<Longrightarrow> finite A"
  using finite_subset [OF _ finite_lessThan [of PHYS_LIMIT]] .

lemma history_in:
  assumes "history_ok n st W" "cpu < n" "a + m \<le> PHYS_LIMIT" "{a..<a + m} \<inter> free_of st = {}" "alloc_ok st'"
    "returned {a..<a + m} (pools st) (cached st) (pools st') (cached st')"
    "total_free_size st' = counter_add (total_free_size st) cpu m"
    "owned_ok W'" "owned_mem W' \<inter> (free_of st \<union> {a..<a + m}) = {}"
  shows "history_ok n st' W'"
proof -
  have f: "free_of st' = free_of st \<union> {a..<a + m}" using assms(6) by (simp add: returned_def)
  have "finite (free_of st)" using assms(1) by (simp add: history_ok_def finite_limit)
  then have "counter_sum n (total_free_size st') = word_of_nat (card (free_of st'))"
    using assms(1,2,4,7) by (simp add: history_ok_def counter_sum_add f card_returned)
  moreover have "free_of st' \<subseteq> {..<PHYS_LIMIT}" using assms(1,3) by (auto simp: f history_ok_def)
  ultimately show ?thesis using assms(5,8,9) by (simp add: history_ok_def f)
qed

lemma history_add:
  assumes "history_ok n st W" "cpu < n" "PAGE_SIZE dvd a" "PAGE_SIZE dvd m" "a + m \<le> PHYS_LIMIT"
    "seg (a, m) \<inter> (free_of st \<union> owned_mem W) = {}" "unused (meta (pools st)) (seg (a, m))" "frame_add_free_memory cpu st a m = Return st'"
  shows "history_ok n st' W"
proof -
  have d: "seg (a, m) \<inter> free_of st = {}" using assms(6) by blast
  note s = limit_segment_ok [OF assms(3-5) d assms(7)]
  have "alloc_ok st" using assms(1) by (simp add: history_ok_def)
  with s obtain "alloc_ok st'" "returned {a..<a + m} (pools st) (cached st) (pools st') (cached st')"
    "total_free_size st' = counter_add (total_free_size st) cpu m"
    using frame_add_free_memory_spec [of st a m cpu] assms(8) by auto
  moreover have "owned_ok W" "owned_mem W \<inter> (free_of st \<union> {a..<a + m}) = {}"
    using assms(1,6) by (auto simp: history_ok_def seg_def)
  ultimately show ?thesis using history_in [OF assms(1,2,5) s(2)] by blast
qed

lemma owned_member:
  assumes "owned_ok W" "(a, m) \<in> W"
  shows "PAGE_SIZE dvd a" "PAGE_SIZE dvd m" "a + m \<le> PHYS_LIMIT" "seg (a, m) \<subseteq> owned_mem W"
    "seg (a, m) \<inter> owned_mem (W - {(a, m)}) = {}"
proof -
  show "PAGE_SIZE dvd a" "PAGE_SIZE dvd m" "a + m \<le> PHYS_LIMIT" "seg (a, m) \<subseteq> owned_mem W"
    using assms by (auto simp: owned_ok_def owned_mem_def)
  have "seg (a, m) \<inter> seg x = {}" if "x \<in> W - {(a, m)}" for x
    using assms that by (auto simp: owned_ok_def)
  then show "seg (a, m) \<inter> owned_mem (W - {(a, m)}) = {}" unfolding owned_mem_def by blast
qed

lemma owned_ok_remove: "owned_ok W \<Longrightarrow> owned_ok (W - X)"
  unfolding owned_ok_def by blast

lemma owned_ok_insert:
  assumes "owned_ok W" "PAGE_SIZE dvd a" "PAGE_SIZE dvd m" "a + m \<le> PHYS_LIMIT" "seg (a, m) \<inter> owned_mem W = {}"
  shows "owned_ok (insert (a, m) W)" "owned_mem (insert (a, m) W) = seg (a, m) \<union> owned_mem W"
proof -
  have "seg (a, m) \<inter> seg x = {}" if "x \<in> W" for x using assms(5) that unfolding owned_mem_def by blast
  moreover from this have "seg x \<inter> seg (a, m) = {}" if "x \<in> W" for x using that by blast
  ultimately show "owned_ok (insert (a, m) W)" using assms(1-4) unfolding owned_ok_def by simp
qed (simp add: owned_mem_def)

lemma history_dealloc:
  assumes "history_ok n st W" "cpu < n" "(a, m) \<in> W" "unused (meta (pools st)) (seg (a, m))"
    "frame_dealloc n cpu st a m = Return st'"
  shows "history_ok n st' (W - {(a, m)})"
proof -
  have ok: "alloc_ok st" "owned_ok W" "owned_mem W \<inter> free_of st = {}" using assms(1) by (simp_all add: history_ok_def)
  note o = owned_member [OF ok(2) assms(3)]
  have d: "seg (a, m) \<inter> free_of st = {}" using o(4) ok(3) by blast
  note s = limit_segment_ok [OF o(1-3) d assms(4)]
  have r: "alloc_ok st'" "returned {a..<a + m} (pools st) (cached st) (pools st') (cached st')"
    "total_free_size st' = counter_add (total_free_size st) cpu m"
    using frame_dealloc_spec [OF ok(1) s assms(5)] by simp_all
  have "owned_mem (W - {(a, m)}) \<subseteq> owned_mem W" by (auto simp: owned_mem_def)
  then have "owned_mem (W - {(a, m)}) \<inter> (free_of st \<union> {a..<a + m}) = {}" using ok(3) o(5) by (auto simp: seg_def)
  then show ?thesis using history_in [OF assms(1,2) o(3) s(2) r owned_ok_remove [OF ok(2)]] by blast
qed

lemma history_alloc:
  assumes "history_ok n st W" "cpu < n" "PAGE_SIZE dvd m" "0 < m" "frame_alloc n cpu st m (2 ^ j) = Return (r, st')"
  shows "history_ok n st' (case r of None \<Rightarrow> W | Some a \<Rightarrow> insert (a, m) W)"
proof -
  let ?R = "case r of None \<Rightarrow> {} | Some a \<Rightarrow> {a..<a + m}"
  have ok: "alloc_ok st" "owned_ok W" "owned_mem W \<inter> free_of st = {}" "free_of st \<subseteq> {..<PHYS_LIMIT}"
    "counter_sum n (total_free_size st) = word_of_nat (card (free_of st))" using assms(1) by (simp_all add: history_ok_def)
  have "free_of st \<subseteq> {..<2 ^ 64}" using ok(4) limit_segment [of PHYS_LIMIT] by fastforce
  then have s: "alloc_ok st'" "handed ?R (pools st) (cached st) (pools st') (cached st')" "\<forall>a. r = Some a \<longrightarrow> PAGE_SIZE dvd a"
    "total_free_size st' = (if r = None then total_free_size st else counter_sub (total_free_size st) cpu m)"
    using frame_alloc_spec [OF ok(1) _ assms(3-5)] by simp_all
  have f: "free_of st' = free_of st - ?R" "?R \<subseteq> free_of st" using s(2) by (simp_all add: handed_def)
  show ?thesis
  proof (cases r)
    case None
    then show ?thesis using ok s(1,4) f by (simp add: history_ok_def)
  next
    case (Some a)
    have sub: "{a..<a + m} \<subseteq> free_of st" using f(2) Some by simp
    have "a + m - 1 \<in> {a..<a + m}" using assms(4) unfolding atLeastLessThan_iff by linarith
    then have "a + m - 1 < PHYS_LIMIT" using sub ok(4) by blast
    then have lim: "a + m \<le> PHYS_LIMIT" using assms(4) by simp
    have "seg (a, m) \<inter> owned_mem W = {}" using sub ok(3) by (auto simp: seg_def)
    note o = owned_ok_insert [OF ok(2) _ assms(3) lim this]
    have "counter_sum n (total_free_size st') = word_of_nat (card (free_of st'))"
      using card_handed [OF finite_limit [OF ok(4)] sub] ok(5) assms(2) by (simp add: s(4) Some f(1) counter_sum_sub)
    moreover have "owned_mem (insert (a, m) W) \<inter> free_of st' = {}" using o(2) s(3) ok(3) Some f(1) by (auto simp: seg_def)
    ultimately show ?thesis using o(1) s(1,3) ok(4) f(1) Some by (auto simp: history_ok_def)
  qed
qed

lemma parts_ok_frame:
  assumes "parts_ok ps S" "\<forall>p. p \<in> all_mem ps S \<longrightarrow> fr p = meta ps p"
  shows "parts_ok (ps\<lparr>meta := fr\<rparr>) S"
proof -
  have "set_ok fr (pool ps w)" for w
    by (rule set_ok_frame [OF all_okD(1) [OF parts_okD(1) [OF assms(1)]]])
       (use assms(2) avail_all_free [of "pool ps" w] in \<open>auto simp: all_mem_def\<close>)
  then have "all_ok fr (pool ps)" using parts_okD(1) [OF assms(1)] by (simp add: all_ok_def)
  moreover have "segment_ok (ps\<lparr>meta := fr\<rparr>) x" if x: "x \<in> set (S i)" for x i
  proof -
    obtain a n where an: "x = (a, n)" by (cases x)
    have "seg x \<subseteq> all_mem ps S" using seg_span [OF x] span_all_mem [of S i ps] by blast
    moreover have "segment_ok ps x" using parts_okD(2) [OF assms(1), of i] x by (simp add: segments_ok_def)
    ultimately show ?thesis using assms(2) by (auto simp: an segment_ok_def seg_def unused_def)
  qed
  ultimately show ?thesis using assms(1) by (simp add: parts_ok_def segments_ok_def)
qed

lemma history_use:
  assumes "history_ok n st W" "\<forall>p. p \<notin> owned_mem W \<longrightarrow> fr p = meta (pools st) p"
  shows "history_ok n (st\<lparr>pools := (pools st)\<lparr>meta := fr\<rparr>\<rparr>) W"
proof -
  let ?st = "st\<lparr>pools := (pools st)\<lparr>meta := fr\<rparr>\<rparr>"
  have c: "cached ?st = cached st" by (rule cached_cong) simp
  have "\<forall>p. p \<in> free_of st \<longrightarrow> fr p = meta (pools st) p" using assms by (auto simp: history_ok_def)
  then have "parts_ok ((pools st)\<lparr>meta := fr\<rparr>) (cached st)"
    using assms(1) by (intro parts_ok_frame) (simp_all add: history_ok_def alloc_ok_def)
  then have "alloc_ok ?st" using assms(1) unfolding alloc_ok_def c by (simp add: history_ok_def alloc_ok_def)
  moreover have "free_of ?st = free_of st" unfolding c by (simp add: all_mem_def)
  ultimately show ?thesis using assms(1) by (simp add: history_ok_def)
qed

lemma history_split:
  assumes "history_ok n st W" "(a, m) \<in> W" "k < m" "PAGE_SIZE dvd k"
  shows "history_ok n st (insert (a, k) (insert (a + k, m - k) (W - {(a, m)})))"
proof -
  have ok: "owned_ok W" "owned_mem W \<inter> free_of st = {}" using assms(1) by (simp_all add: history_ok_def)
  note o = owned_member [OF ok(1) assms(2)]
  have s: "seg (a, m) = seg (a, k) \<union> seg (a + k, m - k)" "seg (a, k) \<inter> seg (a + k, m - k) = {}"
    using assms(3) by (auto simp: seg_def)
  have "PAGE_SIZE dvd a + k" "PAGE_SIZE dvd m - k" "a + k + (m - k) \<le> PHYS_LIMIT" "a + k \<le> PHYS_LIMIT"
    "seg (a + k, m - k) \<inter> owned_mem (W - {(a, m)}) = {}"
    using o assms(3,4) s(1) by (auto intro: dvd_diff_nat)
  note w1 = owned_ok_insert [OF owned_ok_remove [OF ok(1)] this(1-3,5)]
  have "seg (a, k) \<inter> owned_mem (insert (a + k, m - k) (W - {(a, m)})) = {}" unfolding w1(2) using o(5) s by blast
  note w2 = owned_ok_insert [OF w1(1) o(1) assms(4) \<open>a + k \<le> PHYS_LIMIT\<close> this]
  have "owned_mem (W - {(a, m)}) \<subseteq> owned_mem W" by (auto simp: owned_mem_def)
  then have "owned_mem (insert (a, k) (insert (a + k, m - k) (W - {(a, m)}))) \<inter> free_of st = {}"
    unfolding w2(2) w1(2) using o(4) s(1) ok(2) by blast
  then show ?thesis using assms(1) w2(1) by (simp add: history_ok_def)
qed

lemma holds_new: "holds (array_new nr count) []"
  by (simp add: holds_def array_new_def)

lemma boot_cache: "cache_ok cache_new" "cached boot_alloc = (\<lambda>_. [])"
proof -
  have h: "holds (arr cache_new k) []" for k by (simp add: arr_def cache_new_def holds_new)
  then have s: "stack (arr cache_new k) = []" for k by (rule holds_stack)
  show "cache_ok cache_new" using h s by (auto simp: cache_ok_def) (auto simp: arr_def cache_new_def array_new_def)
  show "cached boot_alloc = (\<lambda>_. [])" by (auto simp: cached_def boot_alloc_def s segs_of_def fun_eq_iff)
qed

lemma free_boot: "free_of boot_alloc = {}"
  unfolding boot_cache(2) by (simp add: all_mem_def boot_alloc_def)

lemma history_boot: "history_ok n boot_alloc {}"
proof -
  have "parts_ok (pools boot_alloc) (cached boot_alloc)"
    unfolding boot_cache(2) by (simp add: boot_alloc_def parts_ok_def segments_ok_def)
  then have "alloc_ok boot_alloc" by (simp add: alloc_ok_def boot_alloc_def boot_cache(1))
  then show ?thesis unfolding history_ok_def free_boot
    by (simp add: boot_alloc_def owned_ok_def owned_mem_def counter_sum_def)
qed

lemma reachable_history: "frames_reachable num_cpus st W \<Longrightarrow> history_ok num_cpus st W"
proof (induction rule: frames_reachable.induct)
  case boot
  show ?case by (rule history_boot)
next
  case (add st W cpu addr len st')
  show ?case by (rule history_add [OF add.IH add.hyps(2-8)])
next
  case (alloc st W cpu len j a st')
  then show ?case using history_alloc [of num_cpus st W cpu len j "Some a" st'] by simp
next
  case (fail st W cpu len j st')
  then show ?case using history_alloc [of num_cpus st W cpu len j None st'] by simp
next
  case (use st W fr)
  then show ?case by (intro history_use)
next
  case (split st W addr len n)
  then show ?case by (intro history_split)
next
  case (dealloc st W cpu addr len st')
  show ?case by (rule history_dealloc [OF dealloc.IH dealloc.hyps(2-5)])
qed


text \<open>Sixteen pages as one chunk, of which a refill of the three-page cache takes twelve.\<close>

abbreviation sixteen_pages :: Pools where
  "sixteen_pages \<equiv> one_chunk 65536 4"

definition sixteen_alloc :: FrameAlloc where
  "sixteen_alloc = boot_alloc\<lparr>total_free_size := counter_add (\<lambda>_. 0) 0 65536, pools := sixteen_pages\<rparr>"

lemma sixteen_ok: "pools_ok sixteen_pages" "free_mem sixteen_pages = {65536..<131072}"
  "add_free_memory boot_pools 65536 65536 = Return sixteen_pages"
  using one_chunk_ok [of 4 65536] one_chunk_add [of 4 65536] by (simp_all add: size_of_order_def PAGE_SIZE_def region_def)

lemma twelve_of_sixteen:
  "\<exists>ps1. alloc_take 0 (guard_new sixteen_pages) 49152 4096 = Return (Some 65536, ps1) \<and> get_global_size ps1 = 0"
proof -
  let ?ps = "(guard_get sixteen_pages)\<lparr>meta := \<lambda>_. Unused, global_pool := \<lparr>max_order = 32, total_size = 0, lists = (\<lambda>_. [])\<rparr>\<rparr>"
  have o: "alloc_order 49152 4096 = 4"
    using trailing_zeros_pow [of 0] trailing_zeros_pow [of 4]
    by (simp add: alloc_order_def greater_order_of_def next_power_of_two_def PAGE_SIZE_def bit_len.simps)
  have s: "size_of_order 2 = 16384" "size_of_order 4 = 65536" by (simp_all add: size_of_order_def PAGE_SIZE_def)
  have "local_pools sixteen_pages 0 = new_empty 18" by (simp add: one_chunk_def boot_pools_def MAX_LOCAL_BUDDY_ORDER_def)
  then obtain ps1 where d: "do_dealloc 0 ?ps [(114688, 16384)] = Return ps1"
    using split_one [of 2 114688] insert_one [of 2 114688 18]
    by (simp add: do_dealloc_def dealloc_segment_def local_insert_def s MAX_LOCAL_BUDDY_ORDER_def)
  then have "get_global_size ps1 = 0"
    using dealloc_one [of 2 114688 0 ?ps ps1] by (simp add: s MAX_LOCAL_BUDDY_ORDER_def get_global_size_def guard_get_def)
  then show ?thesis
    using d one_chunk_take [OF one_chunk_whole [of 4 65536], of 0] by (simp add: alloc_take_def o s)
qed

lemma sixteen_refill:
  obtains ps' where "pools_alloc 1 0 sixteen_pages 49152 4096 = Return (Some 65536, ps')"
proof -
  obtain ps1 where a: "alloc_take 0 (guard_new sixteen_pages) 49152 4096 = Return (Some 65536, ps1)" "get_global_size ps1 = 0"
    using twelve_of_sixteen by blast
  then have "\<not> low_memory 1 0 ps1" by (simp add: low_memory_def cache_expected_size_def Let_def)
  moreover have "free_mem sixteen_pages \<subseteq> {..<2 ^ 64}" "PAGE_SIZE dvd 49152" unfolding sixteen_ok(2) by (auto simp: PAGE_SIZE_def)
  ultimately show thesis using pools_alloc_spec [OF sixteen_ok(1), of 49152 0 12 1] a(1) that by auto
qed

lemma sixteen_first:
  obtains st' where "frame_alloc 1 0 sixteen_alloc 12288 8192 = Return (Some 65536, st')"
proof -
  obtain ps' where p: "pools_alloc 1 0 sixteen_pages 49152 4096 = Return (Some 65536, ps')" by (rule sixteen_refill)
  have h: "holds (array_new 3 6) []" by (rule holds_new)
  obtain ca' where "for_each (push_segment 65536) [1..<4] (array_new 3 6) = Return ca'"
    using push_segments [OF h, of "[1..<4]" 65536] by (auto simp: array_new_def)
  then have "array_alloc 1 0 (array_new 3 6) sixteen_pages = Return (Some 65536, ca', ps')"
    using p pop_front_empty [OF h] by (simp add: array_alloc_def segment_size_def PAGE_SIZE_def) (simp add: array_new_def)
  then show thesis using that
    by (simp add: frame_alloc_def sixteen_alloc_def boot_alloc_def cache_alloc_def cache_new_def PAGE_SIZE_def Let_def)
qed

lemma sixteen_reachable: "frames_reachable 1 sixteen_alloc {}"
proof (rule frames_reachable.add [OF frames_reachable.boot, of 0 1 65536 65536])
  show "seg (65536, 65536) \<inter> (free_of boot_alloc \<union> owned_mem {}) = {}"
    by (simp add: free_boot owned_mem_def)
  show "frame_add_free_memory 0 boot_alloc 65536 65536 = Return sixteen_alloc"
    using sixteen_ok(3) by (simp add: frame_add_free_memory_def sixteen_alloc_def boot_alloc_def Let_def)
qed (simp_all add: PAGE_SIZE_def PHYS_LIMIT_def unused_def boot_alloc_def boot_pools_meta)


text \<open>
  C34. A cached segment ignores the alignment asked for. When a CPU's cache of three-page segments
  is empty and a request for three pages aligned to two succeeds, the next such request on that
  CPU is answered from the cache with the address nine pages above, so that one of the two
  addresses is not aligned.
\<close>

theorem cache_loses_alignment:
  assumes "alloc_ok st" "stack (cache3 (caches st cpu)) = []" "frame_alloc num_cpus cpu st 12288 8192 = Return (Some a, st1)"
  shows "\<exists>st2. frame_alloc num_cpus cpu st1 12288 8192 = Return (Some (a + 36864), st2) \<and> \<not> (8192 dvd a \<and> 8192 dvd a + 36864)"
proof -
  let ?ca = "cache3 (caches st cpu)"
  have ca: "holds ?ca []" "nr_cont_frames ?ca = 3" "capacity ?ca = 6"
    using assms(1,2) by (auto simp: alloc_ok_def cache_ok_def arr_def dest!: bspec [of _ _ 3] spec [of _ cpu])
  have s: "segment_size ?ca = 12288" using ca(2) by (simp add: segment_size_def PAGE_SIZE_def)
  have "[1..<4] = [1, 2, 3 :: nat]" by (simp add: upt_rec)
  then obtain ca1 where c1: "for_each (push_segment a) [1..<4] ?ca = Return ca1" "holds ca1 ([a + 12288, a + 24576] @ [a + 36864])" "same_array ?ca ca1"
    using push_segments [OF ca(1), of "[1..<4]" a] ca(3) s by auto
  obtain cs ps where f: "cache_alloc num_cpus cpu (caches st cpu) (pools st) 12288 8192 = Return (Some a, cs, ps)"
    "caches st1 = (caches st)(cpu := cs)"
    using assms(3) by (auto simp: frame_alloc_def Let_def)
  then obtain ca' where "array_alloc num_cpus cpu ?ca (pools st) = Return (Some a, ca', ps)" "cs = (caches st cpu)\<lparr>cache3 := ca'\<rparr>"
    by (auto simp: cache_alloc_def PAGE_SIZE_def Let_def)
  moreover from this have "ca' = ca1" using pop_front_empty [OF ca(1)] ca(3) c1(1)
    by (auto simp: array_alloc_def Let_def split: option.splits)
  ultimately have "cache3 (caches st1 cpu) = ca1" using f(2) by simp
  moreover obtain ca2 where "pop_front ca1 = Return (Some (a + 36864), ca2)" using c1(2) by (rule pop_front_some)
  ultimately have "\<exists>st2. frame_alloc num_cpus cpu st1 12288 8192 = Return (Some (a + 36864), st2)"
    by (simp add: frame_alloc_def cache_alloc_def array_alloc_def PAGE_SIZE_def Let_def)
  moreover have "\<not> (8192 dvd a \<and> 8192 dvd a + 36864)" using dvd_add_right_iff [of 8192 a 36864] by auto
  ultimately show ?thesis by blast
qed

theorem cache_loses_alignment_witness:
  "\<exists>st1 st2. frame_alloc 1 0 sixteen_alloc 12288 8192 = Return (Some 65536, st1)
     \<and> frame_alloc 1 0 st1 12288 8192 = Return (Some 102400, st2) \<and> \<not> 8192 dvd (102400 :: nat)"
proof -
  obtain st1 where f: "frame_alloc 1 0 sixteen_alloc 12288 8192 = Return (Some 65536, st1)" by (rule sixteen_first)
  have "alloc_ok sixteen_alloc" using reachable_history [OF sixteen_reachable] by (simp add: history_ok_def)
  moreover have "stack (cache3 (caches sixteen_alloc 0)) = []"
    by (simp add: sixteen_alloc_def boot_alloc_def cache_new_def array_new_def stack_def)
  ultimately show ?thesis using cache_loses_alignment [OF _ _ f] f by fastforce
qed

end
