(* ===== verification/Capabilities.thy ===== *)
theory Capabilities
  imports Kei_Prelude
begin

text \<open>
  Capability sets and secure bits of a POSIX thread
  (\<^verbatim>\<open>kernel/src/process/credentials/capabilities.rs\<close> and \<^verbatim>\<open>secure_bits.rs\<close>).

  Both are \<^verbatim>\<open>bitflags!\<close> types over an unsigned integer, kept here as words of the same width.
  The atomic cells that hold them convert what they load with \<^verbatim>\<open>try_into().unwrap()\<close>, so a stored
  value with a bit outside the declared flags would make every later load panic;
  \<^verbatim>\<open>capset_ok\<close> and \<^verbatim>\<open>securebits_ok\<close> say that the conversion succeeds, and the lemmas
  below show that each operation of the two types keeps them.
\<close>

section \<open>Errors\<close>

text \<open>
  The errors the credential operations make themselves, and those they pass on from the user
  memory or the file system.
\<close>

datatype CredErrno = EPERM | EINVAL | ESRCH | OtherErrno int

section \<open>Capability sets\<close>

type_synonym CapSet = u64

definition CHOWN :: CapSet where "CHOWN = push_bit 0 1"
definition DAC_OVERRIDE :: CapSet where "DAC_OVERRIDE = push_bit 1 1"
definition DAC_READ_SEARCH :: CapSet where "DAC_READ_SEARCH = push_bit 2 1"
definition FOWNER :: CapSet where "FOWNER = push_bit 3 1"
definition FSETID :: CapSet where "FSETID = push_bit 4 1"
definition SETGID :: CapSet where "SETGID = push_bit 6 1"
definition SETUID :: CapSet where "SETUID = push_bit 7 1"
definition SETPCAP :: CapSet where "SETPCAP = push_bit 8 1"
definition LINUX_IMMUTABLE :: CapSet where "LINUX_IMMUTABLE = push_bit 9 1"
definition SYS_PTRACE :: CapSet where "SYS_PTRACE = push_bit 19 1"
definition MKNOD :: CapSet where "MKNOD = push_bit 27 1"
definition MAC_OVERRIDE :: CapSet where "MAC_OVERRIDE = push_bit 32 1"

lemmas cap_flag_defs = CHOWN_def DAC_OVERRIDE_def DAC_READ_SEARCH_def FOWNER_def FSETID_def
  SETGID_def SETUID_def SETPCAP_def LINUX_IMMUTABLE_def SYS_PTRACE_def MKNOD_def MAC_OVERRIDE_def

text \<open>The flags are the bits 0 to 40, one for each capability number.\<close>

definition capset_all :: CapSet where
  "capset_all = foldr (\<lambda>n s. push_bit n 1 OR s) [0..<41] 0"

definition most_significant_bit :: u8 where
  "most_significant_bit = 40"

definition MASK :: u64 where
  "MASK = push_bit (unat (most_significant_bit + 1)) 1 - 1"

definition capset_from_bits_truncate :: "u64 \<Rightarrow> CapSet" where
  "capset_from_bits_truncate bits = bits AND capset_all"

definition capset_from_bits :: "u64 \<Rightarrow> CapSet option" where
  "capset_from_bits bits = (if bits AND NOT capset_all = 0 then Some bits else None)"

text \<open>The set operators of a \<^verbatim>\<open>bitflags!\<close> type: difference, and complement within the flags.\<close>

definition capset_diff :: "CapSet \<Rightarrow> CapSet \<Rightarrow> CapSet" where
  "capset_diff a b = a AND NOT b"

definition capset_compl :: "CapSet \<Rightarrow> CapSet" where
  "capset_compl a = capset_from_bits_truncate (NOT a)"

definition from_lo_hi :: "u32 \<Rightarrow> u32 \<Rightarrow> CapSet" where
  "from_lo_hi lo hi =
     (let bits = ucast lo OR push_bit 32 (ucast hi) in capset_from_bits_truncate bits)"

definition to_lo_hi :: "CapSet \<Rightarrow> u32 \<times> u32" where
  "to_lo_hi c = (ucast c, ucast (drop_bit 32 c))"

definition capset_new_root :: CapSet where
  "capset_new_root = capset_all"

definition from_capability_number :: "u64 \<Rightarrow> CapSet option rust" where
  "from_capability_number capability =
     (if ucast most_significant_bit < capability then Return None
      else case capset_from_bits (push_bit (unat capability) 1) of
        None \<Rightarrow> Panic | Some c \<Rightarrow> Return (Some c))"

datatype InvalidCapSetError = InvalidCapSetError

definition capset_try_from :: "u64 \<Rightarrow> InvalidCapSetError + CapSet" where
  "capset_try_from value = (if value AND NOT MASK \<noteq> 0 then Inl InvalidCapSetError else Inr value)"

section \<open>Secure bits\<close>

type_synonym SecureBits = u16

definition NOROOT :: SecureBits where "NOROOT = push_bit 0 1"
definition NOROOT_LOCKED :: SecureBits where "NOROOT_LOCKED = push_bit 1 1"
definition NO_SETUID_FIXUP :: SecureBits where "NO_SETUID_FIXUP = push_bit 2 1"
definition NO_SETUID_FIXUP_LOCKED :: SecureBits where "NO_SETUID_FIXUP_LOCKED = push_bit 3 1"
definition KEEP_CAPS :: SecureBits where "KEEP_CAPS = push_bit 4 1"
definition KEEP_CAPS_LOCKED :: SecureBits where "KEEP_CAPS_LOCKED = push_bit 5 1"
definition NO_CAP_AMBIENT_RAISE :: SecureBits where "NO_CAP_AMBIENT_RAISE = push_bit 6 1"
definition NO_CAP_AMBIENT_RAISE_LOCKED :: SecureBits where "NO_CAP_AMBIENT_RAISE_LOCKED = push_bit 7 1"

lemmas securebit_flag_defs = NOROOT_def NOROOT_LOCKED_def NO_SETUID_FIXUP_def
  NO_SETUID_FIXUP_LOCKED_def KEEP_CAPS_def KEEP_CAPS_LOCKED_def NO_CAP_AMBIENT_RAISE_def
  NO_CAP_AMBIENT_RAISE_LOCKED_def

definition securebits_all :: SecureBits where
  "securebits_all = NOROOT OR NOROOT_LOCKED OR NO_SETUID_FIXUP OR NO_SETUID_FIXUP_LOCKED
     OR KEEP_CAPS OR KEEP_CAPS_LOCKED OR NO_CAP_AMBIENT_RAISE OR NO_CAP_AMBIENT_RAISE_LOCKED"

definition LOCK_MASK :: u16 where
  "LOCK_MASK = 0b10101010"

definition ALL_VALID_BITS :: u16 where
  "ALL_VALID_BITS = LOCK_MASK OR drop_bit 1 LOCK_MASK"

definition securebits_new_empty :: SecureBits where
  "securebits_new_empty = 0"

definition locked_bits :: "SecureBits \<Rightarrow> SecureBits" where
  "locked_bits bits = drop_bit 1 (bits AND LOCK_MASK) AND securebits_all"

definition no_root :: "SecureBits \<Rightarrow> bool" where
  "no_root bits \<longleftrightarrow> contains bits NOROOT"

definition keep_capabilities :: "SecureBits \<Rightarrow> bool" where
  "keep_capabilities bits \<longleftrightarrow> contains bits KEEP_CAPS"

definition no_setuid_fixup :: "SecureBits \<Rightarrow> bool" where
  "no_setuid_fixup bits \<longleftrightarrow> contains bits NO_SETUID_FIXUP"

definition securebits_try_from :: "u16 \<Rightarrow> CredErrno + SecureBits" where
  "securebits_try_from value = (if value AND NOT ALL_VALID_BITS \<noteq> 0 then Inl EINVAL else Inr value)"

text \<open>\<^verbatim>\<open>AtomicSecureBits::try_store\<close>, from the current bits to the stored ones.\<close>

definition try_store :: "SecureBits \<Rightarrow> SecureBits \<Rightarrow> CredErrno + SecureBits" where
  "try_store current bits =
     (let locked = locked_bits current
      in if locked AND current \<noteq> locked AND bits then Inl EPERM
         else if LOCK_MASK AND current AND NOT bits \<noteq> 0 then Inl EPERM
         else Inr bits)"

section \<open>Well-formed sets\<close>

text \<open>What the \<^verbatim>\<open>try_into().unwrap()\<close> of a load requires of the stored value.\<close>

definition capset_ok :: "u64 \<Rightarrow> bool" where
  "capset_ok c \<longleftrightarrow> capset_try_from c = Inr c"

definition securebits_ok :: "u16 \<Rightarrow> bool" where
  "securebits_ok b \<longleftrightarrow> securebits_try_from b = Inr b"

lemma capset_all_eq: "capset_all = mask 41"
  by (simp add: capset_all_def upt_conv_Cons mask_eq_exp_minus_1 push_bit_eq_mult)

lemma MASK_eq: "MASK = mask 41"
  by (simp add: MASK_def most_significant_bit_def mask_eq_exp_minus_1)

lemma securebits_all_eq: "securebits_all = 255" and ALL_VALID_BITS_eq: "ALL_VALID_BITS = 255"
  by (simp_all add: securebits_all_def ALL_VALID_BITS_def LOCK_MASK_def securebit_flag_defs
      drop_bit_eq_div)

lemma word_and_not_zero_iff: "a AND NOT b = 0 \<longleftrightarrow> contains b a" for a b :: "'w::len word"
  by (auto simp: contains_iff bit_eq_iff bit_simps dest: bit_imp_le_length)

lemma capset_ok_iff: "capset_ok c \<longleftrightarrow> contains capset_all c"
  by (simp add: capset_ok_def capset_try_from_def word_and_not_zero_iff MASK_eq capset_all_eq)

lemma securebits_ok_iff: "securebits_ok b \<longleftrightarrow> contains ALL_VALID_BITS b"
  by (simp add: securebits_ok_def securebits_try_from_def word_and_not_zero_iff)

lemma contains_and [simp]: "contains a (a AND b)" "contains b (a AND b)"
  by (simp_all add: contains_iff bit_simps)

lemma contains_or_iff [simp]: "contains a (b OR c) \<longleftrightarrow> contains a b \<and> contains a c"
  by (auto simp: contains_iff bit_simps)

lemma contains_orI: "contains a c \<Longrightarrow> contains (a OR b) c" "contains b c \<Longrightarrow> contains (a OR b) c"
  by (auto simp: contains_iff bit_simps)

lemma contains_diff [simp]: "contains a (capset_diff a b)"
  by (simp add: capset_diff_def)

lemma contains_andI: "contains a b \<Longrightarrow> contains a (b AND c)" "contains a c \<Longrightarrow> contains a (b AND c)"
  by (auto simp: contains_iff bit_simps)

lemma contains_diffI: "contains a b \<Longrightarrow> contains a (capset_diff b c)"
  by (simp add: capset_diff_def contains_andI)

lemma capset_ok_simps [simp]: "capset_ok 0" "capset_ok capset_all" "capset_ok capset_new_root"
  by (simp_all add: capset_ok_iff capset_new_root_def)

lemma capset_ok_truncate [simp]: "capset_ok (capset_from_bits_truncate b)"
  by (simp add: capset_ok_iff capset_from_bits_truncate_def)

lemma capset_ok_from_lo_hi [simp]: "capset_ok (from_lo_hi lo hi)"
  by (simp add: from_lo_hi_def)

lemma capset_ok_contains: "capset_ok a \<Longrightarrow> contains a b \<Longrightarrow> capset_ok b"
  by (auto simp: capset_ok_iff intro: contains_trans)

lemma contains_capset_all: "capset_ok a \<Longrightarrow> contains capset_all a"
  by (simp add: capset_ok_iff)

lemma truncate_ok: "capset_ok c \<Longrightarrow> capset_from_bits_truncate c = c"
  by (simp add: capset_ok_iff contains_def capset_from_bits_truncate_def and.commute)

text \<open>The 32-bit halves of \<^verbatim>\<open>capget\<close> and \<^verbatim>\<open>capset\<close> lose nothing of a capability set.\<close>

lemma lo_hi_join: "(ucast (ucast c :: u32) OR push_bit 32 (ucast (ucast (drop_bit 32 c) :: u32))) = c"
  for c :: u64
  by (rule bit_word_eqI) (auto simp: bit_simps)

lemma from_to_lo_hi: "capset_ok c \<Longrightarrow> from_lo_hi (fst (to_lo_hi c)) (snd (to_lo_hi c)) = c"
  by (simp add: from_lo_hi_def to_lo_hi_def lo_hi_join truncate_ok)

lemma from_capability_number_eq:
  "from_capability_number n = Return (if n \<le> 40 then Some (push_bit (unat n) 1) else None)"
proof (cases "n \<le> 40")
  case True
  then have "unat n < 41" by (simp add: word_le_nat_alt)
  then have "contains capset_all (push_bit (unat n) 1)"
    by (auto simp: contains_iff capset_all_eq bit_simps)
  with True show ?thesis
    by (simp add: from_capability_number_def most_significant_bit_def capset_from_bits_def
        word_and_not_zero_iff not_less)
qed (simp add: from_capability_number_def most_significant_bit_def not_le)

lemma contains_flag: "n < LENGTH('w) \<Longrightarrow> contains w (push_bit n 1) \<longleftrightarrow> bit w n" for w :: "'w::len word"
  by (auto simp: contains_iff bit_simps)

lemma contains_cap_bit:
  "contains c SETUID \<longleftrightarrow> bit c 7" "contains c SETGID \<longleftrightarrow> bit c 6" "contains c SETPCAP \<longleftrightarrow> bit c 8"
  unfolding SETUID_def SETGID_def SETPCAP_def by (rule contains_flag; simp)+

section \<open>Locked bits\<close>

text \<open>
  What a store keeps: every lock bit that is set stays set, and a bit under such a lock keeps
  its value.
\<close>

definition locks_kept :: "SecureBits \<Rightarrow> SecureBits \<Rightarrow> bool" where
  "locks_kept old new \<longleftrightarrow>
     contains new (old AND LOCK_MASK) \<and> locked_bits old AND new = locked_bits old AND old"

lemma try_store_eq: "try_store current bits = (if locks_kept current bits then Inr bits else Inl EPERM)"
proof -
  have "LOCK_MASK AND current AND NOT bits = 0 \<longleftrightarrow> contains bits (current AND LOCK_MASK)"
    using word_and_not_zero_iff [of "current AND LOCK_MASK" bits]
    by (simp add: and.assoc and.commute and.left_commute)
  then show ?thesis unfolding try_store_def locks_kept_def Let_def by auto
qed

lemma locks_kept_refl [simp]: "locks_kept b b"
  by (simp add: locks_kept_def)

text \<open>The positions of the bits that have a lock, which is the next bit.\<close>

definition lockable :: "nat \<Rightarrow> bool" where
  "lockable n \<longleftrightarrow> n = 0 \<or> n = 2 \<or> n = 4 \<or> n = 6"

lemma lockable_less: "lockable n \<Longrightarrow> n < 8" "lockable n \<Longrightarrow> n < 16"
  by (auto simp: lockable_def)

lemma bit_LOCK_MASK: "bit LOCK_MASK n \<longleftrightarrow> (\<exists>m. n = Suc m \<and> lockable m)"
proof -
  have eq: "LOCK_MASK = push_bit 1 1 OR push_bit 3 1 OR push_bit 5 1 OR push_bit 7 1"
    by (simp add: LOCK_MASK_def)
  have "bit LOCK_MASK n \<longleftrightarrow> n = 1 \<or> n = 3 \<or> n = 5 \<or> n = 7"
    unfolding eq bit_or_iff bit_push_bit_iff bit_1_iff by auto
  then show ?thesis by (cases n) (auto simp: lockable_def)
qed

lemma bit_securebits_all: "bit securebits_all n \<longleftrightarrow> n < 8"
proof -
  have eq: "securebits_all = mask 8" by (simp add: securebits_all_eq mask_eq_exp_minus_1)
  show ?thesis unfolding eq by (auto simp: bit_mask_iff)
qed

lemma bit_locked_bits: "bit (locked_bits b) n \<longleftrightarrow> lockable n \<and> bit b (Suc n)"
  unfolding locked_bits_def bit_and_iff bit_drop_bit_eq comp_def bit_LOCK_MASK bit_securebits_all
  by (auto dest: lockable_less)

lemma locks_kept_iff:
  "locks_kept old new \<longleftrightarrow>
     (\<forall>n. lockable n \<longrightarrow> bit old (Suc n) \<longrightarrow> bit new (Suc n) \<and> (bit new n \<longleftrightarrow> bit old n))"
proof -
  have "contains new (old AND LOCK_MASK) \<longleftrightarrow> (\<forall>n. lockable n \<longrightarrow> bit old (Suc n) \<longrightarrow> bit new (Suc n))"
    unfolding contains_iff bit_and_iff bit_LOCK_MASK by blast
  moreover have "locked_bits old AND new = locked_bits old AND old \<longleftrightarrow>
      (\<forall>n. lockable n \<longrightarrow> bit old (Suc n) \<longrightarrow> (bit new n \<longleftrightarrow> bit old n))"
    unfolding bit_eq_iff [of "locked_bits old AND new"] bit_and_iff bit_locked_bits
    by (simp, blast dest: lockable_less)
  ultimately show ?thesis unfolding locks_kept_def by blast
qed

lemma locks_kept_trans: "locks_kept a b \<Longrightarrow> locks_kept b c \<Longrightarrow> locks_kept a c"
  by (auto simp: locks_kept_iff)

text \<open>Clearing \<^verbatim>\<open>KEEP_CAPS\<close> fails exactly when it is set and locked.\<close>

lemma contains_keep_caps:
  "contains b KEEP_CAPS \<longleftrightarrow> bit b 4" "contains b KEEP_CAPS_LOCKED \<longleftrightarrow> bit b 5"
  unfolding KEEP_CAPS_def KEEP_CAPS_LOCKED_def by (rule contains_flag; simp)+

lemma clear_keep_caps:
  "try_store b (b AND NOT KEEP_CAPS) =
     (if contains b KEEP_CAPS \<and> contains b KEEP_CAPS_LOCKED then Inl EPERM else Inr (b AND NOT KEEP_CAPS))"
proof -
  have bit_K: "bit KEEP_CAPS n \<longleftrightarrow> n = 4" for n
    unfolding KEEP_CAPS_def bit_push_bit_iff bit_1_iff by auto
  have "locks_kept b (b AND NOT KEEP_CAPS) \<longleftrightarrow> \<not> (bit b 4 \<and> bit b 5)"
    unfolding locks_kept_iff bit_and_iff bit_not_iff bit_K possible_bit_word
    by (auto simp: lockable_def dest: bit_imp_le_length)
  then show ?thesis by (simp add: try_store_eq contains_keep_caps)
qed

end
