(* ===== verification/Credentials.thy ===== *)
theory Credentials
  imports Capabilities
begin

text \<open>
  The credentials of a POSIX thread (\<^verbatim>\<open>kernel/src/process/credentials/credentials_.rs\<close>, with the
  rights-checked wrappers of \<^verbatim>\<open>static_cap.rs\<close>): user and group IDs, supplementary groups, the four
  capability sets and the secure bits.

  A thread changes only its own credentials, so an operation is a function from the credentials
  before to the credentials after and the result; an operation that returns an error still says
  what the credentials are. The lemmas give the exact effect of each operation, its error
  condition, and that it keeps \<^verbatim>\<open>cred_ok\<close>, which makes every load of an atomic cell succeed.
\<close>

type_synonym Uid = u32
type_synonym Gid = u32

definition is_root :: "Uid \<Rightarrow> bool" where
  "is_root uid \<longleftrightarrow> uid = 0"

record Credentials =
  ruid :: Uid
  euid :: Uid
  suid :: Uid
  fsuid :: Uid
  rgid :: Gid
  egid :: Gid
  sgid :: Gid
  fsgid :: Gid
  supplementary_gids :: "Gid set"
  inheritable_capset :: CapSet
  permitted_capset :: CapSet
  effective_capset :: CapSet
  bounding_capset :: CapSet
  securebits :: SecureBits

type_synonym ('s, 'a) call = "'s \<times> (CredErrno + 'a)"
type_synonym 'a cred_call = "(Credentials, 'a) call"

text \<open>The \<^verbatim>\<open>?\<close> operator: the rest of a function runs only after a success.\<close>

definition try_then :: "('s, 'a) call \<Rightarrow> ('s \<Rightarrow> 'a \<Rightarrow> ('s, 'b) call) \<Rightarrow> ('s, 'b) call" where
  "try_then m k = (case m of (c, Inl e) \<Rightarrow> (c, Inl e) | (c, Inr x) \<Rightarrow> k c x)"

lemma try_then_simps [simp]: "try_then (c, Inl e) k = (c, Inl e)" "try_then (c, Inr x) k = k c x"
  by (simp_all add: try_then_def)

lemma try_then_cases:
  obtains (error) e where "snd m = Inl e" "try_then m k = (fst m, Inl e)"
    | (ok) x where "snd m = Inr x" "try_then m k = k (fst m) x"
  by (cases m; cases "snd m") (auto simp: try_then_def)

definition AMBIENT_CAPSET :: CapSet where
  "AMBIENT_CAPSET = 0"

definition cred_new :: "Uid \<Rightarrow> Gid \<Rightarrow> CapSet \<Rightarrow> Credentials" where
  "cred_new uid gid capset =
     \<lparr>ruid = uid, euid = uid, suid = uid, fsuid = uid, rgid = gid, egid = gid, sgid = gid, fsgid = gid,
      supplementary_gids = {gid}, inheritable_capset = 0, permitted_capset = capset,
      effective_capset = capset, bounding_capset = capset_all, securebits = securebits_new_empty\<rparr>"

definition cred_new_root :: Credentials where
  "cred_new_root = cred_new 0 0 capset_new_root"

definition cred_clone :: "Credentials \<Rightarrow> Credentials" where
  "cred_clone c =
     \<lparr>ruid = ruid c, euid = euid c, suid = suid c, fsuid = fsuid c, rgid = rgid c, egid = egid c,
      sgid = sgid c, fsgid = fsgid c, supplementary_gids = supplementary_gids c,
      inheritable_capset = inheritable_capset c, permitted_capset = permitted_capset c,
      effective_capset = effective_capset c, bounding_capset = bounding_capset c,
      securebits = securebits c\<rparr>"

section \<open>User IDs\<close>

definition fs_capset :: CapSet where
  "fs_capset = CHOWN OR DAC_OVERRIDE OR FOWNER OR DAC_READ_SEARCH OR FSETID OR LINUX_IMMUTABLE
     OR MAC_OVERRIDE OR MKNOD"

definition set_fsuid_unchecked :: "Credentials \<Rightarrow> Uid \<Rightarrow> Credentials" where
  "set_fsuid_unchecked c f =
     (let old_fsuid = fsuid c; c = c\<lparr>fsuid := f\<rparr>
      in if is_root old_fsuid \<and> \<not> is_root f
         then c\<lparr>effective_capset := capset_diff (effective_capset c) fs_capset\<rparr> else c)"

definition set_resuid_unchecked ::
  "Credentials \<Rightarrow> Uid option \<Rightarrow> Uid option \<Rightarrow> Uid option \<Rightarrow> Credentials" where
  "set_resuid_unchecked c r e s =
     (let old_ruid = ruid c; old_euid = euid c; old_suid = suid c;
          new_ruid = (case r of Some u \<Rightarrow> u | None \<Rightarrow> old_ruid);
          new_euid = (case e of Some u \<Rightarrow> u | None \<Rightarrow> old_euid);
          new_suid = (case s of Some u \<Rightarrow> u | None \<Rightarrow> old_suid);
          c = set_fsuid_unchecked (c\<lparr>ruid := new_ruid, euid := new_euid, suid := new_suid\<rparr>) new_euid
      in if no_setuid_fixup (securebits c) then c
         else
           let had_root = (is_root old_ruid \<or> is_root old_euid \<or> is_root old_suid);
               all_nonroot = (\<not> is_root new_ruid \<and> \<not> is_root new_euid \<and> \<not> is_root new_suid);
               c = (if had_root \<and> all_nonroot \<and> \<not> keep_capabilities (securebits c)
                    then c\<lparr>permitted_capset := 0, inheritable_capset := 0\<rparr> else c)
           in if is_root old_euid \<and> \<not> is_root new_euid then c\<lparr>effective_capset := 0\<rparr>
              else if \<not> is_root old_euid \<and> is_root new_euid
              then c\<lparr>effective_capset := permitted_capset c\<rparr>
              else c)"

definition check_uid_perm ::
  "Credentials \<Rightarrow> Uid option \<Rightarrow> Uid option \<Rightarrow> Uid option \<Rightarrow> bool \<Rightarrow> CredErrno + unit" where
  "check_uid_perm c r e s ruid_may_be_old_suid =
     (if contains (effective_capset c) SETUID then Inr ()
      else if (case r of Some u \<Rightarrow> u \<noteq> ruid c \<and> u \<noteq> euid c \<and> (\<not> ruid_may_be_old_suid \<or> u \<noteq> suid c)
               | None \<Rightarrow> False) then Inl EPERM
      else if (case e of Some u \<Rightarrow> u \<noteq> ruid c \<and> u \<noteq> euid c \<and> u \<noteq> suid c | None \<Rightarrow> False) then Inl EPERM
      else if (case s of Some u \<Rightarrow> u \<noteq> ruid c \<and> u \<noteq> euid c \<and> u \<noteq> suid c | None \<Rightarrow> False) then Inl EPERM
      else Inr ())"

definition set_resuid ::
  "Credentials \<Rightarrow> Uid option \<Rightarrow> Uid option \<Rightarrow> Uid option \<Rightarrow> unit cred_call" where
  "set_resuid c r e s =
     try_then (c, check_uid_perm c r e s True) (\<lambda>c _. (set_resuid_unchecked c r e s, Inr ()))"

definition set_reuid :: "Credentials \<Rightarrow> Uid option \<Rightarrow> Uid option \<Rightarrow> unit cred_call" where
  "set_reuid c r e =
     try_then (c, check_uid_perm c r e None False) (\<lambda>c _.
       let should_set_suid = (r \<noteq> None \<or> (case e of Some u \<Rightarrow> u \<noteq> ruid c | None \<Rightarrow> False));
           s = (if should_set_suid then Some (case e of Some u \<Rightarrow> u | None \<Rightarrow> euid c) else None)
       in (set_resuid_unchecked c r e s, Inr ()))"

definition set_uid :: "Credentials \<Rightarrow> Uid \<Rightarrow> unit cred_call" where
  "set_uid c uid =
     (if contains (effective_capset c) SETUID
      then (set_resuid_unchecked c (Some uid) (Some uid) (Some uid), Inr ())
      else set_resuid c None (Some uid) None)"

text \<open>Both outcomes of \<^verbatim>\<open>set_fsuid\<close> carry the previous filesystem UID.\<close>

definition set_fsuid :: "Credentials \<Rightarrow> Uid option \<Rightarrow> Credentials \<times> (Uid + Uid)" where
  "set_fsuid c f =
     (let old_fsuid = fsuid c
      in case f of
        None \<Rightarrow> (c, Inr old_fsuid)
      | Some f \<Rightarrow>
          if contains (effective_capset c) SETUID then (set_fsuid_unchecked c f, Inr old_fsuid)
          else if f \<noteq> ruid c \<and> f \<noteq> euid c \<and> f \<noteq> suid c then (c, Inl old_fsuid)
          else (set_fsuid_unchecked c f, Inr old_fsuid))"

definition set_euid :: "Credentials \<Rightarrow> Uid \<Rightarrow> Credentials" where
  "set_euid c e = set_resuid_unchecked c None (Some e) None"

definition set_suid :: "Credentials \<Rightarrow> Uid \<Rightarrow> Credentials" where
  "set_suid c s =
     (let c = set_resuid_unchecked c None None (Some s);
          (file_permitted, file_inheritable) =
            (if (is_root (euid c) \<or> is_root (ruid c)) \<and> \<not> no_root (securebits c)
             then (capset_all, capset_all) else (0, 0));
          file_effective =
            (if is_root (euid c) \<and> \<not> no_root (securebits c) then capset_all else 0);
          new_permitted = (inheritable_capset c AND file_inheritable)
            OR (file_permitted AND bounding_capset c) OR AMBIENT_CAPSET;
          new_effective = (file_effective AND new_permitted)
            OR (capset_compl file_effective AND AMBIENT_CAPSET)
      in c\<lparr>permitted_capset := new_permitted, effective_capset := new_effective\<rparr>)"

definition reset_suid :: "Credentials \<Rightarrow> Credentials" where
  "reset_suid c = set_suid c (euid c)"

section \<open>Group IDs\<close>

definition set_fsgid_unchecked :: "Credentials \<Rightarrow> Gid \<Rightarrow> Credentials" where
  "set_fsgid_unchecked c f = c\<lparr>fsgid := f\<rparr>"

definition set_resgid_unchecked ::
  "Credentials \<Rightarrow> Gid option \<Rightarrow> Gid option \<Rightarrow> Gid option \<Rightarrow> Credentials" where
  "set_resgid_unchecked c r e s =
     (let c = (case r of Some g \<Rightarrow> c\<lparr>rgid := g\<rparr> | None \<Rightarrow> c);
          c = (case e of Some g \<Rightarrow> c\<lparr>egid := g\<rparr> | None \<Rightarrow> c);
          c = (case s of Some g \<Rightarrow> c\<lparr>sgid := g\<rparr> | None \<Rightarrow> c)
      in set_fsgid_unchecked c (egid c))"

definition check_gid_perm ::
  "Credentials \<Rightarrow> Gid option \<Rightarrow> Gid option \<Rightarrow> Gid option \<Rightarrow> bool \<Rightarrow> CredErrno + unit" where
  "check_gid_perm c r e s rgid_may_be_old_sgid =
     (if contains (effective_capset c) SETGID then Inr ()
      else if (case r of Some g \<Rightarrow> g \<noteq> rgid c \<and> g \<noteq> egid c \<and> (\<not> rgid_may_be_old_sgid \<or> g \<noteq> sgid c)
               | None \<Rightarrow> False) then Inl EPERM
      else if (case e of Some g \<Rightarrow> g \<noteq> rgid c \<and> g \<noteq> egid c \<and> g \<noteq> sgid c | None \<Rightarrow> False) then Inl EPERM
      else if (case s of Some g \<Rightarrow> g \<noteq> rgid c \<and> g \<noteq> egid c \<and> g \<noteq> sgid c | None \<Rightarrow> False) then Inl EPERM
      else Inr ())"

definition set_resgid ::
  "Credentials \<Rightarrow> Gid option \<Rightarrow> Gid option \<Rightarrow> Gid option \<Rightarrow> unit cred_call" where
  "set_resgid c r e s =
     try_then (c, check_gid_perm c r e s True) (\<lambda>c _. (set_resgid_unchecked c r e s, Inr ()))"

definition set_regid :: "Credentials \<Rightarrow> Gid option \<Rightarrow> Gid option \<Rightarrow> unit cred_call" where
  "set_regid c r e =
     try_then (c, check_gid_perm c r e None False) (\<lambda>c _.
       let should_set_sgid = (r \<noteq> None \<or> (case e of Some g \<Rightarrow> g \<noteq> rgid c | None \<Rightarrow> False));
           s = (if should_set_sgid then Some (case e of Some g \<Rightarrow> g | None \<Rightarrow> egid c) else None)
       in (set_resgid_unchecked c r e s, Inr ()))"

definition set_gid :: "Credentials \<Rightarrow> Gid \<Rightarrow> unit cred_call" where
  "set_gid c gid =
     (if contains (effective_capset c) SETGID
      then (set_resgid_unchecked c (Some gid) (Some gid) (Some gid), Inr ())
      else set_resgid c None (Some gid) None)"

definition set_fsgid :: "Credentials \<Rightarrow> Gid option \<Rightarrow> Credentials \<times> (Gid + Gid)" where
  "set_fsgid c f =
     (let old_fsgid = fsgid c
      in case f of
        None \<Rightarrow> (c, Inr old_fsgid)
      | Some f \<Rightarrow>
          if f = old_fsgid then (c, Inr old_fsgid)
          else if contains (effective_capset c) SETGID then (set_fsgid_unchecked c f, Inr old_fsgid)
          else if f \<noteq> rgid c \<and> f \<noteq> egid c \<and> f \<noteq> sgid c then (c, Inl old_fsgid)
          else (set_fsgid_unchecked c f, Inr old_fsgid))"

definition set_egid :: "Credentials \<Rightarrow> Gid \<Rightarrow> Credentials" where
  "set_egid c e = set_resgid_unchecked c None (Some e) None"

definition set_sgid :: "Credentials \<Rightarrow> Gid \<Rightarrow> Credentials" where
  "set_sgid c s = set_resgid_unchecked c None None (Some s)"

definition reset_sgid :: "Credentials \<Rightarrow> Credentials" where
  "reset_sgid c = set_sgid c (egid c)"

section \<open>Capabilities and secure bits\<close>

definition drop_bounding_capability :: "Credentials \<Rightarrow> CapSet \<Rightarrow> unit cred_call" where
  "drop_bounding_capability c capability =
     (if \<not> contains (effective_capset c) SETPCAP then (c, Inl EPERM)
      else (c\<lparr>bounding_capset := capset_diff (bounding_capset c) capability\<rparr>, Inr ()))"

definition securebits_try_store :: "Credentials \<Rightarrow> SecureBits \<Rightarrow> unit cred_call" where
  "securebits_try_store c bits =
     (case try_store (securebits c) bits of
        Inl e \<Rightarrow> (c, Inl e) | Inr bits \<Rightarrow> (c\<lparr>securebits := bits\<rparr>, Inr ()))"

definition set_keep_capabilities :: "Credentials \<Rightarrow> bool \<Rightarrow> unit cred_call" where
  "set_keep_capabilities c keep =
     securebits_try_store c
       (if \<not> keep then securebits c AND NOT KEEP_CAPS else securebits c OR KEEP_CAPS)"

definition set_securebits :: "Credentials \<Rightarrow> SecureBits \<Rightarrow> unit cred_call" where
  "set_securebits c bits =
     (if \<not> contains (effective_capset c) SETPCAP then (c, Inl EPERM)
      else securebits_try_store c bits)"

section \<open>Effect of the operations\<close>

lemma cred_clone_eq [simp]: "cred_clone c = c"
  by (simp add: cred_clone_def)

definition uids :: "Credentials \<Rightarrow> Uid set" where
  "uids c = {ruid c, euid c, suid c}"

definition gids :: "Credentials \<Rightarrow> Gid set" where
  "gids c = {rgid c, egid c, sgid c}"

text \<open>The ID an optional argument stands for.\<close>

definition id_or :: "'a option \<Rightarrow> 'a \<Rightarrow> 'a" where
  "id_or x old = (case x of Some u \<Rightarrow> u | None \<Rightarrow> old)"

lemma id_or_simps [simp]: "id_or (Some u) old = u" "id_or None old = old"
  by (simp_all add: id_or_def)

text \<open>
  The capability rules of a UID change: the set the permitted and inheritable capabilities are
  cut down to, and the effective set.
\<close>

definition loses_root :: "Credentials \<Rightarrow> Uid \<Rightarrow> Uid \<Rightarrow> Uid \<Rightarrow> bool" where
  "loses_root c r e s \<longleftrightarrow>
     \<not> no_setuid_fixup (securebits c) \<and> \<not> keep_capabilities (securebits c) \<and> 0 \<in> uids c \<and> 0 \<notin> {r, e, s}"

definition fixed_effective :: "Credentials \<Rightarrow> Uid \<Rightarrow> CapSet \<Rightarrow> CapSet" where
  "fixed_effective c e new_permitted =
     (if \<not> no_setuid_fixup (securebits c) \<and> euid c = 0 \<and> e \<noteq> 0 then 0
      else if \<not> no_setuid_fixup (securebits c) \<and> euid c \<noteq> 0 \<and> e = 0 then new_permitted
      else if fsuid c = 0 \<and> e \<noteq> 0 then capset_diff (effective_capset c) fs_capset
      else effective_capset c)"

lemma set_fsuid_unchecked_eq:
  "set_fsuid_unchecked c f =
     c\<lparr>fsuid := f,
       effective_capset := (if fsuid c = 0 \<and> f \<noteq> 0 then capset_diff (effective_capset c) fs_capset
                            else effective_capset c)\<rparr>"
  by (simp add: set_fsuid_unchecked_def is_root_def Let_def)

lemma set_resuid_unchecked_eq:
  "set_resuid_unchecked c r e s =
     (let r' = id_or r (ruid c); e' = id_or e (euid c); s' = id_or s (suid c);
          p = (if loses_root c r' e' s' then 0 else permitted_capset c)
      in c\<lparr>ruid := r', euid := e', suid := s', fsuid := e',
           inheritable_capset := (if loses_root c r' e' s' then 0 else inheritable_capset c),
           permitted_capset := p, effective_capset := fixed_effective c e' p\<rparr>)"
proof -
  have eqs: "(case r of Some u \<Rightarrow> u | None \<Rightarrow> ruid c) = id_or r (ruid c)"
    "(case e of Some u \<Rightarrow> u | None \<Rightarrow> euid c) = id_or e (euid c)"
    "(case s of Some u \<Rightarrow> u | None \<Rightarrow> suid c) = id_or s (suid c)"
    by (simp_all add: id_or_def)
  show ?thesis
    unfolding set_resuid_unchecked_def eqs Let_def set_fsuid_unchecked_eq is_root_def
    by (cases "no_setuid_fixup (securebits c)"; cases "euid c = 0"; cases "id_or e (euid c) = 0")
      (simp_all add: loses_root_def fixed_effective_def uids_def)
qed

lemma set_resgid_unchecked_eq:
  "set_resgid_unchecked c r e s =
     c\<lparr>rgid := id_or r (rgid c), egid := id_or e (egid c), sgid := id_or s (sgid c),
       fsgid := id_or e (egid c)\<rparr>"
  by (simp add: set_resgid_unchecked_def set_fsgid_unchecked_def id_or_def Let_def split: option.split)

lemma check_uid_perm_eq:
  "check_uid_perm c r e s b =
     (if contains (effective_capset c) SETUID
        \<or> set_option r \<subseteq> {ruid c, euid c} \<union> (if b then {suid c} else {})
          \<and> set_option e \<subseteq> uids c \<and> set_option s \<subseteq> uids c
      then Inr () else Inl EPERM)"
  by (simp add: check_uid_perm_def uids_def split: option.split)

lemma check_gid_perm_eq:
  "check_gid_perm c r e s b =
     (if contains (effective_capset c) SETGID
        \<or> set_option r \<subseteq> {rgid c, egid c} \<union> (if b then {sgid c} else {})
          \<and> set_option e \<subseteq> gids c \<and> set_option s \<subseteq> gids c
      then Inr () else Inl EPERM)"
  by (simp add: check_gid_perm_def gids_def split: option.split)

lemma and_distrib_both: "(i AND a) OR (a AND b) = a AND (i OR b)" for a b i :: "'w::len word"
  by (rule bit_word_eqI) (auto simp: bit_simps)

lemma and_absorb: "a AND (a AND b) = a AND b" for a b :: "'w::len word"
  by (rule bit_word_eqI) (auto simp: bit_simps)

lemma set_suid_eq:
  "set_suid c s =
     (let c = set_resuid_unchecked c None None (Some s);
          p = (if (euid c = 0 \<or> ruid c = 0) \<and> \<not> no_root (securebits c)
               then capset_all AND (inheritable_capset c OR bounding_capset c) else 0)
      in c\<lparr>permitted_capset := p,
           effective_capset := (if euid c = 0 \<and> \<not> no_root (securebits c) then p else 0)\<rparr>)"
  by (auto simp: set_suid_def Let_def is_root_def AMBIENT_CAPSET_def and_distrib_both and_absorb)

section \<open>What an operation keeps\<close>

text \<open>Every atomic cell holds a value its load accepts.\<close>

definition cred_ok :: "Credentials \<Rightarrow> bool" where
  "cred_ok c \<longleftrightarrow> capset_ok (inheritable_capset c) \<and> capset_ok (permitted_capset c)
     \<and> capset_ok (effective_capset c) \<and> capset_ok (bounding_capset c) \<and> securebits_ok (securebits c)"

text \<open>No capability appears that the thread could not already use.\<close>

definition shrinks :: "Credentials \<Rightarrow> Credentials \<Rightarrow> bool" where
  "shrinks c c' \<longleftrightarrow> contains (permitted_capset c) (permitted_capset c')
     \<and> contains (effective_capset c OR permitted_capset c) (effective_capset c')"

text \<open>
  The contract of an operation a thread calls on its own credentials. It keeps them well formed,
  adds no capability, respects the locks, and without the set-ID capabilities only moves the IDs
  among the ones the thread has.
\<close>

definition confined :: "Credentials \<Rightarrow> Credentials \<Rightarrow> bool" where
  "confined c c' \<longleftrightarrow> (cred_ok c \<longrightarrow> cred_ok c') \<and> shrinks c c'
     \<and> contains (bounding_capset c) (bounding_capset c') \<and> locks_kept (securebits c) (securebits c')
     \<and> (\<not> contains (effective_capset c) SETUID \<longrightarrow>
          uids c' \<subseteq> uids c \<and> fsuid c' \<in> insert (fsuid c) (uids c))
     \<and> (\<not> contains (effective_capset c) SETGID \<longrightarrow>
          gids c' \<subseteq> gids c \<and> fsgid c' \<in> insert (fsgid c) (gids c)
          \<and> supplementary_gids c' = supplementary_gids c)"

lemma cred_ok_new [simp]: "capset_ok caps \<Longrightarrow> cred_ok (cred_new u g caps)"
  by (simp add: cred_ok_def cred_new_def securebits_new_empty_def securebits_ok_iff)

lemma confined_refl [simp]: "confined c c"
  by (simp add: confined_def shrinks_def contains_orI)

lemma shrinks_trans: "shrinks a b \<Longrightarrow> shrinks b c \<Longrightarrow> shrinks a c"
  by (auto simp: shrinks_def contains_iff bit_simps)

lemma fixed_effective_contained:
  "contains (permitted_capset c) p \<Longrightarrow> contains (effective_capset c OR permitted_capset c) (fixed_effective c e p)"
  by (auto simp: fixed_effective_def contains_diffI contains_orI)

lemma capset_ok_fixed_effective:
  "capset_ok (effective_capset c) \<Longrightarrow> capset_ok p \<Longrightarrow> capset_ok (fixed_effective c e p)"
  by (auto simp: fixed_effective_def intro: capset_ok_contains)

lemma cred_ok_set_resuid_unchecked [inv_intros]: "cred_ok c \<Longrightarrow> cred_ok (set_resuid_unchecked c r e s)"
  by (simp add: set_resuid_unchecked_eq cred_ok_def Let_def capset_ok_fixed_effective)

lemma shrinks_set_resuid_unchecked: "shrinks c (set_resuid_unchecked c r e s)"
  by (simp add: set_resuid_unchecked_eq shrinks_def Let_def fixed_effective_contained)

lemma confined_set_resuid_unchecked:
  assumes "\<not> contains (effective_capset c) SETUID \<Longrightarrow>
    {id_or r (ruid c), id_or e (euid c), id_or s (suid c)} \<subseteq> uids c"
  shows "confined c (set_resuid_unchecked c r e s)"
  unfolding confined_def
  using assms shrinks_set_resuid_unchecked cred_ok_set_resuid_unchecked
  by (simp add: set_resuid_unchecked_eq Let_def uids_def gids_def)

lemma confined_set_fsuid_unchecked:
  assumes "\<not> contains (effective_capset c) SETUID \<Longrightarrow> f \<in> uids c"
  shows "confined c (set_fsuid_unchecked c f)"
  using assms
  by (auto simp: set_fsuid_unchecked_eq confined_def shrinks_def cred_ok_def uids_def gids_def contains_orI
      contains_diffI intro: capset_ok_contains)

lemma id_or_subset: "set_option x \<subseteq> A \<Longrightarrow> old \<in> A \<Longrightarrow> id_or x old \<in> A"
  by (cases x) auto

lemma confined_set_resuid: "confined c (fst (set_resuid c r e s))"
  by (auto simp: set_resuid_def check_uid_perm_eq uids_def split: if_splits
      intro!: confined_set_resuid_unchecked id_or_subset)

lemma confined_set_reuid: "confined c (fst (set_reuid c r e))"
  by (cases e; cases r)
    (auto simp: set_reuid_def check_uid_perm_eq uids_def Let_def split: if_splits
      intro!: confined_set_resuid_unchecked)

lemma confined_set_uid: "confined c (fst (set_uid c u))"
  by (auto simp: set_uid_def confined_set_resuid intro: confined_set_resuid_unchecked)

lemma confined_set_fsuid: "confined c (fst (set_fsuid c f))"
  by (auto simp: set_fsuid_def Let_def uids_def split: option.split intro: confined_set_fsuid_unchecked)

lemma confined_gids:
  assumes "\<not> contains (effective_capset c) SETGID \<Longrightarrow>
    {r, e, s} \<subseteq> gids c \<and> f \<in> insert (fsgid c) (gids c)"
  shows "confined c (c\<lparr>rgid := r, egid := e, sgid := s, fsgid := f\<rparr>)"
  using assms by (auto simp: confined_def shrinks_def cred_ok_def uids_def gids_def contains_orI)

lemma confined_set_resgid_unchecked:
  assumes "\<not> contains (effective_capset c) SETGID \<Longrightarrow>
    {id_or r (rgid c), id_or e (egid c), id_or s (sgid c)} \<subseteq> gids c"
  shows "confined c (set_resgid_unchecked c r e s)"
  using assms confined_gids unfolding set_resgid_unchecked_eq by auto

lemma confined_set_resgid: "confined c (fst (set_resgid c r e s))"
  by (auto simp: set_resgid_def check_gid_perm_eq gids_def split: if_splits
      intro!: confined_set_resgid_unchecked id_or_subset)

lemma confined_set_regid: "confined c (fst (set_regid c r e))"
  by (cases e; cases r)
    (auto simp: set_regid_def check_gid_perm_eq gids_def Let_def split: if_splits
      intro!: confined_set_resgid_unchecked)

lemma confined_set_gid: "confined c (fst (set_gid c g))"
  by (auto simp: set_gid_def confined_set_resgid intro: confined_set_resgid_unchecked)

lemma confined_set_fsgid: "confined c (fst (set_fsgid c f))"
proof -
  have "confined c (set_fsgid_unchecked c g)"
    if "\<not> contains (effective_capset c) SETGID \<Longrightarrow> g \<in> gids c" for g
    using that confined_gids [of c "rgid c" "egid c" "sgid c" g] by (simp add: set_fsgid_unchecked_def gids_def)
  then show ?thesis by (auto simp: set_fsgid_def Let_def gids_def split: option.split)
qed

lemma confined_drop_bounding: "confined c (fst (drop_bounding_capability c cap))"
  by (auto simp: drop_bounding_capability_def confined_def shrinks_def cred_ok_def uids_def gids_def contains_orI
      intro: capset_ok_contains)

lemma confined_securebits_try_store:
  "(securebits_ok (securebits c) \<Longrightarrow> securebits_ok bits) \<Longrightarrow> confined c (fst (securebits_try_store c bits))"
  by (auto simp: securebits_try_store_def try_store_eq confined_def shrinks_def cred_ok_def uids_def gids_def
      contains_orI)

lemma confined_set_keep_capabilities: "confined c (fst (set_keep_capabilities c keep))"
proof -
  have "contains ALL_VALID_BITS KEEP_CAPS"
    by (simp add: ALL_VALID_BITS_eq contains_def KEEP_CAPS_def)
  then show ?thesis unfolding set_keep_capabilities_def
    by (intro confined_securebits_try_store) (simp add: securebits_ok_iff contains_andI)
qed

lemma confined_set_securebits: "securebits_ok bits \<Longrightarrow> confined c (fst (set_securebits c bits))"
  by (simp add: set_securebits_def confined_securebits_try_store)

lemmas confined_ops = confined_set_uid confined_set_reuid confined_set_resuid confined_set_fsuid
  confined_set_gid confined_set_regid confined_set_resgid confined_set_fsgid
  confined_drop_bounding confined_set_keep_capabilities confined_set_securebits

section \<open>Threads without privileges\<close>

text \<open>A thread with no root user ID that can use neither of the set-ID capabilities.\<close>

definition unprivileged :: "Credentials \<Rightarrow> bool" where
  "unprivileged c \<longleftrightarrow> 0 \<notin> uids c
     \<and> \<not> contains (effective_capset c) SETUID \<and> \<not> contains (permitted_capset c) SETUID
     \<and> \<not> contains (effective_capset c) SETGID \<and> \<not> contains (permitted_capset c) SETGID"

text \<open>
  How the credentials of such a thread may change when it is granted the user IDs \<^verbatim>\<open>U\<close> and the group
  IDs \<^verbatim>\<open>G\<close> (by executing set-ID files).
\<close>

definition stays_within :: "Uid set \<Rightarrow> Gid set \<Rightarrow> Credentials \<Rightarrow> Credentials \<Rightarrow> bool" where
  "stays_within U G c c' \<longleftrightarrow> shrinks c c'
     \<and> uids c' \<subseteq> uids c \<union> U \<and> fsuid c' \<in> insert (fsuid c) (uids c \<union> U)
     \<and> gids c' \<subseteq> gids c \<union> G \<and> fsgid c' \<in> insert (fsgid c) (gids c \<union> G)
     \<and> supplementary_gids c' = supplementary_gids c"

text \<open>The contract of one step of a thread, program execution included.\<close>

definition thread_step :: "Uid set \<Rightarrow> Gid set \<Rightarrow> Credentials \<Rightarrow> Credentials \<Rightarrow> bool" where
  "thread_step U G c c' \<longleftrightarrow> (cred_ok c \<longrightarrow> cred_ok c')
     \<and> contains (bounding_capset c) (bounding_capset c') \<and> locks_kept (securebits c) (securebits c')
     \<and> (unprivileged c \<and> 0 \<notin> U \<longrightarrow> stays_within U G c c')"

lemma thread_step_confined: "confined c c' \<Longrightarrow> thread_step {} {} c c'"
  by (auto simp: thread_step_def confined_def unprivileged_def stays_within_def)

lemma thread_step_refl [simp]: "thread_step {} {} c c"
  by (simp add: thread_step_confined)

lemma thread_step_mono: "thread_step {} {} c c' \<Longrightarrow> thread_step U G c c'"
  by (auto simp: thread_step_def stays_within_def)

lemma shrinks_bit:
  "shrinks c c' \<Longrightarrow> \<not> bit (effective_capset c) n \<Longrightarrow> \<not> bit (permitted_capset c) n \<Longrightarrow>
   \<not> bit (effective_capset c') n \<and> \<not> bit (permitted_capset c') n"
  unfolding shrinks_def contains_iff bit_or_iff by blast

lemma unprivileged_stays: "unprivileged c \<Longrightarrow> stays_within U G c c' \<Longrightarrow> 0 \<notin> U \<Longrightarrow> unprivileged c'"
  unfolding unprivileged_def stays_within_def contains_cap_bit by (blast dest: shrinks_bit)

lemma stays_within_trans:
  assumes "stays_within U G a b" "stays_within U' G' b c"
  shows "stays_within (U \<union> U') (G \<union> G') a c"
proof -
  have sub: "\<lbrakk>B \<subseteq> A \<union> V; C \<subseteq> B \<union> V'\<rbrakk> \<Longrightarrow> C \<subseteq> A \<union> (V \<union> V')"
    "\<lbrakk>B \<subseteq> A \<union> V; y \<in> insert x (A \<union> V); z \<in> insert y (B \<union> V')\<rbrakk> \<Longrightarrow> z \<in> insert x (A \<union> (V \<union> V'))"
    for A B C V V' :: "u32 set" and x y z by blast+
  note h = assms [unfolded stays_within_def]
  show ?thesis
    unfolding stays_within_def
  proof (intro conjI)
    show "shrinks a c" using h shrinks_trans by blast
    show "uids c \<subseteq> uids a \<union> (U \<union> U')" "gids c \<subseteq> gids a \<union> (G \<union> G')" using h sub(1) by meson+
    show "fsuid c \<in> insert (fsuid a) (uids a \<union> (U \<union> U'))"
      "fsgid c \<in> insert (fsgid a) (gids a \<union> (G \<union> G'))" using h sub(2) by meson+
    show "supplementary_gids c = supplementary_gids a" using h by simp
  qed
qed

lemma thread_step_trans:
  assumes "thread_step U G a b" "thread_step U' G' b c"
  shows "thread_step (U \<union> U') (G \<union> G') a c"
  using assms unprivileged_stays [of a U G b] stays_within_trans [of U G a b U' G' c]
  by (auto simp: thread_step_def intro: contains_trans locks_kept_trans)

end
