(* ===== verification/Lsm.thy ===== *)
theory Lsm
  imports Credentials
begin

text \<open>
  The Linux security modules (\<^verbatim>\<open>kernel/src/security/lsm\<close>): selection of the active modules from
  the boot parameters, the capability hook, and the check that guards access to a thread of
  another process (\<^verbatim>\<open>process/posix_thread/alien_access.rs\<close>), which asks the capability module and
  then Yama. Boot parameters are strings over ASCII.

  The lemmas show which modules are active for every pair of boot parameters, that the capability
  check cannot be deselected, exactly when an access is allowed, that the walk up the process
  tree ends, and that the strictest Yama scope is final.
\<close>

section \<open>Module selection\<close>

datatype LsmModule = CapabilityLsm | YamaLsm

definition LEGACY_MAJOR :: u32 where "LEGACY_MAJOR = push_bit 0 1"
definition EXCLUSIVE :: u32 where "EXCLUSIVE = push_bit 1 1"

fun lsm_name :: "LsmModule \<Rightarrow> string" where
  "lsm_name CapabilityLsm = ''capability''"
| "lsm_name YamaLsm = ''yama''"

fun lsm_flags :: "LsmModule \<Rightarrow> u32" where
  "lsm_flags CapabilityLsm = 0"
| "lsm_flags YamaLsm = 0"

definition MANDATORY_MODULES :: "LsmModule list" where
  "MANDATORY_MODULES = [CapabilityLsm]"

definition ALL_MODULES :: "LsmModule list" where
  "ALL_MODULES = [CapabilityLsm, YamaLsm]"

definition DEFAULT_OPTIONAL_MODULES :: "LsmModule list" where
  "DEFAULT_OPTIONAL_MODULES = [YamaLsm]"

definition modules_by_name :: "string \<Rightarrow> LsmModule option" where
  "modules_by_name = map_of (map (\<lambda>m. (lsm_name m, m)) ALL_MODULES)"

record ModuleSelection =
  selected_modules :: "LsmModule list"
  selected_names :: "string set"
  exclusive_module_name :: "string option"

definition selection_default :: ModuleSelection where
  "selection_default = \<lparr>selected_modules = [], selected_names = {}, exclusive_module_name = None\<rparr>"

definition selection_push :: "ModuleSelection \<Rightarrow> LsmModule \<Rightarrow> ModuleSelection" where
  "selection_push sel m =
     (let name = lsm_name m
      in if name \<in> selected_names sel then sel
         else
           let sel1 = sel\<lparr>selected_names := insert name (selected_names sel)\<rparr>
           in if contains (lsm_flags m) EXCLUSIVE
              then case exclusive_module_name sel1 of
                  Some exclusive_name \<Rightarrow> sel1\<lparr>selected_names := selected_names sel1 - {name}\<rparr>
                | None \<Rightarrow> sel1\<lparr>exclusive_module_name := Some name,
                               selected_modules := selected_modules sel1 @ [m]\<rparr>
              else sel1\<lparr>selected_modules := selected_modules sel1 @ [m]\<rparr>)"

text \<open>\<^verbatim>\<open>str::split(',')\<close> and \<^verbatim>\<open>str::trim\<close>.\<close>

fun split_comma :: "string \<Rightarrow> string list" where
  "split_comma [] = [[]]"
| "split_comma (ch # s) =
     (if ch = CHR '','' then [] # split_comma s
      else case split_comma s of [] \<Rightarrow> [[ch]] | w # ws \<Rightarrow> (ch # w) # ws)"

definition is_whitespace :: "char \<Rightarrow> bool" where
  "is_whitespace ch \<longleftrightarrow> ch = CHR '' '' \<or> (9 \<le> (of_char ch :: nat) \<and> (of_char ch :: nat) \<le> 13)"

definition trim :: "string \<Rightarrow> string" where
  "trim s = rev (dropWhile is_whitespace (rev (dropWhile is_whitespace s)))"

definition lsm_names :: "string \<Rightarrow> string list" where
  "lsm_names param = filter (\<lambda>name. name \<noteq> []) (map trim (split_comma param))"

definition push_named :: "ModuleSelection \<Rightarrow> string \<Rightarrow> ModuleSelection" where
  "push_named sel name =
     (case modules_by_name name of None \<Rightarrow> sel | Some m \<Rightarrow> selection_push sel m)"

definition push_legacy :: "ModuleSelection \<Rightarrow> string \<Rightarrow> ModuleSelection" where
  "push_legacy sel security_param =
     (let name = trim security_param
      in if name = [] then sel
         else case modules_by_name name of
             None \<Rightarrow> sel
           | Some m \<Rightarrow>
               if \<not> contains (lsm_flags m) LEGACY_MAJOR then sel
               else
                 let sel1 = (if contains (lsm_flags m) EXCLUSIVE
                             then case exclusive_module_name sel of
                                 None \<Rightarrow> sel
                               | Some ex \<Rightarrow>
                                   sel\<lparr>exclusive_module_name := None,
                                      selected_modules := filter (\<lambda>m. lsm_name m \<noteq> ex) (selected_modules sel),
                                      selected_names := selected_names sel - {ex}\<rparr>
                             else sel)
                 in selection_push sel1 m)"

definition select_from_boot_params :: "string option \<Rightarrow> string option \<Rightarrow> ModuleSelection" where
  "select_from_boot_params lsm_param security_param =
     (let sel = foldl selection_push selection_default MANDATORY_MODULES
      in case lsm_param of
          Some param \<Rightarrow> foldl push_named sel (lsm_names param)
        | None \<Rightarrow>
            let sel = foldl selection_push sel DEFAULT_OPTIONAL_MODULES
            in case security_param of None \<Rightarrow> sel | Some param \<Rightarrow> push_legacy sel param)"

definition active_modules :: "string option \<Rightarrow> string option \<Rightarrow> LsmModule list" where
  "active_modules lsm_param security_param =
     selected_modules (select_from_boot_params lsm_param security_param)"

section \<open>Capability hook\<close>

fun module_on_capable :: "LsmModule \<Rightarrow> Credentials \<Rightarrow> CapSet \<Rightarrow> CredErrno + unit" where
  "module_on_capable CapabilityLsm c required =
     (if contains (effective_capset c) required then Inr () else Inl EPERM)"
| "module_on_capable YamaLsm c required = Inr ()"

fun on_capable :: "LsmModule list \<Rightarrow> Credentials \<Rightarrow> CapSet \<Rightarrow> CredErrno + unit" where
  "on_capable [] c required = Inr ()"
| "on_capable (m # ms) c required =
     (case module_on_capable m c required of Inl e \<Rightarrow> Inl e | Inr _ \<Rightarrow> on_capable ms c required)"

section \<open>Access to threads of other processes\<close>

text \<open>
  Processes are numbered; \<^verbatim>\<open>parent_of\<close> is the weak reference a process holds to its parent and
  \<^verbatim>\<open>is_live\<close> says whether such a reference can be upgraded.
\<close>

record ProcessTree =
  parent_of :: "nat \<Rightarrow> nat"
  is_live :: "nat \<Rightarrow> bool"

partial_function (option) is_ancestor_of :: "ProcessTree \<Rightarrow> nat \<Rightarrow> nat \<Rightarrow> bool option" where
  "is_ancestor_of tr ancestor current =
     (let parent = parent_of tr current
      in if parent = ancestor then Some True
         else if \<not> is_live tr parent then Some False
         else is_ancestor_of tr ancestor parent)"

datatype CredsSource = FsCreds | RealCreds
datatype AlienAccessKind = Read | Attach

record AlienAccessMode =
  access_kind :: AlienAccessKind
  access_creds :: CredsSource

datatype YamaScope = Disabled | Relational | Capability | NoAttach

record LsmThread =
  thread_creds :: Credentials
  thread_process :: nat

definition capability_on_alien_access ::
  "LsmThread \<Rightarrow> LsmThread \<Rightarrow> AlienAccessMode \<Rightarrow> CredErrno + unit" where
  "capability_on_alien_access accessor target mode =
     (let cred = thread_creds accessor;
          (caller_uid, caller_gid) =
            (case access_creds mode of FsCreds \<Rightarrow> (fsuid cred, fsgid cred) | RealCreds \<Rightarrow> (ruid cred, rgid cred));
          tcred = thread_creds target;
          caller_is_same = (caller_uid = euid tcred \<and> caller_uid = suid tcred \<and> caller_uid = ruid tcred
            \<and> caller_gid = egid tcred \<and> caller_gid = sgid tcred \<and> caller_gid = rgid tcred)
      in if caller_is_same \<or> module_on_capable CapabilityLsm cred SYS_PTRACE = Inr () then Inr ()
         else Inl EPERM)"

definition yama_on_alien_access ::
  "LsmModule list \<Rightarrow> ProcessTree \<Rightarrow> YamaScope \<Rightarrow> LsmThread \<Rightarrow> LsmThread \<Rightarrow> AlienAccessMode
     \<Rightarrow> (CredErrno + unit) option" where
  "yama_on_alien_access mods tr scope accessor target mode =
     (if access_kind mode \<noteq> Attach then Some (Inr ())
      else
        let has_cap = (on_capable mods (thread_creds accessor) SYS_PTRACE = Inr ());
            is_denied = (case scope of
                Disabled \<Rightarrow> Some False
              | Relational \<Rightarrow>
                  if has_cap then Some False
                  else map_option Not (is_ancestor_of tr (thread_process accessor) (thread_process target))
              | Capability \<Rightarrow> Some (\<not> has_cap)
              | NoAttach \<Rightarrow> Some True)
        in map_option (\<lambda>denied. if denied then Inl EPERM else Inr ()) is_denied)"

fun run_alien_access ::
  "LsmModule list \<Rightarrow> LsmModule list \<Rightarrow> ProcessTree \<Rightarrow> YamaScope \<Rightarrow> LsmThread \<Rightarrow> LsmThread
     \<Rightarrow> AlienAccessMode \<Rightarrow> (CredErrno + unit) option" where
  "run_alien_access mods [] tr scope accessor target mode = Some (Inr ())"
| "run_alien_access mods (m # ms) tr scope accessor target mode =
     (case (case m of CapabilityLsm \<Rightarrow> Some (capability_on_alien_access accessor target mode)
            | YamaLsm \<Rightarrow> yama_on_alien_access mods tr scope accessor target mode) of
        None \<Rightarrow> None
      | Some (Inl e) \<Rightarrow> Some (Inl e)
      | Some (Inr _) \<Rightarrow> run_alien_access mods ms tr scope accessor target mode)"

definition on_alien_access ::
  "LsmModule list \<Rightarrow> ProcessTree \<Rightarrow> YamaScope \<Rightarrow> LsmThread \<Rightarrow> LsmThread \<Rightarrow> AlienAccessMode
     \<Rightarrow> (CredErrno + unit) option" where
  "on_alien_access mods = run_alien_access mods mods"

definition check_alien_access_from ::
  "LsmModule list \<Rightarrow> ProcessTree \<Rightarrow> YamaScope \<Rightarrow> LsmThread \<Rightarrow> LsmThread \<Rightarrow> AlienAccessMode
     \<Rightarrow> (CredErrno + unit) option" where
  "check_alien_access_from mods tr scope target accessor mode =
     (if thread_process accessor = thread_process target then Some (Inr ())
      else on_alien_access mods tr scope accessor target mode)"

text \<open>The scope is a global cell; a change reports an error or replaces it.\<close>

definition set_scope ::
  "LsmModule list \<Rightarrow> Credentials \<Rightarrow> YamaScope \<Rightarrow> YamaScope \<Rightarrow> YamaScope \<times> (CredErrno + unit)" where
  "set_scope mods c scope new_scope =
     (case on_capable mods c SYS_PTRACE of
        Inl e \<Rightarrow> (scope, Inl e)
      | Inr _ \<Rightarrow> if scope = NoAttach \<and> new_scope \<noteq> NoAttach then (scope, Inl EINVAL)
                else (new_scope, Inr ()))"

section \<open>Which modules are active\<close>

definition yama_selected :: "string option \<Rightarrow> bool" where
  "yama_selected lsm_param \<longleftrightarrow> (case lsm_param of None \<Rightarrow> True | Some p \<Rightarrow> ''yama'' \<in> set (lsm_names p))"

abbreviation (input) mandatory_selection :: ModuleSelection where
  "mandatory_selection \<equiv> \<lparr>selected_modules = [CapabilityLsm], selected_names = {''capability''},
     exclusive_module_name = None\<rparr>"

abbreviation (input) full_selection :: ModuleSelection where
  "full_selection \<equiv> \<lparr>selected_modules = [CapabilityLsm, YamaLsm],
     selected_names = {''yama'', ''capability''}, exclusive_module_name = None\<rparr>"

lemma no_special_flags [simp]: "\<not> contains (lsm_flags m) EXCLUSIVE" "\<not> contains (lsm_flags m) LEGACY_MAJOR"
  by (cases m; simp add: EXCLUSIVE_def LEGACY_MAJOR_def)+

lemma EXCLUSIVE_nonzero [simp]: "EXCLUSIVE \<noteq> 0"
  by (simp add: EXCLUSIVE_def)

lemma modules_by_name_eq:
  "modules_by_name name =
     (if name = ''capability'' then Some CapabilityLsm else if name = ''yama'' then Some YamaLsm else None)"
  by (simp add: modules_by_name_def ALL_MODULES_def)

lemma push_named_selections:
  "push_named mandatory_selection name = (if name = ''yama'' then full_selection else mandatory_selection)"
  "push_named full_selection name = full_selection"
  by (simp_all add: push_named_def modules_by_name_eq selection_push_def Let_def)

lemma push_names: "foldl push_named full_selection names = full_selection"
  "foldl push_named mandatory_selection names =
     (if ''yama'' \<in> set names then full_selection else mandatory_selection)"
proof -
  show full: "foldl push_named full_selection names = full_selection" for names
    by (induction names) (simp_all add: push_named_selections)
  show "foldl push_named mandatory_selection names =
      (if ''yama'' \<in> set names then full_selection else mandatory_selection)"
    by (induction names) (auto simp: push_named_selections full)
qed

lemma push_legacy_id: "push_legacy sel p = sel"
  by (simp add: push_legacy_def Let_def split: option.split)

lemma active_modules_spec:
  "active_modules lsm_param security_param =
     (if yama_selected lsm_param then [CapabilityLsm, YamaLsm] else [CapabilityLsm])"
proof -
  have m: "foldl selection_push selection_default MANDATORY_MODULES = mandatory_selection"
    by (simp add: MANDATORY_MODULES_def selection_push_def selection_default_def Let_def)
  have d: "foldl selection_push mandatory_selection DEFAULT_OPTIONAL_MODULES = full_selection"
    by (simp add: DEFAULT_OPTIONAL_MODULES_def selection_push_def Let_def)
  show ?thesis
    unfolding active_modules_def select_from_boot_params_def m d Let_def
    by (cases lsm_param; cases security_param)
      (simp_all add: d push_names push_legacy_id yama_selected_def)
qed

lemma on_capable_active [simp]:
  "on_capable (active_modules l s) c cap = (if contains (effective_capset c) cap then Inr () else Inl EPERM)"
  by (simp add: active_modules_spec)

section \<open>The process tree\<close>

text \<open>What the walk looks for: a process on the chain of parents, up to the first dead reference.\<close>

inductive ancestor :: "ProcessTree \<Rightarrow> nat \<Rightarrow> nat \<Rightarrow> bool" for tr a where
  parent: "parent_of tr d = a \<Longrightarrow> ancestor tr a d"
| further: "is_live tr (parent_of tr d) \<Longrightarrow> ancestor tr a (parent_of tr d) \<Longrightarrow> ancestor tr a d"

inductive_simps ancestor_iff: "ancestor tr a d"

text \<open>The chain of parents of a process ends, as it does in a tree with a root.\<close>

definition chain_ends :: "ProcessTree \<Rightarrow> nat \<Rightarrow> bool" where
  "chain_ends tr d \<longleftrightarrow> (\<exists>k. \<not> is_live tr ((parent_of tr ^^ Suc k) d))"

lemma is_ancestor_of_dead:
  "\<not> is_live tr ((parent_of tr ^^ Suc k) d) \<Longrightarrow> is_ancestor_of tr a d = Some (ancestor tr a d)"
proof (induction k arbitrary: d)
  case 0
  then show ?case
    by (subst is_ancestor_of.simps) (auto simp: Let_def ancestor_iff [of tr a d])
next
  case (Suc k)
  then have "\<not> is_live tr ((parent_of tr ^^ Suc k) (parent_of tr d))" by (simp add: funpow_swap1)
  from Suc.IH [OF this] show ?case
    by (subst is_ancestor_of.simps) (auto simp: Let_def ancestor_iff [of tr a d])
qed

lemma is_ancestor_of_eq: "chain_ends tr d \<Longrightarrow> is_ancestor_of tr a d = Some (ancestor tr a d)"
  unfolding chain_ends_def by (blast intro: is_ancestor_of_dead)

section \<open>Exact access decisions\<close>

definition same_ids :: "Credentials \<Rightarrow> CredsSource \<Rightarrow> Credentials \<Rightarrow> bool" where
  "same_ids c src t \<longleftrightarrow>
     uids t = {if src = FsCreds then fsuid c else ruid c} \<and> gids t = {if src = FsCreds then fsgid c else rgid c}"

definition yama_allows :: "ProcessTree \<Rightarrow> YamaScope \<Rightarrow> LsmThread \<Rightarrow> LsmThread \<Rightarrow> bool" where
  "yama_allows tr scope accessor target \<longleftrightarrow>
     (let ptrace = contains (effective_capset (thread_creds accessor)) SYS_PTRACE
      in case scope of
          Disabled \<Rightarrow> True
        | Relational \<Rightarrow> ptrace \<or> ancestor tr (thread_process accessor) (thread_process target)
        | Capability \<Rightarrow> ptrace
        | NoAttach \<Rightarrow> False)"

lemma capability_on_alien_access_eq:
  "capability_on_alien_access accessor target mode =
     (if same_ids (thread_creds accessor) (access_creds mode) (thread_creds target)
         \<or> contains (effective_capset (thread_creds accessor)) SYS_PTRACE
      then Inr () else Inl EPERM)"
  by (cases "access_creds mode")
    (auto simp: capability_on_alien_access_def same_ids_def uids_def gids_def Let_def)

lemma yama_on_alien_access_eq:
  "chain_ends tr (thread_process target) \<Longrightarrow>
   yama_on_alien_access (active_modules l s) tr scope accessor target mode =
     Some (if access_kind mode = Attach \<and> \<not> yama_allows tr scope accessor target then Inl EPERM else Inr ())"
  by (cases scope) (auto simp: yama_on_alien_access_def yama_allows_def is_ancestor_of_eq Let_def)

lemma on_alien_access_eq:
  "chain_ends tr (thread_process target) \<Longrightarrow>
   on_alien_access (active_modules l s) tr scope accessor target mode =
     Some (if (same_ids (thread_creds accessor) (access_creds mode) (thread_creds target)
               \<or> contains (effective_capset (thread_creds accessor)) SYS_PTRACE)
             \<and> (access_kind mode = Attach \<and> yama_selected l \<longrightarrow> yama_allows tr scope accessor target)
           then Inr () else Inl EPERM)"
  using yama_on_alien_access_eq [of tr target l s scope accessor mode]
  by (cases "yama_selected l")
    (simp_all add: on_alien_access_def active_modules_spec capability_on_alien_access_eq)

lemma set_scope_final: "fst (foldl (\<lambda>(sc, _) (c, new). set_scope mods c sc new) (NoAttach, r) reqs) = NoAttach"
proof (induction reqs arbitrary: r)
  case (Cons req reqs)
  obtain c new where req: "req = (c, new)" by (cases req)
  have "fst (set_scope mods c NoAttach new) = NoAttach"
    by (simp add: set_scope_def split: sum.split)
  then obtain r' where "set_scope mods c NoAttach new = (NoAttach, r')" by (metis prod.collapse)
  then show ?case using Cons.IH [of r'] by (simp add: req)
qed simp

section \<open>Properties\<close>

text \<open>
  C14. For every pair of boot parameters, and with Yama selected or not: a thread may access a
  thread of another process exactly when its IDs are the three user IDs and three group IDs of the
  target or it has \<^verbatim>\<open>CAP_SYS_PTRACE\<close> in its effective set, and, for an attach under Yama, the scope
  allows it (in the relational scope, by the capability or by being an ancestor); every other
  access is refused with \<^verbatim>\<open>EPERM\<close>. The check returns whenever the chain of parents of the target
  ends.
\<close>

theorem alien_access_exact:
  assumes "chain_ends tr (thread_process target)"
  shows "check_alien_access_from (active_modules lsm_param security_param) tr scope target accessor mode =
    Some (if thread_process accessor = thread_process target
            \<or> (same_ids (thread_creds accessor) (access_creds mode) (thread_creds target)
               \<or> contains (effective_capset (thread_creds accessor)) SYS_PTRACE)
              \<and> (access_kind mode = Attach \<and> yama_selected lsm_param
                   \<longrightarrow> yama_allows tr scope accessor target)
          then Inr () else Inl EPERM)"
  using on_alien_access_eq [OF assms] by (simp add: check_alien_access_from_def)

definition example_tree :: ProcessTree where
  "example_tree = \<lparr>parent_of = (\<lambda>p. p div 2), is_live = (\<lambda>p. 0 < p)\<rparr>"

lemma example_tree_ends: "chain_ends example_tree 5"
  unfolding chain_ends_def by (rule exI [of _ "Suc (Suc 0)"]) (simp add: example_tree_def)

theorem alien_access_exact_witness:
  "check_alien_access_from (active_modules None None) example_tree Relational
     \<lparr>thread_creds = cred_new 1000 1000 0, thread_process = 5\<rparr>
     \<lparr>thread_creds = cred_new 1000 1000 0, thread_process = 3\<rparr>
     \<lparr>access_kind = Attach, access_creds = RealCreds\<rparr> = Some (Inl EPERM)"
proof -
  let ?t = "\<lparr>thread_creds = cred_new 1000 1000 0, thread_process = 5\<rparr>"
  let ?a = "\<lparr>thread_creds = cred_new 1000 1000 0, thread_process = 3\<rparr>"
  have ends: "chain_ends example_tree (thread_process ?t)" by (simp add: example_tree_ends)
  have "\<not> ancestor example_tree 3 5"
    by (simp add: ancestor_iff [of _ 3 5] ancestor_iff [of _ 3 2] ancestor_iff [of _ 3 "Suc 0"] example_tree_def)
  then have "\<not> yama_allows example_tree Relational ?a ?t"
    by (simp add: yama_allows_def cred_new_def SYS_PTRACE_def)
  with alien_access_exact [OF ends, of None None Relational ?a "\<lparr>access_kind = Attach, access_creds = RealCreds\<rparr>"]
  show ?thesis by (simp add: yama_selected_def)
qed

text \<open>
  Once the Yama scope is \<^verbatim>\<open>NoAttach\<close> it stays so through every sequence of requests to change it,
  by whatever threads, and while Yama is selected no thread may attach to a thread of another
  process, whatever its credentials.
\<close>

lemma no_attach_is_final:
  assumes "yama_selected lsm_param" "chain_ends tr (thread_process target)"
    and "thread_process accessor \<noteq> thread_process target" "access_kind mode = Attach"
  shows "check_alien_access_from (active_modules lsm_param security_param) tr
      (fst (foldl (\<lambda>(sc, _) (c, new). set_scope (active_modules lsm_param security_param) c sc new)
         (NoAttach, Inr ()) requests))
      target accessor mode = Some (Inl EPERM)"
  using assms
  by (simp add: set_scope_final check_alien_access_from_def on_alien_access_eq yama_allows_def)

lemma no_attach_is_final_witness:
  "check_alien_access_from (active_modules (Some ''yama, other'') None) example_tree
      (fst (foldl (\<lambda>(sc, _) (c, new). set_scope (active_modules (Some ''yama, other'') None) c sc new)
         (NoAttach, Inr ()) [(cred_new_root, Disabled), (cred_new_root, Relational)]))
      \<lparr>thread_creds = cred_new_root, thread_process = 5\<rparr> \<lparr>thread_creds = cred_new_root, thread_process = 3\<rparr>
      \<lparr>access_kind = Attach, access_creds = FsCreds\<rparr> = Some (Inl EPERM)"
proof (rule no_attach_is_final)
  show "yama_selected (Some ''yama, other'')"
    by (simp add: yama_selected_def lsm_names_def trim_def is_whitespace_def)
  show "chain_ends example_tree (thread_process \<lparr>thread_creds = cred_new_root, thread_process = 5\<rparr>)"
    by (simp add: example_tree_ends)
qed simp_all

end
