(* ===== verification/Cred_Syscalls.thy ===== *)
theory Cred_Syscalls
  imports Lsm
begin

text \<open>
  The system calls that read or change credentials (\<^verbatim>\<open>kernel/src/syscall\<close>: \<^verbatim>\<open>setuid\<close>, \<^verbatim>\<open>setreuid\<close>,
  \<^verbatim>\<open>setresuid\<close>, \<^verbatim>\<open>setfsuid\<close>, their group counterparts, \<^verbatim>\<open>setgroups\<close>, \<^verbatim>\<open>capset\<close>, \<^verbatim>\<open>capget\<close>, the credential
  commands of \<^verbatim>\<open>prctl\<close>) and the credential part of \<^verbatim>\<open>execve\<close> (\<^verbatim>\<open>process/execve.rs\<close>).

  What the calls read from user memory and from the inode of the executed file is an argument:
  a value, or the error of the access. The set of active security modules and the thread ID are
  arguments as well. \<^verbatim>\<open>run_calls\<close> executes a sequence of calls of one thread; a thread whose
  \<^verbatim>\<open>execve\<close> failed after the point of no return is killed and makes no further call.

  The locale \<^verbatim>\<open>thread_calls\<close> states what a call keeps, and what follows for sequences; it is
  interpreted on the dispatcher of the modelled calls.
\<close>

section \<open>User and group IDs\<close>

text \<open>An \<^verbatim>\<open>i32\<close> argument: a negative number leaves the ID unchanged.\<close>

definition id_arg :: "u32 \<Rightarrow> u32 option" where
  "id_arg x = (if 0 \<le> sint x then Some x else None)"

definition sys_setuid :: "Credentials \<Rightarrow> u32 \<Rightarrow> int cred_call" where
  "sys_setuid c uid =
     (if sint uid < 0 then (c, Inl EINVAL)
      else try_then (set_uid c uid) (\<lambda>c _. (c, Inr 0)))"

definition sys_setreuid :: "Credentials \<Rightarrow> u32 \<Rightarrow> u32 \<Rightarrow> int cred_call" where
  "sys_setreuid c r e = try_then (set_reuid c (id_arg r) (id_arg e)) (\<lambda>c _. (c, Inr 0))"

definition sys_setresuid :: "Credentials \<Rightarrow> u32 \<Rightarrow> u32 \<Rightarrow> u32 \<Rightarrow> int cred_call" where
  "sys_setresuid c r e s =
     try_then (set_resuid c (id_arg r) (id_arg e) (id_arg s)) (\<lambda>c _. (c, Inr 0))"

definition sys_setfsuid :: "Credentials \<Rightarrow> u32 \<Rightarrow> int cred_call" where
  "sys_setfsuid c uid =
     (case set_fsuid c (id_arg uid) of
        (c, r) \<Rightarrow> (c, Inr (uint (case r of Inl old_fsuid \<Rightarrow> old_fsuid | Inr old_fsuid \<Rightarrow> old_fsuid))))"

definition sys_setgid :: "Credentials \<Rightarrow> u32 \<Rightarrow> int cred_call" where
  "sys_setgid c gid =
     (if sint gid < 0 then (c, Inl EINVAL)
      else try_then (set_gid c gid) (\<lambda>c _. (c, Inr 0)))"

definition sys_setregid :: "Credentials \<Rightarrow> u32 \<Rightarrow> u32 \<Rightarrow> int cred_call" where
  "sys_setregid c r e = try_then (set_regid c (id_arg r) (id_arg e)) (\<lambda>c _. (c, Inr 0))"

definition sys_setresgid :: "Credentials \<Rightarrow> u32 \<Rightarrow> u32 \<Rightarrow> u32 \<Rightarrow> int cred_call" where
  "sys_setresgid c r e s =
     try_then (set_resgid c (id_arg r) (id_arg e) (id_arg s)) (\<lambda>c _. (c, Inr 0))"

definition sys_setfsgid :: "Credentials \<Rightarrow> u32 \<Rightarrow> int cred_call" where
  "sys_setfsgid c gid =
     (case set_fsgid c (id_arg gid) of
        (c, r) \<Rightarrow> (c, Inr (uint (case r of Inl old_fsgid \<Rightarrow> old_fsgid | Inr old_fsgid \<Rightarrow> old_fsgid))))"

definition NGROUPS_MAX :: usize where
  "NGROUPS_MAX = 65536"

text \<open>\<^verbatim>\<open>group_at idx\<close> is the outcome of reading the group at that index of the user's list.\<close>

fun read_groups :: "(nat \<Rightarrow> CredErrno + Gid) \<Rightarrow> nat list \<Rightarrow> Gid set \<Rightarrow> CredErrno + Gid set" where
  "read_groups group_at [] new_groups = Inr new_groups"
| "read_groups group_at (idx # is) new_groups =
     (case group_at idx of Inl e \<Rightarrow> Inl e
      | Inr gid \<Rightarrow> read_groups group_at is (insert gid new_groups))"

definition sys_setgroups ::
  "LsmModule list \<Rightarrow> Credentials \<Rightarrow> usize \<Rightarrow> (nat \<Rightarrow> CredErrno + Gid) \<Rightarrow> int cred_call" where
  "sys_setgroups mods c n group_at =
     (case on_capable mods c SETGID of
        Inl e \<Rightarrow> (c, Inl e)
      | Inr _ \<Rightarrow>
          if NGROUPS_MAX < n then (c, Inl EINVAL)
          else (case read_groups group_at [0..<unat n] {} of
              Inl e \<Rightarrow> (c, Inl e)
            | Inr new_groups \<Rightarrow> (c\<lparr>supplementary_gids := new_groups\<rparr>, Inr 0)))"

section \<open>Capability calls\<close>

definition LINUX_CAPABILITY_VERSION_3 :: u32 where
  "LINUX_CAPABILITY_VERSION_3 = 0x20080522"

record CUserCapHeader =
  version :: u32
  pid :: u32

record CUserCapData =
  effective :: u32
  permitted :: u32
  inheritable :: u32

text \<open>
  The user memory of a capability call: what reading the header and the two data structures
  gives, and whether writing the version and the data structures succeeds.
\<close>

record CapUserMem =
  cap_header :: "CredErrno + CUserCapHeader"
  cap_data_lo :: "CredErrno + CUserCapData"
  cap_data_hi :: "CredErrno + CUserCapData"
  version_write :: "CredErrno + unit"
  data_lo_write :: "CredErrno + unit"
  data_hi_write :: "CredErrno + unit"

definition store_capsets ::
  "LsmModule list \<Rightarrow> Credentials \<Rightarrow> CapSet \<Rightarrow> CapSet \<Rightarrow> CapSet \<Rightarrow> int cred_call" where
  "store_capsets mods c new_permitted new_effective new_inheritable =
     (if \<not> contains (permitted_capset c) new_permitted then (c, Inl EPERM)
      else if \<not> contains new_permitted new_effective then (c, Inl EPERM)
      else try_then
        (c, if \<not> contains (inheritable_capset c OR permitted_capset c) new_inheritable
            then on_capable mods c SETPCAP else Inr ())
        (\<lambda>c _.
          if \<not> contains (inheritable_capset c OR bounding_capset c) new_inheritable then (c, Inl EPERM)
          else (c\<lparr>permitted_capset := new_permitted, effective_capset := new_effective,
                  inheritable_capset := new_inheritable\<rparr>, Inr 0)))"

definition sys_capset :: "LsmModule list \<Rightarrow> u32 \<Rightarrow> CapUserMem \<Rightarrow> Credentials \<Rightarrow> int cred_call" where
  "sys_capset mods tid mem c =
     (case cap_header mem of
        Inl e \<Rightarrow> (c, Inl e)
      | Inr header \<Rightarrow>
          if version header \<noteq> LINUX_CAPABILITY_VERSION_3
          then case version_write mem of Inl e \<Rightarrow> (c, Inl e) | Inr _ \<Rightarrow> (c, Inl EINVAL)
          else if pid header \<noteq> 0 \<and> pid header \<noteq> tid then (c, Inl EPERM)
          else case cap_data_lo mem of
              Inl e \<Rightarrow> (c, Inl e)
            | Inr caps_lo \<Rightarrow>
                case cap_data_hi mem of
                  Inl e \<Rightarrow> (c, Inl e)
                | Inr caps_hi \<Rightarrow>
                    store_capsets mods c
                      (from_lo_hi (permitted caps_lo) (permitted caps_hi))
                      (from_lo_hi (effective caps_lo) (effective caps_hi))
                      (from_lo_hi (inheritable caps_lo) (inheritable caps_hi)))"

text \<open>
  \<^verbatim>\<open>capget\<close> returns what it writes to the data address, in order, and its result. The credentials
  of another thread come from the table of threads.
\<close>

definition sys_capget ::
  "(u32 \<Rightarrow> Credentials option) \<Rightarrow> bool \<Rightarrow> CapUserMem \<Rightarrow> Credentials
     \<Rightarrow> CUserCapData list \<times> (CredErrno + int)" where
  "sys_capget thread_creds_of data_is_null mem c =
     (case cap_header mem of
        Inl e \<Rightarrow> ([], Inl e)
      | Inr header \<Rightarrow>
          if version header \<noteq> LINUX_CAPABILITY_VERSION_3
          then case version_write mem of
              Inl e \<Rightarrow> ([], Inl e)
            | Inr _ \<Rightarrow> if data_is_null then ([], Inr 0) else ([], Inl EINVAL)
          else if data_is_null then ([], Inr 0)
          else if sint (pid header) < 0 then ([], Inl EINVAL)
          else case (if pid header \<noteq> 0 then thread_creds_of (pid header) else Some c) of
              None \<Rightarrow> ([], Inl ESRCH)
            | Some cr \<Rightarrow>
                let caps_lo = \<lparr>effective = fst (to_lo_hi (effective_capset cr)),
                               permitted = fst (to_lo_hi (permitted_capset cr)),
                               inheritable = fst (to_lo_hi (inheritable_capset cr))\<rparr>;
                    caps_hi = \<lparr>effective = snd (to_lo_hi (effective_capset cr)),
                               permitted = snd (to_lo_hi (permitted_capset cr)),
                               inheritable = snd (to_lo_hi (inheritable_capset cr))\<rparr>
                in case data_lo_write mem of
                    Inl e \<Rightarrow> ([], Inl e)
                  | Inr _ \<Rightarrow>
                      (case data_hi_write mem of
                         Inl e \<Rightarrow> ([caps_lo], Inl e)
                       | Inr _ \<Rightarrow> ([caps_lo, caps_hi], Inr 0)))"

section \<open>Credential commands of prctl\<close>

datatype PrctlCmd =
    PR_GET_KEEPCAPS
  | PR_SET_KEEPCAPS u32
  | PR_CAPBSET_READ CapSet
  | PR_CAPBSET_DROP CapSet
  | PR_GET_SECUREBITS
  | PR_SET_SECUREBITS SecureBits

definition parse_capability :: "u64 \<Rightarrow> (CredErrno + CapSet) rust" where
  "parse_capability capability =
     rust_bind (from_capability_number capability)
       (\<lambda>r. Return (case r of Some cap \<Rightarrow> Inr cap | None \<Rightarrow> Inl EINVAL))"

text \<open>\<^verbatim>\<open>PrctlCmd::from_args\<close>; \<^verbatim>\<open>None\<close> is a command that is not about credentials.\<close>

definition prctl_from_args :: "u32 \<Rightarrow> u64 \<Rightarrow> (CredErrno + PrctlCmd) rust option" where
  "prctl_from_args option arg2 =
     (if option = 7 then Some (Return (Inr PR_GET_KEEPCAPS))
      else if option = 8 then Some (Return (Inr (PR_SET_KEEPCAPS (ucast arg2))))
      else if option = 23 then Some (rust_bind (parse_capability arg2) (\<lambda>r. Return (map_sum id PR_CAPBSET_READ r)))
      else if option = 24 then Some (rust_bind (parse_capability arg2) (\<lambda>r. Return (map_sum id PR_CAPBSET_DROP r)))
      else if option = 27 then Some (Return (Inr PR_GET_SECUREBITS))
      else if option = 28
      then Some (Return (map_sum id PR_SET_SECUREBITS (securebits_try_from (ucast arg2))))
      else None)"

fun prctl_cmd :: "Credentials \<Rightarrow> PrctlCmd \<Rightarrow> int cred_call" where
  "prctl_cmd c PR_GET_KEEPCAPS = (c, Inr (if keep_capabilities (securebits c) then 1 else 0))"
| "prctl_cmd c (PR_SET_KEEPCAPS keep_cap) =
     (if 1 < keep_cap then (c, Inl EINVAL)
      else try_then (set_keep_capabilities c (keep_cap \<noteq> 0)) (\<lambda>c _. (c, Inr 0)))"
| "prctl_cmd c (PR_CAPBSET_READ capability) =
     (c, Inr (if contains (bounding_capset c) capability then 1 else 0))"
| "prctl_cmd c (PR_CAPBSET_DROP capability) =
     try_then (drop_bounding_capability c capability) (\<lambda>c _. (c, Inr 0))"
| "prctl_cmd c PR_GET_SECUREBITS = (c, Inr (uint (securebits c)))"
| "prctl_cmd c (PR_SET_SECUREBITS bits) = try_then (set_securebits c bits) (\<lambda>c _. (c, Inr 0))"

definition sys_prctl :: "Credentials \<Rightarrow> u32 \<Rightarrow> u64 \<Rightarrow> int cred_call rust option" where
  "sys_prctl c option arg2 =
     map_option (\<lambda>cmd. rust_bind cmd (\<lambda>r.
       Return (case r of Inl e \<Rightarrow> (c, Inl e) | Inr cmd \<Rightarrow> prctl_cmd c cmd)))
       (prctl_from_args option arg2)"

section \<open>Program execution\<close>

record ElfInode =
  inode_mode :: "CredErrno + u16"
  inode_owner :: "CredErrno + Uid"
  inode_group :: "CredErrno + Gid"

definition S_ISUID :: u16 where "S_ISUID = 0x800"
definition S_ISGID :: u16 where "S_ISGID = 0x400"

definition has_set_uid :: "u16 \<Rightarrow> bool" where
  "has_set_uid mode \<longleftrightarrow> contains mode S_ISUID"

definition has_set_gid :: "u16 \<Rightarrow> bool" where
  "has_set_gid mode \<longleftrightarrow> contains mode S_ISGID"

text \<open>
  The state of the calling thread: its credentials, the parent-death signal of its process, and
  whether a fatal signal keeps it from returning to user mode.
\<close>

record ThreadState =
  creds :: Credentials
  parent_death_signal :: "u8 option"
  killed :: bool

definition set_uid_from_elf :: "ThreadState \<Rightarrow> ElfInode \<Rightarrow> (ThreadState, unit) call" where
  "set_uid_from_elf st elf_inode =
     try_then (st, inode_mode elf_inode) (\<lambda>st mode.
       try_then
         (if has_set_uid mode
          then try_then (st, inode_owner elf_inode) (\<lambda>st uid.
            (st\<lparr>creds := set_euid (creds st) uid, parent_death_signal := None\<rparr>, Inr ()))
          else (st, Inr ()))
         (\<lambda>st _. (st\<lparr>creds := reset_suid (creds st)\<rparr>, Inr ())))"

definition set_gid_from_elf :: "ThreadState \<Rightarrow> ElfInode \<Rightarrow> (ThreadState, unit) call" where
  "set_gid_from_elf st elf_inode =
     try_then (st, inode_mode elf_inode) (\<lambda>st mode.
       try_then
         (if has_set_gid mode
          then try_then (st, inode_group elf_inode) (\<lambda>st gid.
            (st\<lparr>creds := set_egid (creds st) gid, parent_death_signal := None\<rparr>, Inr ()))
          else (st, Inr ()))
         (\<lambda>st _. (st\<lparr>creds := reset_sgid (creds st)\<rparr>, Inr ())))"

definition apply_caps_from_exec :: "ThreadState \<Rightarrow> ElfInode \<Rightarrow> (ThreadState, unit) call" where
  "apply_caps_from_exec st elf_inode =
     try_then (set_uid_from_elf st elf_inode) (\<lambda>st _.
       try_then (set_gid_from_elf st elf_inode) (\<lambda>st _.
         case set_keep_capabilities (creds st) False of (c, r) \<Rightarrow> (st\<lparr>creds := c\<rparr>, r)))"

text \<open>The credential part of \<^verbatim>\<open>do_execve\<close>: an error after the point of no return sends \<^verbatim>\<open>SIGKILL\<close>.\<close>

definition do_execve :: "ThreadState \<Rightarrow> ElfInode \<Rightarrow> (ThreadState, int) call" where
  "do_execve st elf_inode =
     (case apply_caps_from_exec st elf_inode of
        (st, Inl e) \<Rightarrow> (st\<lparr>killed := True\<rparr>, Inl e)
      | (st, Inr _) \<Rightarrow> (st, Inr 0))"

section \<open>Sequences of calls\<close>

datatype CredCall =
    Setuid u32 | Setreuid u32 u32 | Setresuid u32 u32 u32 | Setfsuid u32
  | Setgid u32 | Setregid u32 u32 | Setresgid u32 u32 u32 | Setfsgid u32
  | Setgroups usize "nat \<Rightarrow> CredErrno + Gid"
  | Capset CapUserMem
  | Prctl u32 u64
  | Execve ElfInode

definition on_creds :: "ThreadState \<Rightarrow> int cred_call \<Rightarrow> (ThreadState, int) call" where
  "on_creds st m = (case m of (c, r) \<Rightarrow> (st\<lparr>creds := c\<rparr>, r))"

text \<open>A \<^verbatim>\<open>prctl\<close> command that is not about credentials leaves them alone.\<close>

fun cred_syscall ::
  "LsmModule list \<Rightarrow> u32 \<Rightarrow> ThreadState \<Rightarrow> CredCall \<Rightarrow> (ThreadState, int) call rust" where
  "cred_syscall mods tid st (Setuid u) = Return (on_creds st (sys_setuid (creds st) u))"
| "cred_syscall mods tid st (Setreuid r e) = Return (on_creds st (sys_setreuid (creds st) r e))"
| "cred_syscall mods tid st (Setresuid r e s) = Return (on_creds st (sys_setresuid (creds st) r e s))"
| "cred_syscall mods tid st (Setfsuid u) = Return (on_creds st (sys_setfsuid (creds st) u))"
| "cred_syscall mods tid st (Setgid u) = Return (on_creds st (sys_setgid (creds st) u))"
| "cred_syscall mods tid st (Setregid r e) = Return (on_creds st (sys_setregid (creds st) r e))"
| "cred_syscall mods tid st (Setresgid r e s) = Return (on_creds st (sys_setresgid (creds st) r e s))"
| "cred_syscall mods tid st (Setfsgid u) = Return (on_creds st (sys_setfsgid (creds st) u))"
| "cred_syscall mods tid st (Setgroups n g) = Return (on_creds st (sys_setgroups mods (creds st) n g))"
| "cred_syscall mods tid st (Capset mem) = Return (on_creds st (sys_capset mods tid mem (creds st)))"
| "cred_syscall mods tid st (Prctl option arg2) =
     (case sys_prctl (creds st) option arg2 of
        None \<Rightarrow> Return (st, Inr 0)
      | Some m \<Rightarrow> rust_bind m (\<lambda>m. Return (on_creds st m)))"
| "cred_syscall mods tid st (Execve elf_inode) = Return (do_execve st elf_inode)"

text \<open>The results of a sequence of calls, and the state after them.\<close>

fun run_calls ::
  "LsmModule list \<Rightarrow> u32 \<Rightarrow> ThreadState \<Rightarrow> CredCall list \<Rightarrow> (ThreadState \<times> (CredErrno + int) list) rust" where
  "run_calls mods tid st [] = Return (st, [])"
| "run_calls mods tid st (call # calls) =
     (if killed st then Return (st, [])
      else rust_bind (cred_syscall mods tid st call) (\<lambda>(st1, r).
        rust_bind (run_calls mods tid st1 calls) (\<lambda>(st2, rs). Return (st2, r # rs))))"

section \<open>Each call keeps the contract\<close>

lemma fst_try_then_return [simp]: "fst (try_then m (\<lambda>c _. (c, Inr x))) = fst m"
  by (cases m; cases "snd m") (auto simp: try_then_def)

lemma confined_sys_ids:
  "confined c (fst (sys_setuid c u))" "confined c (fst (sys_setreuid c u u'))"
  "confined c (fst (sys_setresuid c u u' u''))" "confined c (fst (sys_setfsuid c u))"
  "confined c (fst (sys_setgid c u))" "confined c (fst (sys_setregid c u u'))"
  "confined c (fst (sys_setresgid c u u' u''))" "confined c (fst (sys_setfsgid c u))"
  by (simp_all add: sys_setuid_def sys_setreuid_def sys_setresuid_def sys_setfsuid_def sys_setgid_def
      sys_setregid_def sys_setresgid_def sys_setfsgid_def confined_ops case_prod_unfold)

lemma confined_sys_setgroups: "confined c (fst (sys_setgroups (active_modules l s) c n g))"
  by (auto simp: sys_setgroups_def confined_def shrinks_def cred_ok_def uids_def gids_def contains_orI
      split: sum.split)

lemma confined_store_capsets:
  "capset_ok i \<Longrightarrow> confined c (fst (store_capsets mods c p e i))"
  by (cases "on_capable mods c SETPCAP")
    (auto simp: store_capsets_def confined_def shrinks_def cred_ok_def uids_def gids_def contains_orI
      intro: contains_trans capset_ok_contains contains_orI(2))

lemma confined_sys_capset: "confined c (fst (sys_capset mods tid mem c))"
  by (simp add: sys_capset_def confined_store_capsets split: sum.split)

lemma securebits_try_from_ok: "securebits_try_from b = Inr b' \<Longrightarrow> securebits_ok b'"
  by (auto simp: securebits_ok_def securebits_try_from_def split: if_splits)

lemma prctl_from_args_ok:
  assumes "prctl_from_args opt arg = Some m"
  obtains r where "m = Return r" "\<And>b. r = Inr (PR_SET_SECUREBITS b) \<Longrightarrow> securebits_ok b"
proof (cases "securebits_try_from (ucast arg)")
  case Inl
  with assms that show ?thesis
    by (auto simp: prctl_from_args_def parse_capability_def from_capability_number_eq split: if_splits)
next
  case (Inr b)
  with assms that securebits_try_from_ok [OF Inr] show ?thesis
    by (auto simp: prctl_from_args_def parse_capability_def from_capability_number_eq split: if_splits)
qed

lemma confined_prctl_cmd:
  "(\<And>b. cmd = PR_SET_SECUREBITS b \<Longrightarrow> securebits_ok b) \<Longrightarrow> confined c (fst (prctl_cmd c cmd))"
  by (cases cmd) (auto simp: confined_ops)

lemma sys_prctl_confined:
  assumes "sys_prctl c opt arg = Some m"
  obtains r where "m = Return r" "confined c (fst r)"
proof -
  from assms obtain m' where m': "prctl_from_args opt arg = Some m'" by (auto simp: sys_prctl_def)
  from prctl_from_args_ok [OF m'] obtain r
    where r: "m' = Return r" "\<And>b. r = Inr (PR_SET_SECUREBITS b) \<Longrightarrow> securebits_ok b" by blast
  show thesis
  proof (rule that)
    show "m = Return (case r of Inl e \<Rightarrow> (c, Inl e) | Inr cmd \<Rightarrow> prctl_cmd c cmd)"
      using assms by (simp add: sys_prctl_def m' r(1))
    show "confined c (fst (case r of Inl e \<Rightarrow> (c, Inl e) | Inr cmd \<Rightarrow> prctl_cmd c cmd))"
      using r(2) by (auto intro: confined_prctl_cmd split: sum.split)
  qed
qed

section \<open>Effect of program execution\<close>

text \<open>The IDs the executed file gives: those of the file under its set-ID bits.\<close>

definition exec_uid :: "Credentials \<Rightarrow> u16 \<Rightarrow> Uid \<Rightarrow> Uid" where
  "exec_uid c mode owner = (if has_set_uid mode then owner else euid c)"

definition exec_gid :: "Credentials \<Rightarrow> u16 \<Rightarrow> Gid \<Rightarrow> Gid" where
  "exec_gid c mode grp = (if has_set_gid mode then grp else egid c)"

definition exec_permitted :: "Credentials \<Rightarrow> Uid \<Rightarrow> CapSet" where
  "exec_permitted c e =
     (if (e = 0 \<or> ruid c = 0) \<and> \<not> no_root (securebits c)
      then capset_all AND ((if loses_root c (ruid c) e e then 0 else inheritable_capset c) OR bounding_capset c)
      else 0)"

definition exec_uid_creds :: "Credentials \<Rightarrow> Uid \<Rightarrow> Credentials" where
  "exec_uid_creds c e =
     c\<lparr>euid := e, suid := e, fsuid := e,
       inheritable_capset := (if loses_root c (ruid c) e e then 0 else inheritable_capset c),
       permitted_capset := exec_permitted c e,
       effective_capset := (if e = 0 \<and> \<not> no_root (securebits c) then exec_permitted c e else 0)\<rparr>"

lemma reset_suid_eq: "reset_suid c = exec_uid_creds c (euid c)"
  by (simp add: reset_suid_def set_suid_eq set_resuid_unchecked_eq exec_uid_creds_def exec_permitted_def Let_def)

lemma set_euid_sel [simp]:
  "ruid (set_euid c e) = ruid c" "euid (set_euid c e) = e" "securebits (set_euid c e) = securebits c"
  "bounding_capset (set_euid c e) = bounding_capset c" "uids (set_euid c e) = {ruid c, e, suid c}"
  "inheritable_capset (set_euid c e) =
     (if loses_root c (ruid c) e (suid c) then 0 else inheritable_capset c)"
  by (simp_all add: set_euid_def set_resuid_unchecked_eq uids_def Let_def)

lemma exec_uid_creds_overwrites:
  "(set_euid c e)\<lparr>euid := e, suid := e, fsuid := e, inheritable_capset := i, permitted_capset := p,
     effective_capset := f\<rparr> =
   c\<lparr>euid := e, suid := e, fsuid := e, inheritable_capset := i, permitted_capset := p, effective_capset := f\<rparr>"
  by (simp add: set_euid_def set_resuid_unchecked_eq Let_def)

lemma inheritable_after_exec:
  "(if loses_root (set_euid c e) (ruid c) e e then 0 else inheritable_capset (set_euid c e)) =
   (if loses_root c (ruid c) e e then 0 else inheritable_capset c)"
  by (auto simp: loses_root_def) (auto simp: uids_def)

lemma reset_suid_set_euid: "reset_suid (set_euid c e) = exec_uid_creds c e"
proof -
  have "exec_permitted (set_euid c e) e = exec_permitted c e"
    using inheritable_after_exec [of c e] by (simp add: exec_permitted_def)
  then show ?thesis
    by (simp only: reset_suid_eq exec_uid_creds_def set_euid_sel(1-5) exec_uid_creds_overwrites
        inheritable_after_exec)
qed

lemma set_uid_from_elf_eq:
  "inode_mode i = Inr mode \<Longrightarrow> inode_owner i = Inr owner \<Longrightarrow>
   set_uid_from_elf st i =
     (st\<lparr>creds := exec_uid_creds (creds st) (exec_uid (creds st) mode owner),
        parent_death_signal := (if has_set_uid mode then None else parent_death_signal st)\<rparr>, Inr ())"
  by (cases "has_set_uid mode")
    (simp_all add: set_uid_from_elf_def exec_uid_def reset_suid_set_euid, simp add: reset_suid_eq)

lemma set_gid_from_elf_eq:
  "inode_mode i = Inr mode \<Longrightarrow> inode_group i = Inr grp \<Longrightarrow>
   set_gid_from_elf st i =
     (let g = exec_gid (creds st) mode grp
      in (st\<lparr>creds := (creds st)\<lparr>egid := g, sgid := g, fsgid := g\<rparr>,
            parent_death_signal := (if has_set_gid mode then None else parent_death_signal st)\<rparr>, Inr ()))"
  by (simp add: set_gid_from_elf_def exec_gid_def reset_sgid_def set_sgid_def set_egid_def
      set_resgid_unchecked_eq Let_def)

section \<open>Contract of the dispatcher\<close>

text \<open>The IDs a call may add: the owner and group of an executed file with the set-ID bits.\<close>

fun uid_grant :: "CredCall \<Rightarrow> Uid set" where
  "uid_grant (Execve i) =
     (case (inode_mode i, inode_owner i) of
        (Inr mode, Inr owner) \<Rightarrow> if has_set_uid mode then {owner} else {}
      | _ \<Rightarrow> {})"
| "uid_grant _ = {}"

fun gid_grant :: "CredCall \<Rightarrow> Gid set" where
  "gid_grant (Execve i) =
     (case (inode_mode i, inode_group i) of
        (Inr mode, Inr grp) \<Rightarrow> if has_set_gid mode then {grp} else {}
      | _ \<Rightarrow> {})"
| "gid_grant _ = {}"

lemma cred_ok_exec_uid_creds: "cred_ok c \<Longrightarrow> cred_ok (exec_uid_creds c e)"
  by (auto simp: cred_ok_def exec_uid_creds_def exec_permitted_def capset_ok_iff contains_andI)

lemma thread_step_exec_uid_creds:
  assumes "e \<in> insert (euid c) U" shows "thread_step U {} c (exec_uid_creds c e)"
proof -
  have "stays_within U {} c (exec_uid_creds c e)" if "unprivileged c" "0 \<notin> U"
  proof -
    have "exec_permitted c e = 0" "e \<noteq> 0"
      using that assms by (auto simp: exec_permitted_def unprivileged_def uids_def)
    then show ?thesis
      using assms by (auto simp: stays_within_def shrinks_def exec_uid_creds_def uids_def gids_def)
  qed
  then show ?thesis using cred_ok_exec_uid_creds by (auto simp: thread_step_def exec_uid_creds_def)
qed

lemma thread_step_exec_gid:
  assumes "g \<in> insert (egid c) G"
  shows "thread_step {} G c (c\<lparr>egid := g, sgid := g, fsgid := g\<rparr>)"
  using assms
  by (auto simp: thread_step_def stays_within_def shrinks_def cred_ok_def uids_def gids_def contains_orI)

lemma thread_step_set_uid_from_elf:
  "thread_step (uid_grant (Execve i)) {} (creds st) (creds (fst (set_uid_from_elf st i)))"
proof (cases "inode_mode i")
  case (Inr mode)
  show ?thesis
  proof (cases "has_set_uid mode")
    case True
    then show ?thesis
      by (cases "inode_owner i")
        (simp_all add: set_uid_from_elf_def Inr reset_suid_set_euid thread_step_exec_uid_creds)
  next
    case False
    then show ?thesis
      using thread_step_exec_uid_creds [of "euid (creds st)" "creds st" "{}"]
      by (simp add: set_uid_from_elf_def Inr reset_suid_eq split: sum.split)
  qed
qed (simp add: set_uid_from_elf_def)

lemma thread_step_set_gid_from_elf:
  "thread_step {} (gid_grant (Execve i)) (creds st) (creds (fst (set_gid_from_elf st i)))"
proof (cases "inode_mode i")
  case (Inr mode)
  note eqs = set_gid_from_elf_def reset_sgid_def set_sgid_def set_egid_def set_resgid_unchecked_eq
  show ?thesis
  proof (cases "has_set_gid mode")
    case True
    then show ?thesis
      by (cases "inode_group i") (simp_all add: eqs Inr thread_step_exec_gid)
  next
    case False
    then show ?thesis
      using thread_step_exec_gid [of "egid (creds st)" "creds st" "{}"]
      by (simp add: eqs Inr split: sum.split)
  qed
qed (simp add: set_gid_from_elf_def)

lemma thread_step_keep_caps:
  "thread_step {} {} (creds st) (fst (set_keep_capabilities (creds st) keep))"
  by (simp add: thread_step_confined confined_set_keep_capabilities)

lemma thread_step_apply_caps_from_exec:
  "thread_step (uid_grant (Execve i)) (gid_grant (Execve i)) (creds st)
     (creds (fst (apply_caps_from_exec st i)))"
proof -
  let ?U = "uid_grant (Execve i)" and ?G = "gid_grant (Execve i)"
  let ?m1 = "set_uid_from_elf st i"
  let ?m2 = "set_gid_from_elf (fst ?m1) i"
  let ?c3 = "fst (set_keep_capabilities (creds (fst ?m2)) False)"
  have s1: "thread_step ?U {} (creds st) (creds (fst ?m1))" by (rule thread_step_set_uid_from_elf)
  have s2: "thread_step ?U ?G (creds st) (creds (fst ?m2))"
    using thread_step_trans [OF s1 thread_step_set_gid_from_elf] by simp
  have s3: "thread_step ?U ?G (creds st) ?c3"
    using thread_step_trans [OF s2 thread_step_keep_caps] by simp
  have s1': "thread_step ?U ?G (creds st) (creds (fst ?m1))"
    using s1 by (auto simp: thread_step_def stays_within_def)
  consider (e1) e where "snd ?m1 = Inl e" | (e2) u e where "snd ?m1 = Inr u" "snd ?m2 = Inl e"
    | (ok) u v where "snd ?m1 = Inr u" "snd ?m2 = Inr v"
    by (cases "snd ?m1"; cases "snd ?m2") auto
  then have "creds (fst (apply_caps_from_exec st i)) \<in> {creds (fst ?m1), creds (fst ?m2), ?c3}"
    by cases (simp_all add: apply_caps_from_exec_def try_then_def case_prod_unfold)
  with s1' s2 s3 show ?thesis by auto
qed

lemma creds_do_execve [simp]: "creds (fst (do_execve st i)) = creds (fst (apply_caps_from_exec st i))"
  by (simp add: do_execve_def case_prod_unfold split: sum.split)

lemma cred_syscall_step:
  "\<exists>st' r. cred_syscall (active_modules l s) tid st call = Return (st', r)
     \<and> thread_step (uid_grant call) (gid_grant call) (creds st) (creds st')"
proof (cases call)
  case (Prctl opt arg)
  show ?thesis
  proof (cases "sys_prctl (creds st) opt arg")
    case None
    with Prctl show ?thesis by simp
  next
    case (Some m)
    then obtain r where "m = Return r" "confined (creds st) (fst r)" by (rule sys_prctl_confined)
    with Some Prctl show ?thesis by (simp add: on_creds_def case_prod_unfold thread_step_confined)
  qed
next
  case (Execve i)
  show ?thesis
    by (rule exI [of _ "fst (do_execve st i)"], rule exI [of _ "snd (do_execve st i)"])
      (simp only: Execve cred_syscall.simps prod.collapse creds_do_execve
        thread_step_apply_caps_from_exec simp_thms)
qed (simp_all add: on_creds_def case_prod_unfold thread_step_confined confined_sys_ids
    confined_sys_setgroups confined_sys_capset)

section \<open>Sequences of calls\<close>

text \<open>
  The interface of a thread that makes calls: the credentials of its state, the IDs a call may grant,
  and the law that every call keeps the contract. Sequences keep it with the IDs of all calls.
\<close>

locale thread_calls =
  fixes run :: "'call \<Rightarrow> 's \<Rightarrow> 's" and cr :: "'s \<Rightarrow> Credentials"
    and ug :: "'call \<Rightarrow> Uid set" and gg :: "'call \<Rightarrow> Gid set"
  assumes run_step: "thread_step (ug call) (gg call) (cr st) (cr (run call st))"
begin

lemma runs_step:
  "thread_step (\<Union> (ug ` set calls)) (\<Union> (gg ` set calls)) (cr st) (cr (fold run calls st))"
proof (induction calls arbitrary: st)
  case (Cons call calls)
  from thread_step_trans [OF run_step Cons.IH] show ?case by simp
qed simp

lemma runs_keep:
  "cred_ok (cr st) \<Longrightarrow> cred_ok (cr (fold run calls st))"
  "locks_kept (securebits (cr st)) (securebits (cr (fold run calls st)))"
  "contains (bounding_capset (cr st)) (bounding_capset (cr (fold run calls st)))"
  using runs_step [of calls st] by (simp_all add: thread_step_def)

lemma runs_unprivileged:
  assumes "unprivileged (cr st)" "\<forall>call \<in> set calls. 0 \<notin> ug call"
  shows "stays_within (\<Union> (ug ` set calls)) (\<Union> (gg ` set calls)) (cr st) (cr (fold run calls st))"
  using runs_step [of calls st] assms by (simp add: thread_step_def)

end

definition state_after :: "LsmModule list \<Rightarrow> u32 \<Rightarrow> CredCall \<Rightarrow> ThreadState \<Rightarrow> ThreadState" where
  "state_after mods tid call st =
     (if killed st then st
      else case cred_syscall mods tid st call of Return (st', r) \<Rightarrow> st' | Panic \<Rightarrow> st)"

interpretation sys: thread_calls "state_after (active_modules l s) tid" creds uid_grant gid_grant
  for l s tid
proof
  fix call st
  obtain st' r where "cred_syscall (active_modules l s) tid st call = Return (st', r)"
    "thread_step (uid_grant call) (gid_grant call) (creds st) (creds st')"
    using cred_syscall_step by blast
  then show "thread_step (uid_grant call) (gid_grant call) (creds st)
      (creds (state_after (active_modules l s) tid call st))"
    by (simp add: state_after_def thread_step_mono)
qed

lemma state_after_simps [step_simps]:
  "killed st \<Longrightarrow> state_after mods tid call st = st"
  "\<not> killed st \<Longrightarrow> cred_syscall mods tid st call = Return (st', r) \<Longrightarrow> state_after mods tid call st = st'"
  by (simp_all add: state_after_def)

lemma fold_killed: "killed st \<Longrightarrow> fold (state_after mods tid) calls st = st"
  by (induction calls) (simp_all add: step_simps)

text \<open>No sequence of calls panics, and it ends in the state the calls lead to.\<close>

lemma run_calls_eq:
  "\<exists>rs. run_calls (active_modules l s) tid st calls =
     Return (fold (state_after (active_modules l s) tid) calls st, rs)"
proof (induction calls arbitrary: st)
  case (Cons call calls)
  obtain st' r where "cred_syscall (active_modules l s) tid st call = Return (st', r)"
    using cred_syscall_step by blast
  with Cons.IH [of st'] show ?case by (cases "killed st") (auto simp: fold_killed step_simps)
qed simp

section \<open>Exact results\<close>

lemma sys_setresuid_eq:
  "sys_setresuid c r e s =
     (if contains (effective_capset c) SETUID
         \<or> set_option (id_arg r) \<union> set_option (id_arg e) \<union> set_option (id_arg s) \<subseteq> uids c
      then (set_resuid_unchecked c (id_arg r) (id_arg e) (id_arg s), Inr 0) else (c, Inl EPERM))"
  by (auto simp: sys_setresuid_def set_resuid_def check_uid_perm_eq uids_def)

lemma sys_setuid_privileged:
  "contains (effective_capset c) SETUID \<Longrightarrow> 0 \<le> sint u \<Longrightarrow>
   sys_setuid c u = (set_resuid_unchecked c (Some u) (Some u) (Some u), Inr 0)"
  by (simp add: sys_setuid_def set_uid_def)

lemma apply_caps_from_exec_eq:
  assumes "inode_mode i = Inr mode" "inode_owner i = Inr owner" "inode_group i = Inr grp"
  shows "apply_caps_from_exec st i =
    (let c = exec_uid_creds (creds st) (exec_uid (creds st) mode owner);
         g = exec_gid (creds st) mode grp;
         c' = c\<lparr>egid := g, sgid := g, fsgid := g\<rparr>;
         (c'', r) = set_keep_capabilities c' False
     in (st\<lparr>creds := c'',
           parent_death_signal := (if has_set_uid mode \<or> has_set_gid mode then None else parent_death_signal st)\<rparr>, r))"
  by (simp add: apply_caps_from_exec_def set_uid_from_elf_eq [OF assms(1,2)] set_gid_from_elf_eq [OF assms(1,3)]
      exec_gid_def exec_uid_creds_def Let_def case_prod_unfold)

lemma do_execve_eq:
  assumes "inode_mode i = Inr mode" "inode_owner i = Inr owner" "inode_group i = Inr grp"
  shows "do_execve st i =
    (let c = creds st; e = exec_uid c mode owner; g = exec_gid c mode grp;
         c' = (exec_uid_creds c e)\<lparr>egid := g, sgid := g, fsgid := g\<rparr>;
         signal = (if has_set_uid mode \<or> has_set_gid mode then None else parent_death_signal st)
     in if contains (securebits c) KEEP_CAPS \<and> contains (securebits c) KEEP_CAPS_LOCKED
        then (st\<lparr>creds := c', parent_death_signal := signal, killed := True\<rparr>, Inl EPERM)
        else (st\<lparr>creds := c'\<lparr>securebits := securebits c AND NOT KEEP_CAPS\<rparr>, parent_death_signal := signal\<rparr>, Inr 0))"
  by (simp add: do_execve_def apply_caps_from_exec_eq [OF assms] set_keep_capabilities_def
      securebits_try_store_def clear_keep_caps exec_uid_creds_def Let_def case_prod_unfold)

section \<open>Properties\<close>

text \<open>
  C3. Confinement. A thread without a root user ID that can use neither \<^verbatim>\<open>CAP_SETUID\<close> nor
  \<^verbatim>\<open>CAP_SETGID\<close> makes any sequence of calls, and executes any files except files that are set-UID
  root: then no call panics, its user and group IDs stay among the ones it had and those of the
  set-ID files it executed, its supplementary groups do not change, its permitted set never grows,
  and its effective set stays within what it could use at the start.
\<close>

theorem unprivileged_confined:
  assumes "unprivileged (creds st)" "\<forall>call \<in> set calls. 0 \<notin> uid_grant call"
  shows "\<exists>st' rs. run_calls (active_modules lsm_param security_param) tid st calls = Return (st', rs)
    \<and> stays_within (\<Union> (uid_grant ` set calls)) (\<Union> (gid_grant ` set calls)) (creds st) (creds st')"
  using run_calls_eq sys.runs_unprivileged [OF assms] by blast

definition plain_file :: ElfInode where
  "plain_file = \<lparr>inode_mode = Inr 0x1ed, inode_owner = Inr 0, inode_group = Inr 0\<rparr>"

definition user_file :: ElfInode where
  "user_file = \<lparr>inode_mode = Inr 0x9ed, inode_owner = Inr 33, inode_group = Inr 0\<rparr>"

definition user_thread :: ThreadState where
  "user_thread = \<lparr>creds = cred_new 1000 1000 0, parent_death_signal = None, killed = False\<rparr>"

definition root_thread :: ThreadState where
  "root_thread = \<lparr>creds = cred_new_root, parent_death_signal = None, killed = False\<rparr>"

lemma set_id_bits [simp]:
  "\<not> has_set_uid 0x1ed" "\<not> has_set_gid 0x1ed" "has_set_uid 0x9ed" "\<not> has_set_gid 0x9ed"
  by (simp_all add: has_set_uid_def has_set_gid_def contains_def S_ISUID_def S_ISGID_def)

theorem unprivileged_confined_witness:
  "\<exists>st' rs. run_calls (active_modules None None) 7 user_thread
      [Setuid 0, Execve plain_file, Execve user_file, Setresuid 0 0 0] = Return (st', rs)
    \<and> stays_within {33} {} (creds user_thread) (creds st')"
  using unprivileged_confined [of user_thread "[Setuid 0, Execve plain_file, Execve user_file, Setresuid 0 0 0]"
      None None 7]
  by (simp add: user_thread_def cred_new_def unprivileged_def uids_def plain_file_def user_file_def
      cap_flag_defs)

text \<open>
  C10. Dropping root with \<^verbatim>\<open>setuid\<close> is final. A thread with effective user ID 0 and \<^verbatim>\<open>CAP_SETUID\<close>, under
  the default secure bits, calls \<^verbatim>\<open>setuid\<close> with another user ID: the call succeeds, and after every
  sequence of later calls that executes no set-UID root file the thread has only that user ID
  (and those of the set-UID files it executed) and neither a permitted nor an effective capability.
\<close>

theorem privilege_drop_is_final:
  assumes "contains (effective_capset (creds st)) SETUID" "euid (creds st) = 0" "\<not> killed st"
    and "\<not> no_setuid_fixup (securebits (creds st))" "\<not> keep_capabilities (securebits (creds st))"
    and "0 < sint u" "\<forall>call \<in> set calls. 0 \<notin> uid_grant call"
  shows "\<exists>st' rs. run_calls (active_modules lsm_param security_param) tid st (Setuid u # calls)
      = Return (st', Inr 0 # rs)
    \<and> uids (creds st') \<subseteq> insert u (\<Union> (uid_grant ` set calls))
    \<and> permitted_capset (creds st') = 0 \<and> effective_capset (creds st') = 0"
proof -
  let ?m = "active_modules lsm_param security_param"
  define st1 where "st1 = st\<lparr>creds := set_resuid_unchecked (creds st) (Some u) (Some u) (Some u)\<rparr>"
  from \<open>0 < sint u\<close> have "u \<noteq> 0" by auto
  then have c1: "uids (creds st1) = {u}" "permitted_capset (creds st1) = 0" "effective_capset (creds st1) = 0"
    using assms by (simp_all add: st1_def set_resuid_unchecked_eq loses_root_def fixed_effective_def uids_def Let_def)
  then have "unprivileged (creds st1)"
    using \<open>u \<noteq> 0\<close> by (simp add: unprivileged_def cap_flag_defs)
  with assms(7) obtain rs where rs: "run_calls ?m tid st1 calls = Return (fold (state_after ?m tid) calls st1, rs)"
    and within: "stays_within (\<Union> (uid_grant ` set calls)) (\<Union> (gid_grant ` set calls)) (creds st1)
      (creds (fold (state_after ?m tid) calls st1))"
    using run_calls_eq sys.runs_unprivileged by blast
  have "cred_syscall ?m tid st (Setuid u) = Return (st1, Inr 0)"
    using assms by (simp add: sys_setuid_privileged on_creds_def st1_def)
  then have "run_calls ?m tid st (Setuid u # calls) = Return (fold (state_after ?m tid) calls st1, Inr 0 # rs)"
    using assms(3) rs by simp
  with within c1 show ?thesis by (simp add: stays_within_def shrinks_def)
qed

theorem privilege_drop_is_final_witness:
  "\<exists>st' rs. run_calls (active_modules None None) 7 root_thread (Setuid 1000 # [Setuid 0, Execve plain_file])
      = Return (st', Inr 0 # rs)
    \<and> uids (creds st') \<subseteq> {1000} \<and> permitted_capset (creds st') = 0 \<and> effective_capset (creds st') = 0"
  using privilege_drop_is_final [of root_thread 1000 "[Setuid 0, Execve plain_file]" None None 7]
  by (simp add: root_thread_def cred_new_root_def cred_new_def capset_new_root_def capset_all_eq
      contains_cap_bit bit_mask_iff no_setuid_fixup_def keep_capabilities_def securebits_new_empty_def
      NO_SETUID_FIXUP_def KEEP_CAPS_def plain_file_def)

definition setuid_only :: CapUserMem where
  "setuid_only =
     \<lparr>cap_header = Inr \<lparr>version = 0x20080522, pid = 0\<rparr>,
      cap_data_lo = Inr \<lparr>effective = 0x80, permitted = 0xffffffff, inheritable = 0\<rparr>,
      cap_data_hi = Inr \<lparr>effective = 0, permitted = 0x1ff, inheritable = 0\<rparr>,
      version_write = Inr (), data_lo_write = Inr (), data_hi_write = Inr ()\<rparr>"


text \<open>
  C16. Executing a program, on every branch. When the inode can be read, \<^verbatim>\<open>execve\<close> makes the effective,
  saved and filesystem IDs those of a set-ID file (or the effective IDs), clears the parent-death
  signal for a set-ID file, and recomputes the capabilities: with a root real or effective user ID
  the permitted set becomes the inheritable and bounding sets together, otherwise it is empty, and
  the effective set is the permitted set for effective root and empty otherwise. The inheritable set
  is kept unless the last root user ID goes away. \<^verbatim>\<open>KEEP_CAPS\<close> is cleared, but if it is set and locked
  the call fails with \<^verbatim>\<open>EPERM\<close> after the changes, and the thread is killed.
\<close>

theorem execve_exact:
  assumes "inode_mode i = Inr mode" "inode_owner i = Inr owner" "inode_group i = Inr grp"
  shows "do_execve st i =
    (let c = creds st;
         e = (if has_set_uid mode then owner else euid c);
         g = (if has_set_gid mode then grp else egid c);
         inh = (if \<not> no_setuid_fixup (securebits c) \<and> \<not> keep_capabilities (securebits c)
                  \<and> 0 \<in> uids c \<and> 0 \<notin> {ruid c, e} then 0 else inheritable_capset c);
         perm = (if 0 \<in> {ruid c, e} \<and> \<not> no_root (securebits c)
                 then capset_all AND (inh OR bounding_capset c) else 0);
         eff = (if e = 0 \<and> \<not> no_root (securebits c) then perm else 0);
         c' = c\<lparr>euid := e, suid := e, fsuid := e, egid := g, sgid := g, fsgid := g,
                inheritable_capset := inh, permitted_capset := perm, effective_capset := eff\<rparr>;
         signal = (if has_set_uid mode \<or> has_set_gid mode then None else parent_death_signal st)
     in if contains (securebits c) KEEP_CAPS \<and> contains (securebits c) KEEP_CAPS_LOCKED
        then (st\<lparr>creds := c', parent_death_signal := signal, killed := True\<rparr>, Inl EPERM)
        else (st\<lparr>creds := c'\<lparr>securebits := securebits c AND NOT KEEP_CAPS\<rparr>,
                 parent_death_signal := signal\<rparr>, Inr 0))"
proof -
  have lost: "loses_root c (ruid c) e e \<longleftrightarrow> \<not> no_setuid_fixup (securebits c)
      \<and> \<not> keep_capabilities (securebits c) \<and> 0 \<in> uids c \<and> 0 \<notin> {ruid c, e}" for c e
    by (auto simp: loses_root_def)
  have perm: "exec_permitted c e = (if 0 \<in> {ruid c, e} \<and> \<not> no_root (securebits c)
      then capset_all AND ((if loses_root c (ruid c) e e then 0 else inheritable_capset c) OR bounding_capset c)
      else 0)" for c e
    by (auto simp: exec_permitted_def)
  have order: "c\<lparr>euid := e, suid := e, fsuid := e, inheritable_capset := i, permitted_capset := p,
      effective_capset := f, egid := g, sgid := g, fsgid := g\<rparr> =
    c\<lparr>euid := e, suid := e, fsuid := e, egid := g, sgid := g, fsgid := g,
      inheritable_capset := i, permitted_capset := p, effective_capset := f\<rparr>" for c e g i p f
    by simp
  show ?thesis
    unfolding do_execve_eq [OF assms] exec_uid_creds_def exec_uid_def exec_gid_def perm lost order Let_def ..
qed

theorem execve_exact_witness:
  "do_execve \<lparr>creds = cred_new 1000 1000 0, parent_death_signal = Some 9, killed = False\<rparr> user_file =
     (\<lparr>creds = (cred_new 1000 1000 0)\<lparr>euid := 33, suid := 33, fsuid := 33\<rparr>,
       parent_death_signal = None, killed = False\<rparr>, Inr 0)"
  using execve_exact [of user_file "0x9ed" 33 0
      "\<lparr>creds = cred_new 1000 1000 0, parent_death_signal = Some 9, killed = False\<rparr>"]
  by (simp add: user_file_def cred_new_def securebits_new_empty_def securebit_flag_defs uids_def Let_def)

text \<open>
  C24. Well-formed cells. If every capability set and the secure bits of a thread hold only declared
  flags, then so they do after every sequence of calls: no call panics, and no later load of an
  atomic cell does.
\<close>

theorem credentials_stay_well_formed:
  assumes "cred_ok (creds st)"
  shows "\<exists>st' rs. run_calls (active_modules lsm_param security_param) tid st calls = Return (st', rs)
    \<and> cred_ok (creds st')"
  using run_calls_eq sys.runs_keep(1) [OF assms] by blast

theorem credentials_stay_well_formed_witness:
  "\<exists>st' rs. run_calls (active_modules None None) 7 root_thread [Prctl 28 0x10, Capset setuid_only, Prctl 24 40]
      = Return (st', rs) \<and> cred_ok (creds st')"
  using credentials_stay_well_formed [of root_thread None None 7 "[Prctl 28 0x10, Capset setuid_only, Prctl 24 40]"]
  by (simp add: root_thread_def cred_new_root_def)

text \<open>
  C31. Irreversible restrictions. Through every sequence of calls, program executions included, the
  bounding set never gains a capability, a lock among the secure bits is never released, and a bit
  under a lock never changes.
\<close>

theorem restrictions_are_irreversible:
  "\<exists>st' rs. run_calls (active_modules lsm_param security_param) tid st calls = Return (st', rs)
    \<and> contains (bounding_capset (creds st)) (bounding_capset (creds st'))
    \<and> (\<forall>n. lockable n \<and> bit (securebits (creds st)) (Suc n) \<longrightarrow>
         bit (securebits (creds st')) (Suc n)
         \<and> (bit (securebits (creds st')) n \<longleftrightarrow> bit (securebits (creds st)) n))"
proof -
  let ?st' = "fold (state_after (active_modules lsm_param security_param) tid) calls st"
  have "locks_kept (securebits (creds st)) (securebits (creds ?st'))" by (rule sys.runs_keep(2))
  then show ?thesis
    using run_calls_eq [of lsm_param security_param tid st calls] sys.runs_keep(3)
    unfolding locks_kept_iff by blast
qed

definition locked_thread :: ThreadState where
  "locked_thread = root_thread\<lparr>creds := cred_new_root\<lparr>securebits := KEEP_CAPS OR KEEP_CAPS_LOCKED\<rparr>\<rparr>"

theorem restrictions_are_irreversible_witness:
  "\<exists>st' rs. run_calls (active_modules None None) 7 locked_thread [Prctl 28 0, Prctl 8 0, Execve plain_file]
      = Return (st', rs)
    \<and> bit (securebits (creds st')) 5 \<and> bit (securebits (creds st')) 4"
proof -
  have "lockable 4" "bit (securebits (creds locked_thread)) 5" "bit (securebits (creds locked_thread)) 4"
    by (simp_all add: lockable_def locked_thread_def KEEP_CAPS_def KEEP_CAPS_LOCKED_def)
  then show ?thesis
    using restrictions_are_irreversible [of None None 7 locked_thread "[Prctl 28 0, Prctl 8 0, Execve plain_file]"]
    by fastforce
qed

text \<open>
  \<^verbatim>\<open>capget\<close> and \<^verbatim>\<open>capset\<close> agree. For a thread with well-formed sets and an effective set within the
  permitted one, \<^verbatim>\<open>capget\<close> on itself writes two data structures, and giving them to \<^verbatim>\<open>capset\<close> succeeds
  and changes nothing: the 32-bit halves lose no capability.
\<close>

lemma capget_capset_round_trip:
  assumes "cred_ok c" "contains (permitted_capset c) (effective_capset c)"
    and "cap_header mem = Inr \<lparr>version = LINUX_CAPABILITY_VERSION_3, pid = 0\<rparr>"
    and "data_lo_write mem = Inr ()" "data_hi_write mem = Inr ()"
  shows "\<exists>lo hi. sys_capget thread_creds_of False mem c = ([lo, hi], Inr 0)
    \<and> sys_capset mods tid (mem\<lparr>cap_data_lo := Inr lo, cap_data_hi := Inr hi\<rparr>) c = (c, Inr 0)"
  using assms
  by (simp add: sys_capget_def sys_capset_def store_capsets_def cred_ok_def from_to_lo_hi contains_orI)

lemma capget_capset_round_trip_witness:
  "\<exists>lo hi. sys_capget (\<lambda>_. None) False (setuid_only :: CapUserMem) cred_new_root = ([lo, hi], Inr 0)
    \<and> sys_capset (active_modules None None) 7 (setuid_only\<lparr>cap_data_lo := Inr lo, cap_data_hi := Inr hi\<rparr>)
        cred_new_root = (cred_new_root, Inr 0)"
  using capget_capset_round_trip [of cred_new_root setuid_only "\<lambda>_. None" "active_modules None None" 7]
  by (simp add: setuid_only_def cred_new_root_def cred_new_def LINUX_CAPABILITY_VERSION_3_def cred_ok_def
      securebits_new_empty_def securebits_ok_iff)

end
