(* ===== verification/Signal_Queues.thy ===== *)
theory Signal_Queues
  imports Kei_Prelude
begin

text \<open>
  Pending signals of a thread or a process (\<^verbatim>\<open>kernel/src/process/signal\<close>: \<^verbatim>\<open>sig_num.rs\<close>,
  \<^verbatim>\<open>sig_mask.rs\<close>, \<^verbatim>\<open>sig_queues.rs\<close> and \<^verbatim>\<open>constants.rs\<close>).

  A standard signal has one slot, a real-time signal a first-in first-out queue. A signal is its
  number together with whatever information it carries. Every operation runs under the lock of
  the queues, so it is one step; an index out of range is a panic. The number of pending signals
  that the lock-free fast path reads is kept in a wrapping counter beside the queues.

  The lemmas relate the slots and queues to the abstract pending signals, one sequence per
  signal number, and give the exact effect of every operation on them.
\<close>

section \<open>Signal numbers and sets\<close>

type_synonym SigNum = u8
type_synonym SigSet = u64

definition MIN_STD_SIG_NUM :: u8 where "MIN_STD_SIG_NUM = 1"
definition MAX_STD_SIG_NUM :: u8 where "MAX_STD_SIG_NUM = 31"
definition MIN_RT_SIG_NUM :: u8 where "MIN_RT_SIG_NUM = 32"
definition MAX_RT_SIG_NUM :: u8 where "MAX_RT_SIG_NUM = 64"
definition COUNT_STD_SIGS :: nat where "COUNT_STD_SIGS = 31"
definition COUNT_RT_SIGS :: nat where "COUNT_RT_SIGS = 33"
definition COUNT_ALL_SIGS :: nat where "COUNT_ALL_SIGS = 64"

lemmas sig_consts = MIN_STD_SIG_NUM_def MAX_STD_SIG_NUM_def MIN_RT_SIG_NUM_def MAX_RT_SIG_NUM_def
  COUNT_STD_SIGS_def COUNT_RT_SIGS_def COUNT_ALL_SIGS_def

definition sig_valid :: "u8 \<Rightarrow> bool" where
  "sig_valid n \<longleftrightarrow> MIN_STD_SIG_NUM \<le> n \<and> n \<le> MAX_RT_SIG_NUM"

datatype SigErrno = EINVAL | OtherErrno int

definition signum_try_from :: "u8 \<Rightarrow> SigErrno + SigNum" where
  "signum_try_from n = (if \<not> sig_valid n then Inl EINVAL else Inr n)"

definition signum_from_u8 :: "u8 \<Rightarrow> SigNum rust" where
  "signum_from_u8 n = (if n > MAX_RT_SIG_NUM \<or> n < MIN_STD_SIG_NUM then Panic else Return n)"

definition is_std :: "SigNum \<Rightarrow> bool" where
  "is_std n \<longleftrightarrow> n \<le> MAX_STD_SIG_NUM"

definition is_real_time :: "SigNum \<Rightarrow> bool" where
  "is_real_time n \<longleftrightarrow> n \<ge> MIN_RT_SIG_NUM"

definition sigset_of :: "SigNum \<Rightarrow> SigSet" where
  "sigset_of n = push_bit (unat (n - MIN_STD_SIG_NUM)) 1"

definition sigset_minus :: "SigSet \<Rightarrow> SigSet \<Rightarrow> SigSet" where
  "sigset_minus a b = a AND NOT b"

definition sigset_full :: SigSet where
  "sigset_full = NOT 0"

abbreviation blocks :: "SigSet \<Rightarrow> SigNum \<Rightarrow> bool" where
  "blocks blocked n \<equiv> contains blocked (sigset_of n)"

section \<open>Queues\<close>

datatype 'i Signal = Signal (signum: SigNum) (siginfo: 'i)

record 'i Queues =
  std_queues :: "'i Signal option list"
  rt_queues :: "'i Signal list list"

definition queues_new :: "'i Queues" where
  "queues_new = \<lparr>std_queues = replicate COUNT_STD_SIGS None, rt_queues = replicate COUNT_RT_SIGS []\<rparr>"

text \<open>Indexing of a vector, with the panic out of range.\<close>

definition at_index :: "'a list \<Rightarrow> nat \<Rightarrow> 'a rust" where
  "at_index xs i = (if i < length xs then Return (xs ! i) else Panic)"

definition get_std_queue :: "'i Queues \<Rightarrow> SigNum \<Rightarrow> 'i Signal option rust" where
  "get_std_queue q n = at_index (std_queues q) (unat (n - MIN_STD_SIG_NUM))"

definition get_rt_queue :: "'i Queues \<Rightarrow> SigNum \<Rightarrow> 'i Signal list rust" where
  "get_rt_queue q n = at_index (rt_queues q) (unat (n - MIN_RT_SIG_NUM))"

definition set_std_queue :: "'i Queues \<Rightarrow> SigNum \<Rightarrow> 'i Signal option \<Rightarrow> 'i Queues" where
  "set_std_queue q n x = q\<lparr>std_queues := (std_queues q)[unat (n - MIN_STD_SIG_NUM) := x]\<rparr>"

definition set_rt_queue :: "'i Queues \<Rightarrow> SigNum \<Rightarrow> 'i Signal list \<Rightarrow> 'i Queues" where
  "set_rt_queue q n xs = q\<lparr>rt_queues := (rt_queues q)[unat (n - MIN_RT_SIG_NUM) := xs]\<rparr>"

definition queues_enqueue :: "'i Queues \<Rightarrow> 'i Signal \<Rightarrow> (bool \<times> 'i Queues) rust" where
  "queues_enqueue q s =
     (let n = signum s
      in if is_std n
         then rust_bind (get_std_queue q n) (\<lambda>slot.
           if slot \<noteq> None then Return (False, q)
           else Return (True, set_std_queue q n (Some s)))
         else rust_bind (get_rt_queue q n) (\<lambda>queue.
           Return (True, set_rt_queue q n (queue @ [s]))))"

text \<open>
  The order in which standard signals are taken: SIGKILL, SIGTERM, SIGSTOP, SIGSEGV, SIGILL, SIGHUP,
  SIGCONT, SIGINT, SIGQUIT, SIGTRAP, SIGABRT, SIGBUS, SIGFPE, SIGUSR1, SIGUSR2, SIGPIPE, SIGALRM,
  SIGSTKFLT, SIGCHLD, SIGTSTP, SIGTTIN, SIGTTOU, SIGURG, SIGXCPU, SIGXFSZ, SIGVTALRM, SIGPROF,
  SIGWINCH, SIGIO, SIGPWR, SIGSYS.
\<close>

definition ORDERED_STD_SIGS :: "SigNum list" where
  "ORDERED_STD_SIGS =
     [9, 15, 19, 11, 4, 1, 18, 2, 3, 5, 6, 7, 8, 10, 12, 13, 14, 16, 17, 20, 21, 22, 23, 24, 25, 26, 27,
      28, 29, 30, 31]"

definition RT_SIGS :: "u8 list" where
  "RT_SIGS = map word_of_nat [unat MIN_RT_SIG_NUM..<Suc (unat MAX_RT_SIG_NUM)]"

fun dequeue_std :: "'i Queues \<Rightarrow> SigSet \<Rightarrow> SigNum list \<Rightarrow> ('i Signal option \<times> 'i Queues) rust" where
  "dequeue_std q blocked [] = Return (None, q)"
| "dequeue_std q blocked (n # ns) =
     (if blocks blocked n then dequeue_std q blocked ns
      else rust_bind (get_std_queue q n) (\<lambda>slot.
        case slot of
          Some s \<Rightarrow> Return (Some s, set_std_queue q n None)
        | None \<Rightarrow> dequeue_std q blocked ns))"

fun dequeue_rt :: "'i Queues \<Rightarrow> SigSet \<Rightarrow> u8 list \<Rightarrow> ('i Signal option \<times> 'i Queues) rust" where
  "dequeue_rt q blocked [] = Return (None, q)"
| "dequeue_rt q blocked (n # ns) =
     expect_then (signum_try_from n) (\<lambda>n.
       if blocks blocked n then dequeue_rt q blocked ns
       else rust_bind (get_rt_queue q n) (\<lambda>queue.
         case queue of
           s # rest \<Rightarrow> Return (Some s, set_rt_queue q n rest)
         | [] \<Rightarrow> dequeue_rt q blocked ns))"

definition queues_dequeue :: "'i Queues \<Rightarrow> SigSet \<Rightarrow> ('i Signal option \<times> 'i Queues) rust" where
  "queues_dequeue q blocked =
     rust_bind (dequeue_std q blocked ORDERED_STD_SIGS) (\<lambda>(r, q).
       case r of Some s \<Rightarrow> Return (Some s, q) | None \<Rightarrow> dequeue_rt q blocked RT_SIGS)"

text \<open>
  The two passes of \<^verbatim>\<open>has_pending\<close>: each stops at the first deliverable signal and drops ignored
  signals on its way. \<^verbatim>\<open>will_ignore\<close> is the disposition of a signal.
\<close>

fun any_std ::
  "SigSet \<Rightarrow> ('i Signal \<Rightarrow> bool) \<Rightarrow> 'i Signal option list \<Rightarrow> usize \<times> bool \<times> 'i Signal option list" where
  "any_std blocked will_ignore [] = (0, False, [])"
| "any_std blocked will_ignore (None # slots) =
     (let (k, found, slots) = any_std blocked will_ignore slots in (k, found, None # slots))"
| "any_std blocked will_ignore (Some s # slots) =
     (if blocks blocked (signum s)
      then let (k, found, slots) = any_std blocked will_ignore slots in (k, found, Some s # slots)
      else if will_ignore s
      then let (k, found, slots) = any_std blocked will_ignore slots in (k + 1, found, None # slots)
      else (0, True, Some s # slots))"

fun any_rt ::
  "SigSet \<Rightarrow> ('i Signal \<Rightarrow> bool) \<Rightarrow> 'i Signal list list \<Rightarrow> usize \<times> bool \<times> 'i Signal list list" where
  "any_rt blocked will_ignore [] = (0, False, [])"
| "any_rt blocked will_ignore ([] # queues) =
     (let (k, found, queues) = any_rt blocked will_ignore queues in (k, found, [] # queues))"
| "any_rt blocked will_ignore ((s # ss) # queues) =
     (if blocks blocked (signum s)
      then let (k, found, queues) = any_rt blocked will_ignore queues in (k, found, (s # ss) # queues)
      else if will_ignore s
      then let (k, found, queues) = any_rt blocked will_ignore queues
           in (k + word_of_nat (length (s # ss)), found, [] # queues)
      else (0, True, (s # ss) # queues))"

definition queues_has_pending ::
  "'i Queues \<Rightarrow> SigSet \<Rightarrow> ('i Signal \<Rightarrow> bool) \<Rightarrow> usize \<times> bool \<times> 'i Queues" where
  "queues_has_pending q blocked will_ignore =
     (let (k, found, stds) = any_std blocked will_ignore (std_queues q);
          q = q\<lparr>std_queues := stds\<rparr>
      in if found then (k, True, q)
         else let (j, found, rts) = any_rt blocked will_ignore (rt_queues q)
              in (k + j, found, q\<lparr>rt_queues := rts\<rparr>))"

definition queues_has_pending_signal :: "'i Queues \<Rightarrow> SigNum \<Rightarrow> bool rust" where
  "queues_has_pending_signal q n =
     (if is_std n then rust_bind (get_std_queue q n) (\<lambda>slot. Return (slot \<noteq> None))
      else if is_real_time n then rust_bind (get_rt_queue q n) (\<lambda>queue. Return (queue \<noteq> []))
      else Return False)"

fun add_pending :: "('a \<Rightarrow> bool) \<Rightarrow> u8 \<Rightarrow> 'a list \<Rightarrow> SigSet \<Rightarrow> SigSet rust" where
  "add_pending is_pending n [] acc = Return acc"
| "add_pending is_pending n (x # xs) acc =
     (if is_pending x
      then rust_bind (signum_from_u8 n) (\<lambda>sn. add_pending is_pending (n + 1) xs (acc OR sigset_of sn))
      else add_pending is_pending (n + 1) xs acc)"

definition queues_sig_pending :: "'i Queues \<Rightarrow> SigSet rust" where
  "queues_sig_pending q =
     rust_bind (add_pending (\<lambda>slot. slot \<noteq> None) MIN_STD_SIG_NUM (std_queues q) 0)
       (add_pending (\<lambda>queue. queue \<noteq> []) MIN_RT_SIG_NUM (rt_queues q))"

section \<open>Counted queues\<close>

record 'i SigQueues =
  sq_count :: usize
  queues :: "'i Queues"

definition sq_new :: "'i SigQueues" where
  "sq_new = \<lparr>sq_count = 0, queues = queues_new\<rparr>"

definition sq_is_empty :: "'i SigQueues \<Rightarrow> bool" where
  "sq_is_empty sq \<longleftrightarrow> sq_count sq = 0"

text \<open>The result says whether the observers of a signal file are notified.\<close>

definition sq_enqueue :: "'i SigQueues \<Rightarrow> 'i Signal \<Rightarrow> (bool \<times> 'i SigQueues) rust" where
  "sq_enqueue sq s =
     rust_bind (queues_enqueue (queues sq) s) (\<lambda>(queued, q).
       Return (queued, if queued then \<lparr>sq_count = sq_count sq + 1, queues = q\<rparr> else sq\<lparr>queues := q\<rparr>))"

definition sq_dequeue :: "'i SigQueues \<Rightarrow> SigSet \<Rightarrow> ('i Signal option \<times> 'i SigQueues) rust" where
  "sq_dequeue sq blocked =
     (if sq_is_empty sq then Return (None, sq)
      else rust_bind (queues_dequeue (queues sq) blocked) (\<lambda>(r, q).
        Return (r, \<lparr>sq_count = (if r \<noteq> None then sq_count sq - 1 else sq_count sq), queues = q\<rparr>)))"

definition sq_sig_pending :: "'i SigQueues \<Rightarrow> SigSet rust" where
  "sq_sig_pending sq = queues_sig_pending (queues sq)"

definition sq_has_pending :: "'i SigQueues \<Rightarrow> SigSet \<Rightarrow> ('i Signal \<Rightarrow> bool) \<Rightarrow> bool \<times> 'i SigQueues" where
  "sq_has_pending sq blocked will_ignore =
     (let (dequeued_signals, found, q) = queues_has_pending (queues sq) blocked will_ignore
      in (found, \<lparr>sq_count = sq_count sq - dequeued_signals, queues = q\<rparr>))"

definition sq_has_pending_signal :: "'i SigQueues \<Rightarrow> SigNum \<Rightarrow> bool rust" where
  "sq_has_pending_signal sq n = queues_has_pending_signal (queues sq) n"

section \<open>Pending signals by number\<close>

definition pend :: "'i Queues \<Rightarrow> SigNum \<Rightarrow> 'i Signal list" where
  "pend q n =
     (if is_std n then (case std_queues q ! unat (n - MIN_STD_SIG_NUM) of None \<Rightarrow> [] | Some s \<Rightarrow> [s])
      else rt_queues q ! unat (n - MIN_RT_SIG_NUM))"

definition queues_ok :: "'i Queues \<Rightarrow> bool" where
  "queues_ok q \<longleftrightarrow> length (std_queues q) = COUNT_STD_SIGS \<and> length (rt_queues q) = COUNT_RT_SIGS
     \<and> (\<forall>n s. sig_valid n \<and> s \<in> set (pend q n) \<longrightarrow> signum s = n)"

definition total :: "'i Queues \<Rightarrow> nat" where
  "total q = length (filter (\<lambda>slot. slot \<noteq> None) (std_queues q)) + sum_list (map length (rt_queues q))"

definition sq_ok :: "'i SigQueues \<Rightarrow> bool" where
  "sq_ok sq \<longleftrightarrow> queues_ok (queues sq) \<and> sq_count sq = word_of_nat (total (queues sq))"

lemma std_index:
  assumes "sig_valid n" "is_std n"
  shows "unat (n - MIN_STD_SIG_NUM) < COUNT_STD_SIGS"
  using assms unfolding sig_valid_def is_std_def sig_consts by unat_arith

lemma rt_index:
  assumes "sig_valid n" "\<not> is_std n"
  shows "unat (n - MIN_RT_SIG_NUM) < COUNT_RT_SIGS"
  using assms unfolding sig_valid_def is_std_def sig_consts by unat_arith

lemma index_inj: "unat (n - k) = unat (m - k) \<longleftrightarrow> n = m" for n m k :: u8
  by (simp flip: word_eq_iff_unsigned [where ?'a = nat])

lemma get_std_queue_ok:
  assumes "queues_ok q" "sig_valid n" "is_std n"
  shows "get_std_queue q n = Return (case pend q n of [] \<Rightarrow> None | s # _ \<Rightarrow> Some s)"
    and "length (pend q n) \<le> 1"
  using assms std_index [OF assms(2,3)]
  by (auto simp: get_std_queue_def at_index_def queues_ok_def pend_def split: option.split)

lemma get_rt_queue_ok:
  "queues_ok q \<Longrightarrow> sig_valid n \<Longrightarrow> \<not> is_std n \<Longrightarrow> get_rt_queue q n = Return (pend q n)"
  using rt_index [of n] by (auto simp: get_rt_queue_def at_index_def queues_ok_def pend_def)

lemma pend_set_std:
  assumes "queues_ok q" "sig_valid n" "is_std n"
  shows "pend (set_std_queue q n x) = (pend q)(n := (case x of None \<Rightarrow> [] | Some s \<Rightarrow> [s]))"
  using assms std_index [OF assms(2,3)]
  by (auto simp: fun_eq_iff pend_def set_std_queue_def queues_ok_def nth_list_update index_inj)

lemma pend_set_rt:
  assumes "queues_ok q" "sig_valid n" "\<not> is_std n"
  shows "pend (set_rt_queue q n xs) = (pend q)(n := xs)"
  using assms rt_index [OF assms(2,3)]
  by (auto simp: fun_eq_iff pend_def set_rt_queue_def queues_ok_def nth_list_update index_inj)

lemma length_set_queue [simp]:
  "length (std_queues (set_std_queue q n x)) = length (std_queues q)"
  "length (rt_queues (set_std_queue q n x)) = length (rt_queues q)"
  "length (std_queues (set_rt_queue q n xs)) = length (std_queues q)"
  "length (rt_queues (set_rt_queue q n xs)) = length (rt_queues q)"
  by (simp_all add: set_std_queue_def set_rt_queue_def)

lemma queues_ok_upd:
  assumes "queues_ok q" "length (std_queues q') = length (std_queues q)"
    "length (rt_queues q') = length (rt_queues q)" "pend q' = (pend q)(n := xs)"
    "\<And>s. s \<in> set xs \<Longrightarrow> signum s = n"
  shows "queues_ok q'"
  using assms by (auto simp: queues_ok_def)

lemma pend_new: "sig_valid n \<Longrightarrow> pend queues_new n = []"
  using std_index [of n] rt_index [of n] by (simp add: pend_def queues_new_def)

lemma length_new [simp]:
  "length (std_queues queues_new) = COUNT_STD_SIGS" "length (rt_queues queues_new) = COUNT_RT_SIGS"
  by (simp_all add: queues_new_def)

lemma queues_ok_new [simp]: "queues_ok queues_new"
  by (auto simp: queues_ok_def pend_new)

lemma total_new [simp]: "total queues_new = 0"
  by (simp add: total_def queues_new_def)

lemma sum_list_update_nat:
  "i < length xs \<Longrightarrow> sum_list (xs[i := y]) + xs ! i = sum_list xs + (y :: nat)"
  by (induction xs arbitrary: i) (auto split: nat.split)

lemma length_filter_update:
  "i < length xs \<Longrightarrow>
   length (filter P (xs[i := y])) + (if P (xs ! i) then 1 else 0) = length (filter P xs) + (if P y then 1 else 0)"
proof -
  have count: "length (filter P ys) = sum_list (map (\<lambda>x. if P x then 1 else 0) ys)" for ys
    by (induction ys) auto
  assume "i < length xs"
  then show ?thesis
    using sum_list_update_nat [of i "map (\<lambda>x. if P x then 1 else 0) xs" "if P y then 1 else 0"]
    by (simp add: count map_update)
qed

lemma total_set_std:
  assumes "queues_ok q" "sig_valid n" "is_std n"
  shows "total (set_std_queue q n x) + length (pend q n) = total q + (case x of None \<Rightarrow> 0 | Some _ \<Rightarrow> 1)"
  using assms std_index [OF assms(2,3)]
    length_filter_update [of "unat (n - MIN_STD_SIG_NUM)" "std_queues q" "\<lambda>slot. slot \<noteq> None" x]
  by (auto simp: total_def set_std_queue_def pend_def queues_ok_def split: option.splits)

lemma total_set_rt:
  assumes "queues_ok q" "sig_valid n" "\<not> is_std n"
  shows "total (set_rt_queue q n xs) + length (pend q n) = total q + length xs"
  using assms rt_index [OF assms(2,3)]
    sum_list_update_nat [of "unat (n - MIN_RT_SIG_NUM)" "map length (rt_queues q)" "length xs"]
  by (simp add: total_def set_rt_queue_def pend_def queues_ok_def map_update)

section \<open>Abstract operations\<close>

definition spec_enqueue :: "(SigNum \<Rightarrow> 'i Signal list) \<Rightarrow> 'i Signal \<Rightarrow> bool \<times> (SigNum \<Rightarrow> 'i Signal list)" where
  "spec_enqueue p s =
     (if is_std (signum s) \<and> p (signum s) \<noteq> [] then (False, p)
      else (True, p(signum s := p (signum s) @ [s])))"

text \<open>Standard signals before real-time signals, these by number.\<close>

definition priority :: "SigNum list" where
  "priority = ORDERED_STD_SIGS @ RT_SIGS"

definition spec_dequeue ::
  "(SigNum \<Rightarrow> 'i Signal list) \<Rightarrow> SigSet \<Rightarrow> 'i Signal option \<times> (SigNum \<Rightarrow> 'i Signal list)" where
  "spec_dequeue p blocked =
     (case filter (\<lambda>n. \<not> blocks blocked n \<and> p n \<noteq> []) priority of
        [] \<Rightarrow> (None, p)
      | n # _ \<Rightarrow> (Some (hd (p n)), p(n := tl (p n))))"

lemma set_ORDERED_STD_SIGS: "set ORDERED_STD_SIGS = word_of_nat ` {1..<32}"
proof -
  have "{1..<32::nat} = set [1..<32]" by simp
  also have "word_of_nat ` \<dots> = set ORDERED_STD_SIGS"
    by (simp add: ORDERED_STD_SIGS_def upt_conv_Cons insert_commute)
  finally show ?thesis ..
qed

lemma set_RT_SIGS: "set RT_SIGS = word_of_nat ` {32..<65}"
proof -
  have eq: "[unat MIN_RT_SIG_NUM..<Suc (unat MAX_RT_SIG_NUM)] = [32..<65]" by (simp add: sig_consts)
  show ?thesis unfolding RT_SIGS_def eq set_map set_upt ..
qed

lemma ordered_iff: "n \<in> set ORDERED_STD_SIGS \<longleftrightarrow> sig_valid n \<and> is_std n"
proof
  assume "n \<in> set ORDERED_STD_SIGS"
  then show "sig_valid n \<and> is_std n"
    by (auto simp: set_ORDERED_STD_SIGS sig_valid_def is_std_def sig_consts word_le_nat_alt unat_of_nat
        take_bit_eq_mod)
next
  assume "sig_valid n \<and> is_std n"
  then have "unat n \<in> {1..<32}" by (auto simp: sig_valid_def is_std_def sig_consts word_le_nat_alt)
  then have "word_of_nat (unat n) \<in> set ORDERED_STD_SIGS" unfolding set_ORDERED_STD_SIGS by (rule imageI)
  then show "n \<in> set ORDERED_STD_SIGS" by simp
qed

lemma rt_iff: "n \<in> set RT_SIGS \<longleftrightarrow> sig_valid n \<and> \<not> is_std n"
proof
  assume "n \<in> set RT_SIGS"
  then show "sig_valid n \<and> \<not> is_std n"
    by (auto simp: set_RT_SIGS sig_valid_def is_std_def sig_consts word_le_nat_alt unat_of_nat take_bit_eq_mod)
next
  assume "sig_valid n \<and> \<not> is_std n"
  then have "unat n \<in> {32..<65}" by (auto simp: sig_valid_def is_std_def sig_consts word_le_nat_alt)
  then have "word_of_nat (unat n) \<in> set RT_SIGS" unfolding set_RT_SIGS by (rule imageI)
  then show "n \<in> set RT_SIGS" by simp
qed

lemma set_priority: "n \<in> set priority \<longleftrightarrow> sig_valid n"
  by (auto simp: priority_def ordered_iff rt_iff)

lemma dequeue_std_eq:
  assumes "queues_ok q" "\<forall>n \<in> set ns. sig_valid n \<and> is_std n"
  shows "dequeue_std q b ns =
    (case filter (\<lambda>n. \<not> blocks b n \<and> pend q n \<noteq> []) ns of
       [] \<Rightarrow> Return (None, q) | n # _ \<Rightarrow> Return (Some (hd (pend q n)), set_std_queue q n None))"
  using assms by (induction ns) (auto simp: get_std_queue_ok split: list.split)

lemma dequeue_rt_eq:
  assumes "queues_ok q" "\<forall>n \<in> set ns. sig_valid n \<and> \<not> is_std n"
  shows "dequeue_rt q b ns =
    (case filter (\<lambda>n. \<not> blocks b n \<and> pend q n \<noteq> []) ns of
       [] \<Rightarrow> Return (None, q) | n # _ \<Rightarrow> Return (Some (hd (pend q n)), set_rt_queue q n (tl (pend q n))))"
  using assms by (induction ns) (auto simp: signum_try_from_def get_rt_queue_ok split: list.split)

lemma filter_head: assumes "filter P xs = n # ns" shows "n \<in> set xs \<and> P n"
proof -
  have "n \<in> set (filter P xs)" unfolding assms by simp
  then show ?thesis by simp
qed

lemma queues_dequeue_eq:
  assumes ok: "queues_ok q"
  shows "\<exists>r q'. queues_dequeue q b = Return (r, q') \<and> queues_ok q' \<and> (r, pend q') = spec_dequeue (pend q) b
    \<and> total q' + (if r = None then 0 else 1) = total q"
proof -
  let ?P = "\<lambda>n. \<not> blocks b n \<and> pend q n \<noteq> []"
  have std: "dequeue_std q b ORDERED_STD_SIGS = (case filter ?P ORDERED_STD_SIGS of
      [] \<Rightarrow> Return (None, q) | n # _ \<Rightarrow> Return (Some (hd (pend q n)), set_std_queue q n None))"
    by (rule dequeue_std_eq [OF ok]) (simp add: ordered_iff)
  have rt: "dequeue_rt q b RT_SIGS = (case filter ?P RT_SIGS of
      [] \<Rightarrow> Return (None, q) | n # _ \<Rightarrow> Return (Some (hd (pend q n)), set_rt_queue q n (tl (pend q n))))"
    by (rule dequeue_rt_eq [OF ok]) (simp add: rt_iff)
  show ?thesis
  proof (cases "filter ?P ORDERED_STD_SIGS")
    case (Cons n ns)
    have n: "sig_valid n" "is_std n" "pend q n \<noteq> []" using filter_head [OF Cons] by (auto simp: ordered_iff)
    then have one: "tl (pend q n) = []" "length (pend q n) = 1"
      using get_std_queue_ok(2) [OF ok n(1,2)] by (cases "pend q n"; simp)+
    note upd = pend_set_std [OF ok n(1,2), of None]
    have "queues_ok (set_std_queue q n None)" by (rule queues_ok_upd [OF ok _ _ upd]) simp_all
    then show ?thesis
      using std Cons upd one total_set_std [OF ok n(1,2), of None]
      by (simp add: queues_dequeue_def spec_dequeue_def priority_def)
  next
    case Nil
    show ?thesis
    proof (cases "filter ?P RT_SIGS")
      case rNil: Nil
      then show ?thesis using std rt Nil ok by (simp add: queues_dequeue_def spec_dequeue_def priority_def)
    next
      case rCons: (Cons n ns)
      have n: "sig_valid n" "\<not> is_std n" "pend q n \<noteq> []" using filter_head [OF rCons] by (auto simp: rt_iff)
      note upd = pend_set_rt [OF ok n(1,2), of "tl (pend q n)"]
      have "signum s = n" if "s \<in> set (tl (pend q n))" for s
        using that ok n(1) list.set_sel(2) [OF n(3)] by (auto simp: queues_ok_def)
      then have "queues_ok (set_rt_queue q n (tl (pend q n)))" by (intro queues_ok_upd [OF ok _ _ upd]) simp_all
      moreover have "total (set_rt_queue q n (tl (pend q n))) + 1 = total q"
        using total_set_rt [OF ok n(1,2), of "tl (pend q n)"] n(3) by (cases "pend q n") simp_all
      ultimately show ?thesis
        using std rt Nil rCons upd by (simp add: queues_dequeue_def spec_dequeue_def priority_def)
    qed
  qed
qed

lemma queues_enqueue_eq:
  assumes ok: "queues_ok q" and v: "sig_valid (signum s)"
  shows "\<exists>r q'. queues_enqueue q s = Return (r, q') \<and> queues_ok q' \<and> (r, pend q') = spec_enqueue (pend q) s
    \<and> total q' = total q + (if r then 1 else 0)"
proof (cases "is_std (signum s)")
  case True
  note get = get_std_queue_ok [OF ok v True]
  note upd = pend_set_std [OF ok v True, of "Some s"]
  have "queues_ok (set_std_queue q (signum s) (Some s))" by (rule queues_ok_upd [OF ok _ _ upd]) simp_all
  then show ?thesis
    using True get upd total_set_std [OF ok v True, of "Some s"] ok
    by (cases "pend q (signum s)") (auto simp: queues_enqueue_def spec_enqueue_def Let_def)
next
  case False
  note upd = pend_set_rt [OF ok v False, of "pend q (signum s) @ [s]"]
  have "queues_ok (set_rt_queue q (signum s) (pend q (signum s) @ [s]))"
    by (rule queues_ok_upd [OF ok _ _ upd]) (use ok v in \<open>auto simp: queues_ok_def\<close>)
  then show ?thesis
    using False upd get_rt_queue_ok [OF ok v False] total_set_rt [OF ok v False, of "pend q (signum s) @ [s]"]
    by (auto simp: queues_enqueue_def spec_enqueue_def Let_def)
qed

section \<open>Looking for a deliverable signal\<close>

text \<open>
  Both passes have one shape: stop at the first entry that satisfies \<^verbatim>\<open>D\<close>, and empty the entries
  before it that satisfy \<^verbatim>\<open>R\<close>, counting the signals in them.
\<close>

definition sweep ::
  "('x \<Rightarrow> bool) \<Rightarrow> ('x \<Rightarrow> bool) \<Rightarrow> 'x \<Rightarrow> ('x \<Rightarrow> nat) \<Rightarrow> 'x list \<Rightarrow> nat \<times> bool \<times> 'x list" where
  "sweep D R e sz xs =
     (let pre = takeWhile (\<lambda>x. \<not> D x) xs
      in (sum_list (map sz (filter R pre)), \<exists>x \<in> set xs. D x,
          map (\<lambda>x. if R x then e else x) pre @ dropWhile (\<lambda>x. \<not> D x) xs))"

lemma sweep_simps:
  "sweep D R e sz [] = (0, False, [])"
  "D x \<Longrightarrow> sweep D R e sz (x # xs) = (0, True, x # xs)"
  "\<not> D x \<Longrightarrow> sweep D R e sz (x # xs) =
     (case sweep D R e sz xs of (k, found, ys) \<Rightarrow>
        (if R x then sz x + k else k, found, (if R x then e else x) # ys))"
  by (simp_all add: sweep_def Let_def)

lemma sweep_props:
  assumes "sweep D R e sz xs = (k, found, ys)" "sz e = 0"
  shows "length ys = length xs" "found \<longleftrightarrow> (\<exists>x \<in> set xs. D x)"
    "\<And>i. i < length xs \<Longrightarrow> ys ! i = xs ! i \<or> ys ! i = e \<and> R (xs ! i)"
    "\<not> found \<Longrightarrow> ys = map (\<lambda>x. if R x then e else x) xs"
    "sum_list (map sz ys) + k = sum_list (map sz xs)"
proof -
  have "length ys = length xs \<and> (found \<longleftrightarrow> (\<exists>x \<in> set xs. D x))
      \<and> (\<forall>i < length xs. ys ! i = xs ! i \<or> ys ! i = e \<and> R (xs ! i))
      \<and> (\<not> found \<longrightarrow> ys = map (\<lambda>x. if R x then e else x) xs)
      \<and> sum_list (map sz ys) + k = sum_list (map sz xs)"
    using assms(1)
  proof (induction xs arbitrary: k found ys)
    case (Cons x xs)
    show ?case
    proof (cases "D x")
      case False
      obtain k' f' ys' where rec: "sweep D R e sz xs = (k', f', ys')" by (cases "sweep D R e sz xs")
      then show ?thesis
        using Cons.IH [OF rec] Cons.prems False assms(2)
        by (auto simp: sweep_simps less_Suc_eq_0_disj)
    qed (use Cons.prems in \<open>auto simp: sweep_simps\<close>)
  qed (simp add: sweep_simps)
  then show "length ys = length xs" "found \<longleftrightarrow> (\<exists>x \<in> set xs. D x)"
    "\<And>i. i < length xs \<Longrightarrow> ys ! i = xs ! i \<or> ys ! i = e \<and> R (xs ! i)"
    "\<not> found \<Longrightarrow> ys = map (\<lambda>x. if R x then e else x) xs"
    "sum_list (map sz ys) + k = sum_list (map sz xs)" by blast+
qed

definition deliverable :: "SigSet \<Rightarrow> ('i Signal \<Rightarrow> bool) \<Rightarrow> 'i Signal list \<Rightarrow> bool" where
  "deliverable b ign ss \<longleftrightarrow> ss \<noteq> [] \<and> \<not> blocks b (signum (hd ss)) \<and> \<not> ign (hd ss)"

definition discardable :: "SigSet \<Rightarrow> ('i Signal \<Rightarrow> bool) \<Rightarrow> 'i Signal list \<Rightarrow> bool" where
  "discardable b ign ss \<longleftrightarrow> ss \<noteq> [] \<and> \<not> blocks b (signum (hd ss)) \<and> ign (hd ss)"

definition slot_list :: "'i Signal option \<Rightarrow> 'i Signal list" where
  "slot_list slot = (case slot of None \<Rightarrow> [] | Some s \<Rightarrow> [s])"

lemma slot_list_simps [simp]: "slot_list None = []" "slot_list (Some s) = [s]" "slot_list x = [] \<longleftrightarrow> x = None"
  by (simp_all add: slot_list_def split: option.split)

lemma any_std_sweep:
  "any_std b ign slots =
     (case sweep (\<lambda>x. deliverable b ign (slot_list x)) (\<lambda>x. discardable b ign (slot_list x)) None
        (\<lambda>x. length (slot_list x)) slots of (k, found, ys) \<Rightarrow> (word_of_nat k, found, ys))"
  by (induction b ign slots rule: any_std.induct)
    (auto simp: sweep_simps deliverable_def discardable_def split: prod.splits)

lemma any_rt_sweep:
  "any_rt b ign qs =
     (case sweep (deliverable b ign) (discardable b ign) [] length qs of
        (k, found, ys) \<Rightarrow> (word_of_nat k, found, ys))"
  by (induction b ign qs rule: any_rt.induct)
    (auto simp: sweep_simps deliverable_def discardable_def split: prod.splits)

lemma pend_slot: "pend q n = (if is_std n then slot_list (std_queues q ! unat (n - MIN_STD_SIG_NUM))
    else rt_queues q ! unat (n - MIN_RT_SIG_NUM))"
  by (simp add: pend_def slot_list_def)

lemma total_sums:
  "total q = sum_list (map (\<lambda>x. length (slot_list x)) (std_queues q)) + sum_list (map length (rt_queues q))"
proof -
  have "length (filter (\<lambda>x. x \<noteq> None) xs) = sum_list (map (\<lambda>x. length (slot_list x)) xs)" for xs :: "'a Signal option list"
    by (induction xs) (auto simp: slot_list_def split: option.split)
  then show ?thesis by (simp add: total_def)
qed

lemma unat_of_nat_u8: "n < 256 \<Longrightarrow> unat (word_of_nat n :: u8) = n"
  by (simp add: unat_of_nat take_bit_eq_mod)

lemma std_number:
  assumes "i < COUNT_STD_SIGS"
  obtains n where "sig_valid n" "is_std n" "unat (n - MIN_STD_SIG_NUM) = i"
proof
  let ?n = "word_of_nat (Suc i) :: u8"
  have "unat ?n = Suc i" using assms unat_of_nat_u8 [of "Suc i"] by (simp add: COUNT_STD_SIGS_def)
  then show "sig_valid ?n" "is_std ?n"
    using assms by (simp_all add: sig_valid_def is_std_def sig_consts word_le_nat_alt)
  show "unat (?n - MIN_STD_SIG_NUM) = i"
    using assms by (simp add: sig_consts unat_of_nat take_bit_eq_mod)
qed

lemma rt_number:
  assumes "i < COUNT_RT_SIGS"
  obtains n where "sig_valid n" "\<not> is_std n" "unat (n - MIN_RT_SIG_NUM) = i"
proof
  let ?n = "word_of_nat (i + 32) :: u8"
  have "unat ?n = i + 32" using assms unat_of_nat_u8 [of "i + 32"] by (simp add: COUNT_RT_SIGS_def)
  then show "sig_valid ?n" "\<not> is_std ?n"
    using assms by (simp_all add: sig_valid_def is_std_def sig_consts word_le_nat_alt)
  show "unat (?n - MIN_RT_SIG_NUM) = i"
    using assms by (simp add: sig_consts unat_of_nat take_bit_eq_mod)
qed

lemma bex_std:
  assumes "queues_ok q"
  shows "(\<exists>x \<in> set (std_queues q). P (slot_list x)) \<longleftrightarrow> (\<exists>n. sig_valid n \<and> is_std n \<and> P (pend q n))"
proof
  assume "\<exists>x \<in> set (std_queues q). P (slot_list x)"
  then obtain i where i: "i < COUNT_STD_SIGS" "P (slot_list (std_queues q ! i))"
    using assms by (auto simp: in_set_conv_nth queues_ok_def)
  from std_number [OF i(1)] i(2) show "\<exists>n. sig_valid n \<and> is_std n \<and> P (pend q n)"
    by (metis pend_slot)
next
  assume "\<exists>n. sig_valid n \<and> is_std n \<and> P (pend q n)"
  then obtain n where n: "sig_valid n" "is_std n" "P (pend q n)" by blast
  then show "\<exists>x \<in> set (std_queues q). P (slot_list x)"
    using assms std_index [OF n(1,2)] by (force simp: pend_slot queues_ok_def)
qed

lemma bex_rt:
  assumes "queues_ok q"
  shows "(\<exists>x \<in> set (rt_queues q). P x) \<longleftrightarrow> (\<exists>n. sig_valid n \<and> \<not> is_std n \<and> P (pend q n))"
proof
  assume "\<exists>x \<in> set (rt_queues q). P x"
  then obtain i where i: "i < COUNT_RT_SIGS" "P (rt_queues q ! i)"
    using assms by (auto simp: in_set_conv_nth queues_ok_def)
  from rt_number [OF i(1)] i(2) show "\<exists>n. sig_valid n \<and> \<not> is_std n \<and> P (pend q n)"
    by (metis pend_slot)
next
  assume "\<exists>n. sig_valid n \<and> \<not> is_std n \<and> P (pend q n)"
  then obtain n where n: "sig_valid n" "\<not> is_std n" "P (pend q n)" by blast
  then show "\<exists>x \<in> set (rt_queues q). P x"
    using assms rt_index [OF n(1,2)] by (force simp: pend_slot queues_ok_def)
qed

text \<open>The effect on the pending signals when the disposition depends on the number only.\<close>

definition wanted :: "'i Queues \<Rightarrow> SigSet \<Rightarrow> (SigNum \<Rightarrow> bool) \<Rightarrow> SigNum \<Rightarrow> bool" where
  "wanted q b ig n \<longleftrightarrow> sig_valid n \<and> pend q n \<noteq> [] \<and> \<not> blocks b n \<and> \<not> ig n"

lemma signum_hd: "queues_ok q \<Longrightarrow> sig_valid n \<Longrightarrow> pend q n = s # ss \<Longrightarrow> signum s = n"
  by (simp add: queues_ok_def)

lemma deliverable_pend:
  "queues_ok q \<Longrightarrow> sig_valid n \<Longrightarrow> deliverable b (\<lambda>s. ig (signum s)) (pend q n) \<longleftrightarrow> wanted q b ig n"
  by (cases "pend q n") (simp_all add: deliverable_def wanted_def signum_hd)

lemma discardable_pend:
  "queues_ok q \<Longrightarrow> sig_valid n \<Longrightarrow>
   discardable b (\<lambda>s. ig (signum s)) (pend q n) \<longleftrightarrow> pend q n \<noteq> [] \<and> \<not> blocks b n \<and> ig n"
  by (cases "pend q n") (simp_all add: discardable_def signum_hd)

text \<open>What a pass may do to the pending signals: discard unblocked ignored ones, and nothing else.\<close>

definition only_discards :: "SigSet \<Rightarrow> (SigNum \<Rightarrow> bool) \<Rightarrow> 'i Queues \<Rightarrow> 'i Queues \<Rightarrow> bool" where
  "only_discards b ig q q' \<longleftrightarrow>
     length (std_queues q') = length (std_queues q) \<and> length (rt_queues q') = length (rt_queues q)
     \<and> (\<forall>n. sig_valid n \<longrightarrow> pend q' n = pend q n \<or> pend q' n = [] \<and> \<not> blocks b n \<and> ig n)"

lemma only_discards_ok: "only_discards b ig q q' \<Longrightarrow> queues_ok q \<Longrightarrow> queues_ok q'"
  unfolding only_discards_def queues_ok_def by (metis empty_iff list.set(1))

lemma only_discards_trans: "only_discards b ig q q' \<Longrightarrow> only_discards b ig q' q'' \<Longrightarrow> only_discards b ig q q''"
  unfolding only_discards_def by metis

lemma wanted_discards: "only_discards b ig q q' \<Longrightarrow> wanted q' b ig n \<longleftrightarrow> wanted q b ig n"
  unfolding only_discards_def wanted_def by metis

lemma any_std_spec:
  assumes ok: "queues_ok q" and res: "any_std b (\<lambda>s. ig (signum s)) (std_queues q) = (k, found, ys)"
  defines "q' \<equiv> q\<lparr>std_queues := ys\<rparr>"
  shows "only_discards b ig q q'" "found \<longleftrightarrow> (\<exists>n. is_std n \<and> wanted q b ig n)"
    "\<And>n. \<not> found \<Longrightarrow> sig_valid n \<Longrightarrow> is_std n \<Longrightarrow> \<not> blocks b n \<Longrightarrow> pend q' n = []"
    "word_of_nat (total q') = word_of_nat (total q) - k" "total q' \<le> total q"
proof -
  let ?ign = "\<lambda>s. ig (signum s)" and ?sz = "\<lambda>x :: 'a Signal option. length (slot_list x)"
  let ?D = "\<lambda>x. deliverable b ?ign (slot_list x)" and ?R = "\<lambda>x. discardable b ?ign (slot_list x)"
  obtain j where sw: "sweep ?D ?R None ?sz (std_queues q) = (j, found, ys)" and k: "k = word_of_nat j"
    using res by (auto simp: any_std_sweep split: prod.splits)
  have zero: "?sz None = 0" by simp
  note props = sweep_props [OF sw zero]
  have pend': "pend q' n = slot_list (ys ! unat (n - MIN_STD_SIG_NUM))" if "is_std n" for n
    using that by (simp add: q'_def pend_slot)
  have pend: "pend q n = slot_list (std_queues q ! unat (n - MIN_STD_SIG_NUM))" if "is_std n" for n
    using that by (simp add: pend_slot)
  have idx: "unat (n - MIN_STD_SIG_NUM) < length (std_queues q)" if "sig_valid n" "is_std n" for n
    using that std_index ok by (simp add: queues_ok_def)
  show found: "found \<longleftrightarrow> (\<exists>n. is_std n \<and> wanted q b ig n)"
    using props(2) bex_std [OF ok, of "deliverable b ?ign"] deliverable_pend [OF ok, of _ b ig]
    by (auto simp: wanted_def)
  have "pend q' n = pend q n \<or> pend q' n = [] \<and> \<not> blocks b n \<and> ig n" if "sig_valid n" for n
  proof (cases "is_std n")
    case True
    from props(3) [OF idx [OF that True]] show ?thesis
      using discardable_pend [OF ok that, of b ig] unfolding pend [OF True] pend' [OF True] by auto
  qed (simp add: q'_def pend_slot)
  then show "only_discards b ig q q'" using props(1) by (simp add: only_discards_def q'_def)
  show "pend q' n = []" if "\<not> found" "sig_valid n" "is_std n" "\<not> blocks b n" for n
    using props(4) that idx [OF that(2,3)] discardable_pend [OF ok that(2), of b ig] found
    by (auto simp: pend pend' wanted_def)
  have "total q' + j = total q" using props(5) by (simp add: total_sums q'_def)
  then show "word_of_nat (total q') = word_of_nat (total q) - k" "total q' \<le> total q"
    unfolding k by (metis add_diff_cancel_right' of_nat_add, simp)
qed

lemma any_rt_spec:
  assumes ok: "queues_ok q" and res: "any_rt b (\<lambda>s. ig (signum s)) (rt_queues q) = (k, found, ys)"
  defines "q' \<equiv> q\<lparr>rt_queues := ys\<rparr>"
  shows "only_discards b ig q q'" "found \<longleftrightarrow> (\<exists>n. \<not> is_std n \<and> wanted q b ig n)"
    "\<And>n. \<not> found \<Longrightarrow> sig_valid n \<Longrightarrow> \<not> is_std n \<Longrightarrow> \<not> blocks b n \<Longrightarrow> pend q' n = []"
    "word_of_nat (total q') = word_of_nat (total q) - k" "total q' \<le> total q"
proof -
  let ?ign = "\<lambda>s. ig (signum s)"
  obtain j where sw: "sweep (deliverable b ?ign) (discardable b ?ign) [] length (rt_queues q) = (j, found, ys)"
    and k: "k = word_of_nat j"
    using res by (auto simp: any_rt_sweep split: prod.splits)
  note props = sweep_props [OF sw list.size(3)]
  have pend': "pend q' n = ys ! unat (n - MIN_RT_SIG_NUM)" if "\<not> is_std n" for n
    using that by (simp add: q'_def pend_slot)
  have pend: "pend q n = rt_queues q ! unat (n - MIN_RT_SIG_NUM)" if "\<not> is_std n" for n
    using that by (simp add: pend_slot)
  have idx: "unat (n - MIN_RT_SIG_NUM) < length (rt_queues q)" if "sig_valid n" "\<not> is_std n" for n
    using that rt_index ok by (simp add: queues_ok_def)
  show found: "found \<longleftrightarrow> (\<exists>n. \<not> is_std n \<and> wanted q b ig n)"
    using props(2) bex_rt [OF ok, of "deliverable b ?ign"] deliverable_pend [OF ok, of _ b ig]
    by (auto simp: wanted_def)
  have "pend q' n = pend q n \<or> pend q' n = [] \<and> \<not> blocks b n \<and> ig n" if "sig_valid n" for n
  proof (cases "is_std n")
    case False
    from props(3) [OF idx [OF that False]] show ?thesis
      using discardable_pend [OF ok that, of b ig] unfolding pend [OF False] pend' [OF False] by auto
  qed (simp add: q'_def pend_slot)
  then show "only_discards b ig q q'" using props(1) by (simp add: only_discards_def q'_def)
  show "pend q' n = []" if "\<not> found" "sig_valid n" "\<not> is_std n" "\<not> blocks b n" for n
    using props(4) that idx [OF that(2,3)] discardable_pend [OF ok that(2), of b ig] found
    by (auto simp: pend pend' wanted_def)
  have "total q' + j = total q" using props(5) by (simp add: total_sums q'_def)
  then show "word_of_nat (total q') = word_of_nat (total q) - k" "total q' \<le> total q"
    unfolding k by (metis add_diff_cancel_right' of_nat_add, simp)
qed

lemma queues_has_pending_spec:
  assumes ok: "queues_ok q" and res: "queues_has_pending q b (\<lambda>s. ig (signum s)) = (k, found, q')"
  shows "only_discards b ig q q'" "found \<longleftrightarrow> (\<exists>n. wanted q b ig n)"
    "\<not> found \<Longrightarrow> sig_valid n \<Longrightarrow> \<not> blocks b n \<Longrightarrow> pend q' n = []"
    "word_of_nat (total q') = word_of_nat (total q) - k" "total q' \<le> total q"
proof -
  obtain k1 f1 ys where std: "any_std b (\<lambda>s. ig (signum s)) (std_queues q) = (k1, f1, ys)"
    by (cases "any_std b (\<lambda>s. ig (signum s)) (std_queues q)")
  let ?q1 = "q\<lparr>std_queues := ys\<rparr>"
  obtain k2 f2 zs where rt: "any_rt b (\<lambda>s. ig (signum s)) (rt_queues ?q1) = (k2, f2, zs)"
    by (cases "any_rt b (\<lambda>s. ig (signum s)) (rt_queues ?q1)")
  note s1 = any_std_spec [OF ok std]
  have ok1: "queues_ok ?q1" using only_discards_ok [OF s1(1) ok] .
  note s2 = any_rt_spec [OF ok1 rt]
  have eq: "(k, found, q') = (if f1 then (k1, True, ?q1) else (k1 + k2, f2, ?q1\<lparr>rt_queues := zs\<rparr>))"
    using res std rt by (simp add: queues_has_pending_def Let_def split: if_splits)
  show "only_discards b ig q q'"
    using eq s1(1) only_discards_trans [OF s1(1) s2(1)] by (simp split: if_splits)
  show "found \<longleftrightarrow> (\<exists>n. wanted q b ig n)"
    using eq s1(2) s2(2) wanted_discards [OF s1(1)] by (auto split: if_splits)
  show "word_of_nat (total q') = word_of_nat (total q) - k"
    using eq s1(4) s2(4) by (simp add: diff_diff_eq split: if_splits)
  show "total q' \<le> total q" using eq s1(5) s2(5) by (simp split: if_splits)
  show "pend q' n = []" if "\<not> found" "sig_valid n" "\<not> blocks b n"
  proof (cases "is_std n")
    case True
    then have "pend ?q1 n = []" using s1(3) that eq by (simp split: if_splits)
    moreover have "pend q' n = pend ?q1 n" using eq that(1) True by (simp add: pend_slot split: if_splits)
    ultimately show ?thesis by simp
  next
    case False
    then show ?thesis using s2(3) that eq by (simp split: if_splits)
  qed
qed

lemma length_pend_le_total: assumes "queues_ok q" "sig_valid n" shows "length (pend q n) \<le> total q"
proof (cases "is_std n")
  case True
  then have "pend q n \<in> slot_list ` set (std_queues q)"
    using assms std_index [OF assms(2)] by (auto simp: pend_slot queues_ok_def)
  then have "length (pend q n) \<le> sum_list (map (\<lambda>x. length (slot_list x)) (std_queues q))"
    by (intro member_le_sum_list) auto
  then show ?thesis by (simp add: total_sums)
next
  case False
  then have "length (pend q n) \<in> set (map length (rt_queues q))"
    using assms rt_index [OF assms(2)] by (auto simp: pend_slot queues_ok_def)
  from member_le_sum_list [OF this] show ?thesis by (simp add: total_sums)
qed

lemma spec_dequeue_None:
  "fst (spec_dequeue p b) = None \<longleftrightarrow> (\<forall>n. sig_valid n \<and> \<not> blocks b n \<longrightarrow> p n = [])"
proof (cases "filter (\<lambda>n. \<not> blocks b n \<and> p n \<noteq> []) priority")
  case Nil
  then have "\<forall>n. sig_valid n \<and> \<not> blocks b n \<longrightarrow> p n = []"
    unfolding filter_empty_conv Ball_def set_priority by blast
  with Nil show ?thesis by (simp add: spec_dequeue_def)
next
  case (Cons n ns)
  from filter_head [OF Cons] have n: "sig_valid n \<and> \<not> blocks b n" "p n \<noteq> []" unfolding set_priority by blast+
  have some: "fst (spec_dequeue p b) = Some (hd (p n))" by (simp add: spec_dequeue_def Cons)
  show ?thesis unfolding some using n by blast
qed

section \<open>Counted operations\<close>

lemma sq_ok_new [simp]: "sq_ok sq_new"
  by (simp add: sq_ok_def sq_new_def)

lemma sq_enqueue_eq:
  assumes "sq_ok sq" "sig_valid (signum s)"
  shows "\<exists>r sq'. sq_enqueue sq s = Return (r, sq') \<and> sq_ok sq'
    \<and> (r, pend (queues sq')) = spec_enqueue (pend (queues sq)) s
    \<and> total (queues sq') = total (queues sq) + (if r then 1 else 0)"
proof -
  obtain r q' where "queues_enqueue (queues sq) s = Return (r, q')" "queues_ok q'"
    "(r, pend q') = spec_enqueue (pend (queues sq)) s" "total q' = total (queues sq) + (if r then 1 else 0)"
    using queues_enqueue_eq assms unfolding sq_ok_def by blast
  then show ?thesis using assms(1) by (cases r) (auto simp: sq_enqueue_def sq_ok_def)
qed

lemma sq_dequeue_eq:
  assumes "sq_ok sq" "total (queues sq) < 2 ^ 64"
  shows "\<exists>r sq'. sq_dequeue sq b = Return (r, sq') \<and> sq_ok sq'
    \<and> (r, pend (queues sq')) = spec_dequeue (pend (queues sq)) b
    \<and> total (queues sq') + (if r = None then 0 else 1) = total (queues sq)"
proof (cases "sq_is_empty sq")
  case True
  then have "unat (word_of_nat (total (queues sq)) :: usize) = 0"
    using assms(1) by (simp add: sq_is_empty_def sq_ok_def)
  then have "total (queues sq) = 0" using assms(2) by (simp add: unat_of_nat take_bit_eq_mod)
  then have "fst (spec_dequeue (pend (queues sq)) b) = None"
    using length_pend_le_total assms(1) unfolding spec_dequeue_None sq_ok_def by fastforce
  then have "spec_dequeue (pend (queues sq)) b = (None, pend (queues sq))"
    by (auto simp: spec_dequeue_def split: list.splits)
  with True assms(1) show ?thesis by (simp add: sq_dequeue_def)
next
  case False
  obtain r q' where "queues_dequeue (queues sq) b = Return (r, q')" "queues_ok q'"
    "(r, pend q') = spec_dequeue (pend (queues sq)) b"
    "total q' + (if r = None then 0 else 1) = total (queues sq)"
    using queues_dequeue_eq assms(1) unfolding sq_ok_def by blast
  with False assms(1) show ?thesis
    by (cases r) (auto simp: sq_dequeue_def sq_ok_def simp flip: \<open>total q' + _ = _\<close>)
qed

lemma sq_has_pending_eq:
  assumes "sq_ok sq" "sq_has_pending sq b (\<lambda>s. ig (signum s)) = (found, sq')"
  shows "sq_ok sq'" "only_discards b ig (queues sq) (queues sq')"
    "found \<longleftrightarrow> (\<exists>n. wanted (queues sq) b ig n)"
    "\<not> found \<Longrightarrow> sig_valid n \<Longrightarrow> \<not> blocks b n \<Longrightarrow> pend (queues sq') n = []"
    "total (queues sq') \<le> total (queues sq)"
proof -
  obtain k q' where res: "queues_has_pending (queues sq) b (\<lambda>s. ig (signum s)) = (k, found, q')"
    and sq': "sq' = \<lparr>sq_count = sq_count sq - k, queues = q'\<rparr>"
    using assms(2) by (auto simp: sq_has_pending_def split: prod.splits)
  have ok: "queues_ok (queues sq)" using assms(1) by (simp add: sq_ok_def)
  note spec = queues_has_pending_spec [OF ok res]
  show "sq_ok sq'" using spec(4) only_discards_ok [OF spec(1) ok] assms(1) by (simp add: sq_ok_def sq')
  show "only_discards b ig (queues sq) (queues sq')" "found \<longleftrightarrow> (\<exists>n. wanted (queues sq) b ig n)"
    using spec(1,2) by (simp_all add: sq')
  show "\<not> found \<Longrightarrow> sig_valid n \<Longrightarrow> \<not> blocks b n \<Longrightarrow> pend (queues sq') n = []"
    using spec(3) by (simp add: sq')
  show "total (queues sq') \<le> total (queues sq)" using spec(5) by (simp add: sq')
qed

text \<open>Every signal that comes out of a queue leaves it, whatever the state of the queue.\<close>

lemma at_index_Return [simp]: "at_index xs i = Return x \<longleftrightarrow> i < length xs \<and> x = xs ! i"
  by (auto simp: at_index_def)

lemma dequeue_std_total:
  "dequeue_std q b ns = Return (r, q') \<Longrightarrow> total q' + (if r = None then 0 else 1) = total q"
proof (induction ns)
  case (Cons n ns)
  have "total (set_std_queue q n None) + 1 = total q" if "get_std_queue q n = Return (Some s)" for s
    using that length_filter_update [of "unat (n - MIN_STD_SIG_NUM)" "std_queues q" "\<lambda>slot. slot \<noteq> None" None]
    by (auto simp: get_std_queue_def total_def set_std_queue_def dest: sym)
  with Cons show ?case by (auto split: if_splits option.splits)
qed simp

lemma dequeue_rt_total:
  "dequeue_rt q b ns = Return (r, q') \<Longrightarrow> total q' + (if r = None then 0 else 1) = total q"
proof (induction ns)
  case (Cons n ns)
  have "total (set_rt_queue q m xs) + 1 = total q" if "get_rt_queue q m = Return (x # xs)" for m x xs
    using that sum_list_update_nat [of "unat (m - MIN_RT_SIG_NUM)" "map length (rt_queues q)" "length xs"]
    by (auto simp: get_rt_queue_def total_def set_rt_queue_def map_update dest: sym)
  note step = this
  show ?case
  proof (cases "\<not> sig_valid n \<or> blocks b n")
    case True
    with Cons show ?thesis by (cases "sig_valid n") (simp_all add: signum_try_from_def)
  next
    case False
    then obtain queue where get: "get_rt_queue q n = Return queue"
      using Cons.prems by (auto simp: signum_try_from_def)
    show ?thesis
    proof (cases queue)
      case Nil
      with Cons False get show ?thesis by (simp add: signum_try_from_def)
    next
      case (Cons s rest)
      with False get Cons.prems step [of n s rest] \<open>dequeue_rt q b (n # ns) = Return (r, q')\<close> show ?thesis
        by (auto simp: signum_try_from_def)
    qed
  qed
qed simp

lemma queues_dequeue_total:
  assumes "queues_dequeue q b = Return (r, q')"
  shows "total q' + (if r = None then 0 else 1) = total q"
proof -
  obtain r1 q1 where std: "dequeue_std q b ORDERED_STD_SIGS = Return (r1, q1)"
    using assms by (auto simp: queues_dequeue_def)
  show ?thesis
  proof (cases r1)
    case None
    then show ?thesis using assms std dequeue_std_total [OF std] dequeue_rt_total [of q1 b RT_SIGS r q']
      by (simp add: queues_dequeue_def)
  next
    case (Some s)
    then show ?thesis using assms std dequeue_std_total [OF std] by (simp add: queues_dequeue_def)
  qed
qed

lemma sq_dequeue_total:
  assumes "sq_dequeue sq b = Return (r, sq')"
  shows "total (queues sq') + (if r = None then 0 else 1) = total (queues sq)"
proof (cases "sq_is_empty sq")
  case False
  then have "queues_dequeue (queues sq) b = Return (r, queues sq')"
    using assms by (auto simp: sq_dequeue_def)
  then show ?thesis by (rule queues_dequeue_total)
qed (use assms in \<open>simp add: sq_dequeue_def\<close>)

text \<open>Without the bound on the counter a dequeue still succeeds and keeps the queues well formed.\<close>

lemma sq_dequeue_ok:
  assumes "sq_ok sq" shows "\<exists>r sq'. sq_dequeue sq b = Return (r, sq') \<and> sq_ok sq'"
proof (cases "sq_is_empty sq")
  case False
  obtain r q' where "queues_dequeue (queues sq) b = Return (r, q')" "queues_ok q'"
    "total q' + (if r = None then 0 else 1) = total (queues sq)"
    using queues_dequeue_eq assms unfolding sq_ok_def by blast
  with False assms show ?thesis
    by (cases r) (auto simp: sq_dequeue_def sq_ok_def simp flip: \<open>total q' + _ = _\<close>)
qed (use assms in \<open>simp add: sq_dequeue_def\<close>)

end
