(* ===== verification/Signal_Delivery.thy ===== *)
theory Signal_Delivery
  imports Signal_Queues
begin

text \<open>
  Signal dispositions and delivery (\<^verbatim>\<open>kernel/src/process/signal\<close>: \<^verbatim>\<open>sig_action.rs\<close>,
  \<^verbatim>\<open>sig_disposition.rs\<close>, \<^verbatim>\<open>pending.rs\<close>, and from \<^verbatim>\<open>mod.rs\<close> the choice of the signal to deliver and the mask of
  a handler), with the system calls that change masks and dispositions
  (\<^verbatim>\<open>syscall/rt_sigprocmask.rs\<close>, \<^verbatim>\<open>rt_sigaction.rs\<close>).

  A process has its dispositions and the queues of process-directed signals; each of its threads
  has a mask and the queues of thread-directed signals. What the calls read from user memory is
  an argument. The lemmas give the outcome of a delivery, what it takes out of the queues, and the
  outcome of the pending check.
\<close>

section \<open>Actions and dispositions\<close>

abbreviation SIGKILL :: SigNum where "SIGKILL \<equiv> 9"
abbreviation SIGSTOP :: SigNum where "SIGSTOP \<equiv> 19"

definition SA_NODEFER :: u32 where "SA_NODEFER = 0x40000000"
definition SA_RESETHAND :: u32 where "SA_RESETHAND = 0x80000000"
definition SA_RESTORER :: u32 where "SA_RESTORER = 0x04000000"
definition sa_flags_all :: u32 where "sa_flags_all = 0xdc000007"

datatype SigAction =
    Dfl
  | Ign
  | User (handler_addr: usize) (action_flags: u32) (restorer_addr: usize) (action_mask: SigSet)

record sigaction_t =
  handler_ptr :: usize
  sa_flags :: u32
  restorer_ptr :: usize
  sa_mask :: u64

definition sig_action_from :: "sigaction_t \<Rightarrow> SigAction" where
  "sig_action_from input =
     (if handler_ptr input = 0 then Dfl
      else if handler_ptr input = 1 then Ign
      else User (handler_ptr input) (sa_flags input AND sa_flags_all) (restorer_ptr input) (sa_mask input))"

fun as_c_type :: "SigAction \<Rightarrow> sigaction_t" where
  "as_c_type Dfl = \<lparr>handler_ptr = 0, sa_flags = 0, restorer_ptr = 0, sa_mask = 0\<rparr>"
| "as_c_type Ign = \<lparr>handler_ptr = 1, sa_flags = 0, restorer_ptr = 0, sa_mask = 0\<rparr>"
| "as_c_type (User h f r m) = \<lparr>handler_ptr = h, sa_flags = f, restorer_ptr = r, sa_mask = m\<rparr>"

datatype SigDefaultAction = Term | IgnDefault | Core | Stop | Cont

text \<open>The groups of the source: core dumps, ignored signals, SIGCONT, and the stop signals.\<close>

definition default_action :: "SigNum \<Rightarrow> SigDefaultAction" where
  "default_action n =
     (if n \<in> {6, 7, 8, 4, 3, 11, 31, 5, 24, 25} then Core
      else if n \<in> {17, 23, 28} then IgnDefault
      else if n = 18 then Cont
      else if n \<in> {19, 20, 21, 22} then Stop
      else Term)"

fun action_will_ignore :: "SigAction \<Rightarrow> SigNum \<Rightarrow> bool" where
  "action_will_ignore Dfl n = (default_action n = IgnDefault)"
| "action_will_ignore Ign n = True"
| "action_will_ignore (User h f r m) n = False"

type_synonym SigDispositions = "SigAction list"

definition dispositions_new :: SigDispositions where
  "dispositions_new = replicate COUNT_ALL_SIGS Dfl"

definition num_to_idx :: "SigNum \<Rightarrow> nat" where
  "num_to_idx n = unat (n - MIN_STD_SIG_NUM)"

definition disp_get :: "SigDispositions \<Rightarrow> SigNum \<Rightarrow> SigAction rust" where
  "disp_get d n = at_index d (num_to_idx n)"

datatype TargetArch = X86_64 | Riscv64 | OtherArch

fun check_sigaction :: "TargetArch \<Rightarrow> SigAction \<Rightarrow> SigErrno + unit" where
  "check_sigaction arch (User h flags restorer m) =
     (if contains flags SA_RESTORER \<and> restorer \<noteq> 0 then Inr ()
      else case arch of X86_64 \<Rightarrow> Inl EINVAL | Riscv64 \<Rightarrow> Inr () | OtherArch \<Rightarrow> Inl EINVAL)"
| "check_sigaction arch _ = Inr ()"

definition disp_set ::
  "TargetArch \<Rightarrow> SigDispositions \<Rightarrow> SigNum \<Rightarrow> SigAction \<Rightarrow> ((SigErrno + SigAction) \<times> SigDispositions) rust" where
  "disp_set arch d n sa =
     (case check_sigaction arch sa of
        Inl e \<Rightarrow> Return (Inl e, d)
      | Inr _ \<Rightarrow> rust_bind (at_index d (num_to_idx n)) (\<lambda>old. Return (Inr old, d[num_to_idx n := sa])))"

definition disp_set_default :: "SigDispositions \<Rightarrow> SigNum \<Rightarrow> SigDispositions rust" where
  "disp_set_default d n = rust_bind (at_index d (num_to_idx n)) (\<lambda>_. Return (d[num_to_idx n := Dfl]))"

definition disp_inherit :: "SigDispositions \<Rightarrow> SigDispositions" where
  "disp_inherit d = map (\<lambda>sa. case sa of User _ _ _ _ \<Rightarrow> Dfl | _ \<Rightarrow> sa) d"

definition disp_will_ignore :: "SigDispositions \<Rightarrow> SigNum \<Rightarrow> bool rust" where
  "disp_will_ignore d n = rust_bind (disp_get d n) (\<lambda>sa. Return (action_will_ignore sa n))"

section \<open>Pending signals of a thread\<close>

datatype 'i DequeuedSignal = FromProcess "'i Signal" | FromThread "'i Signal"

fun dequeued_signal :: "'i DequeuedSignal \<Rightarrow> 'i Signal" where
  "dequeued_signal (FromProcess s) = s"
| "dequeued_signal (FromThread s) = s"

text \<open>The thread's own queues come first.\<close>

definition dequeue_signal ::
  "'i SigQueues \<Rightarrow> 'i SigQueues \<Rightarrow> SigSet \<Rightarrow> ('i DequeuedSignal option \<times> 'i SigQueues \<times> 'i SigQueues) rust" where
  "dequeue_signal tq pq m =
     rust_bind (sq_dequeue tq m) (\<lambda>(r, tq).
       case r of
         Some s \<Rightarrow> Return (Some (FromThread s), tq, pq)
       | None \<Rightarrow> rust_bind (sq_dequeue pq m) (\<lambda>(r, pq).
           Return (map_option FromProcess r, tq, pq)))"

text \<open>
  The disposition as the queues use it. An index out of range cannot occur for the signals in the
  queues, so the predicate is total here.
\<close>

definition ignored :: "SigDispositions \<Rightarrow> SigNum \<Rightarrow> bool" where
  "ignored d n \<longleftrightarrow> disp_will_ignore d n = Return True"

definition has_pending_signal ::
  "SigDispositions \<Rightarrow> SigSet \<Rightarrow> 'i SigQueues \<Rightarrow> 'i SigQueues \<Rightarrow> bool \<times> 'i SigQueues \<times> 'i SigQueues" where
  "has_pending_signal d blocked tq pq =
     (if sq_is_empty tq \<and> sq_is_empty pq then (False, tq, pq)
      else let (found, tq) = sq_has_pending tq blocked (\<lambda>s. ignored d (signum s))
           in if found then (True, tq, pq)
              else let (found, pq) = sq_has_pending pq blocked (\<lambda>s. ignored d (signum s))
                   in (found, tq, pq))"

definition pending_signals :: "'i SigQueues \<Rightarrow> 'i SigQueues \<Rightarrow> SigSet rust" where
  "pending_signals tq pq =
     rust_bind (sq_sig_pending tq) (\<lambda>a. rust_bind (sq_sig_pending pq) (\<lambda>b. Return (a OR b)))"

definition has_pending_sigkill :: "'i SigQueues \<Rightarrow> 'i SigQueues \<Rightarrow> bool rust" where
  "has_pending_sigkill tq pq =
     rust_bind (sq_has_pending_signal tq SIGKILL) (\<lambda>a.
       if a then Return True else sq_has_pending_signal pq SIGKILL)"

lemma dequeue_signal_total:
  assumes "dequeue_signal tq pq m = Return (r, tq', pq')"
  shows "total (queues tq') + total (queues pq') + (if r = None then 0 else 1)
    = total (queues tq) + total (queues pq)"
  using assms
  by (auto simp: dequeue_signal_def split: option.splits dest!: sq_dequeue_total)

text \<open>The loop of \<^verbatim>\<open>dequeue_pending_signal\<close>: every round takes a signal out of a queue.\<close>

function dequeue_pending_signal ::
  "SigDispositions \<Rightarrow> SigSet \<Rightarrow> bool \<Rightarrow> 'i SigQueues \<Rightarrow> 'i SigQueues
     \<Rightarrow> (('i DequeuedSignal \<times> SigAction) option \<times> 'i SigQueues \<times> 'i SigQueues) rust" where
  "dequeue_pending_signal d m traced tq pq =
     (case dequeue_signal tq pq m of
        Panic \<Rightarrow> Panic
      | Return (None, tq', pq') \<Rightarrow> Return (None, tq', pq')
      | Return (Some ds, tq', pq') \<Rightarrow>
          (case disp_get d (signum (dequeued_signal ds)) of
             Panic \<Rightarrow> Panic
           | Return sa \<Rightarrow>
               if action_will_ignore sa (signum (dequeued_signal ds)) \<and> \<not> traced
               then dequeue_pending_signal d m traced tq' pq'
               else Return (Some (ds, sa), tq', pq')))"
  by pat_completeness auto
termination
  by (relation "measure (\<lambda>(d, m, traced, tq, pq). total (queues tq) + total (queues pq))")
    (auto dest!: dequeue_signal_total)

declare dequeue_pending_signal.simps [simp del]

section \<open>Masks and handlers\<close>

record 'i SigThread =
  sig_mask :: SigSet
  thread_queues :: "'i SigQueues"

record 'i SigProc =
  dispositions :: SigDispositions
  process_queues :: "'i SigQueues"
  sig_threads :: "'i SigThread list"

definition set_sig_mask :: "'i SigThread \<Rightarrow> SigSet \<Rightarrow> 'i SigThread" where
  "set_sig_mask t m =
     t\<lparr>sig_mask := sigset_minus (sigset_minus m (sigset_of SIGKILL)) (sigset_of SIGSTOP)\<rparr>"

datatype MaskOp = Block | Unblock | SetMask

definition mask_op_try_from :: "u32 \<Rightarrow> SigErrno + MaskOp" where
  "mask_op_try_from how =
     (if how = 0 then Inr Block else if how = 1 then Inr Unblock else if how = 2 then Inr SetMask else Inl EINVAL)"

text \<open>
  \<^verbatim>\<open>set_ptr\<close> is \<^verbatim>\<open>None\<close> for a null pointer and otherwise what reading the new set gives; \<^verbatim>\<open>old_write\<close> is
  \<^verbatim>\<open>None\<close> for a null pointer and otherwise the outcome of writing the old mask.
\<close>

definition do_rt_sigprocmask ::
  "'i SigThread \<Rightarrow> MaskOp \<Rightarrow> (SigErrno + SigSet) option \<Rightarrow> (SigErrno + unit) option
     \<Rightarrow> 'i SigThread \<times> (SigErrno + unit)" where
  "do_rt_sigprocmask t mask_op set_ptr old_write =
     (case old_write of
        Some (Inl e) \<Rightarrow> (t, Inl e)
      | _ \<Rightarrow>
          (case set_ptr of
             None \<Rightarrow> (t, Inr ())
           | Some (Inl e) \<Rightarrow> (t, Inl e)
           | Some (Inr new_bits) \<Rightarrow>
               let old_bits = sig_mask t;
                   kill_stop = push_bit 8 1 OR push_bit 18 1;
                   effective_bits = (case mask_op of
                       Block \<Rightarrow> old_bits OR (new_bits AND NOT kill_stop)
                     | Unblock \<Rightarrow> old_bits AND NOT new_bits
                     | SetMask \<Rightarrow> new_bits AND NOT kill_stop)
               in (set_sig_mask t effective_bits, Inr ())))"

definition sys_rt_sigprocmask ::
  "'i SigThread \<Rightarrow> u32 \<Rightarrow> (SigErrno + SigSet) option \<Rightarrow> (SigErrno + unit) option \<Rightarrow> usize
     \<Rightarrow> 'i SigThread \<times> (SigErrno + unit)" where
  "sys_rt_sigprocmask t how set_ptr old_write sigset_size =
     (case mask_op_try_from how of
        Inl e \<Rightarrow> (t, Inl e)
      | Inr mask_op \<Rightarrow>
          if sigset_size < 8 then (t, Inl EINVAL) else do_rt_sigprocmask t mask_op set_ptr old_write)"

text \<open>The mask while a handler runs, from \<^verbatim>\<open>handle_user_signal\<close>.\<close>

definition enter_handler :: "'i SigThread \<Rightarrow> SigNum \<Rightarrow> u32 \<Rightarrow> SigSet \<Rightarrow> 'i SigThread" where
  "enter_handler t n flags m =
     (let m = (if \<not> contains flags SA_NODEFER then m OR sigset_of n else m)
      in set_sig_mask t (sig_mask t OR m))"

text \<open>The loop of \<^verbatim>\<open>discard_signals_if_ignored\<close> for one thread.\<close>

function discard_loop ::
  "SigSet \<Rightarrow> 'i SigQueues \<Rightarrow> 'i SigQueues \<Rightarrow> ('i SigQueues \<times> 'i SigQueues) rust" where
  "discard_loop m tq pq =
     (case dequeue_signal tq pq m of
        Panic \<Rightarrow> Panic
      | Return (None, tq', pq') \<Rightarrow> Return (tq', pq')
      | Return (Some _, tq', pq') \<Rightarrow> discard_loop m tq' pq')"
  by pat_completeness auto
termination
  by (relation "measure (\<lambda>(m, tq, pq). total (queues tq) + total (queues pq))")
    (auto dest!: dequeue_signal_total)

declare discard_loop.simps [simp del]

fun discard_threads ::
  "SigSet \<Rightarrow> 'i SigQueues \<Rightarrow> 'i SigThread list \<Rightarrow> ('i SigQueues \<times> 'i SigThread list) rust" where
  "discard_threads m pq [] = Return (pq, [])"
| "discard_threads m pq (t # ts) =
     rust_bind (discard_loop m (thread_queues t) pq) (\<lambda>(tq, pq).
       rust_bind (discard_threads m pq ts) (\<lambda>(pq, ts). Return (pq, t\<lparr>thread_queues := tq\<rparr> # ts)))"

definition discard_signals_if_ignored :: "'i SigProc \<Rightarrow> SigNum \<Rightarrow> 'i SigProc rust" where
  "discard_signals_if_ignored pr n =
     rust_bind (discard_threads (sigset_minus sigset_full (sigset_of n)) (process_queues pr) (sig_threads pr))
       (\<lambda>(pq, ts). Return (pr\<lparr>process_queues := pq, sig_threads := ts\<rparr>))"

text \<open>
  \<^verbatim>\<open>action\<close> is \<^verbatim>\<open>None\<close> for a null pointer and otherwise what reading the new action gives; \<^verbatim>\<open>old_write\<close> as
  above, applied to the old action that the result carries.
\<close>

definition sys_rt_sigaction ::
  "TargetArch \<Rightarrow> 'i SigProc \<Rightarrow> u8 \<Rightarrow> (SigErrno + sigaction_t) option \<Rightarrow> (sigaction_t \<Rightarrow> SigErrno + unit) option
     \<Rightarrow> u64 \<Rightarrow> ('i SigProc \<times> (SigErrno + unit)) rust" where
  "sys_rt_sigaction arch pr sig action old_write sigset_size =
     (case signum_try_from sig of
        Inl e \<Rightarrow> Return (pr, Inl e)
      | Inr n \<Rightarrow>
          if sigset_size \<noteq> 8 then Return (pr, Inl EINVAL)
          else
            rust_bind
              (case action of
                 None \<Rightarrow> rust_bind (disp_get (dispositions pr) n) (\<lambda>old. Return (pr, Inr old))
               | Some read \<Rightarrow>
                   if n = SIGKILL \<or> n = SIGSTOP then Return (pr, Inl EINVAL)
                   else
                     (case read of
                        Inl e \<Rightarrow> Return (pr, Inl e)
                      | Inr sig_action_c \<Rightarrow>
                          let sa = sig_action_from sig_action_c
                          in rust_bind (if action_will_ignore sa n then discard_signals_if_ignored pr n else Return pr)
                               (\<lambda>pr. rust_bind (disp_set arch (dispositions pr) n sa)
                                 (\<lambda>(r, d). Return (pr\<lparr>dispositions := d\<rparr>, r)))))
              (\<lambda>(pr, r).
                case r of
                  Inl e \<Rightarrow> Return (pr, Inl e)
                | Inr old_action \<Rightarrow>
                    (case old_write of
                       None \<Rightarrow> Return (pr, Inr ())
                     | Some write \<Rightarrow> Return (pr, write (as_c_type old_action)))))"

section \<open>Choosing the signal to deliver\<close>

definition disp_ok :: "SigDispositions \<Rightarrow> bool" where
  "disp_ok d \<longleftrightarrow> length d = COUNT_ALL_SIGS"

lemma num_to_idx_less: "sig_valid n \<Longrightarrow> num_to_idx n < COUNT_ALL_SIGS"
  unfolding num_to_idx_def sig_valid_def sig_consts by unat_arith

lemma disp_get_ok: "disp_ok d \<Longrightarrow> sig_valid n \<Longrightarrow> disp_get d n = Return (d ! num_to_idx n)"
  using num_to_idx_less [of n] by (simp add: disp_get_def disp_ok_def)

lemma ignored_iff:
  "disp_ok d \<Longrightarrow> sig_valid n \<Longrightarrow> ignored d n \<longleftrightarrow> action_will_ignore (d ! num_to_idx n) n"
  by (simp add: ignored_def disp_will_ignore_def disp_get_ok)

text \<open>
  What may happen to the pending signals besides the one that is taken: ignored signals that are
  not blocked may be dropped from the front of their sequences, everything else stays.
\<close>

definition leaves ::
  "(SigNum \<Rightarrow> bool) \<Rightarrow> SigSet \<Rightarrow> SigNum option \<Rightarrow> (SigNum \<Rightarrow> 'i Signal list) \<Rightarrow> (SigNum \<Rightarrow> 'i Signal list) \<Rightarrow> bool" where
  "leaves ig m taken p p' \<longleftrightarrow>
     (\<forall>n. sig_valid n \<longrightarrow>
        (if taken = Some n then p' n = tl (p n)
         else p' n = p n \<or> \<not> blocks m n \<and> ig n \<and> (\<exists>k. p' n = drop k (p n))))"

lemma leaves_refl [simp]: "leaves ig m None p p"
  by (simp add: leaves_def)

lemma leaves_drop:
  assumes "\<not> blocks m n" "ig n" "leaves ig m taken (p(n := tl (p n))) p'" "taken \<noteq> Some n"
  shows "leaves ig m taken p p'"
  unfolding leaves_def
proof (intro allI impI)
  fix k assume "sig_valid k"
  with assms(3) have k: "if taken = Some k then p' k = tl ((p(n := tl (p n))) k)
      else p' k = (p(n := tl (p n))) k \<or> \<not> blocks m k \<and> ig k \<and> (\<exists>j. p' k = drop j ((p(n := tl (p n))) k))"
    unfolding leaves_def by blast
  have tl_drop: "\<exists>i. tl xs = drop i xs" "\<exists>i. drop j (tl xs) = drop i xs" for xs :: "'a Signal list" and j
    by (metis drop_0 drop_Suc)+
  show "if taken = Some k then p' k = tl (p k)
      else p' k = p k \<or> \<not> blocks m k \<and> ig k \<and> (\<exists>j. p' k = drop j (p k))"
  proof (cases "k = n")
    case True
    with k assms(1,2,4) have "p' k = tl (p k) \<or> (\<exists>j. p' k = drop j (tl (p k)))" by simp
    with tl_drop have "\<exists>i. p' k = drop i (p k)" by metis
    with True assms(1,2,4) show ?thesis by simp
  next
    case False
    then have "(p(n := tl (p n))) k = p k" by simp
    from k [unfolded this] show ?thesis .
  qed
qed

text \<open>The numbers of the deliverable signals of a queue, by priority.\<close>

definition wanted_nums :: "'i SigQueues \<Rightarrow> SigSet \<Rightarrow> (SigNum \<Rightarrow> bool) \<Rightarrow> SigNum list" where
  "wanted_nums sq m ig = filter (wanted (queues sq) m ig) priority"

lemma wanted_nums_Nil: "wanted_nums sq m ig = [] \<longleftrightarrow> (\<forall>n. \<not> wanted (queues sq) m ig n)"
  unfolding wanted_nums_def filter_empty_conv Ball_def set_priority by (auto simp: wanted_def)

lemma wanted_nums_cong:
  "(\<And>n. wanted (queues sq) m ig n \<longleftrightarrow> wanted (queues sq') m ig n) \<Longrightarrow> wanted_nums sq m ig = wanted_nums sq' m ig"
  unfolding wanted_nums_def by (rule filter_cong [OF refl])

lemma filter_first: "filter P xs = n # ns \<Longrightarrow> (\<And>x. Q x \<Longrightarrow> P x) \<Longrightarrow> Q n \<Longrightarrow> \<exists>ns'. filter Q xs = n # ns'"
  by (induction xs) (auto split: if_splits)

text \<open>One dequeue, seen from the deliverable signals.\<close>

lemma sq_dequeue_cases:
  assumes ok: "sq_ok sq" and bound: "total (queues sq) < 2 ^ 64"
  obtains
    (none) sq' where "sq_dequeue sq m = Return (None, sq')" "sq_ok sq'" "pend (queues sq') = pend (queues sq)"
      "total (queues sq') = total (queues sq)" "wanted_nums sq m ig = []" "wanted_nums sq' m ig = []"
  | (some) s sq' where "sq_dequeue sq m = Return (Some s, sq')" "sq_ok sq'" "sig_valid (signum s)"
      "\<not> blocks m (signum s)" "s = hd (pend (queues sq) (signum s))" "pend (queues sq) (signum s) \<noteq> []"
      "pend (queues sq') = (pend (queues sq))(signum s := tl (pend (queues sq) (signum s)))"
      "Suc (total (queues sq')) = total (queues sq)"
      "\<not> ig (signum s) \<Longrightarrow> \<exists>ns. wanted_nums sq m ig = signum s # ns"
      "ig (signum s) \<Longrightarrow> wanted_nums sq' m ig = wanted_nums sq m ig"
proof -
  let ?P = "\<lambda>n. \<not> blocks m n \<and> pend (queues sq) n \<noteq> []"
  obtain r sq' where r: "sq_dequeue sq m = Return (r, sq')" "sq_ok sq'"
      "(r, pend (queues sq')) = spec_dequeue (pend (queues sq)) m"
      "total (queues sq') + (if r = None then 0 else 1) = total (queues sq)"
    using sq_dequeue_eq [OF ok bound] by blast
  show thesis
  proof (cases "filter ?P priority")
    case Nil
    then have rp: "r = None" "pend (queues sq') = pend (queues sq)" using r(3) by (simp_all add: spec_dequeue_def)
    have "wanted_nums sq m ig = []"
      using Nil unfolding wanted_nums_def filter_empty_conv by (auto simp: wanted_def)
    moreover have "wanted_nums sq' m ig = wanted_nums sq m ig"
      by (rule wanted_nums_cong) (simp add: wanted_def rp(2))
    ultimately show ?thesis using none r rp by simp
  next
    case (Cons n ns)
    then have rp: "r = Some (hd (pend (queues sq) n))" "pend (queues sq') = (pend (queues sq))(n := tl (pend (queues sq) n))"
      using r(3) by (simp_all add: spec_dequeue_def)
    from filter_head [OF Cons] have n: "sig_valid n" "\<not> blocks m n" "pend (queues sq) n \<noteq> []"
      by (simp_all add: set_priority)
    then have num: "signum (hd (pend (queues sq) n)) = n"
      using ok by (cases "pend (queues sq) n") (auto simp: sq_ok_def dest: signum_hd)
    have first: "\<exists>ns'. wanted_nums sq m ig = n # ns'" if "\<not> ig n"
      unfolding wanted_nums_def by (rule filter_first [OF Cons]) (use n that in \<open>auto simp: wanted_def\<close>)
    have same: "wanted_nums sq' m ig = wanted_nums sq m ig" if "ig n"
      by (rule wanted_nums_cong) (use that in \<open>auto simp: wanted_def rp(2)\<close>)
    show ?thesis
      by (rule some [of "hd (pend (queues sq) n)" sq']) (use r rp n num first same in simp_all)
  qed
qed

text \<open>What a delivery does, by its outcome.\<close>

definition delivery_spec ::
  "SigDispositions \<Rightarrow> SigSet \<Rightarrow> (SigNum \<Rightarrow> bool) \<Rightarrow> 'i SigQueues \<Rightarrow> 'i SigQueues
     \<Rightarrow> ('i DequeuedSignal \<times> SigAction) option \<Rightarrow> 'i SigQueues \<Rightarrow> 'i SigQueues \<Rightarrow> bool" where
  "delivery_spec d m ig tq pq r tq' pq' \<longleftrightarrow>
     (case r of
        None \<Rightarrow> wanted_nums tq m ig = [] \<and> wanted_nums pq m ig = []
          \<and> leaves ig m None (pend (queues tq)) (pend (queues tq'))
          \<and> leaves ig m None (pend (queues pq)) (pend (queues pq'))
      | Some (FromThread s, sa) \<Rightarrow> (\<exists>ns. wanted_nums tq m ig = signum s # ns)
          \<and> s = hd (pend (queues tq) (signum s)) \<and> sa = d ! num_to_idx (signum s)
          \<and> leaves ig m (Some (signum s)) (pend (queues tq)) (pend (queues tq'))
          \<and> leaves ig m None (pend (queues pq)) (pend (queues pq'))
      | Some (FromProcess s, sa) \<Rightarrow> wanted_nums tq m ig = [] \<and> (\<exists>ns. wanted_nums pq m ig = signum s # ns)
          \<and> s = hd (pend (queues pq) (signum s)) \<and> sa = d ! num_to_idx (signum s)
          \<and> leaves ig m None (pend (queues tq)) (pend (queues tq'))
          \<and> leaves ig m (Some (signum s)) (pend (queues pq)) (pend (queues pq')))"

lemma wanted_not_ignored: "wanted_nums sq m ig = n # ns \<Longrightarrow> \<not> ig n"
  unfolding wanted_nums_def by (drule filter_head) (simp add: wanted_def)

text \<open>Dropping an ignored signal from a queue changes nothing about the delivery.\<close>

lemma delivers_skip_thread:
  assumes "\<not> blocks m n" "ig n" "pend (queues tq1) = (pend (queues tq))(n := tl (pend (queues tq) n))"
    and same: "wanted_nums tq1 m ig = wanted_nums tq m ig"
    and del: "delivery_spec d m ig tq1 pq r tq' pq'"
  shows "delivery_spec d m ig tq pq r tq' pq'"
proof -
  have drop: "leaves ig m taken (pend (queues tq)) p'"
    if "leaves ig m taken (pend (queues tq1)) p'" "taken \<noteq> Some n" for taken p'
    using leaves_drop [where ig = ig and n = n and p = "pend (queues tq)"] assms(1-3) that by simp
  have keep: "pend (queues tq1) k = pend (queues tq) k \<and> k \<noteq> n" if "wanted_nums tq m ig = k # ns" for k ns
    using wanted_not_ignored [OF that] assms(2,3) by auto
  show ?thesis
    using del unfolding delivery_spec_def same
    by (auto split: option.splits prod.splits DequeuedSignal.splits intro: drop dest: keep)
qed

lemma delivers_skip_process:
  assumes "\<not> blocks m n" "ig n" "pend (queues pq1) = (pend (queues pq))(n := tl (pend (queues pq) n))"
    and same: "wanted_nums pq1 m ig = wanted_nums pq m ig"
    and tq1: "pend (queues tq1) = pend (queues tq)" "wanted_nums tq1 m ig = wanted_nums tq m ig"
    and del: "delivery_spec d m ig tq1 pq1 r tq' pq'"
  shows "delivery_spec d m ig tq pq r tq' pq'"
proof -
  have drop: "leaves ig m taken (pend (queues pq)) p'"
    if "leaves ig m taken (pend (queues pq1)) p'" "taken \<noteq> Some n" for taken p'
    using leaves_drop [where ig = ig and n = n and p = "pend (queues pq)"] assms(1-3) that by simp
  have keep: "pend (queues pq1) k = pend (queues pq) k \<and> k \<noteq> n" if "wanted_nums pq m ig = k # ns" for k ns
    using wanted_not_ignored [OF that] assms(2,3) by auto
  show ?thesis
    using del unfolding delivery_spec_def same tq1
    by (auto split: option.splits prod.splits DequeuedSignal.splits intro: drop dest: keep)
qed

lemma leaves_taken: "leaves ig m (Some n) p (p(n := tl (p n)))"
  by (simp add: leaves_def)

lemma disp_get_ignored:
  assumes "disp_ok d" "sig_valid n"
  obtains sa where "disp_get d n = Return sa" "sa = d ! num_to_idx n" "action_will_ignore sa n \<longleftrightarrow> ignored d n"
  using disp_get_ok [OF assms] ignored_iff [OF assms] by blast

lemma dequeue_pending_eq:
  fixes d m traced
  defines "ig \<equiv> \<lambda>n. ignored d n \<and> \<not> traced"
  assumes "disp_ok d" "sq_ok tq" "sq_ok pq" "total (queues tq) < 2 ^ 64" "total (queues pq) < 2 ^ 64"
  shows "\<exists>r tq' pq'. dequeue_pending_signal d m traced tq pq = Return (r, tq', pq')
    \<and> sq_ok tq' \<and> sq_ok pq' \<and> delivery_spec d m ig tq pq r tq' pq'
    \<and> total (queues tq') \<le> total (queues tq) \<and> total (queues pq') \<le> total (queues pq)"
  using assms(3-)
proof (induction "total (queues tq) + total (queues pq)" arbitrary: tq pq rule: less_induct)
  case less
  note unf = dequeue_pending_signal.simps [of d m traced tq pq] dequeue_signal_def
  from less.prems(1,3) show ?case
  proof (cases rule: sq_dequeue_cases [where m = m and ig = ig])
    case (some s tq1)
    obtain sa where sa: "disp_get d (signum s) = Return sa" "sa = d ! num_to_idx (signum s)"
        "action_will_ignore sa (signum s) \<longleftrightarrow> ignored d (signum s)"
      using disp_get_ignored [OF assms(2) some(3)] .
    show ?thesis
    proof (cases "ig (signum s)")
      case False
      with sa(3) have "dequeue_pending_signal d m traced tq pq = Return (Some (FromThread s, sa), tq1, pq)"
        unfolding unf using some(1) sa(1) by (auto simp: ig_def)
      then show ?thesis
        using False some(2,5,7,8) some(9) sa(2) less.prems leaves_taken [of ig m "signum s" "pend (queues tq)"]
        by (simp add: delivery_spec_def)
    next
      case True
      then have "dequeue_pending_signal d m traced tq pq = dequeue_pending_signal d m traced tq1 pq"
        unfolding unf using some(1) sa(1,3) by (simp add: ig_def)
      then show ?thesis
        using less.hyps [of tq1 pq] some(2,8) less.prems
          delivers_skip_thread [OF some(4) True some(7) some(10) [OF True]] by fastforce
    qed
  next
    case (none tq1)
    from less.prems(2,4) show ?thesis
    proof (cases rule: sq_dequeue_cases [where m = m and ig = ig])
      case none': (none pq1)
      then show ?thesis using none by (simp add: unf delivery_spec_def)
    next
      case (some s pq1)
      obtain sa where sa: "disp_get d (signum s) = Return sa" "sa = d ! num_to_idx (signum s)"
          "action_will_ignore sa (signum s) \<longleftrightarrow> ignored d (signum s)"
        using disp_get_ignored [OF assms(2) some(3)] .
      show ?thesis
      proof (cases "ig (signum s)")
        case False
        with sa(3) have "dequeue_pending_signal d m traced tq pq = Return (Some (FromProcess s, sa), tq1, pq1)"
          unfolding unf using none(1) some(1) sa(1) by (auto simp: ig_def)
        then show ?thesis
          using False none some(2,5,7,8) some(9) sa(2) less.prems leaves_taken [of ig m "signum s" "pend (queues pq)"]
          by (simp add: delivery_spec_def)
      next
        case True
        then have "dequeue_pending_signal d m traced tq pq = dequeue_pending_signal d m traced tq1 pq1"
          unfolding unf using none(1) some(1) sa(1,3) by (simp add: ig_def)
        then show ?thesis
          using less.hyps [of tq1 pq1] none some(2,8) less.prems
            delivers_skip_process [OF some(4) True some(7) some(10) [OF True] none(3)] by fastforce
      qed
    qed
  qed
qed

section \<open>The pending check\<close>

lemma empty_pend:
  assumes "sq_ok sq" "total (queues sq) < 2 ^ 64" "sq_is_empty sq" "sig_valid n"
  shows "pend (queues sq) n = []"
proof -
  have "unat (word_of_nat (total (queues sq)) :: usize) = 0"
    using assms(1,3) by (simp add: sq_is_empty_def sq_ok_def)
  then have "total (queues sq) = 0" using assms(2) by (simp add: unat_of_nat take_bit_eq_mod)
  then show ?thesis using length_pend_le_total [of "queues sq" n] assms(1,4) by (simp add: sq_ok_def)
qed

lemma empty_not_wanted:
  "sq_ok sq \<Longrightarrow> total (queues sq) < 2 ^ 64 \<Longrightarrow> sq_is_empty sq \<Longrightarrow> wanted_nums sq m ig = []"
  using empty_pend by (auto simp: wanted_nums_Nil wanted_def)

lemma only_discards_refl [simp]: "only_discards b ig q q"
  by (simp add: only_discards_def)

lemma wanted_nums_discards:
  "only_discards m ig (queues sq) (queues sq') \<Longrightarrow> wanted_nums sq' m ig = wanted_nums sq m ig"
  by (rule wanted_nums_cong) (rule wanted_discards)

lemma sq_has_pending_wanted:
  assumes "sq_ok sq" "sq_has_pending sq m (\<lambda>s. ig (signum s)) = (found, sq')"
  shows "found \<longleftrightarrow> wanted_nums sq m ig \<noteq> []"
  using sq_has_pending_eq(3) [OF assms] by (simp add: wanted_nums_Nil)

lemma has_pending_signal_eq:
  assumes ok: "sq_ok tq" "sq_ok pq" and bound: "total (queues tq) < 2 ^ 64" "total (queues pq) < 2 ^ 64"
    and res: "has_pending_signal d m tq pq = (found, tq', pq')"
  shows "sq_ok tq'" "sq_ok pq'"
    "only_discards m (ignored d) (queues tq) (queues tq')" "only_discards m (ignored d) (queues pq) (queues pq')"
    "found \<longleftrightarrow> wanted_nums tq m (ignored d) \<noteq> [] \<or> wanted_nums pq m (ignored d) \<noteq> []"
    "total (queues tq') \<le> total (queues tq)" "total (queues pq') \<le> total (queues pq)"
    "\<not> found \<Longrightarrow> sig_valid n \<Longrightarrow> \<not> blocks m n \<Longrightarrow> pend (queues tq') n = [] \<and> pend (queues pq') n = []"
proof -
  let ?ign = "\<lambda>s. ignored d (signum s)"
  obtain f1 tq1 where t: "sq_has_pending tq m ?ign = (f1, tq1)" by fastforce
  obtain f2 pq1 where p: "sq_has_pending pq m ?ign = (f2, pq1)" by fastforce
  note ts = sq_has_pending_eq [OF ok(1) t] and ps = sq_has_pending_eq [OF ok(2) p]
  have eq: "(found, tq', pq') = (if sq_is_empty tq \<and> sq_is_empty pq then (False, tq, pq)
      else if f1 then (True, tq1, pq) else (f2, tq1, pq1))"
    using res t p by (auto simp: has_pending_signal_def)
  show "sq_ok tq'" "sq_ok pq'" using eq ok ts(1) ps(1) by (auto split: if_splits)
  show "only_discards m (ignored d) (queues tq) (queues tq')" "only_discards m (ignored d) (queues pq) (queues pq')"
    using eq ts(2) ps(2) by (auto split: if_splits)
  show "found \<longleftrightarrow> wanted_nums tq m (ignored d) \<noteq> [] \<or> wanted_nums pq m (ignored d) \<noteq> []"
    using eq empty_not_wanted [OF ok(1) bound(1)] empty_not_wanted [OF ok(2) bound(2)]
      sq_has_pending_wanted [OF ok(1) t] sq_has_pending_wanted [OF ok(2) p] by (auto split: if_splits)
  show "total (queues tq') \<le> total (queues tq)" "total (queues pq') \<le> total (queues pq)"
    using eq ts(5) ps(5) by (auto split: if_splits)
  show "pend (queues tq') n = [] \<and> pend (queues pq') n = []" if "\<not> found" "sig_valid n" "\<not> blocks m n"
    using eq that ts(4) [of n] ps(4) [of n] empty_pend [OF ok(1) bound(1)] empty_pend [OF ok(2) bound(2)]
    by (auto split: if_splits)
qed

end
