(* ===== verification/Signal_Process.thy ===== *)
theory Signal_Process
  imports Signal_Delivery
begin

text \<open>
  The signals of a process over time. Besides delivery, signals leave the queues through
  \<^verbatim>\<open>rt_sigtimedwait\<close> (\<^verbatim>\<open>syscall/rt_sigtimedwait.rs\<close>) and through reads of a signal file
  (\<^verbatim>\<open>syscall/signalfd.rs\<close>); handlers and system calls change masks and dispositions, \<^verbatim>\<open>execve\<close> resets the
  caught ones (\<^verbatim>\<open>process/execve.rs\<close>). A run is a sequence of such operations, by any thread in any
  order, on the state of one process with its threads.

  The lemmas show that no run of fewer than \<^verbatim>\<open>2 ^ 64\<close> operations panics or breaks the queues, that
  SIGKILL and SIGSTOP are never blocked or caught, and that a pending SIGKILL stays pending until it is
  delivered.
\<close>

section \<open>Waiting for signals\<close>

text \<open>The set that is waited for, as the mask of what stays in the queues.\<close>

definition sigtimedwait_mask :: "SigSet \<Rightarrow> SigSet" where
  "sigtimedwait_mask sigs = NOT (sigset_minus (sigset_minus sigs (sigset_of SIGKILL)) (sigset_of SIGSTOP))"

function dequeue_signal_with_checking_ignore ::
  "SigDispositions \<Rightarrow> SigSet \<Rightarrow> SigSet \<Rightarrow> 'i SigQueues \<Rightarrow> 'i SigQueues
     \<Rightarrow> ('i Signal option \<times> 'i SigQueues \<times> 'i SigQueues) rust" where
  "dequeue_signal_with_checking_ignore d m block_list tq pq =
     (case dequeue_signal tq pq m of
        Panic \<Rightarrow> Panic
      | Return (None, tq', pq') \<Rightarrow> Return (None, tq', pq')
      | Return (Some ds, tq', pq') \<Rightarrow>
          let s = dequeued_signal ds
          in if blocks block_list (signum s) then Return (Some s, tq', pq')
             else (case disp_will_ignore d (signum s) of
                 Panic \<Rightarrow> Panic
               | Return ign \<Rightarrow>
                   if ign then dequeue_signal_with_checking_ignore d m block_list tq' pq'
                   else Return (Some s, tq', pq')))"
  by pat_completeness auto
termination
  by (relation "measure (\<lambda>(d, m, b, tq, pq). total (queues tq) + total (queues pq))")
    (auto dest!: dequeue_signal_total)

declare dequeue_signal_with_checking_ignore.simps [simp del]

text \<open>The mask of a signal file.\<close>

definition signalfd_mask :: "SigSet \<Rightarrow> SigSet" where
  "signalfd_mask m = sigset_minus (sigset_minus m (sigset_of SIGKILL)) (sigset_of SIGSTOP)"

text \<open>
  The loop of \<^verbatim>\<open>try_read\<close>: one entry of \<^verbatim>\<open>writes\<close> for every record that fits into the buffer, with the
  error if writing this record fails. The signal of a failed write is lost.
\<close>

fun signalfd_loop ::
  "SigSet \<Rightarrow> SigErrno option list \<Rightarrow> 'i SigQueues \<Rightarrow> 'i SigQueues
     \<Rightarrow> ((SigErrno + 'i Signal list) \<times> 'i SigQueues \<times> 'i SigQueues) rust" where
  "signalfd_loop m [] tq pq = Return (Inr [], tq, pq)"
| "signalfd_loop m (w # writes) tq pq =
     rust_bind (dequeue_signal tq pq m) (\<lambda>(r, tq, pq).
       case r of
         None \<Rightarrow> Return (Inr [], tq, pq)
       | Some ds \<Rightarrow>
           (case w of
              Some e \<Rightarrow> Return (Inl e, tq, pq)
            | None \<Rightarrow> rust_bind (signalfd_loop m writes tq pq) (\<lambda>(rest, tq, pq).
                Return (map_sum id (\<lambda>ss. dequeued_signal ds # ss) rest, tq, pq))))"

definition signalfd_try_read ::
  "SigSet \<Rightarrow> SigErrno option list \<Rightarrow> 'i SigQueues \<Rightarrow> 'i SigQueues
     \<Rightarrow> ((SigErrno + 'i Signal list) \<times> 'i SigQueues \<times> 'i SigQueues) rust" where
  "signalfd_try_read signals_mask writes tq pq =
     rust_bind (signalfd_loop (NOT signals_mask) writes tq pq) (\<lambda>(r, tq, pq).
       Return (if r = Inr [] then Inl (OtherErrno 11) else r, tq, pq))"

section \<open>Operations on a process\<close>

definition put_thread :: "'i SigProc \<Rightarrow> nat \<Rightarrow> 'i SigThread \<Rightarrow> 'i SigQueues \<Rightarrow> 'i SigProc" where
  "put_thread pr i t pq = pr\<lparr>sig_threads := (sig_threads pr)[i := t], process_queues := pq\<rparr>"

definition put_queues :: "'i SigProc \<Rightarrow> nat \<Rightarrow> 'i SigQueues \<Rightarrow> 'i SigQueues \<Rightarrow> 'i SigProc" where
  "put_queues pr i tq pq = put_thread pr i ((sig_threads pr ! i)\<lparr>thread_queues := tq\<rparr>) pq"

text \<open>What a delivered signal does to masks and dispositions, by its action.\<close>

fun handle_action :: "'i SigProc \<Rightarrow> nat \<Rightarrow> SigNum \<Rightarrow> SigAction \<Rightarrow> 'i SigProc rust" where
  "handle_action pr i n (User h flags r m) =
     rust_bind
       (if contains flags SA_RESETHAND then disp_set_default (dispositions pr) n else Return (dispositions pr))
       (\<lambda>d. Return (put_thread (pr\<lparr>dispositions := d\<rparr>) i
          (enter_handler (sig_threads pr ! i) n flags m) (process_queues pr)))"
| "handle_action pr i n Ign = Return pr"
| "handle_action pr i n Dfl = Return pr"

text \<open>The mask that \<^verbatim>\<open>RestoreSigMaskGuard\<close> puts restored, if a system call saved one.\<close>

definition restore_sig_mask :: "'i SigProc \<Rightarrow> nat \<Rightarrow> SigSet option \<Rightarrow> 'i SigProc" where
  "restore_sig_mask pr i saved =
     (case saved of
        None \<Rightarrow> pr
      | Some m \<Rightarrow> put_thread pr i (set_sig_mask (sig_threads pr ! i) m) (process_queues pr))"

text \<open>A handler takes the saved mask over; otherwise it is restored at the end.\<close>

definition handle_signal :: "'i SigProc \<Rightarrow> nat \<Rightarrow> SigNum \<Rightarrow> SigAction \<Rightarrow> SigSet option \<Rightarrow> 'i SigProc rust" where
  "handle_signal pr i n sa saved =
     rust_bind (handle_action pr i n sa) (\<lambda>pr.
       Return (case sa of User _ _ _ _ \<Rightarrow> pr | _ \<Rightarrow> restore_sig_mask pr i saved))"

definition dequeue_for ::
  "'i SigProc \<Rightarrow> nat \<Rightarrow> bool \<Rightarrow> (('i DequeuedSignal \<times> SigAction) option \<times> 'i SigProc) rust" where
  "dequeue_for pr i traced =
     (let t = sig_threads pr ! i
      in rust_bind (dequeue_pending_signal (dispositions pr) (sig_mask t) traced (thread_queues t) (process_queues pr))
        (\<lambda>(r, tq, pq). Return (r, put_queues pr i tq pq)))"

text \<open>
  Delivery to thread \<^verbatim>\<open>i\<close>. Without a signal for the current mask, a saved mask is restored and the queues
  are asked again. The signal of a traced thread goes to the tracer unless it is SIGKILL; what the
  tracer lets through is handled by \<^verbatim>\<open>resume_signal\<close>.
\<close>

definition deliver ::
  "'i SigProc \<Rightarrow> nat \<Rightarrow> bool \<Rightarrow> SigSet option \<Rightarrow> (('i DequeuedSignal \<times> SigAction) option \<times> 'i SigProc) rust" where
  "deliver pr i traced saved =
     rust_bind (dequeue_for pr i traced) (\<lambda>(r, pr).
       rust_bind
         (case (r, saved) of
            (None, Some _) \<Rightarrow> rust_bind (dequeue_for (restore_sig_mask pr i saved) i traced) (\<lambda>(r, pr). Return (r, None, pr))
          | _ \<Rightarrow> Return (r, saved, pr))
         (\<lambda>(r, saved, pr).
           case r of
             None \<Rightarrow> Return (None, pr)
           | Some (ds, sa) \<Rightarrow>
               if traced \<and> signum (dequeued_signal ds) \<noteq> SIGKILL then Return (Some (ds, sa), pr)
               else rust_bind (handle_signal pr i (signum (dequeued_signal ds)) sa saved)
                 (\<lambda>pr. Return (Some (ds, sa), pr))))"

text \<open>A process-directed signal; a zombie receives nothing.\<close>

definition process_enqueue_signal :: "'i SigProc \<Rightarrow> bool \<Rightarrow> 'i Signal \<Rightarrow> 'i SigProc rust" where
  "process_enqueue_signal pr is_zombie s =
     (if is_zombie then Return pr
      else rust_bind (sq_enqueue (process_queues pr) s) (\<lambda>(_, pq). Return (pr\<lparr>process_queues := pq\<rparr>)))"

definition thread_enqueue_signal :: "'i SigProc \<Rightarrow> nat \<Rightarrow> 'i Signal \<Rightarrow> 'i SigProc rust" where
  "thread_enqueue_signal pr i s =
     rust_bind (sq_enqueue (thread_queues (sig_threads pr ! i)) s)
       (\<lambda>(_, tq). Return (put_queues pr i tq (process_queues pr)))"

text \<open>The signal that a tracer lets through: queued again if it is blocked, handled otherwise.\<close>

definition resume_signal :: "'i SigProc \<Rightarrow> nat \<Rightarrow> 'i DequeuedSignal \<Rightarrow> bool \<Rightarrow> SigSet option \<Rightarrow> 'i SigProc rust" where
  "resume_signal pr i ds is_zombie saved =
     (let n = signum (dequeued_signal ds)
      in if blocks (sig_mask (sig_threads pr ! i)) n
         then rust_bind
           (case ds of
              FromProcess s \<Rightarrow> process_enqueue_signal pr is_zombie s
            | FromThread s \<Rightarrow> thread_enqueue_signal pr i s)
           (\<lambda>pr. Return (restore_sig_mask pr i saved))
         else rust_bind (disp_get (dispositions pr) n) (\<lambda>sa. handle_signal pr i n sa saved))"

definition reset_sigdispositions :: "'i SigProc \<Rightarrow> 'i SigProc" where
  "reset_sigdispositions pr = pr\<lparr>dispositions := disp_inherit (dispositions pr)\<rparr>"

text \<open>
  The operations of a run. \<^verbatim>\<open>SetMaskOf\<close> is \<^verbatim>\<open>set_sig_mask\<close> as the other system calls use it
  (\<^verbatim>\<open>rt_sigreturn\<close>, \<^verbatim>\<open>rt_sigsuspend\<close>, \<^verbatim>\<open>ppoll\<close>, \<^verbatim>\<open>pselect6\<close>, \<^verbatim>\<open>epoll_pwait\<close>), with any mask; \<^verbatim>\<open>Resume\<close> ends a ptrace stop with
  a signal.
\<close>

datatype 'i sig_op =
    SendThread nat "'i Signal"
  | SendProcess bool "'i Signal"
  | CheckPending nat
  | SigTimedWait nat SigSet
  | SignalfdRead nat SigSet "SigErrno option list"
  | ProcMask nat u32 "(SigErrno + SigSet) option" "(SigErrno + unit) option" usize
  | SetMaskOf nat SigSet
  | Sigaction TargetArch u8 "(SigErrno + sigaction_t) option" "(sigaction_t \<Rightarrow> SigErrno + unit) option" u64
  | Deliver nat bool "SigSet option"
  | Resume nat "'i DequeuedSignal" bool "SigSet option"
  | Exec

fun op_thread :: "'i sig_op \<Rightarrow> nat" where
  "op_thread (SendThread i _) = i"
| "op_thread (CheckPending i) = i"
| "op_thread (SigTimedWait i _) = i"
| "op_thread (SignalfdRead i _ _) = i"
| "op_thread (ProcMask i _ _ _ _) = i"
| "op_thread (SetMaskOf i _) = i"
| "op_thread (Deliver i _ _) = i"
| "op_thread (Resume i _ _ _) = i"
| "op_thread _ = 0"

fun op_signals :: "'i sig_op \<Rightarrow> SigNum list" where
  "op_signals (SendThread _ s) = [signum s]"
| "op_signals (SendProcess _ s) = [signum s]"
| "op_signals (Resume _ ds _ _) = [signum (dequeued_signal ds)]"
| "op_signals _ = []"

text \<open>Threads exist and signal numbers are those of \<^verbatim>\<open>SigNum\<close>.\<close>

definition sig_op_ok :: "nat \<Rightarrow> 'i sig_op \<Rightarrow> bool" where
  "sig_op_ok k op \<longleftrightarrow> op_thread op < k \<and> list_all sig_valid (op_signals op)"

fun sig_step :: "'i SigProc \<Rightarrow> 'i sig_op \<Rightarrow> 'i SigProc rust" where
  "sig_step pr (SendThread i s) = thread_enqueue_signal pr i s"
| "sig_step pr (SendProcess is_zombie s) = process_enqueue_signal pr is_zombie s"
| "sig_step pr (CheckPending i) =
     (let t = sig_threads pr ! i;
          (_, tq, pq) = has_pending_signal (dispositions pr) (sig_mask t) (thread_queues t) (process_queues pr)
      in Return (put_queues pr i tq pq))"
| "sig_step pr (SigTimedWait i sigs) =
     (let t = sig_threads pr ! i
      in rust_bind (dequeue_signal_with_checking_ignore (dispositions pr) (sigtimedwait_mask sigs) (sig_mask t)
           (thread_queues t) (process_queues pr)) (\<lambda>(_, tq, pq). Return (put_queues pr i tq pq)))"
| "sig_step pr (SignalfdRead i m writes) =
     rust_bind (signalfd_try_read (signalfd_mask m) writes (thread_queues (sig_threads pr ! i)) (process_queues pr))
       (\<lambda>(_, tq, pq). Return (put_queues pr i tq pq))"
| "sig_step pr (ProcMask i how set_ptr old_write sigset_size) =
     Return (put_thread pr i (fst (sys_rt_sigprocmask (sig_threads pr ! i) how set_ptr old_write sigset_size))
       (process_queues pr))"
| "sig_step pr (SetMaskOf i m) = Return (put_thread pr i (set_sig_mask (sig_threads pr ! i) m) (process_queues pr))"
| "sig_step pr (Sigaction arch sig action old_write sigset_size) =
     rust_bind (sys_rt_sigaction arch pr sig action old_write sigset_size) (\<lambda>(pr, _). Return pr)"
| "sig_step pr (Deliver i traced saved) = rust_bind (deliver pr i traced saved) (\<lambda>(_, pr). Return pr)"
| "sig_step pr (Resume i ds is_zombie saved) = resume_signal pr i ds is_zombie saved"
| "sig_step pr Exec = Return (reset_sigdispositions pr)"

fun sig_run :: "'i SigProc \<Rightarrow> 'i sig_op list \<Rightarrow> 'i SigProc rust" where
  "sig_run pr [] = Return pr"
| "sig_run pr (op # ops) = rust_bind (sig_step pr op) (\<lambda>pr. sig_run pr ops)"

definition sig_proc_new :: "nat \<Rightarrow> 'i SigProc" where
  "sig_proc_new k = \<lparr>dispositions = dispositions_new, process_queues = sq_new,
     sig_threads = replicate k \<lparr>sig_mask = 0, thread_queues = sq_new\<rparr>\<rparr>"

section \<open>What leaves the queues\<close>

text \<open>
  \<^verbatim>\<open>kept m q q'\<close>: the well-formed queues \<^verbatim>\<open>q'\<close> hold what \<^verbatim>\<open>q\<close> held, but for signals that \<^verbatim>\<open>m\<close> does not block.
\<close>

definition kept :: "SigSet \<Rightarrow> 'i SigQueues \<Rightarrow> 'i SigQueues \<Rightarrow> bool" where
  "kept m q q' \<longleftrightarrow> sq_ok q' \<and> total (queues q') \<le> total (queues q)
     \<and> (\<forall>n. blocks m n \<longrightarrow> pend (queues q') n = pend (queues q) n)"

lemma kept_refl: "sq_ok q \<Longrightarrow> kept m q q"
  by (simp add: kept_def)

lemma kept_trans: "kept m q q' \<Longrightarrow> kept m q' q'' \<Longrightarrow> kept m q q''"
  by (auto simp: kept_def)

lemma sq_dequeue_kept:
  assumes "sq_ok q" "total (queues q) < 2 ^ 64"
  obtains r q' where "sq_dequeue q m = Return (r, q')" "kept m q q'"
    "r = None \<longrightarrow> (\<forall>n. sig_valid n \<and> \<not> blocks m n \<longrightarrow> pend (queues q') n = [])"
    "\<forall>s. r = Some s \<longrightarrow> sig_valid (signum s)"
proof -
  obtain r q' where r: "sq_dequeue q m = Return (r, q')" "sq_ok q'"
      "(r, pend (queues q')) = spec_dequeue (pend (queues q)) m"
      "total (queues q') + (if r = None then 0 else 1) = total (queues q)"
    using sq_dequeue_eq [OF assms] by blast
  have "pend (queues q') n = pend (queues q) n" if "blocks m n" for n
  proof (cases "filter (\<lambda>n. \<not> blocks m n \<and> pend (queues q) n \<noteq> []) priority")
    case (Cons k ks)
    with filter_head [OF Cons] that r(3) show ?thesis by (auto simp: spec_dequeue_def)
  qed (use r(3) in \<open>simp add: spec_dequeue_def\<close>)
  then have "kept m q q'" using r(2,4) by (simp add: kept_def)
  moreover have "\<forall>n. sig_valid n \<and> \<not> blocks m n \<longrightarrow> pend (queues q') n = []" if "r = None"
  proof -
    have "fst (spec_dequeue (pend (queues q)) m) = None" using that r(3) by (metis fst_conv)
    moreover have "pend (queues q') = pend (queues q)"
      using that r(3) by (auto simp: spec_dequeue_def split: list.splits)
    ultimately show ?thesis unfolding spec_dequeue_None by simp
  qed
  moreover have "sig_valid (signum s)" if "r = Some s" for s
    using assms r(1) that by (cases rule: sq_dequeue_cases [where m = m]) auto
  ultimately show thesis using that r(1) by blast
qed

lemma dequeue_signal_kept:
  assumes "sq_ok tq" "sq_ok pq" "total (queues tq) < 2 ^ 64" "total (queues pq) < 2 ^ 64"
  obtains r tq' pq' where "dequeue_signal tq pq m = Return (r, tq', pq')" "kept m tq tq'" "kept m pq pq'"
    "r = None \<longrightarrow> (\<forall>n. sig_valid n \<and> \<not> blocks m n \<longrightarrow> pend (queues tq') n = [] \<and> pend (queues pq') n = [])"
    "\<forall>ds. r = Some ds \<longrightarrow> sig_valid (signum (dequeued_signal ds))"
proof -
  obtain r1 tq1 where t: "sq_dequeue tq m = Return (r1, tq1)" "kept m tq tq1"
    "r1 = None \<longrightarrow> (\<forall>n. sig_valid n \<and> \<not> blocks m n \<longrightarrow> pend (queues tq1) n = [])"
    "\<forall>s. r1 = Some s \<longrightarrow> sig_valid (signum s)"
    using sq_dequeue_kept [OF assms(1,3), where m = m] .
  obtain r2 pq1 where p: "sq_dequeue pq m = Return (r2, pq1)" "kept m pq pq1"
    "r2 = None \<longrightarrow> (\<forall>n. sig_valid n \<and> \<not> blocks m n \<longrightarrow> pend (queues pq1) n = [])"
    "\<forall>s. r2 = Some s \<longrightarrow> sig_valid (signum s)"
    using sq_dequeue_kept [OF assms(2,4), where m = m] .
  show thesis
  proof (cases r1)
    case None
    with t(1) p(1) have eq: "dequeue_signal tq pq m = Return (map_option FromProcess r2, tq1, pq1)"
      by (simp add: dequeue_signal_def)
    show ?thesis by (rule that [OF eq t(2) p(2)]) (use t(3) None p(3,4) in auto)
  next
    case (Some s)
    with t(1) have "dequeue_signal tq pq m = Return (Some (FromThread s), tq1, pq)"
      by (simp add: dequeue_signal_def)
    from that [OF this t(2) kept_refl [OF assms(2)]] show ?thesis using Some t(4) by simp
  qed
qed

lemma kept_bounds: "kept m q q' \<Longrightarrow> total (queues q) < N \<Longrightarrow> sq_ok q' \<and> total (queues q') < N"
  by (simp add: kept_def)

lemma discard_loop_kept:
  assumes "sq_ok tq" "sq_ok pq" "total (queues tq) < 2 ^ 64" "total (queues pq) < 2 ^ 64"
  shows "\<exists>tq' pq'. discard_loop m tq pq = Return (tq', pq') \<and> kept m tq tq' \<and> kept m pq pq'
    \<and> (\<forall>n. sig_valid n \<and> \<not> blocks m n \<longrightarrow> pend (queues tq') n = [] \<and> pend (queues pq') n = [])"
  using assms
proof (induction m tq pq rule: discard_loop.induct)
  case (1 m tq pq)
  from "1.prems" obtain r tq1 pq1 where deq: "dequeue_signal tq pq m = Return (r, tq1, pq1)"
    "kept m tq tq1" "kept m pq pq1"
    "r = None \<longrightarrow> (\<forall>n. sig_valid n \<and> \<not> blocks m n \<longrightarrow> pend (queues tq1) n = [] \<and> pend (queues pq1) n = [])"
    "\<forall>ds. r = Some ds \<longrightarrow> sig_valid (signum (dequeued_signal ds))"
    by (rule dequeue_signal_kept [where m = m])
  show ?case
  proof (cases r)
    case None
    with deq show ?thesis by (subst discard_loop.simps) simp
  next
    case (Some ds)
    with deq(1) have "discard_loop m tq pq = discard_loop m tq1 pq1" by (subst discard_loop.simps) simp
    with "1.IH" [OF deq(1) refl Some refl]
      kept_bounds [OF deq(2) "1.prems"(3)] kept_bounds [OF deq(3) "1.prems"(4)]
    show ?thesis using kept_trans [OF deq(2)] kept_trans [OF deq(3)] by fastforce
  qed
qed

lemma checking_ignore_kept:
  assumes "disp_ok d" "sq_ok tq" "sq_ok pq" "total (queues tq) < 2 ^ 64" "total (queues pq) < 2 ^ 64"
  shows "\<exists>r tq' pq'. dequeue_signal_with_checking_ignore d m b tq pq = Return (r, tq', pq')
    \<and> kept m tq tq' \<and> kept m pq pq'"
  using assms(2-)
proof (induction "total (queues tq) + total (queues pq)" arbitrary: tq pq rule: less_induct)
  case less
  note unf = dequeue_signal_with_checking_ignore.simps [of d m b tq pq] Let_def disp_will_ignore_def
  from less.prems obtain r tq1 pq1 where deq: "dequeue_signal tq pq m = Return (r, tq1, pq1)"
    "kept m tq tq1" "kept m pq pq1" "\<forall>ds. r = Some ds \<longrightarrow> sig_valid (signum (dequeued_signal ds))"
    by (rule dequeue_signal_kept [where m = m])
  show ?case
  proof (cases r)
    case None
    with deq show ?thesis by (simp add: unf)
  next
    case (Some ds)
    let ?n = "signum (dequeued_signal ds)"
    obtain sa where sa: "disp_get d ?n = Return sa" using disp_get_ok [OF assms(1)] deq(4) Some by blast
    show ?thesis
    proof (cases "\<not> blocks b ?n \<and> action_will_ignore sa ?n")
      case True
      with sa deq(1) Some have "dequeue_signal_with_checking_ignore d m b tq pq
          = dequeue_signal_with_checking_ignore d m b tq1 pq1" by (simp add: unf)
      moreover have "total (queues tq1) + total (queues pq1) < total (queues tq) + total (queues pq)"
        using dequeue_signal_total [OF deq(1)] Some by simp
      ultimately show ?thesis
        using less.hyps [of tq1 pq1] kept_bounds [OF deq(2) less.prems(3)] kept_bounds [OF deq(3) less.prems(4)]
          kept_trans [OF deq(2)] kept_trans [OF deq(3)] by fastforce
    next
      case False
      with sa deq Some show ?thesis by (auto simp: unf)
    qed
  qed
qed

lemma signalfd_loop_kept:
  assumes "sq_ok tq" "sq_ok pq" "total (queues tq) < 2 ^ 64" "total (queues pq) < 2 ^ 64"
  shows "\<exists>r tq' pq'. signalfd_loop m writes tq pq = Return (r, tq', pq') \<and> kept m tq tq' \<and> kept m pq pq'"
  using assms
proof (induction writes arbitrary: tq pq)
  case Nil
  then show ?case by (simp add: kept_refl)
next
  case (Cons w writes)
  from Cons.prems obtain r tq1 pq1 where deq: "dequeue_signal tq pq m = Return (r, tq1, pq1)"
    "kept m tq tq1" "kept m pq pq1"
    by (rule dequeue_signal_kept [where m = m])
  obtain r' tq2 pq2 where rest: "signalfd_loop m writes tq1 pq1 = Return (r', tq2, pq2)"
    "kept m tq1 tq2" "kept m pq1 pq2"
    using Cons.IH [of tq1 pq1] kept_bounds [OF deq(2) Cons.prems(3)] kept_bounds [OF deq(3) Cons.prems(4)] by blast
  show ?case
    using deq rest kept_trans [OF deq(2) rest(2)] kept_trans [OF deq(3) rest(3)]
    by (simp split: option.split)
qed

section \<open>The invariant of a process\<close>

definition thread_ok :: "nat \<Rightarrow> 'i SigThread \<Rightarrow> bool" where
  "thread_ok N t \<longleftrightarrow> sq_ok (thread_queues t) \<and> total (queues (thread_queues t)) \<le> N
     \<and> \<not> blocks (sig_mask t) SIGKILL \<and> \<not> blocks (sig_mask t) SIGSTOP"

definition disp_safe :: "SigDispositions \<Rightarrow> bool" where
  "disp_safe d \<longleftrightarrow> disp_ok d \<and> d ! num_to_idx SIGKILL = Dfl \<and> d ! num_to_idx SIGSTOP = Dfl"

definition sig_inv :: "nat \<Rightarrow> 'i SigProc \<Rightarrow> bool" where
  "sig_inv N pr \<longleftrightarrow> disp_safe (dispositions pr) \<and> sq_ok (process_queues pr) \<and> total (queues (process_queues pr)) \<le> N
     \<and> list_all (thread_ok N) (sig_threads pr)"

definition kill_pending :: "'i SigQueues \<Rightarrow> bool" where
  "kill_pending q \<longleftrightarrow> pend (queues q) SIGKILL \<noteq> []"

text \<open>One operation later: the invariant with one more signal, the same threads, SIGKILL still pending.\<close>

definition evolves :: "nat \<Rightarrow> 'i SigProc \<Rightarrow> 'i SigProc \<Rightarrow> bool" where
  "evolves N pr pr' \<longleftrightarrow> sig_inv (Suc N) pr' \<and> length (sig_threads pr') = length (sig_threads pr)"

definition kill_kept :: "'i SigProc \<Rightarrow> 'i SigProc \<Rightarrow> bool" where
  "kill_kept pr pr' \<longleftrightarrow>
     (kill_pending (process_queues pr) \<longrightarrow> kill_pending (process_queues pr'))
     \<and> (\<forall>i < length (sig_threads pr).
          kill_pending (thread_queues (sig_threads pr ! i)) \<longrightarrow> kill_pending (thread_queues (sig_threads pr' ! i)))"

lemma blocks_bit: "sig_valid n \<Longrightarrow> blocks m n \<longleftrightarrow> bit m (unat (n - MIN_STD_SIG_NUM))"
proof -
  assume v: "sig_valid n"
  have "unat (n - MIN_STD_SIG_NUM) < 64"
    using num_to_idx_less [OF v] by (simp add: num_to_idx_def COUNT_ALL_SIGS_def)
  then show ?thesis by (auto simp: contains_iff sigset_of_def bit_simps)
qed

lemma kill_stop_valid [simp]: "sig_valid SIGKILL" "sig_valid SIGSTOP"
  by (simp_all add: sig_valid_def sig_consts)

lemma blocks_minus:
  assumes n: "sig_valid n" and k: "sig_valid k"
  shows "blocks (sigset_minus m (sigset_of k)) n \<longleftrightarrow> blocks m n \<and> n \<noteq> k"
  unfolding blocks_bit [OF n] unfolding sigset_minus_def sigset_of_def
  using num_to_idx_less [OF n] by (auto simp: bit_simps index_inj num_to_idx_def COUNT_ALL_SIGS_def)

lemma blocks_not: "sig_valid n \<Longrightarrow> blocks (NOT m) n \<longleftrightarrow> \<not> blocks m n"
  using num_to_idx_less [of n] by (simp add: blocks_bit bit_simps num_to_idx_def COUNT_ALL_SIGS_def)

lemma blocks_full: "sig_valid n \<Longrightarrow> blocks sigset_full n"
  using num_to_idx_less [of n]
  by (simp add: blocks_bit sigset_full_def bit_simps num_to_idx_def COUNT_ALL_SIGS_def)

lemma blocks_wait [simp]:
  "blocks (sigtimedwait_mask sigs) SIGKILL" "blocks (NOT (signalfd_mask m)) SIGKILL"
  by (simp_all add: sigtimedwait_mask_def signalfd_mask_def blocks_not blocks_minus)

lemma set_sig_mask_ok:
  "sq_ok (thread_queues t) \<Longrightarrow> total (queues (thread_queues t)) \<le> N \<Longrightarrow> thread_ok N (set_sig_mask t m)"
  by (simp add: thread_ok_def set_sig_mask_def blocks_minus)

lemma thread_ok_mono: "thread_ok N t \<Longrightarrow> N \<le> M \<Longrightarrow> thread_ok M t"
  by (auto simp: thread_ok_def)

lemma sig_inv_thread: "sig_inv N pr \<Longrightarrow> i < length (sig_threads pr) \<Longrightarrow> thread_ok N (sig_threads pr ! i)"
  by (simp add: sig_inv_def list_all_length)

lemma put_thread_evolves:
  assumes "sig_inv N pr" "i < length (sig_threads pr)" "thread_ok (Suc N) t" "sq_ok pq" "total (queues pq) \<le> Suc N"
  shows "evolves N pr (put_thread pr i t pq)"
  using assms
  by (auto simp: evolves_def sig_inv_def put_thread_def list_all_length nth_list_update intro: thread_ok_mono)

lemma put_thread_kill:
  assumes "i < length (sig_threads pr)"
    "kill_pending (thread_queues (sig_threads pr ! i)) \<longrightarrow> kill_pending (thread_queues t)"
    "kill_pending (process_queues pr) \<longrightarrow> kill_pending pq"
  shows "kill_kept pr (put_thread pr i t pq)"
  using assms by (auto simp: kill_kept_def put_thread_def nth_list_update)

text \<open>Taking signals out of the queues, with a mask that blocks SIGKILL.\<close>

lemma put_queues_kept:
  assumes inv: "sig_inv N pr" and i: "i < length (sig_threads pr)"
    and kept: "kept m (thread_queues (sig_threads pr ! i)) tq" "kept m (process_queues pr) pq"
    and m: "blocks m SIGKILL"
  shows "evolves N pr (put_queues pr i tq pq) \<and> kill_kept pr (put_queues pr i tq pq)"
proof
  note t = sig_inv_thread [OF inv i]
  show "evolves N pr (put_queues pr i tq pq)"
    unfolding put_queues_def using inv i kept t
    by (intro put_thread_evolves) (auto simp: thread_ok_def kept_def sig_inv_def)
  show "kill_kept pr (put_queues pr i tq pq)"
    unfolding put_queues_def using i kept m by (intro put_thread_kill) (auto simp: kill_pending_def kept_def)
qed

section \<open>Every operation keeps the invariant\<close>

lemma sq_enqueue_kept:
  assumes "sq_ok q" "sig_valid (signum s)"
  obtains r q' where "sq_enqueue q s = Return (r, q')" "sq_ok q'" "total (queues q') \<le> Suc (total (queues q))"
    "kill_pending q \<or> signum s = SIGKILL \<longrightarrow> kill_pending q'"
proof -
  obtain r q' where r: "sq_enqueue q s = Return (r, q')" "sq_ok q'"
      "(r, pend (queues q')) = spec_enqueue (pend (queues q)) s"
      "total (queues q') = total (queues q) + (if r then 1 else 0)"
    using sq_enqueue_eq [OF assms] by blast
  have "kill_pending q \<or> signum s = SIGKILL \<longrightarrow> kill_pending q'"
    using r(3) by (auto simp: spec_enqueue_def kill_pending_def split: if_splits)
  with r show thesis using that by simp
qed

lemma thread_enqueue_step:
  assumes "sig_inv N pr" "i < length (sig_threads pr)" "sig_valid (signum s)"
  obtains pr' where "thread_enqueue_signal pr i s = Return pr'" "evolves N pr pr'" "kill_kept pr pr'"
    "signum s = SIGKILL \<longrightarrow> kill_pending (thread_queues (sig_threads pr' ! i))"
proof -
  let ?t = "sig_threads pr ! i"
  have t: "thread_ok N ?t" by (rule sig_inv_thread [OF assms(1,2)])
  then have "sq_ok (thread_queues ?t)" by (simp add: thread_ok_def)
  then obtain r q' where q: "sq_enqueue (thread_queues ?t) s = Return (r, q')" "sq_ok q'"
    "total (queues q') \<le> Suc (total (queues (thread_queues ?t)))"
    "kill_pending (thread_queues ?t) \<or> signum s = SIGKILL \<longrightarrow> kill_pending q'"
    using sq_enqueue_kept [OF _ assms(3)] by blast
  show thesis
  proof (rule that)
    show "thread_enqueue_signal pr i s = Return (put_queues pr i q' (process_queues pr))"
      using q(1) by (simp add: thread_enqueue_signal_def)
    show "evolves N pr (put_queues pr i q' (process_queues pr))"
      unfolding put_queues_def using assms(1,2) q(2,3) t
      by (intro put_thread_evolves) (auto simp: thread_ok_def sig_inv_def)
    show "kill_kept pr (put_queues pr i q' (process_queues pr))"
      unfolding put_queues_def using assms(2) q(4) by (intro put_thread_kill) auto
    show "signum s = SIGKILL \<longrightarrow>
        kill_pending (thread_queues (sig_threads (put_queues pr i q' (process_queues pr)) ! i))"
      using q(4) assms(2) by (simp add: put_queues_def put_thread_def)
  qed
qed

lemma evolves_refl: "sig_inv N pr \<Longrightarrow> evolves N pr pr"
  by (auto simp: evolves_def sig_inv_def list_all_iff intro: thread_ok_mono)

lemma kill_kept_refl [simp]: "kill_kept pr pr"
  by (simp add: kill_kept_def)

lemma process_enqueue_step:
  assumes "sig_inv N pr" "sig_valid (signum s)"
  obtains pr' where "process_enqueue_signal pr z s = Return pr'" "evolves N pr pr'" "kill_kept pr pr'"
    "signum s = SIGKILL \<and> \<not> z \<longrightarrow> kill_pending (process_queues pr')"
proof (cases z)
  case False
  have "sq_ok (process_queues pr)" using assms(1) by (simp add: sig_inv_def)
  then obtain r q' where q: "sq_enqueue (process_queues pr) s = Return (r, q')" "sq_ok q'"
    "total (queues q') \<le> Suc (total (queues (process_queues pr)))"
    "kill_pending (process_queues pr) \<or> signum s = SIGKILL \<longrightarrow> kill_pending q'"
    using sq_enqueue_kept [OF _ assms(2)] by blast
  have "evolves N pr (pr\<lparr>process_queues := q'\<rparr>)"
    using assms(1) q(2,3) by (auto simp: evolves_def sig_inv_def list_all_iff intro: thread_ok_mono)
  then show ?thesis
    using that [of "pr\<lparr>process_queues := q'\<rparr>"] q(1,4) False by (simp add: process_enqueue_signal_def kill_kept_def)
qed (use that [of pr] evolves_refl [OF assms(1)] in \<open>simp add: process_enqueue_signal_def\<close>)

lemma discard_threads_kept:
  assumes "sq_ok pq" "total (queues pq) < 2 ^ 64" "list_all (thread_ok N) ts" "N < 2 ^ 64"
  shows "\<exists>pq' ts'. discard_threads m pq ts = Return (pq', ts') \<and> kept m pq pq'
    \<and> list_all2 (\<lambda>t t'. \<exists>q. t' = t\<lparr>thread_queues := q\<rparr> \<and> kept m (thread_queues t) q
        \<and> (\<forall>n. sig_valid n \<and> \<not> blocks m n \<longrightarrow> pend (queues q) n = [])) ts ts'
    \<and> (ts \<noteq> [] \<longrightarrow> (\<forall>n. sig_valid n \<and> \<not> blocks m n \<longrightarrow> pend (queues pq') n = []))"
  using assms
proof (induction ts arbitrary: pq)
  case Nil
  then show ?case by (simp add: kept_refl)
next
  case (Cons t ts)
  then have "sq_ok (thread_queues t)" "total (queues (thread_queues t)) < 2 ^ 64" by (auto simp: thread_ok_def)
  then obtain tq1 pq1 where one: "discard_loop m (thread_queues t) pq = Return (tq1, pq1)"
    "kept m (thread_queues t) tq1" "kept m pq pq1"
    "\<forall>n. sig_valid n \<and> \<not> blocks m n \<longrightarrow> pend (queues tq1) n = [] \<and> pend (queues pq1) n = []"
    using discard_loop_kept [of "thread_queues t" pq m] Cons.prems by blast
  have "sq_ok pq1" "total (queues pq1) < 2 ^ 64" using kept_bounds [OF one(3) Cons.prems(2)] by simp_all
  from Cons.IH [OF this _ Cons.prems(4)] Cons.prems(3) obtain pq2 ts' where
    rest: "discard_threads m pq1 ts = Return (pq2, ts')" "kept m pq1 pq2"
      "list_all2 (\<lambda>t t'. \<exists>q. t' = t\<lparr>thread_queues := q\<rparr> \<and> kept m (thread_queues t) q
        \<and> (\<forall>n. sig_valid n \<and> \<not> blocks m n \<longrightarrow> pend (queues q) n = [])) ts ts'"
      "ts \<noteq> [] \<longrightarrow> (\<forall>n. sig_valid n \<and> \<not> blocks m n \<longrightarrow> pend (queues pq2) n = [])"
    by auto
  have "\<forall>n. sig_valid n \<and> \<not> blocks m n \<longrightarrow> pend (queues pq2) n = []"
    using rest one(4) by (cases ts) auto
  with one rest kept_trans [OF one(3) rest(2)] show ?case by auto
qed

text \<open>All but one signal stay; that one leaves the queues of the process and of all its threads.\<close>

lemma discard_signals_step:
  assumes inv: "sig_inv N pr" and N: "N < 2 ^ 64" and n: "sig_valid n"
  obtains pr' where "discard_signals_if_ignored pr n = Return pr'" "sig_inv N pr'"
    "length (sig_threads pr') = length (sig_threads pr)" "dispositions pr' = dispositions pr"
    "n \<noteq> SIGKILL \<longrightarrow> kill_kept pr pr'"
    "\<forall>t \<in> set (sig_threads pr'). pend (queues (thread_queues t)) n = []"
    "sig_threads pr \<noteq> [] \<longrightarrow> pend (queues (process_queues pr')) n = []"
    "\<forall>k. sig_valid k \<and> k \<noteq> n \<longrightarrow> pend (queues (process_queues pr')) k = pend (queues (process_queues pr)) k
       \<and> (\<forall>i < length (sig_threads pr). pend (queues (thread_queues (sig_threads pr' ! i))) k
            = pend (queues (thread_queues (sig_threads pr ! i))) k)"
proof -
  let ?m = "sigset_minus sigset_full (sigset_of n)"
  have m: "blocks ?m k \<longleftrightarrow> k \<noteq> n" if "sig_valid k" for k
    using that n by (simp add: blocks_minus blocks_full)
  have pre: "sq_ok (process_queues pr)" "total (queues (process_queues pr)) < 2 ^ 64" "list_all (thread_ok N) (sig_threads pr)"
    using inv N by (auto simp: sig_inv_def)
  obtain pq' ts' where res: "discard_threads ?m (process_queues pr) (sig_threads pr) = Return (pq', ts')"
    "kept ?m (process_queues pr) pq'"
    "list_all2 (\<lambda>t t'. \<exists>q. t' = t\<lparr>thread_queues := q\<rparr> \<and> kept ?m (thread_queues t) q
        \<and> (\<forall>n. sig_valid n \<and> \<not> blocks ?m n \<longrightarrow> pend (queues q) n = [])) (sig_threads pr) ts'"
    "sig_threads pr \<noteq> [] \<longrightarrow> (\<forall>n. sig_valid n \<and> \<not> blocks ?m n \<longrightarrow> pend (queues pq') n = [])"
    using discard_threads_kept [OF pre N, of ?m] by blast
  have thread: "\<exists>q. ts' ! i = (sig_threads pr ! i)\<lparr>thread_queues := q\<rparr> \<and> kept ?m (thread_queues (sig_threads pr ! i)) q
      \<and> pend (queues q) n = []" if "i < length (sig_threads pr)" for i
    using list_all2_nthD [OF res(3) that] m n by blast
  note len = list_all2_lengthD [OF res(3)]
  let ?pr = "pr\<lparr>process_queues := pq', sig_threads := ts'\<rparr>"
  show thesis
  proof (rule that)
    show "discard_signals_if_ignored pr n = Return ?pr" using res(1) by (simp add: discard_signals_if_ignored_def)
    have "thread_ok N (ts' ! i)" if "i < length ts'" for i
      using thread [of i] that len sig_inv_thread [OF inv, of i] by (auto simp: thread_ok_def kept_def)
    then show "sig_inv N ?pr"
      using inv res(2) by (auto simp: sig_inv_def kept_def list_all_length)
    show "n \<noteq> SIGKILL \<longrightarrow> kill_kept pr ?pr"
      using thread res(2) m [of SIGKILL] by (fastforce simp: kill_kept_def kill_pending_def kept_def)
    show "\<forall>t \<in> set (sig_threads ?pr). pend (queues (thread_queues t)) n = []"
      using thread len by (fastforce simp: in_set_conv_nth)
    show "sig_threads pr \<noteq> [] \<longrightarrow> pend (queues (process_queues ?pr)) n = []" using res(4) m n by simp
    show "\<forall>k. sig_valid k \<and> k \<noteq> n \<longrightarrow> pend (queues (process_queues ?pr)) k = pend (queues (process_queues pr)) k
       \<and> (\<forall>i < length (sig_threads pr). pend (queues (thread_queues (sig_threads ?pr ! i))) k
            = pend (queues (thread_queues (sig_threads pr ! i))) k)"
      using thread res(2) m by (fastforce simp: kept_def)
  qed (use len in simp_all)
qed

lemma disp_safe_update:
  assumes "disp_safe d" "sig_valid n" "n \<noteq> SIGKILL \<and> n \<noteq> SIGSTOP \<or> sa = Dfl"
  shows "disp_safe (d[num_to_idx n := sa])"
  using assms index_inj [of n MIN_STD_SIG_NUM SIGKILL] index_inj [of n MIN_STD_SIG_NUM SIGSTOP]
    num_to_idx_less [of SIGKILL] num_to_idx_less [of SIGSTOP]
  by (auto simp: disp_safe_def disp_ok_def num_to_idx_def nth_list_update)

lemma at_index_safe: "disp_safe d \<Longrightarrow> sig_valid n \<Longrightarrow> at_index d (num_to_idx n) = Return (d ! num_to_idx n)"
  using num_to_idx_less [of n] by (simp add: disp_safe_def disp_ok_def)

lemma disp_set_safe:
  assumes "disp_safe d" "sig_valid n" "n \<noteq> SIGKILL" "n \<noteq> SIGSTOP"
  obtains r d' where "disp_set arch d n sa = Return (r, d')" "disp_safe d'"
  using assms disp_safe_update [OF assms(1,2), of sa]
  by (cases "check_sigaction arch sa") (auto simp: disp_set_def at_index_safe)

lemma kill_kept_dispositions [simp]: "kill_kept pr (pr'\<lparr>dispositions := d\<rparr>) \<longleftrightarrow> kill_kept pr pr'"
  by (simp add: kill_kept_def)

lemma sig_inv_dispositions: "sig_inv N pr \<Longrightarrow> disp_safe d \<Longrightarrow> sig_inv N (pr\<lparr>dispositions := d\<rparr>)"
  by (simp add: sig_inv_def)

lemma sigaction_step:
  assumes inv: "sig_inv N pr" and N: "N < 2 ^ 64"
  obtains pr' r where "sys_rt_sigaction arch pr sig action old_write sz = Return (pr', r)"
    "sig_inv N pr'" "length (sig_threads pr') = length (sig_threads pr)" "kill_kept pr pr'"
proof (cases "sig_valid sig \<and> sz = 8 \<and> sig \<noteq> SIGKILL \<and> sig \<noteq> SIGSTOP \<and> (\<exists>c. action = Some (Inr c))")
  case True
  then obtain c where c: "action = Some (Inr c)" and v: "sig_valid sig" "sig \<noteq> SIGKILL" "sig \<noteq> SIGSTOP" by blast
  obtain pr1 where pr1: "(if action_will_ignore (sig_action_from c) sig then discard_signals_if_ignored pr sig
      else Return pr) = Return pr1"
    "sig_inv N pr1" "length (sig_threads pr1) = length (sig_threads pr)" "kill_kept pr pr1"
    using discard_signals_step [OF inv N v(1)] inv v(2) by (metis kill_kept_refl)
  then have "disp_safe (dispositions pr1)" by (simp add: sig_inv_def)
  from disp_set_safe [OF this v, of arch "sig_action_from c"] obtain r d where
    d: "disp_set arch (dispositions pr1) sig (sig_action_from c) = Return (r, d)" "disp_safe d" .
  have "\<exists>r. sys_rt_sigaction arch pr sig action old_write sz = Return (pr1\<lparr>dispositions := d\<rparr>, r)"
    using True c pr1(1) d by (auto simp: sys_rt_sigaction_def signum_try_from_def split: sum.splits option.splits)
  then show thesis
    using that [of "pr1\<lparr>dispositions := d\<rparr>"] pr1 sig_inv_dispositions [OF pr1(2) d(2)] by auto
next
  case False
  have "disp_safe (dispositions pr)" using inv by (simp add: sig_inv_def)
  note get = at_index_safe [OF this]
  have "\<exists>r. sys_rt_sigaction arch pr sig action old_write sz = Return (pr, r)"
    using False get by (auto simp: sys_rt_sigaction_def signum_try_from_def disp_get_def split: option.splits sum.splits)
  then show thesis using that inv by auto
qed

lemma handle_action_step:
  assumes inv: "sig_inv N pr" and i: "i < length (sig_threads pr)" and n: "sig_valid n"
  obtains pr' where "handle_action pr i n sa = Return pr'" "sig_inv N pr'"
    "length (sig_threads pr') = length (sig_threads pr)" "kill_kept pr pr'"
    "\<forall>j. j \<noteq> i \<longrightarrow> sig_threads pr' ! j = sig_threads pr ! j"
proof (cases sa)
  case (User h flags r m)
  have safe: "disp_safe (dispositions pr)" using inv by (simp add: sig_inv_def)
  obtain d where d: "(if contains flags SA_RESETHAND then disp_set_default (dispositions pr) n
      else Return (dispositions pr)) = Return d" "disp_safe d"
    using safe disp_safe_update [OF safe n, of Dfl] at_index_safe [OF safe n]
    by (cases "contains flags SA_RESETHAND") (auto simp: disp_set_default_def)
  let ?t = "enter_handler (sig_threads pr ! i) n flags m" and ?d = "pr\<lparr>dispositions := d\<rparr>"
  have t: "thread_ok N ?t" "thread_queues ?t = thread_queues (sig_threads pr ! i)"
    using sig_inv_thread [OF inv i]
    by (simp_all add: enter_handler_def thread_ok_def set_sig_mask_def blocks_minus)
  show thesis
  proof (rule that)
    show "handle_action pr i n sa = Return (put_thread ?d i ?t (process_queues pr))" using User d(1) by simp
    show "sig_inv N (put_thread ?d i ?t (process_queues pr))"
      using inv i t(1) d(2) by (auto simp: sig_inv_def put_thread_def list_all_length nth_list_update)
    have "kill_kept ?d (put_thread ?d i ?t (process_queues pr))"
      using t(2) i by (intro put_thread_kill) auto
    then show "kill_kept pr (put_thread ?d i ?t (process_queues pr))" by (simp add: kill_kept_def)
  qed (simp_all add: put_thread_def)
qed (use that [of pr] inv in simp_all)

lemma sig_inv_evolves:
  "sig_inv N pr' \<Longrightarrow> length (sig_threads pr') = length (sig_threads pr) \<Longrightarrow> evolves N pr pr'"
  using evolves_refl [of N pr'] by (simp add: evolves_def)

text \<open>Delivery in a process that satisfies the invariant, with the queues it leaves.\<close>

lemma dequeue_pending_inv:
  assumes inv: "sig_inv N pr" and N: "N < 2 ^ 64" and i: "i < length (sig_threads pr)"
  defines "t \<equiv> sig_threads pr ! i"
  obtains r tq pq where
    "dequeue_pending_signal (dispositions pr) (sig_mask t) traced (thread_queues t) (process_queues pr) = Return (r, tq, pq)"
    "delivery_spec (dispositions pr) (sig_mask t) (\<lambda>n. ignored (dispositions pr) n \<and> \<not> traced)
       (thread_queues t) (process_queues pr) r tq pq"
    "sig_inv N (put_queues pr i tq pq)"
proof -
  have t: "thread_ok N t" unfolding t_def by (rule sig_inv_thread [OF inv i])
  obtain r tq pq where res:
    "dequeue_pending_signal (dispositions pr) (sig_mask t) traced (thread_queues t) (process_queues pr) = Return (r, tq, pq)"
    "sq_ok tq" "sq_ok pq"
    "delivery_spec (dispositions pr) (sig_mask t) (\<lambda>n. ignored (dispositions pr) n \<and> \<not> traced)
       (thread_queues t) (process_queues pr) r tq pq"
    "total (queues tq) \<le> total (queues (thread_queues t))" "total (queues pq) \<le> total (queues (process_queues pr))"
    using dequeue_pending_eq [of "dispositions pr" "thread_queues t" "process_queues pr" "sig_mask t" traced] inv N t
    by (auto simp: sig_inv_def thread_ok_def disp_safe_def)
  have "sig_inv N (put_queues pr i tq pq)"
    using inv i t res(2,3,5,6)
    by (auto simp: sig_inv_def put_queues_def put_thread_def list_all_length nth_list_update thread_ok_def t_def)
  with res that show thesis by blast
qed

lemma delivers_valid:
  "delivery_spec d m ig tq pq (Some (ds, sa)) tq' pq' \<Longrightarrow> sig_valid (signum (dequeued_signal ds))"
  by (cases ds) (auto simp: delivery_spec_def wanted_nums_def set_priority dest!: filter_head)

text \<open>Only thread \<^verbatim>\<open>i\<close> changes.\<close>

definition only_thread :: "nat \<Rightarrow> 'i SigProc \<Rightarrow> 'i SigProc \<Rightarrow> bool" where
  "only_thread i pr pr' \<longleftrightarrow> length (sig_threads pr') = length (sig_threads pr)
     \<and> (\<forall>j. j \<noteq> i \<longrightarrow> sig_threads pr' ! j = sig_threads pr ! j)"

lemma only_thread_trans: "only_thread i pr pr' \<Longrightarrow> only_thread i pr' pr'' \<Longrightarrow> only_thread i pr pr''"
  by (simp add: only_thread_def)

lemma only_thread_put [simp]:
  "only_thread i pr pr" "only_thread i pr (put_thread pr i t pq)" "only_thread i pr (put_queues pr i tq pq)"
  by (simp_all add: only_thread_def put_thread_def put_queues_def)

lemma dequeue_for_step:
  assumes inv: "sig_inv N pr" and N: "N < 2 ^ 64" and i: "i < length (sig_threads pr)"
  obtains r pr' where "dequeue_for pr i traced = Return (r, pr')" "sig_inv N pr'" "only_thread i pr pr'"
    "\<forall>ds sa. r = Some (ds, sa) \<longrightarrow> sig_valid (signum (dequeued_signal ds))"
proof -
  obtain r tq pq where res: "dequeue_pending_signal (dispositions pr) (sig_mask (sig_threads pr ! i)) traced
      (thread_queues (sig_threads pr ! i)) (process_queues pr) = Return (r, tq, pq)"
    "delivery_spec (dispositions pr) (sig_mask (sig_threads pr ! i)) (\<lambda>n. ignored (dispositions pr) n \<and> \<not> traced)
       (thread_queues (sig_threads pr ! i)) (process_queues pr) r tq pq"
    "sig_inv N (put_queues pr i tq pq)"
    using dequeue_pending_inv [OF assms, where traced = traced] .
  have "\<forall>ds sa. r = Some (ds, sa) \<longrightarrow> sig_valid (signum (dequeued_signal ds))" using res(2) delivers_valid by blast
  with res(1,3) show thesis by (intro that [of r "put_queues pr i tq pq"]) (simp_all add: dequeue_for_def Let_def)
qed

lemma restore_step:
  assumes "sig_inv N pr" "i < length (sig_threads pr)"
  shows "sig_inv N (restore_sig_mask pr i saved)" "only_thread i pr (restore_sig_mask pr i saved)"
    "kill_kept pr (restore_sig_mask pr i saved)"
proof -
  have t: "thread_ok N (set_sig_mask (sig_threads pr ! i) m)" for m
    using sig_inv_thread [OF assms] by (intro set_sig_mask_ok) (simp_all add: thread_ok_def)
  then show "sig_inv N (restore_sig_mask pr i saved)"
    using assms by (auto simp: restore_sig_mask_def sig_inv_def put_thread_def list_all_length nth_list_update split: option.split)
  show "only_thread i pr (restore_sig_mask pr i saved)" by (simp add: restore_sig_mask_def split: option.split)
  show "kill_kept pr (restore_sig_mask pr i saved)"
    using assms(2) by (auto simp: restore_sig_mask_def set_sig_mask_def intro!: put_thread_kill split: option.split)
qed

lemma kill_kept_trans:
  "kill_kept pr pr' \<Longrightarrow> kill_kept pr' pr'' \<Longrightarrow> length (sig_threads pr') = length (sig_threads pr) \<Longrightarrow> kill_kept pr pr''"
  by (simp add: kill_kept_def)

lemma handle_signal_step:
  assumes "sig_inv N pr" "i < length (sig_threads pr)" "sig_valid n"
  obtains pr' where "handle_signal pr i n sa saved = Return pr'" "sig_inv N pr'" "only_thread i pr pr'" "kill_kept pr pr'"
proof -
  obtain pr1 where one: "handle_action pr i n sa = Return pr1" "sig_inv N pr1"
    "length (sig_threads pr1) = length (sig_threads pr)" "kill_kept pr pr1"
    "\<forall>j. j \<noteq> i \<longrightarrow> sig_threads pr1 ! j = sig_threads pr ! j"
    by (rule handle_action_step [OF assms])
  then have only: "only_thread i pr pr1" "i < length (sig_threads pr1)" using assms(2) by (simp_all add: only_thread_def)
  note restored = restore_step [OF one(2) only(2), of saved]
  show thesis
    by (rule that [of "case sa of User _ _ _ _ \<Rightarrow> pr1 | _ \<Rightarrow> restore_sig_mask pr1 i saved"])
      (use one only restored only_thread_trans [OF only(1) restored(2)] kill_kept_trans [OF one(4) restored(3) one(3)]
       in \<open>simp_all add: handle_signal_def split: SigAction.split\<close>)
qed

lemma deliver_step:
  assumes inv: "sig_inv N pr" and N: "N < 2 ^ 64" and i: "i < length (sig_threads pr)"
  obtains r pr' where "deliver pr i traced saved = Return (r, pr')" "sig_inv N pr'" "only_thread i pr pr'"
proof -
  obtain r1 pr1 where one: "dequeue_for pr i traced = Return (r1, pr1)" "sig_inv N pr1" "only_thread i pr pr1"
    "\<forall>ds sa. r1 = Some (ds, sa) \<longrightarrow> sig_valid (signum (dequeued_signal ds))"
    by (rule dequeue_for_step [OF assms])
  have i1: "i < length (sig_threads pr1)" using one(3) i by (simp add: only_thread_def)
  note restored = restore_step [OF one(2) i1, of saved]
  have "i < length (sig_threads (restore_sig_mask pr1 i saved))" using restored(2) i1 by (simp add: only_thread_def)
  then obtain r2 pr2 where two: "dequeue_for (restore_sig_mask pr1 i saved) i traced = Return (r2, pr2)" "sig_inv N pr2"
    "only_thread i (restore_sig_mask pr1 i saved) pr2"
    "\<forall>ds sa. r2 = Some (ds, sa) \<longrightarrow> sig_valid (signum (dequeued_signal ds))"
    by (rule dequeue_for_step [OF restored(1) N])
  obtain r sv pr3 where three: "(case (r1, saved) of
        (None, Some _) \<Rightarrow> rust_bind (dequeue_for (restore_sig_mask pr1 i saved) i traced) (\<lambda>(r, pr). Return (r, None, pr))
      | _ \<Rightarrow> Return (r1, saved, pr1)) = Return (r, sv, pr3)"
    "sig_inv N pr3" "only_thread i pr pr3" "\<forall>ds sa. r = Some (ds, sa) \<longrightarrow> sig_valid (signum (dequeued_signal ds))"
  proof (cases "r1 = None \<and> saved \<noteq> None")
    case True
    have "only_thread i pr pr2" using only_thread_trans one(3) restored(2) two(3) by blast
    with True two that [of r2 None pr2] show ?thesis by auto
  next
    case False
    with one that [of r1 saved pr1] show ?thesis by (auto split: option.split)
  qed
  have i3: "i < length (sig_threads pr3)" using three(3) i by (simp add: only_thread_def)
  have eq: "deliver pr i traced saved = (case r of None \<Rightarrow> Return (None, pr3)
      | Some (ds, sa) \<Rightarrow> if traced \<and> signum (dequeued_signal ds) \<noteq> SIGKILL then Return (Some (ds, sa), pr3)
          else rust_bind (handle_signal pr3 i (signum (dequeued_signal ds)) sa sv) (\<lambda>pr. Return (Some (ds, sa), pr)))"
    unfolding deliver_def using one(1) three(1) by simp
  show thesis
  proof (cases r)
    case None
    with eq three that show ?thesis by simp
  next
    case (Some x)
    then obtain ds sa where x: "r = Some (ds, sa)" by (cases x) simp
    with three(4) have v: "sig_valid (signum (dequeued_signal ds))" by simp
    obtain pr' where "handle_signal pr3 i (signum (dequeued_signal ds)) sa sv = Return pr'" "sig_inv N pr'" "only_thread i pr3 pr'"
      by (rule handle_signal_step [OF three(2) i3 v])
    with eq three(2,3) x only_thread_trans [OF three(3)] show ?thesis
      using that by (cases "traced \<and> signum (dequeued_signal ds) \<noteq> SIGKILL") auto
  qed
qed

lemma resume_step:
  assumes inv: "sig_inv N pr" and i: "i < length (sig_threads pr)" and v: "sig_valid (signum (dequeued_signal ds))"
  obtains pr' where "resume_signal pr i ds z saved = Return pr'" "evolves N pr pr'" "kill_kept pr pr'"
proof (cases "blocks (sig_mask (sig_threads pr ! i)) (signum (dequeued_signal ds))")
  case True
  obtain pr1 where one: "(case ds of FromProcess s \<Rightarrow> process_enqueue_signal pr z s
      | FromThread s \<Rightarrow> thread_enqueue_signal pr i s) = Return pr1" "evolves N pr pr1" "kill_kept pr pr1"
    using v thread_enqueue_step [OF inv i] process_enqueue_step [OF inv] by (cases ds) (simp, metis, simp, metis)
  then have pr1: "sig_inv (Suc N) pr1" "i < length (sig_threads pr1)" "length (sig_threads pr1) = length (sig_threads pr)"
    using i by (simp_all add: evolves_def)
  note restored = restore_step [OF pr1(1,2), of saved]
  from kill_kept_trans [OF one(3) restored(3) pr1(3)] show thesis
    using True one(1) restored(1,2) pr1(3) that by (simp add: resume_signal_def Let_def evolves_def only_thread_def)
next
  case False
  have get: "disp_get (dispositions pr) (signum (dequeued_signal ds))
      = Return (dispositions pr ! num_to_idx (signum (dequeued_signal ds)))"
    using inv v by (simp add: disp_get_ok sig_inv_def disp_safe_def)
  obtain pr' where "handle_signal pr i (signum (dequeued_signal ds))
      (dispositions pr ! num_to_idx (signum (dequeued_signal ds))) saved = Return pr'"
    "sig_inv N pr'" "only_thread i pr pr'" "kill_kept pr pr'"
    by (rule handle_signal_step [OF inv i v])
  then show thesis
    using False get that by (simp add: resume_signal_def Let_def sig_inv_evolves only_thread_def)
qed

lemma check_kept:
  assumes inv: "sig_inv N pr" and N: "N < 2 ^ 64" and i: "i < length (sig_threads pr)"
    and res: "has_pending_signal (dispositions pr) (sig_mask (sig_threads pr ! i)) (thread_queues (sig_threads pr ! i))
      (process_queues pr) = (found, tq, pq)"
  shows "sig_inv N (put_queues pr i tq pq)" "kill_kept pr (put_queues pr i tq pq)"
proof -
  let ?t = "sig_threads pr ! i" and ?d = "dispositions pr"
  have t: "thread_ok N ?t" by (rule sig_inv_thread [OF inv i])
  have pre: "sq_ok (thread_queues ?t)" "sq_ok (process_queues pr)" "total (queues (thread_queues ?t)) < 2 ^ 64"
    "total (queues (process_queues pr)) < 2 ^ 64"
    using inv N t by (auto simp: sig_inv_def thread_ok_def)
  note eq = has_pending_signal_eq [OF pre res]
  have "?d ! num_to_idx SIGKILL = Dfl" "disp_ok ?d" using inv by (simp_all add: sig_inv_def disp_safe_def)
  then have "\<not> ignored ?d SIGKILL" by (simp add: ignored_iff default_action_def)
  then have keep: "kill_pending (thread_queues ?t) \<longrightarrow> kill_pending tq" "kill_pending (process_queues pr) \<longrightarrow> kill_pending pq"
    using eq(3,4) kill_stop_valid(1) unfolding only_discards_def kill_pending_def by metis+
  show "kill_kept pr (put_queues pr i tq pq)"
    unfolding put_queues_def using keep i by (intro put_thread_kill) auto
  show "sig_inv N (put_queues pr i tq pq)"
    using inv i t eq(1,2,6,7)
    by (auto simp: sig_inv_def put_queues_def put_thread_def list_all_length nth_list_update thread_ok_def)
qed

lemma mask_step:
  assumes "sig_inv N pr" "i < length (sig_threads pr)"
    and "t = sig_threads pr ! i \<or> (\<exists>m. t = set_sig_mask (sig_threads pr ! i) m)"
  shows "evolves N pr (put_thread pr i t (process_queues pr))" "kill_kept pr (put_thread pr i t (process_queues pr))"
proof -
  have "thread_ok N (sig_threads pr ! i)" by (rule sig_inv_thread [OF assms(1,2)])
  with assms(3) have "thread_ok (Suc N) t" "thread_queues t = thread_queues (sig_threads pr ! i)"
    using set_sig_mask_ok [of "sig_threads pr ! i" N] thread_ok_mono
    by (auto simp: set_sig_mask_def thread_ok_def blocks_minus)
  with assms show "evolves N pr (put_thread pr i t (process_queues pr))" "kill_kept pr (put_thread pr i t (process_queues pr))"
    by (auto simp: sig_inv_def intro!: put_thread_evolves put_thread_kill)
qed

lemma sigprocmask_mask:
  "fst (sys_rt_sigprocmask t how set_ptr old_write sz) = t
   \<or> (\<exists>m. fst (sys_rt_sigprocmask t how set_ptr old_write sz) = set_sig_mask t m)"
  by (auto simp: sys_rt_sigprocmask_def do_rt_sigprocmask_def Let_def split: sum.splits option.splits)

lemma disp_inherit_safe: "disp_safe d \<Longrightarrow> disp_safe (disp_inherit d)"
  using num_to_idx_less [of SIGKILL] num_to_idx_less [of SIGSTOP]
  by (auto simp: disp_safe_def disp_inherit_def disp_ok_def)

fun delivers_to :: "nat \<Rightarrow> 'i sig_op \<Rightarrow> bool" where
  "delivers_to i (Deliver j _ _) = (i = j)"
| "delivers_to i _ = False"

lemma sig_inv_queues:
  assumes "sig_inv N pr" "N < 2 ^ 64" "i < length (sig_threads pr)"
  shows "sq_ok (thread_queues (sig_threads pr ! i))" "sq_ok (process_queues pr)"
    "total (queues (thread_queues (sig_threads pr ! i))) < 2 ^ 64" "total (queues (process_queues pr)) < 2 ^ 64"
  using assms sig_inv_thread [OF assms(1,3)] by (auto simp: sig_inv_def thread_ok_def)

lemma wait_step:
  assumes inv: "sig_inv N pr" and N: "N < 2 ^ 64" and i: "i < length (sig_threads pr)"
  shows "\<exists>pr'. sig_step pr (SigTimedWait i m) = Return pr' \<and> evolves N pr pr' \<and> kill_kept pr pr'"
proof -
  have "disp_ok (dispositions pr)" using inv by (simp add: sig_inv_def disp_safe_def)
  from checking_ignore_kept [OF this sig_inv_queues [OF assms]] obtain r tq pq where
    "dequeue_signal_with_checking_ignore (dispositions pr) (sigtimedwait_mask m) (sig_mask (sig_threads pr ! i))
      (thread_queues (sig_threads pr ! i)) (process_queues pr) = Return (r, tq, pq)"
    "kept (sigtimedwait_mask m) (thread_queues (sig_threads pr ! i)) tq" "kept (sigtimedwait_mask m) (process_queues pr) pq"
    by blast
  with put_queues_kept [OF inv i] show ?thesis by (simp add: Let_def)
qed

lemma signalfd_step:
  assumes inv: "sig_inv N pr" and N: "N < 2 ^ 64" and i: "i < length (sig_threads pr)"
  shows "\<exists>pr'. sig_step pr (SignalfdRead i m ws) = Return pr' \<and> evolves N pr pr' \<and> kill_kept pr pr'"
proof -
  from signalfd_loop_kept [OF sig_inv_queues [OF assms]] obtain r tq pq where
    "signalfd_loop (NOT (signalfd_mask m)) ws (thread_queues (sig_threads pr ! i)) (process_queues pr) = Return (r, tq, pq)"
    "kept (NOT (signalfd_mask m)) (thread_queues (sig_threads pr ! i)) tq" "kept (NOT (signalfd_mask m)) (process_queues pr) pq"
    by blast
  with put_queues_kept [OF inv i, of "NOT (signalfd_mask m)"] show ?thesis by (simp add: signalfd_try_read_def)
qed

lemma sig_step_ok:
  assumes inv: "sig_inv N pr" and N: "N < 2 ^ 64" and op: "sig_op_ok (length (sig_threads pr)) op"
  shows "\<exists>pr'. sig_step pr op = Return pr' \<and> evolves N pr pr'
    \<and> (\<forall>j < length (sig_threads pr). \<not> delivers_to j op \<and> kill_pending (thread_queues (sig_threads pr ! j))
         \<longrightarrow> kill_pending (thread_queues (sig_threads pr' ! j)))"
proof (cases op)
  case (SendThread i s)
  with op have i: "i < length (sig_threads pr)" "sig_valid (signum s)" by (simp_all add: sig_op_ok_def)
  obtain pr' where "thread_enqueue_signal pr i s = Return pr'" "evolves N pr pr'" "kill_kept pr pr'"
    by (rule thread_enqueue_step [OF inv i])
  with SendThread show ?thesis by (simp add: kill_kept_def)
next
  case (SendProcess z s)
  with op have v: "sig_valid (signum s)" by (simp add: sig_op_ok_def)
  obtain pr' where "process_enqueue_signal pr z s = Return pr'" "evolves N pr pr'" "kill_kept pr pr'"
    by (rule process_enqueue_step [OF inv v])
  with SendProcess show ?thesis by (simp add: kill_kept_def)
next
  case (CheckPending i)
  obtain f tq pq where res: "has_pending_signal (dispositions pr) (sig_mask (sig_threads pr ! i))
      (thread_queues (sig_threads pr ! i)) (process_queues pr) = (f, tq, pq)"
    by (rule prod_cases3)
  have "i < length (sig_threads pr)" using CheckPending op by (simp add: sig_op_ok_def)
  from check_kept [OF inv N this res] CheckPending res show ?thesis
    by (simp add: kill_kept_def Let_def sig_inv_evolves put_queues_def put_thread_def)
next
  case (SigTimedWait i m)
  with wait_step [OF inv N, of i m] op show ?thesis by (auto simp: sig_op_ok_def kill_kept_def)
next
  case (SignalfdRead i m ws)
  with signalfd_step [OF inv N, of i m ws] op show ?thesis by (auto simp: sig_op_ok_def kill_kept_def)
next
  case (ProcMask i how sp ow sz)
  with op mask_step [OF inv _ sigprocmask_mask, of i how sp ow sz] show ?thesis by (simp add: kill_kept_def sig_op_ok_def)
next
  case (SetMaskOf i m)
  with op mask_step [OF inv, of i] show ?thesis by (auto simp: kill_kept_def sig_op_ok_def)
next
  case (Sigaction arch sig act ow sz)
  obtain pr' r where "sys_rt_sigaction arch pr sig act ow sz = Return (pr', r)"
    "sig_inv N pr'" "length (sig_threads pr') = length (sig_threads pr)" "kill_kept pr pr'"
    by (rule sigaction_step [OF inv N])
  with Sigaction show ?thesis by (simp add: kill_kept_def sig_inv_evolves)
next
  case (Deliver i traced saved)
  with op have i: "i < length (sig_threads pr)" by (simp add: sig_op_ok_def)
  obtain r pr' where "deliver pr i traced saved = Return (r, pr')" "sig_inv N pr'" "only_thread i pr pr'"
    by (rule deliver_step [OF inv N i])
  with Deliver show ?thesis by (simp add: sig_inv_evolves only_thread_def)
next
  case (Resume i ds z saved)
  with op have i: "i < length (sig_threads pr)" "sig_valid (signum (dequeued_signal ds))" by (simp_all add: sig_op_ok_def)
  obtain pr' where "resume_signal pr i ds z saved = Return pr'" "evolves N pr pr'" "kill_kept pr pr'"
    by (rule resume_step [OF inv i])
  with Resume show ?thesis by (simp add: kill_kept_def)
next
  case Exec
  with inv show ?thesis
    by (simp add: reset_sigdispositions_def sig_inv_evolves sig_inv_dispositions disp_inherit_safe sig_inv_def)
qed

section \<open>Runs\<close>

lemma sigset_of_nonzero [simp]: "sig_valid n \<Longrightarrow> sigset_of n \<noteq> 0"
proof
  assume v: "sig_valid n" and zero: "sigset_of n = 0"
  show False using blocks_bit [OF v, of "sigset_of n"] by (simp add: zero)
qed

lemma sig_inv_new: "sig_inv 0 (sig_proc_new k)"
  using num_to_idx_less [of SIGKILL] num_to_idx_less [of SIGSTOP]
  by (auto simp: sig_inv_def sig_proc_new_def disp_safe_def disp_ok_def dispositions_new_def list_all_iff thread_ok_def
      sq_new_def [THEN arg_cong, of queues])

lemma sig_run_ok:
  assumes "sig_inv N pr" "N + length ops < 2 ^ 64" "list_all (sig_op_ok (length (sig_threads pr))) ops"
  shows "\<exists>pr'. sig_run pr ops = Return pr' \<and> sig_inv (N + length ops) pr'
    \<and> length (sig_threads pr') = length (sig_threads pr)
    \<and> (\<forall>j < length (sig_threads pr). list_all (\<lambda>op. \<not> delivers_to j op) ops \<and> kill_pending (thread_queues (sig_threads pr ! j))
         \<longrightarrow> kill_pending (thread_queues (sig_threads pr' ! j)))"
  using assms
proof (induction ops arbitrary: N pr)
  case (Cons op ops)
  then have "N < 2 ^ 64" "sig_op_ok (length (sig_threads pr)) op" by auto
  from sig_step_ok [OF Cons.prems(1) this] obtain pr1 where
    one: "sig_step pr op = Return pr1" "evolves N pr pr1"
      "\<forall>j < length (sig_threads pr). \<not> delivers_to j op \<and> kill_pending (thread_queues (sig_threads pr ! j))
         \<longrightarrow> kill_pending (thread_queues (sig_threads pr1 ! j))" by blast
  then have pr1: "sig_inv (Suc N) pr1" "length (sig_threads pr1) = length (sig_threads pr)" by (simp_all add: evolves_def)
  from Cons.IH [OF pr1(1)] Cons.prems(2,3) pr1(2) obtain pr2 where "sig_run pr1 ops = Return pr2"
    "sig_inv (Suc N + length ops) pr2" "length (sig_threads pr2) = length (sig_threads pr)"
    "\<forall>j < length (sig_threads pr). list_all (\<lambda>op. \<not> delivers_to j op) ops \<and> kill_pending (thread_queues (sig_threads pr1 ! j))
         \<longrightarrow> kill_pending (thread_queues (sig_threads pr2 ! j))" by auto
  with one show ?case by auto
qed simp

lemma sig_run_append: "sig_run pr (ops @ ops') = rust_bind (sig_run pr ops) (\<lambda>pr. sig_run pr ops')"
proof (induction ops arbitrary: pr)
  case (Cons op ops)
  then show ?case by (cases "sig_step pr op") simp_all
qed simp

lemma sig_run_new:
  assumes "length ops < 2 ^ 64" "list_all (sig_op_ok k) ops"
  obtains pr N where "sig_run (sig_proc_new k) ops = Return pr" "sig_inv N pr" "N < 2 ^ 64" "length (sig_threads pr) = k"
proof -
  have len: "length (sig_threads (sig_proc_new k :: 'a SigProc)) = k" by (simp add: sig_proc_new_def)
  from sig_run_ok [OF sig_inv_new, of ops k] assms len obtain pr where
    "sig_run (sig_proc_new k) ops = Return pr" "sig_inv (length ops) pr" "length (sig_threads pr) = k" by auto
  with assms(1) that show thesis by blast
qed

section \<open>The next delivery\<close>

definition next_delivery ::
  "SigDispositions \<Rightarrow> SigSet \<Rightarrow> (SigNum \<Rightarrow> bool) \<Rightarrow> 'i SigQueues \<Rightarrow> 'i SigQueues \<Rightarrow> ('i DequeuedSignal \<times> SigAction) option" where
  "next_delivery d m ig tq pq =
     (case wanted_nums tq m ig of
        n # _ \<Rightarrow> Some (FromThread (hd (pend (queues tq) n)), d ! num_to_idx n)
      | [] \<Rightarrow> (case wanted_nums pq m ig of
          n # _ \<Rightarrow> Some (FromProcess (hd (pend (queues pq) n)), d ! num_to_idx n)
        | [] \<Rightarrow> None))"

fun from_thread :: "('i DequeuedSignal \<times> SigAction) option \<Rightarrow> SigNum option" where
  "from_thread (Some (FromThread s, _)) = Some (signum s)"
| "from_thread _ = None"

fun from_process :: "('i DequeuedSignal \<times> SigAction) option \<Rightarrow> SigNum option" where
  "from_process (Some (FromProcess s, _)) = Some (signum s)"
| "from_process _ = None"

lemma delivers_next:
  assumes "delivery_spec d m ig tq pq r tq' pq'"
  shows "r = next_delivery d m ig tq pq"
    "leaves ig m (from_thread r) (pend (queues tq)) (pend (queues tq'))"
    "leaves ig m (from_process r) (pend (queues pq)) (pend (queues pq'))"
  using assms
  by (auto simp: delivery_spec_def next_delivery_def split: option.splits prod.splits DequeuedSignal.splits)

lemma next_delivery_discards:
  assumes "only_discards m ig (queues tq) (queues tq')" "only_discards m ig (queues pq) (queues pq')"
  shows "next_delivery d m ig tq' pq' = next_delivery d m ig tq pq"
proof -
  have keep: "pend (queues q') n = pend (queues q) n"
    if "wanted_nums q m ig = n # ns" "only_discards m ig (queues q) (queues q')" for n ns and q q' :: "'a SigQueues"
  proof -
    have "sig_valid n \<and> \<not> ig n" using that(1) unfolding wanted_nums_def by (auto dest!: filter_head simp: wanted_def)
    with that(2) show ?thesis by (auto simp: only_discards_def)
  qed
  show ?thesis
    unfolding next_delivery_def wanted_nums_discards [OF assms(1)] wanted_nums_discards [OF assms(2)]
    using keep [OF _ assms(1)] keep [OF _ assms(2)] by (auto split: list.split)
qed

lemma next_delivery_None:
  "next_delivery d m ig tq pq = None \<longleftrightarrow> wanted_nums tq m ig = [] \<and> wanted_nums pq m ig = []"
  by (auto simp: next_delivery_def split: list.split)

lemma next_delivery_inv:
  assumes "sig_inv N pr" "N < 2 ^ 64" "i < length (sig_threads pr)"
  shows "\<exists>tq pq. dequeue_pending_signal (dispositions pr) (sig_mask (sig_threads pr ! i)) traced
      (thread_queues (sig_threads pr ! i)) (process_queues pr)
    = Return (next_delivery (dispositions pr) (sig_mask (sig_threads pr ! i)) (\<lambda>n. ignored (dispositions pr) n \<and> \<not> traced)
        (thread_queues (sig_threads pr ! i)) (process_queues pr), tq, pq)"
  using dequeue_pending_inv [OF assms, where traced = traced] delivers_next(1) by metis

lemma check_discards:
  assumes inv: "sig_inv N pr" and N: "N < 2 ^ 64" and i: "i < length (sig_threads pr)"
    and chk: "has_pending_signal (dispositions pr) (sig_mask (sig_threads pr ! i)) (thread_queues (sig_threads pr ! i))
      (process_queues pr) = (found, tq, pq)"
  shows "next_delivery (dispositions pr) (sig_mask (sig_threads pr ! i)) (ignored (dispositions pr)) tq pq
      = next_delivery (dispositions pr) (sig_mask (sig_threads pr ! i)) (ignored (dispositions pr))
          (thread_queues (sig_threads pr ! i)) (process_queues pr)"
    "found \<longleftrightarrow> next_delivery (dispositions pr) (sig_mask (sig_threads pr ! i)) (ignored (dispositions pr))
          (thread_queues (sig_threads pr ! i)) (process_queues pr) \<noteq> None"
    "\<not> found \<Longrightarrow> sig_valid n \<Longrightarrow> \<not> blocks (sig_mask (sig_threads pr ! i)) n
       \<Longrightarrow> pend (queues tq) n = [] \<and> pend (queues pq) n = []"
proof -
  let ?t = "sig_threads pr ! i"
  have "thread_ok N ?t" by (rule sig_inv_thread [OF inv i])
  then have pre: "sq_ok (thread_queues ?t)" "sq_ok (process_queues pr)" "total (queues (thread_queues ?t)) < 2 ^ 64"
    "total (queues (process_queues pr)) < 2 ^ 64"
    using inv N by (auto simp: sig_inv_def thread_ok_def)
  note eq = has_pending_signal_eq [OF pre chk]
  from next_delivery_discards [OF eq(3,4)]
  show "next_delivery (dispositions pr) (sig_mask ?t) (ignored (dispositions pr)) tq pq
      = next_delivery (dispositions pr) (sig_mask ?t) (ignored (dispositions pr)) (thread_queues ?t) (process_queues pr)" .
  show "found \<longleftrightarrow> next_delivery (dispositions pr) (sig_mask ?t) (ignored (dispositions pr))
          (thread_queues ?t) (process_queues pr) \<noteq> None"
    using eq(5) by (simp add: next_delivery_None)
  show "\<not> found \<Longrightarrow> sig_valid n \<Longrightarrow> \<not> blocks (sig_mask ?t) n \<Longrightarrow> pend (queues tq) n = [] \<and> pend (queues pq) n = []"
    by (rule eq(8))
qed

text \<open>SIGKILL leads the order of priorities.\<close>

lemma kill_first:
  assumes "kill_pending q" "\<not> blocks m SIGKILL" "\<not> ig SIGKILL"
  shows "\<exists>ns. wanted_nums q m ig = SIGKILL # ns"
  using assms by (simp add: wanted_nums_def priority_def ORDERED_STD_SIGS_def wanted_def kill_pending_def)

lemma kill_not_ignored: "disp_safe d \<Longrightarrow> \<not> ignored d SIGKILL"
  by (simp add: disp_safe_def ignored_iff default_action_def)

lemma kill_delivered:
  assumes inv: "sig_inv N pr" and N: "N < 2 ^ 64" and i: "i < length (sig_threads pr)"
    and kill: "kill_pending (thread_queues (sig_threads pr ! i))"
  shows "fst (has_pending_signal (dispositions pr) (sig_mask (sig_threads pr ! i)) (thread_queues (sig_threads pr ! i))
      (process_queues pr))"
    "\<exists>s pr'. deliver pr i traced saved = Return (Some (FromThread s, Dfl), pr') \<and> signum s = SIGKILL"
proof -
  let ?t = "sig_threads pr ! i" and ?d = "dispositions pr"
  have t: "\<not> blocks (sig_mask ?t) SIGKILL" "sq_ok (thread_queues ?t)"
    using sig_inv_thread [OF inv i] by (simp_all add: thread_ok_def)
  have d: "disp_safe ?d" "?d ! num_to_idx SIGKILL = Dfl" using inv by (simp_all add: sig_inv_def disp_safe_def)
  have num: "signum (hd (pend (queues (thread_queues ?t)) SIGKILL)) = SIGKILL"
    using kill t(2) signum_hd [OF _ kill_stop_valid(1)]
    by (cases "pend (queues (thread_queues ?t)) SIGKILL") (auto simp: kill_pending_def sq_ok_def)
  have "next_delivery ?d (sig_mask ?t) ig (thread_queues ?t) (process_queues pr)
      = Some (FromThread (hd (pend (queues (thread_queues ?t)) SIGKILL)), Dfl)" if "\<not> ig SIGKILL" for ig
    using kill_first [of _ _ ig, OF kill t(1) that] d(2) by (auto simp: next_delivery_def)
  note nxt = this
  obtain f tq pq where chk: "has_pending_signal ?d (sig_mask ?t) (thread_queues ?t) (process_queues pr) = (f, tq, pq)"
    by (rule prod_cases3)
  show "fst (has_pending_signal ?d (sig_mask ?t) (thread_queues ?t) (process_queues pr))"
    using check_discards(2) [OF inv N i chk] nxt kill_not_ignored [OF d(1)] chk by simp
  obtain tq' pq' where "dequeue_pending_signal ?d (sig_mask ?t) traced (thread_queues ?t) (process_queues pr)
      = Return (Some (FromThread (hd (pend (queues (thread_queues ?t)) SIGKILL)), Dfl), tq', pq')"
    using next_delivery_inv [OF inv N i, of traced] nxt [of "\<lambda>n. ignored ?d n \<and> \<not> traced"] kill_not_ignored [OF d(1)]
    by auto
  then show "\<exists>s pr'. deliver pr i traced saved = Return (Some (FromThread s, Dfl), pr') \<and> signum s = SIGKILL"
    using num by (simp add: deliver_def dequeue_for_def handle_signal_def Let_def)
qed

section \<open>Delivery over runs\<close>

text \<open>
  C6. Whatever a process with \<^verbatim>\<open>k\<close> threads does to its signals in fewer than \<^verbatim>\<open>2 ^ 64\<close> operations - sending,
  checking, waiting, reading signal files, changing masks and actions, delivering, \<^verbatim>\<open>execve\<close> - nothing
  panics, and the next delivery to thread \<^verbatim>\<open>i\<close> is exact. It takes the oldest instance of the first number, in the
  order of priorities, that is pending, not blocked, and not ignored unless the thread is traced; the
  thread's own signals come before those of the process. It comes with the action of that number.
  From the queues it takes that signal, and besides only unblocked ignored signals.
\<close>

theorem delivery_exact:
  assumes "length ops < 2 ^ 64" "list_all (sig_op_ok k) ops" "i < k"
  shows "\<exists>pr r tq pq. sig_run (sig_proc_new k) ops = Return pr
    \<and> (let t = sig_threads pr ! i; d = dispositions pr; ig = (\<lambda>n. ignored d n \<and> \<not> traced)
       in dequeue_pending_signal d (sig_mask t) traced (thread_queues t) (process_queues pr) = Return (r, tq, pq)
        \<and> r = next_delivery d (sig_mask t) ig (thread_queues t) (process_queues pr)
        \<and> leaves ig (sig_mask t) (from_thread r) (pend (queues (thread_queues t))) (pend (queues tq))
        \<and> leaves ig (sig_mask t) (from_process r) (pend (queues (process_queues pr))) (pend (queues pq)))"
proof -
  obtain pr N where pr: "sig_run (sig_proc_new k) ops = Return pr" "sig_inv N pr" "N < 2 ^ 64" "length (sig_threads pr) = k"
    using sig_run_new [OF assms(1,2)] .
  then have i: "i < length (sig_threads pr)" using assms(3) by simp
  from dequeue_pending_inv [OF pr(2,3) i, where traced = traced] show ?thesis
    using pr(1) delivers_next by (metis (no_types, lifting))
qed

theorem delivery_exact_witness:
  "\<exists>pr r tq pq. sig_run (sig_proc_new 1) [SendThread 0 (Signal 10 ()), SendThread 0 (Signal 9 ()), SetMaskOf 0 (NOT 0)]
      = Return pr
    \<and> (let t = sig_threads pr ! 0; d = dispositions pr; ig = (\<lambda>n. ignored d n \<and> \<not> False)
       in dequeue_pending_signal d (sig_mask t) False (thread_queues t) (process_queues pr) = Return (r, tq, pq)
        \<and> r = next_delivery d (sig_mask t) ig (thread_queues t) (process_queues pr)
        \<and> leaves ig (sig_mask t) (from_thread r) (pend (queues (thread_queues t))) (pend (queues tq))
        \<and> leaves ig (sig_mask t) (from_process r) (pend (queues (process_queues pr))) (pend (queues pq)))"
  by (rule delivery_exact) (simp_all add: sig_op_ok_def sig_valid_def sig_consts)

text \<open>
  C23. After every such run, checking thread \<^verbatim>\<open>i\<close> for pending signals answers yes exactly when delivery to
  the untraced thread would take a signal, and although the check may discard ignored signals, the
  delivery after the check returns what it would have returned without it.
\<close>

theorem pending_check_agrees:
  assumes "length ops < 2 ^ 64" "list_all (sig_op_ok k) ops" "i < k"
  shows "\<exists>pr found tq pq r. sig_run (sig_proc_new k) ops = Return pr
    \<and> (let t = sig_threads pr ! i; d = dispositions pr
       in has_pending_signal d (sig_mask t) (thread_queues t) (process_queues pr) = (found, tq, pq)
        \<and> (found \<longleftrightarrow> r \<noteq> None)
        \<and> (\<exists>tq' pq'. dequeue_pending_signal d (sig_mask t) False (thread_queues t) (process_queues pr) = Return (r, tq', pq'))
        \<and> (\<exists>tq' pq'. dequeue_pending_signal d (sig_mask t) False tq pq = Return (r, tq', pq')))"
proof -
  obtain pr N where pr: "sig_run (sig_proc_new k) ops = Return pr" "sig_inv N pr" "N < 2 ^ 64" "length (sig_threads pr) = k"
    using sig_run_new [OF assms(1,2)] .
  then have i: "i < length (sig_threads pr)" using assms(3) by simp
  let ?t = "sig_threads pr ! i" and ?d = "dispositions pr"
  obtain found tq pq where chk: "has_pending_signal ?d (sig_mask ?t) (thread_queues ?t) (process_queues pr) = (found, tq, pq)"
    by (rule prod_cases3)
  note same = check_discards [OF pr(2,3) i chk]
  obtain r tq1 pq1 where one: "dequeue_pending_signal ?d (sig_mask ?t) False (thread_queues ?t) (process_queues pr)
      = Return (r, tq1, pq1)" "r = next_delivery ?d (sig_mask ?t) (ignored ?d) (thread_queues ?t) (process_queues pr)"
    using next_delivery_inv [OF pr(2,3) i, of False] by auto
  obtain r' tq2 pq2 where two: "dequeue_pending_signal ?d (sig_mask ?t) False tq pq = Return (r', tq2, pq2)"
    "r' = next_delivery ?d (sig_mask ?t) (ignored ?d) tq pq"
    using next_delivery_inv [OF check_kept(1) [OF pr(2,3) i chk] pr(3), of i False] i by (auto simp: put_queues_def put_thread_def)
  show ?thesis using pr(1) chk one two same by (auto simp: Let_def)
qed

theorem pending_check_agrees_witness:
  "\<exists>pr found tq pq r. sig_run (sig_proc_new 2) [SendProcess False (Signal 17 ()), SendThread 1 (Signal 40 ())] = Return pr
    \<and> (let t = sig_threads pr ! 1; d = dispositions pr
       in has_pending_signal d (sig_mask t) (thread_queues t) (process_queues pr) = (found, tq, pq)
        \<and> (found \<longleftrightarrow> r \<noteq> None)
        \<and> (\<exists>tq' pq'. dequeue_pending_signal d (sig_mask t) False (thread_queues t) (process_queues pr) = Return (r, tq', pq'))
        \<and> (\<exists>tq' pq'. dequeue_pending_signal d (sig_mask t) False tq pq = Return (r, tq', pq')))"
  by (rule pending_check_agrees) (simp_all add: sig_op_ok_def sig_valid_def sig_consts)



text \<open>
  C32. The pending check does not ask whether the thread is traced. When the only deliverable signals of
  a traced thread are ignored ones, delivery would hand the next of them to the tracer, but the check
  answers no and discards them, and the delivery after it finds nothing.
\<close>

theorem traced_signal_discarded:
  assumes "length ops < 2 ^ 64" "list_all (sig_op_ok k) ops" "i < k" "sig_run (sig_proc_new k) ops = Return pr"
    and "next_delivery (dispositions pr) (sig_mask (sig_threads pr ! i)) (ignored (dispositions pr))
          (thread_queues (sig_threads pr ! i)) (process_queues pr) = None"
    and "next_delivery (dispositions pr) (sig_mask (sig_threads pr ! i)) (\<lambda>_. False)
          (thread_queues (sig_threads pr ! i)) (process_queues pr) = Some x"
  shows "(\<exists>pr'. deliver pr i True None = Return (Some x, pr'))
    \<and> (\<exists>pr' pr''. sig_step pr (CheckPending i) = Return pr' \<and> deliver pr' i True None = Return (None, pr''))"
proof -
  obtain N where inv: "sig_inv N pr" and N: "N < 2 ^ 64" and i: "i < length (sig_threads pr)"
    using sig_run_new [OF assms(1,2)] assms(3,4) by (metis rust.inject)
  let ?t = "sig_threads pr ! i"
  obtain f tq pq where chk: "has_pending_signal (dispositions pr) (sig_mask ?t) (thread_queues ?t) (process_queues pr) = (f, tq, pq)"
    by (rule prod_cases3)
  let ?pr = "put_queues pr i tq pq"
  note check = check_discards [OF inv N i chk] and inv' = check_kept(1) [OF inv N i chk]
  have pr': "sig_threads ?pr ! i = ?t\<lparr>thread_queues := tq\<rparr>" "process_queues ?pr = pq" "dispositions ?pr = dispositions pr"
    "i < length (sig_threads ?pr)"
    using i by (simp_all add: put_queues_def put_thread_def)
  have "\<not> wanted (queues q) (sig_mask ?t) (\<lambda>_. False) n" if "q = tq \<or> q = pq" for q n
    using that check(2,3) assms(5) by (auto simp: wanted_def)
  then have "next_delivery (dispositions pr) (sig_mask ?t) (\<lambda>_. False) tq pq = None"
    by (simp add: next_delivery_None wanted_nums_Nil)
  then have none: "\<exists>pr''. deliver ?pr i True None = Return (None, pr'')"
    using next_delivery_inv [OF inv' N pr'(4), of True] by (auto simp: pr' deliver_def dequeue_for_def Let_def)
  obtain r pr' where del: "deliver pr i True None = Return (r, pr')"
    by (rule deliver_step [OF inv N i, where traced = True and saved = None])
  obtain tq1 pq1 where deq: "dequeue_pending_signal (dispositions pr) (sig_mask ?t) True (thread_queues ?t)
      (process_queues pr) = Return (Some x, tq1, pq1)"
    using next_delivery_inv [OF inv N i, of True] assms(6) by auto
  have "r = Some x"
    using del deq by (cases x) (auto simp: deliver_def dequeue_for_def Let_def split: if_splits)
  with none show ?thesis using chk del by (simp add: Let_def)
qed

theorem traced_signal_discarded_witness:
  "let pr = \<lparr>dispositions = dispositions_new, process_queues = sq_new,
        sig_threads = [\<lparr>sig_mask = 0, thread_queues =
          \<lparr>sq_count = 1, queues = \<lparr>std_queues = (replicate 31 None)[16 := Some (Signal 17 ())], rt_queues = replicate 33 []\<rparr>\<rparr>\<rparr>]\<rparr>
   in sig_run (sig_proc_new 1) [SendThread 0 (Signal 17 ())] = Return pr
    \<and> (\<exists>pr'. deliver pr 0 True None = Return (Some (FromThread (Signal 17 ()), Dfl), pr'))
    \<and> (\<exists>pr' pr''. sig_step pr (CheckPending 0) = Return pr' \<and> deliver pr' 0 True None = Return (None, pr''))"
proof -
  let ?pr = "\<lparr>dispositions = dispositions_new, process_queues = sq_new,
        sig_threads = [\<lparr>sig_mask = 0, thread_queues =
          \<lparr>sq_count = 1, queues = \<lparr>std_queues = (replicate 31 None)[16 := Some (Signal 17 ())], rt_queues = replicate 33 []\<rparr>\<rparr>\<rparr>]\<rparr>"
  have run: "sig_run (sig_proc_new 1) [SendThread 0 (Signal 17 ())] = Return ?pr" by code_simp
  have "next_delivery (dispositions ?pr) (sig_mask (sig_threads ?pr ! 0)) (ignored (dispositions ?pr))
      (thread_queues (sig_threads ?pr ! 0)) (process_queues ?pr) = None"
    "next_delivery (dispositions ?pr) (sig_mask (sig_threads ?pr ! 0)) (\<lambda>_. False)
      (thread_queues (sig_threads ?pr ! 0)) (process_queues ?pr) = Some (FromThread (Signal 17 ()), Dfl)"
    by code_simp+
  from traced_signal_discarded [of "[SendThread 0 (Signal 17 ())]" 1 0, OF _ _ _ run this] run
  show ?thesis unfolding Let_def by (simp add: sig_op_ok_def sig_valid_def sig_consts)
qed

text \<open>
  C27. After every such run, when \<^verbatim>\<open>rt_sigaction\<close> installs an action that ignores signal \<^verbatim>\<open>n\<close> - \<^verbatim>\<open>SIG_IGN\<close>, or
  \<^verbatim>\<open>SIG_DFL\<close> where the default is to ignore - the call takes effect, the pending instances of \<^verbatim>\<open>n\<close> are
  gone from the process and from all its threads, blocked or not, and the pending instances of every
  other signal are unchanged.
\<close>

theorem ignoring_discards_pending:
  assumes "length ops < 2 ^ 64" "list_all (sig_op_ok k) ops" "0 < k"
    and "sig_valid n" "n \<noteq> SIGKILL" "n \<noteq> SIGSTOP" "action_will_ignore (sig_action_from c) n"
  shows "\<exists>pr pr'. sig_run (sig_proc_new k) ops = Return pr
    \<and> sys_rt_sigaction arch pr n (Some (Inr c)) None 8 = Return (pr', Inr ())
    \<and> dispositions pr' = (dispositions pr)[num_to_idx n := sig_action_from c]
    \<and> (\<forall>m. sig_valid m \<longrightarrow>
         pend (queues (process_queues pr')) m = (if m = n then [] else pend (queues (process_queues pr)) m)
       \<and> (\<forall>i < k. pend (queues (thread_queues (sig_threads pr' ! i))) m
            = (if m = n then [] else pend (queues (thread_queues (sig_threads pr ! i))) m)))"
proof -
  obtain pr :: "'a SigProc" and N where pr: "sig_run (sig_proc_new k) ops = Return pr" "sig_inv N pr" "N < 2 ^ 64"
    "length (sig_threads pr) = k"
    using sig_run_new [OF assms(1,2)] .
  obtain pr1 where one: "discard_signals_if_ignored pr n = Return pr1"
    "sig_inv N pr1" "length (sig_threads pr1) = length (sig_threads pr)" "dispositions pr1 = dispositions pr"
    "\<forall>t \<in> set (sig_threads pr1). pend (queues (thread_queues t)) n = []"
    "sig_threads pr \<noteq> [] \<longrightarrow> pend (queues (process_queues pr1)) n = []"
    "\<forall>k. sig_valid k \<and> k \<noteq> n \<longrightarrow> pend (queues (process_queues pr1)) k = pend (queues (process_queues pr)) k
       \<and> (\<forall>i < length (sig_threads pr). pend (queues (thread_queues (sig_threads pr1 ! i))) k
            = pend (queues (thread_queues (sig_threads pr ! i))) k)"
    by (rule discard_signals_step [OF pr(2,3) assms(4)])
  have safe: "disp_safe (dispositions pr)" using pr(2) by (simp add: sig_inv_def)
  have "check_sigaction arch (sig_action_from c) = Inr ()"
    using assms(7) by (cases "sig_action_from c") simp_all
  then have "sys_rt_sigaction arch pr n (Some (Inr c)) None 8
      = Return (pr1\<lparr>dispositions := (dispositions pr)[num_to_idx n := sig_action_from c]\<rparr>, Inr ())"
    using assms(4-7) one(1,4) at_index_safe [OF safe assms(4)]
    by (simp add: sys_rt_sigaction_def signum_try_from_def disp_set_def)
  moreover have "sig_threads pr \<noteq> []" using assms(3) pr(4) by auto
  ultimately show ?thesis using pr(1,4) one(3,5-7) by auto
qed

theorem ignoring_discards_pending_witness:
  "\<exists>pr pr'. sig_run (sig_proc_new 2) [SendThread 1 (Signal 10 ()), SetMaskOf 1 (NOT 0), SendProcess False (Signal 10 ()),
        SendThread 0 (Signal 9 ())] = Return pr
    \<and> sys_rt_sigaction X86_64 pr 10 (Some (Inr \<lparr>handler_ptr = 1, sa_flags = 0, restorer_ptr = 0, sa_mask = 0\<rparr>)) None 8
        = Return (pr', Inr ())
    \<and> dispositions pr' = (dispositions pr)[num_to_idx 10 := sig_action_from
        \<lparr>handler_ptr = 1, sa_flags = 0, restorer_ptr = 0, sa_mask = 0\<rparr>]
    \<and> (\<forall>m. sig_valid m \<longrightarrow>
         pend (queues (process_queues pr')) m = (if m = 10 then [] else pend (queues (process_queues pr)) m)
       \<and> (\<forall>i < 2. pend (queues (thread_queues (sig_threads pr' ! i))) m
            = (if m = 10 then [] else pend (queues (thread_queues (sig_threads pr ! i))) m)))"
  by (rule ignoring_discards_pending) (simp_all add: sig_op_ok_def sig_valid_def sig_consts sig_action_from_def)

end
