(* ===== verification/Spec2Isabelle.thy ===== *)
theory Spec2Isabelle
  imports Wire_Link Qemu_Firmware Ring_Buffer_Spsc Line_Discipline Id_Bitmap Ipc_Namespace Range_Lock_Spec
    Device_Id Range_Alloc Frame_Cache Cred_Syscalls Signal_Process
begin

text \<open>
  \<^bold>\<open>The program.\<close> KEI is an operating-system kernel in Rust for industrial edge devices
  (\<^verbatim>\<open>src/kernel\<close>, on the framework \<^verbatim>\<open>src/packages/ostd\<close>) together with a \<^verbatim>\<open>no_std\<close> library for the sensor
  nodes attached to it (\<^verbatim>\<open>src/packages/kei\<close>) and a firmware that uses the library
  (\<^verbatim>\<open>src/packages/qemu-mps2\<close>). A node and the gateway exchange frames over a serial line; the
  gateway runs on the kernel, whose processes use terminals, locks, semaphores, credentials and
  signals, and whose memory comes from the frame allocator. This development models the parts
  below as functions and step relations and proves what makes each of them correct.

  \<^bold>\<open>Conventions.\<close> A \<^verbatim>\<open>struct\<close> is a record and an \<^verbatim>\<open>enum\<close> a datatype. A \<^verbatim>\<open>Result<T, E>\<close> is a value of
  \<open>E + T\<close>; an operation that takes \<^verbatim>\<open>&mut self\<close> returns the new state beside its result, also when
  it fails. Panics (\<^verbatim>\<open>unwrap\<close>, \<^verbatim>\<open>expect\<close>, assertions, an index out of range) are the value \<open>Panic\<close> of
  the type \<open>rust\<close>. Integers are words of the source's width where they can wrap; elsewhere they are
  numbers, and the text of the theory says why they stay in range. A loop whose end is proved is a
  terminating function; a loop that the outside world can keep running (a silent transport, a
  status bit that never changes, other threads that always win) is a partial function into
  \<open>option\<close> with \<open>None\<close> for a run that never returns, and that it returns is then a theorem. No
  definition takes fuel. Code from outside the repository is a parameter: the serialiser
  postcard, the bit vector of the bitvec crate, device registers, the contents of user memory.
  What is relied on is a hypothesis or a locale, and each has an instance.

  \<^bold>\<open>The theories.\<close>
  \<^item> \<^verbatim>\<open>Kei_Prelude\<close>: machine integers, little-endian conversions, \<open>rust\<close>, bit flags, generic lemmas.

  \<^item> The wire protocol. \<^verbatim>\<open>Wire_Frame\<close> (\<^verbatim>\<open>kei/src/wire/frame.rs\<close>, \<^verbatim>\<open>mod.rs\<close>): CRC, encoders, one-shot
    decoder. \<^verbatim>\<open>Wire_Decoder\<close> (\<^verbatim>\<open>decode.rs\<close>): the byte-wise state machine. \<^verbatim>\<open>Sensor_Manifest\<close>,
    \<^verbatim>\<open>Wire_Messages\<close> (\<^verbatim>\<open>request.rs\<close>, \<^verbatim>\<open>response.rs\<close>, \<^verbatim>\<open>hal\<close>): the messages. \<^verbatim>\<open>Receive_Loop\<close>: the contract of the
    two receive loops, a locale that \<^verbatim>\<open>Wire_Node\<close> (\<^verbatim>\<open>node.rs\<close>) and \<^verbatim>\<open>Wire_Gateway\<close> (\<^verbatim>\<open>gateway.rs\<close>) interpret.
    \<^verbatim>\<open>Wire_Link\<close> (\<^verbatim>\<open>examples/host_demo.rs\<close>): both sides on one link. Shown: the one-shot decoder accepts
    exactly the encodings; damage to two adjacent bytes is detected; the stream decoder emits every
    frame it should and only frames that were in the stream, and resynchronises within a bound;
    the exchanges between gateway and node end with the right message.

  \<^item> Measured values. \<^verbatim>\<open>Rust_Float\<close>: executable IEEE 754 arithmetic. \<^verbatim>\<open>Scale_Transform\<close>
    (\<^verbatim>\<open>manifest/scale.rs\<close>): the conversion of raw values; the binary search finds the right interval.

  \<^item> \<^verbatim>\<open>Qemu_Firmware\<close> (\<^verbatim>\<open>qemu-mps2/src\<close>): UART driver, transport, main loop. Shown: the check for input
    consumes the first byte of a request, so the request is lost.

  \<^item> Terminals. \<^verbatim>\<open>Ring_Buffer\<close>, \<^verbatim>\<open>Ring_Buffer_Spsc\<close> (\<^verbatim>\<open>kernel/libs/ring-buffer\<close>): the buffer refines a
    bounded queue across the wrap-around of its counters, and under every interleaving of one producer
    and one consumer. \<^verbatim>\<open>Termios\<close>, \<^verbatim>\<open>Line_Discipline\<close> (\<^verbatim>\<open>kernel/src/device/tty\<close>): line editing refines two
    lists; pushing and reading never panic; one change of the settings does.

  \<^item> Identifiers and IPC. \<^verbatim>\<open>Id_Alloc\<close> (\<^verbatim>\<open>ostd/libs/id-alloc\<close>), over any bit vector of its locale;
    \<^verbatim>\<open>Id_Bitmap\<close> (\<^verbatim>\<open>kernel/src/fs/utils/id_bitmap.rs\<close>) refines it on bytes. \<^verbatim>\<open>Sysv_Sem\<close>,
    \<^verbatim>\<open>Ipc_Namespace\<close> (\<^verbatim>\<open>kernel/src/ipc\<close>): operations on semaphore sets are atomic, no waiter is left
    that could proceed, the table keeps identifiers and keys consistent, and the look-up or creation
    of a set returns once the other threads let it.

  \<^item> \<^verbatim>\<open>Range_Lock\<close>, \<^verbatim>\<open>Range_Lock_Spec\<close> (\<^verbatim>\<open>kernel/src/fs/vfs/range_lock\<close>): the list of locks represents which
    owner holds which byte how; locking and unlocking change exactly that, write locks are exclusive,
    and waiters are woken.

  \<^item> \<^verbatim>\<open>Device_Id\<close> (\<^verbatim>\<open>kernel/libs/device-id\<close>): packing of device numbers and where the 64-bit form loses bits.

  \<^item> Memory. \<^verbatim>\<open>Range_Alloc\<close> (\<^verbatim>\<open>ostd/src/util/range_alloc.rs\<close>): first fit on a canonical free list, exact
    and reversible. \<^verbatim>\<open>Buddy_Chunk\<close>, \<^verbatim>\<open>Buddy_Set\<close>, \<^verbatim>\<open>Frame_Pools\<close>, \<^verbatim>\<open>Frame_Cache\<close>
    (\<^verbatim>\<open>osdk/deps/frame-allocator\<close>): from chunks to the allocator that the kernel installs; frames are
    never shared, balancing ends, the counters are right, and where an operation panics or loses
    the alignment that was asked for.

  \<^item> Credentials. \<^verbatim>\<open>Capabilities\<close>, \<^verbatim>\<open>Credentials\<close> (\<^verbatim>\<open>kernel/src/process/credentials\<close>), \<^verbatim>\<open>Lsm\<close>
    (\<^verbatim>\<open>kernel/src/security/lsm\<close>), \<^verbatim>\<open>Cred_Syscalls\<close> (\<^verbatim>\<open>kernel/src/syscall\<close>, \<^verbatim>\<open>process/execve.rs\<close>): what a thread
    without privilege can reach by any sequence of calls, that giving up root with \<^verbatim>\<open>setuid\<close> is final,
    that with \<^verbatim>\<open>setresuid\<close> it is not, what \<^verbatim>\<open>execve\<close> does to the capabilities, and who may access another
    process.

  \<^item> Signals. \<^verbatim>\<open>Signal_Queues\<close>, \<^verbatim>\<open>Signal_Delivery\<close>, \<^verbatim>\<open>Signal_Process\<close> (\<^verbatim>\<open>kernel/src/process/signal\<close> and the
    signal calls of \<^verbatim>\<open>kernel/src/syscall\<close>): the queues refine one sequence of pending signals per
    number; delivery takes exactly the signal of highest priority that is neither blocked nor
    ignored; the pending check agrees with delivery for a thread that is not traced, and discards
    a signal of a traced one; SIGKILL cannot be blocked, caught, waited for or read away.

  \<^bold>\<open>Concurrency.\<close> An operation that runs under one lock or with interrupts disabled is one step. Where
  the source releases a lock in between or uses none, the steps are interleaved: producer and
  consumer of the ring buffer at every access, the two critical sections of the semaphore-set
  look-up, the allocator calls of different CPUs, the threads of a process that share signals.
  Weak memory is not modelled; the sources use release and acquire where the order matters.

  \<^bold>\<open>Bounds.\<close> The bounds in the theorems are the source's: counters of 64 bits are related to the number
  of operations, and fewer than \<open>2 ^ 64\<close> signals or bytes pass in any run of a machine. Frame
  addresses stay below the largest order of the allocator, semaphore values below 32768.

  \<^bold>\<open>Not modelled.\<close>
  \<^item> The asynchronous and addressed transport traits of the library: interfaces for executors from
    outside the repository, which nothing in it uses. The configuration structs of the manifest
    and the codec containers: data without operations, serialised by generated code.

  \<^item> Parts whose behaviour is that of devices, of crates from outside the repository or of the hardware:
    networking above \<^verbatim>\<open>smoltcp\<close>, the block, virtio, nvme, pci, input and display components, the ciphers
    of the encrypted disk \<^verbatim>\<open>mlsdisk\<close>, page tables, context switches, interrupts and the
    architecture-specific code of \<^verbatim>\<open>ostd\<close> and \<^verbatim>\<open>kernel/src/arch\<close>.

  \<^item> Parts with logic of their own that this development does not reach, though nothing in them
    prevents a model: the file systems (ext2, exfat, overlay, ramfs, procfs, sysfs, cgroupfs), pipes,
    the page cache and the virtual file system above the range locks, virtual memory areas, the
    scheduler classes, futexes, timers, processes and their relations beyond what credentials and
    signals need, the libraries \<^verbatim>\<open>xarray\<close>, \<^verbatim>\<open>jhash\<close>, \<^verbatim>\<open>cpio-decoder\<close> and \<^verbatim>\<open>keyable-arc\<close>, the journal and trees of
    \<^verbatim>\<open>mlsdisk\<close>, and the remaining system calls.

  \<^item> Of the modelled parts: the signal frame on the user stack, the restart of system calls, the
    stop and the end of a process by a signal, permissions and the user-space layout of semaphore
    sets, the printed output and the benchmark of the firmware.

  \<^item> Build tools (\<^verbatim>\<open>osdk\<close>), scripts, the web interface, board support and the patched crates.
\<close>

end
